(* ===== verification/Scorpio_Prelude.thy ===== *)
theory Scorpio_Prelude
  imports Main "HOL-Library.Word" "HOL-Library.List_Lexorder" "HOL-Library.Char_ord"
    "HOL-Library.Code_Target_Nat"
begin

text \<open>
  Shared vocabulary of the development: the fallible-computation type of the
  Rust code, the error value of \<^verbatim>\<open>snapshot/types.rs\<close>, machine arithmetic that
  reports overflow, and the string and list functions of the Rust standard
  library that several components use.

  A Rust \<^verbatim>\<open>&str\<close> is a \<^typ>\<open>string\<close> that lists its UTF-8 bytes, one
  \<^typ>\<open>char\<close> per byte, so \<^verbatim>\<open>len()\<close> is \<^term>\<open>length\<close> and the comparison of
  \<^verbatim>\<open>as_bytes()\<close> is the lexicographic order of the list.  Raw data is a list of
  8-bit words.  \<^verbatim>\<open>u64\<close> and \<^verbatim>\<open>usize\<close> values are natural numbers (\<^verbatim>\<open>usize\<close> has
  64 bits on every supported target); each operation that can leave the range is
  written with the checked operation that the code uses.
\<close>

named_theorems result_simps \<open>unfolding of fallible computations\<close>
named_theorems error_code_simps \<open>codes of the error constructors\<close>

section \<open>Types\<close>

type_synonym byte = "8 word"
type_synonym bytes = "byte list"

datatype snapshot_error_code =
    ScopeInvalid | InvalidRequest | LimitExceeded | Unauthenticated | ScopeForbidden
  | ViewNotFound | SnapshotNotReady | MetadataNotReady | SnapshotGone | PathNotFound
  | NotDirectory | UnsupportedEntry | LeaseUnknown | LeaseExpired | CursorInvalid
  | CursorStale | ProofBudgetExceeded | DigestMismatch | IntegrityError
  | ObjectUnavailable | RangeNotSupported | SymlinkTraversal | DurableViewConflict
  | TemporaryUnavailable | Internal

record snapshot_error =
  code :: snapshot_error_code
  message :: string
  http_status :: nat

type_synonym 'a result = "snapshot_error + 'a"

definition SnapshotError_new :: "snapshot_error_code \<Rightarrow> string \<Rightarrow> snapshot_error" where
  "SnapshotError_new c m = \<lparr>code = c, message = m, http_status = 0\<rparr>"

definition from_server :: "string \<Rightarrow> snapshot_error_code" where
  "from_server c =
    (if c = ''SCOPE_INVALID'' then ScopeInvalid
     else if c = ''INVALID_REQUEST'' then InvalidRequest
     else if c = ''LIMIT_EXCEEDED'' then LimitExceeded
     else if c = ''UNAUTHENTICATED'' then Unauthenticated
     else if c = ''SCOPE_FORBIDDEN'' then ScopeForbidden
     else if c = ''VIEW_NOT_FOUND'' then ViewNotFound
     else if c = ''SNAPSHOT_NOT_READY'' then SnapshotNotReady
     else if c = ''METADATA_NOT_READY'' then MetadataNotReady
     else if c = ''SNAPSHOT_GONE'' then SnapshotGone
     else if c = ''PATH_NOT_FOUND'' then PathNotFound
     else if c = ''NOT_DIRECTORY'' then NotDirectory
     else if c = ''UNSUPPORTED_ENTRY'' then UnsupportedEntry
     else if c = ''LEASE_UNKNOWN'' then LeaseUnknown
     else if c = ''LEASE_EXPIRED'' then LeaseExpired
     else if c = ''CURSOR_INVALID'' then CursorInvalid
     else if c = ''CURSOR_STALE'' then CursorStale
     else if c = ''PROOF_BUDGET_EXCEEDED'' then ProofBudgetExceeded
     else if c = ''EXPECTED_DIGEST_MISMATCH'' then DigestMismatch
     else if c = ''INTEGRITY_ERROR'' then IntegrityError
     else if c = ''OBJECT_UNAVAILABLE'' then ObjectUnavailable
     else if c = ''OBJECT_DIGEST_MISMATCH'' then DigestMismatch
     else if c = ''RANGE_NOT_SUPPORTED'' then RangeNotSupported
     else if c = ''SYMLINK_TRAVERSAL'' then SymlinkTraversal
     else if c = ''TEMPORARY_UNAVAILABLE'' then TemporaryUnavailable
     else Internal)"

section \<open>Fallible computations\<close>

text \<open>The question mark operator, and the conversions from \<^verbatim>\<open>Option\<close> and between error types.\<close>

definition rbind :: "'e + 'a \<Rightarrow> ('a \<Rightarrow> 'e + 'b) \<Rightarrow> 'e + 'b" where
  "rbind r f = (case r of Inl e \<Rightarrow> Inl e | Inr a \<Rightarrow> f a)"

definition ok_or :: "'a option \<Rightarrow> 'e \<Rightarrow> 'e + 'a" where
  "ok_or x e = (case x of None \<Rightarrow> Inl e | Some a \<Rightarrow> Inr a)"

definition map_err :: "('e \<Rightarrow> 'f) \<Rightarrow> 'e + 'a \<Rightarrow> 'f + 'a" where
  "map_err g r = (case r of Inl e \<Rightarrow> Inl (g e) | Inr a \<Rightarrow> Inr a)"

definition is_ok :: "'e + 'a \<Rightarrow> bool" where
  "is_ok r = (case r of Inl _ \<Rightarrow> False | Inr _ \<Rightarrow> True)"

text \<open>A loop over a slice whose body may return early with an error.\<close>

fun try_fold :: "('s \<Rightarrow> 'a \<Rightarrow> 'e + 's) \<Rightarrow> 's \<Rightarrow> 'a list \<Rightarrow> 'e + 's" where
  "try_fold f s [] = Inr s"
| "try_fold f s (x # xs) = (case f s x of Inl e \<Rightarrow> Inl e | Inr t \<Rightarrow> try_fold f t xs)"

fun try_map :: "('a \<Rightarrow> 'e + 'b) \<Rightarrow> 'a list \<Rightarrow> 'e + 'b list" where
  "try_map f [] = Inr []"
| "try_map f (x # xs) =
    (case f x of Inl e \<Rightarrow> Inl e
     | Inr y \<Rightarrow> (case try_map f xs of Inl e \<Rightarrow> Inl e | Inr ys \<Rightarrow> Inr (y # ys)))"

text \<open>A guard with an early return.\<close>

definition ensure :: "bool \<Rightarrow> snapshot_error \<Rightarrow> unit result" where
  "ensure cond e = (if cond then Inr () else Inl e)"

text \<open>
  A computation that may also not return: None where the code would panic (an unreachable branch or an
  index out of range) or run out of the fuel of its model, so that returning is a claim of its own.
\<close>

type_synonym 'a run = "'a result option"

definition run_bind :: "'a run \<Rightarrow> ('a \<Rightarrow> 'b run) \<Rightarrow> 'b run" where
  "run_bind m f = (case m of None \<Rightarrow> None | Some (Inl e) \<Rightarrow> Some (Inl e) | Some (Inr a) \<Rightarrow> f a)"

fun run_fold :: "('s \<Rightarrow> 'a \<Rightarrow> 's run) \<Rightarrow> 's \<Rightarrow> 'a list \<Rightarrow> 's run" where
  "run_fold f s [] = Some (Inr s)"
| "run_fold f s (x # xs) = run_bind (f s x) (\<lambda>t. run_fold f t xs)"

section \<open>Checked arithmetic\<close>

definition u32_MAX :: nat where "u32_MAX = 2 ^ 32 - 1"
definition u64_MAX :: nat where "u64_MAX = 2 ^ 64 - 1"
definition i64_MAX :: nat where "i64_MAX = 2 ^ 63 - 1"

definition checked_add :: "nat \<Rightarrow> nat \<Rightarrow> nat option" where
  "checked_add a b = (if a + b \<le> u64_MAX then Some (a + b) else None)"

definition checked_mul :: "nat \<Rightarrow> nat \<Rightarrow> nat option" where
  "checked_mul a b = (if a * b \<le> u64_MAX then Some (a * b) else None)"

definition checked_sub :: "nat \<Rightarrow> nat \<Rightarrow> nat option" where
  "checked_sub a b = (if b \<le> a then Some (a - b) else None)"

definition saturating_add :: "nat \<Rightarrow> nat \<Rightarrow> nat" where
  "saturating_add a b = min (a + b) u64_MAX"

definition saturating_mul :: "nat \<Rightarrow> nat \<Rightarrow> nat" where
  "saturating_mul a b = min (a * b) u64_MAX"

definition div_ceil :: "nat \<Rightarrow> nat \<Rightarrow> nat" where
  "div_ceil a b = (a + b - 1) div b"

section \<open>Strings\<close>

definition as_bytes :: "string \<Rightarrow> bytes" where
  "as_bytes s = map of_char s"

definition strip_prefix :: "string \<Rightarrow> string \<Rightarrow> string option" where
  "strip_prefix p s = (if take (length p) s = p then Some (drop (length p) s) else None)"

definition is_ascii_digit :: "char \<Rightarrow> bool" where
  "is_ascii_digit c = (48 \<le> (of_char c :: nat) \<and> (of_char c :: nat) \<le> 57)"

definition is_lower_hex :: "char \<Rightarrow> bool" where
  "is_lower_hex c = (is_ascii_digit c \<or> (97 \<le> (of_char c :: nat) \<and> (of_char c :: nat) \<le> 102))"

definition dec_digit :: "nat \<Rightarrow> char" where
  "dec_digit n = char_of (48 + n)"

definition hex_digit :: "nat \<Rightarrow> char" where
  "hex_digit n = (if n < 10 then char_of (48 + n) else char_of (87 + n))"

definition dec_value :: "string \<Rightarrow> nat" where
  "dec_value s = foldl (\<lambda>acc c. acc * 10 + (of_char c - 48)) 0 s"

text \<open>\<^verbatim>\<open>u64::to_string\<close> and \<^verbatim>\<open>str::parse::<u64>\<close>, which accepts one leading plus sign.\<close>

fun show_nat :: "nat \<Rightarrow> string" where
  "show_nat n = (if n < 10 then [dec_digit n] else show_nat (n div 10) @ [dec_digit (n mod 10)])"

definition parse_u64 :: "string \<Rightarrow> nat option" where
  "parse_u64 s =
    (let ds = (if s \<noteq> [] \<and> hd s = CHR ''+'' then tl s else s) in
     if ds \<noteq> [] \<and> list_all is_ascii_digit ds \<and> dec_value ds \<le> u64_MAX
     then Some (dec_value ds) else None)"

text \<open>\<^verbatim>\<open>str::split(sep)\<close>: one segment more than there are separators.\<close>

fun split_on :: "'a \<Rightarrow> 'a list \<Rightarrow> 'a list list" where
  "split_on sep [] = [[]]"
| "split_on sep (x # xs) =
    (if x = sep then [] # split_on sep xs
     else (case split_on sep xs of [] \<Rightarrow> [[x]] | y # ys \<Rightarrow> (x # y) # ys))"

text \<open>\<^verbatim>\<open>slice::chunks(n)\<close> for a positive chunk length.\<close>

function chunks_of :: "nat \<Rightarrow> 'a list \<Rightarrow> 'a list list" where
  "chunks_of n xs = (if n = 0 \<or> xs = [] then [] else take n xs # chunks_of n (drop n xs))"
  by pat_completeness auto
termination by (relation "measure (\<lambda>(n, xs). length xs)") auto

declare show_nat.simps [simp del]
declare chunks_of.simps [simp del]

text \<open>Bytes \<^verbatim>\<open>offset..offset+len\<close> of a buffer.\<close>

definition slice :: "nat \<Rightarrow> nat \<Rightarrow> 'a list \<Rightarrow> 'a list" where
  "slice off n xs = take n (drop off xs)"

section \<open>Lemmas on fallible computations\<close>

lemma code_SnapshotError_new [simp, error_code_simps]: "code (SnapshotError_new c m) = c"
  by (simp add: SnapshotError_new_def)

lemma rbind_Inl [simp]: "rbind (Inl e) f = Inl e"
  by (simp add: rbind_def)

lemma rbind_Inr [simp]: "rbind (Inr a) f = f a"
  by (simp add: rbind_def)

lemma rbind_eq_Inr [result_simps]: "rbind r f = Inr b \<longleftrightarrow> (\<exists>a. r = Inr a \<and> f a = Inr b)"
  by (cases r) auto

lemma rbind_eq_Inl [result_simps]:
  "rbind r f = Inl e \<longleftrightarrow> r = Inl e \<or> (\<exists>a. r = Inr a \<and> f a = Inl e)"
  by (cases r) auto

lemma ok_or_eq_Inr [result_simps]: "ok_or x e = Inr a \<longleftrightarrow> x = Some a"
  by (auto simp: ok_or_def split: option.splits)

lemma ok_or_eq_Inl [result_simps]: "ok_or x e = Inl e' \<longleftrightarrow> x = None \<and> e' = e"
  by (auto simp: ok_or_def split: option.splits)

lemma ok_or_simps [simp]: "ok_or (Some a) e = Inr a" "ok_or None e = Inl e"
  by (simp_all add: ok_or_def)

lemma map_err_eq_Inr [result_simps]: "map_err g r = Inr a \<longleftrightarrow> r = Inr a"
  by (cases r) (auto simp: map_err_def)

lemma map_err_eq_Inl [result_simps]: "map_err g r = Inl e \<longleftrightarrow> (\<exists>e'. r = Inl e' \<and> e = g e')"
  by (cases r) (auto simp: map_err_def)

lemma map_err_simps [simp]: "map_err g (Inl e) = Inl (g e)" "map_err g (Inr a) = Inr a"
  by (simp_all add: map_err_def)

lemma is_ok_simps [simp]: "is_ok (Inr a)" "\<not> is_ok (Inl e)"
  by (simp_all add: is_ok_def)

lemma is_ok_iff: "is_ok r \<longleftrightarrow> (\<exists>a. r = Inr a)"
  by (cases r) auto

lemma if_Inl_eq_Inr [result_simps]: "(if b then Inl e else r) = Inr a \<longleftrightarrow> \<not> b \<and> r = Inr a"
  by simp

lemma try_fold_append:
  "try_fold f s (xs @ ys) = rbind (try_fold f s xs) (\<lambda>t. try_fold f t ys)"
  by (induction xs arbitrary: s) (auto split: sum.splits)

lemma try_fold_invariant:
  assumes "try_fold f s xs = Inr t" and "P s []"
    and "\<And>u ys x v. P u ys \<Longrightarrow> x \<in> set xs \<Longrightarrow> f u x = Inr v \<Longrightarrow> P v (ys @ [x])"
  shows "P t xs"
  using assms
proof (induction xs arbitrary: t rule: rev_induct)
  case (snoc x xs)
  then obtain u where u: "try_fold f s xs = Inr u" "f u x = Inr t"
    by (cases "try_fold f s xs"; cases "f (projr (try_fold f s xs)) x")
      (auto simp: try_fold_append split: sum.splits)
  have "P u xs"
    using snoc.IH[OF u(1)] snoc.prems by auto
  with u snoc.prems(3) show ?case by auto
qed simp

lemma try_map_Inr_iff: "try_map f xs = Inr ys \<longleftrightarrow> list_all2 (\<lambda>x y. f x = Inr y) xs ys"
proof (induction xs arbitrary: ys)
  case (Cons x xs)
  have "try_map f (x # xs) = Inr ys \<longleftrightarrow>
      (\<exists>y zs. f x = Inr y \<and> try_map f xs = Inr zs \<and> ys = y # zs)"
    by (auto split: sum.splits)
  then show ?case
    by (auto simp: Cons.IH list_all2_Cons1)
qed auto

lemma try_map_Inr_length: "try_map f xs = Inr ys \<Longrightarrow> length ys = length xs"
  by (auto simp: try_map_Inr_iff list_all2_lengthD)

lemma run_bind_simps [simp]:
  "run_bind (Some (Inr a)) f = f a" "run_bind (Some (Inl e)) f = Some (Inl e)" "run_bind None f = None"
  by (simp_all add: run_bind_def)

lemma run_bind_Inr [result_simps]:
  "run_bind m f = Some (Inr b) \<longleftrightarrow> (\<exists>a. m = Some (Inr a) \<and> f a = Some (Inr b))"
  by (auto simp: run_bind_def split: option.splits sum.splits)

lemma ensure_simps [result_simps]: "ensure c e = Inr u \<longleftrightarrow> c" "ensure c e = Inl f \<longleftrightarrow> \<not> c \<and> f = e"
  by (auto simp: ensure_def)

lemma try_fold_single: "try_fold f s [x] = f s x"
  by (simp split: sum.splits)

lemma run_fold_invariant:
  assumes "run_fold f s xs = Some (Inr t)" "P s []"
    and step: "\<And>u ys x v. P u ys \<Longrightarrow> x \<in> set xs \<Longrightarrow> f u x = Some (Inr v) \<Longrightarrow> P v (ys @ [x])"
  shows "P t xs"
proof -
  have "run_fold f u xs' = Some (Inr t) \<Longrightarrow> P u ys \<Longrightarrow> set xs' \<subseteq> set xs \<Longrightarrow> P t (ys @ xs')" for u ys xs'
  proof (induction xs' arbitrary: u ys)
    case (Cons x xs')
    then obtain v where v: "f u x = Some (Inr v)" "run_fold f v xs' = Some (Inr t)"
      by (auto simp: result_simps)
    from Cons.IH[OF v(2) step[OF Cons.prems(2) _ v(1)]] Cons.prems(3) show ?case by simp
  qed simp
  from this[OF assms(1,2)] show ?thesis by simp
qed

text \<open>Recursive calls inside the continuation of a step or the body of a loop.\<close>

lemma rbind_cong:
  "r = r' \<Longrightarrow> (\<And>a. r' = Inr a \<Longrightarrow> f a = g a) \<Longrightarrow> rbind r f = rbind r' g"
  by (cases r') auto

lemma try_fold_cong:
  "s = s' \<Longrightarrow> xs = xs' \<Longrightarrow> (\<And>t x. x \<in> set xs' \<Longrightarrow> f t x = g t x) \<Longrightarrow> try_fold f s xs = try_fold g s' xs'"
  by (induction xs' arbitrary: s s' xs) (auto split: sum.splits)

section \<open>Lemmas on checked arithmetic\<close>

lemma checked_add_Some [result_simps]: "checked_add a b = Some c \<longleftrightarrow> c = a + b \<and> a + b \<le> u64_MAX"
  by (auto simp: checked_add_def)

lemma checked_mul_Some [result_simps]: "checked_mul a b = Some c \<longleftrightarrow> c = a * b \<and> a * b \<le> u64_MAX"
  by (auto simp: checked_mul_def)

lemma checked_sub_Some [result_simps]: "checked_sub a b = Some c \<longleftrightarrow> c = a - b \<and> b \<le> a"
  by (auto simp: checked_sub_def)

lemma div_ceil_le_iff: "0 < b \<Longrightarrow> div_ceil a b \<le> k \<longleftrightarrow> a \<le> k * b"
proof -
  assume b: "0 < b"
  have "div_ceil a b \<le> k \<longleftrightarrow> (a + b - 1) div b < Suc k"
    by (simp add: div_ceil_def less_Suc_eq_le)
  also have "\<dots> \<longleftrightarrow> a + b - 1 < Suc k * b"
    using b by (simp add: less_mult_imp_div_less div_less_iff_less_mult)
  also have "\<dots> \<longleftrightarrow> a \<le> k * b"
    using b by auto
  finally show ?thesis .
qed

lemma div_ceil_covers: "0 < b \<Longrightarrow> a \<le> div_ceil a b * b"
  using div_ceil_le_iff[of b a "div_ceil a b"] by simp

lemma div_ceil_zero [simp]: "0 < b \<Longrightarrow> div_ceil 0 b = 0"
  by (simp add: div_ceil_def)

lemma div_ceil_step: "0 < b \<Longrightarrow> b \<le> a \<Longrightarrow> div_ceil a b = Suc (div_ceil (a - b) b)"
  by (simp add: div_ceil_def le_div_geq Suc_diff_le)

lemma div_ceil_pos: "0 < b \<Longrightarrow> 0 < a \<Longrightarrow> a \<le> b \<Longrightarrow> div_ceil a b = 1"
  by (metis One_nat_def div_ceil_le_iff le_SucE le_zero_eq mult_1 mult_eq_0_iff not_gr_zero)

section \<open>Lemmas on slices\<close>

lemma length_slice [simp]: "length (slice off n xs) = min n (length xs - off)"
  by (simp add: slice_def)

lemma slice_0 [simp]: "slice off 0 xs = []"
  by (simp add: slice_def)

lemma slice_all: "length xs \<le> n \<Longrightarrow> slice 0 n xs = xs"
  by (simp add: slice_def)

lemma slice_append_slice: "slice off (n + m) xs = slice off n xs @ slice (off + n) m xs"
  by (simp add: slice_def take_add add.commute[of n off])

lemma slice_slice: "off' + n' \<le> n \<Longrightarrow> slice off' n' (slice off n xs) = slice (off + off') n' xs"
  by (simp add: slice_def drop_take min_def add.commute)

lemma chunks_of_Nil [simp]: "chunks_of n [] = []"
  by (simp add: chunks_of.simps)

lemma chunks_of_step: "0 < n \<Longrightarrow> xs \<noteq> [] \<Longrightarrow> chunks_of n xs = take n xs # chunks_of n (drop n xs)"
  by (subst chunks_of.simps) simp

lemma concat_chunks_of: "0 < n \<Longrightarrow> concat (chunks_of n xs) = xs"
proof (induction n xs rule: chunks_of.induct)
  case (1 n xs)
  then show ?case
    by (cases "xs = []") (simp_all add: chunks_of_step)
qed

lemma length_chunks_of: "0 < n \<Longrightarrow> length (chunks_of n xs) = div_ceil (length xs) n"
proof (induction n xs rule: chunks_of.induct)
  case (1 n xs)
  show ?case
  proof (cases "xs = []")
    case False
    with 1 have "length (chunks_of n xs) = Suc (div_ceil (length xs - n) n)"
      by (simp add: chunks_of_step)
    also have "\<dots> = div_ceil (length xs) n"
      using 1(2) False by (cases "n \<le> length xs") (simp_all add: div_ceil_step div_ceil_pos)
    finally show ?thesis .
  qed (use 1 in simp)
qed

lemma nth_chunks_of:
  "0 < n \<Longrightarrow> i < length (chunks_of n xs) \<Longrightarrow> chunks_of n xs ! i = slice (i * n) n xs"
proof (induction n xs arbitrary: i rule: chunks_of.induct)
  case (1 n xs)
  show ?case
  proof (cases "xs = []")
    case False
    with 1 show ?thesis
      by (cases i) (simp_all add: chunks_of_step slice_def add.commute[of n])
  qed (use 1 in simp)
qed

lemma chunks_of_append:
  "0 < n \<Longrightarrow> length xs = k * n \<Longrightarrow> chunks_of n (xs @ ys) = chunks_of n xs @ chunks_of n ys"
proof (induction k arbitrary: xs)
  case (Suc k)
  then have "xs \<noteq> []" "n \<le> length xs" by auto
  with Suc.IH[of "drop n xs"] Suc.prems show ?case
    by (simp add: chunks_of_step)
qed simp

section \<open>Lemmas on text\<close>

lemma strip_prefix_Some_iff: "strip_prefix p s = Some r \<longleftrightarrow> s = p @ r"
  by (auto simp: strip_prefix_def) (metis append_take_drop_id)

lemma dec_digit_zero: "dec_digit 0 = CHR ''0''"
  by code_simp

lemma of_char_dec_digit [simp]: "n < 10 \<Longrightarrow> of_char (dec_digit n) = 48 + n"
  by (simp add: dec_digit_def)

lemma dec_digit_of_char: "is_ascii_digit c \<Longrightarrow> dec_digit (of_char c - 48) = c"
  by (simp add: dec_digit_def is_ascii_digit_def)

lemma is_ascii_digit_dec_digit [simp]: "n < 10 \<Longrightarrow> is_ascii_digit (dec_digit n)"
  by (simp add: is_ascii_digit_def)

lemma dec_value_snoc [simp]: "dec_value (s @ [c]) = dec_value s * 10 + (of_char c - 48)"
  by (simp add: dec_value_def)

lemma dec_value_Nil [simp]: "dec_value [] = 0"
  by (simp add: dec_value_def)

lemma dec_value_single [simp]: "dec_value [c] = of_char c - 48"
  by (simp add: dec_value_def)

lemma show_nat_not_Nil [simp]: "show_nat n \<noteq> []"
  by (subst show_nat.simps) simp

lemma show_nat_digits: "list_all is_ascii_digit (show_nat n)"
proof (induction n rule: show_nat.induct)
  case (1 n)
  then show ?case by (subst show_nat.simps) simp
qed

lemma dec_value_show_nat [simp]: "dec_value (show_nat n) = n"
proof (induction n rule: show_nat.induct)
  case (1 n)
  then show ?case by (subst show_nat.simps) simp
qed

lemma show_nat_inject: "show_nat a = show_nat b \<longleftrightarrow> a = b"
  by (metis dec_value_show_nat)

lemma dec_digit_inject: "a < 10 \<Longrightarrow> b < 10 \<Longrightarrow> dec_digit a = dec_digit b \<Longrightarrow> a = b"
  by (metis add_left_cancel of_char_dec_digit)

lemma hd_show_nat: "0 < n \<Longrightarrow> hd (show_nat n) \<noteq> CHR ''0''"
proof (induction n rule: show_nat.induct)
  case (1 n)
  have zero: "CHR ''0'' = dec_digit 0"
    by (simp add: dec_digit_zero)
  show ?case
  proof (cases "n < 10")
    case True
    with 1 show ?thesis
      by (subst show_nat.simps) (use dec_digit_inject[of n 0] zero in auto)
  next
    case False
    with 1 show ?thesis
      by (subst show_nat.simps) (simp add: hd_append)
  qed
qed

lemma dec_value_pos:
  "s \<noteq> [] \<Longrightarrow> list_all is_ascii_digit s \<Longrightarrow> hd s \<noteq> CHR ''0'' \<Longrightarrow> 0 < dec_value s"
proof (induction s rule: rev_induct)
  case (snoc c s)
  show ?case
  proof (cases "s = []")
    case True
    have "of_char c \<noteq> (48 :: nat)"
      using snoc.prems True dec_digit_of_char[of c] by (auto simp: dec_digit_zero)
    with snoc.prems True show ?thesis
      by (simp add: is_ascii_digit_def)
  qed (use snoc in \<open>simp add: hd_append\<close>)
qed simp

lemma show_nat_dec_value:
  assumes "s \<noteq> []" "list_all is_ascii_digit s" "length s = 1 \<or> hd s \<noteq> CHR ''0''"
  shows "show_nat (dec_value s) = s"
  using assms
proof (induction s rule: rev_induct)
  case (snoc c s)
  have c: "of_char c - 48 < (10 :: nat)" "dec_digit (of_char c - 48) = c"
    using snoc.prems dec_digit_of_char[of c] by (auto simp: is_ascii_digit_def)
  show ?case
  proof (cases "s = []")
    case True
    with c show ?thesis by (simp add: show_nat.simps)
  next
    case False
    with snoc.prems have "0 < dec_value s"
      by (intro dec_value_pos) (auto simp: hd_append)
    moreover have "show_nat (dec_value s) = s"
      using snoc False by (auto simp: hd_append)
    ultimately show ?thesis
      using c by (subst show_nat.simps) simp
  qed
qed simp

lemma parse_u64_digits:
  "s \<noteq> [] \<Longrightarrow> list_all is_ascii_digit s \<Longrightarrow>
    parse_u64 s = (if dec_value s \<le> u64_MAX then Some (dec_value s) else None)"
  by (cases s) (auto simp: parse_u64_def is_ascii_digit_def)

lemma split_on_not_Nil [simp]: "split_on sep xs \<noteq> []"
  by (cases xs) (auto split: list.splits)

lemma split_on_no_sep: "\<forall>y\<in>set (split_on sep xs). sep \<notin> set y"
proof (induction xs)
  case (Cons x xs)
  then show ?case
    by (cases "split_on sep xs") auto
qed simp

fun join_with :: "'a \<Rightarrow> 'a list list \<Rightarrow> 'a list" where
  "join_with sep [] = []"
| "join_with sep [x] = x"
| "join_with sep (x # y # ys) = x @ sep # join_with sep (y # ys)"

lemma join_split_on: "join_with sep (split_on sep xs) = xs"
proof (induction xs)
  case (Cons x xs)
  then show ?case
    by (cases "split_on sep xs"; cases "tl (split_on sep xs)") auto
qed simp

end
