(* ===== verification/Wire_Text.thy ===== *)
theory Wire_Text
  imports Scorpio_Prelude
begin

unbundle bit_operations_syntax

text \<open>
  The text forms of the wire protocol: content digests, decimal counters, padded
  base64, URL components and file names (\<^verbatim>\<open>snapshot/frames.rs\<close>,
  \<^verbatim>\<open>snapshot/directory.rs\<close>, \<^verbatim>\<open>snapshot/auth.rs\<close>, \<^verbatim>\<open>snapshot/resolve_wire.rs\<close>).
  The lemmas show that each decoder accepts exactly the canonical form of a value:
  printing and parsing are inverse to each other in both directions.
\<close>

section \<open>Digests\<close>

text \<open>
  \<^verbatim>\<open>hex::decode_to_slice\<close> belongs to the hex crate.  It is the first argument of
  \<^verbatim>\<open>parse_digest\<close>; \<^verbatim>\<open>hex_decoder\<close> states what the crate documents about the
  inputs it is called with: 64 lower-case digits decode pairwise, high nibble first.
\<close>

definition parse_digest :: "(string \<Rightarrow> bytes option) \<Rightarrow> string \<Rightarrow> bytes result" where
  "parse_digest decode_to_slice s =
    rbind (ok_or (strip_prefix ''sha256:'' s)
             (SnapshotError_new DigestMismatch ''digest must start with sha256:''))
      (\<lambda>hex.
        if length hex \<noteq> 64 \<or> \<not> list_all is_lower_hex hex
        then Inl (SnapshotError_new DigestMismatch
                    ''digest must contain exactly 64 lowercase hex digits'')
        else ok_or (decode_to_slice hex) (SnapshotError_new DigestMismatch ''bad digest hex''))"

definition hex32 :: "bytes \<Rightarrow> string" where
  "hex32 b = concat (map (\<lambda>x. [hex_digit (unat x div 16), hex_digit (unat x mod 16)]) b)"

definition nibble :: "char \<Rightarrow> nat" where
  "nibble c = (if is_ascii_digit c then of_char c - 48 else of_char c - 87)"

fun hex_pairs :: "string \<Rightarrow> bytes" where
  "hex_pairs (a # b # s) = word_of_nat (16 * nibble a + nibble b) # hex_pairs s"
| "hex_pairs _ = []"

definition hex_decoder :: "(string \<Rightarrow> bytes option) \<Rightarrow> bool" where
  "hex_decoder d \<longleftrightarrow> (\<forall>s. length s = 64 \<longrightarrow> list_all is_lower_hex s \<longrightarrow> d s = Some (hex_pairs s))"

definition digest_text :: "bytes \<Rightarrow> string" where
  "digest_text b = ''sha256:'' @ hex32 b"

definition digest_valid :: "string \<Rightarrow> bool" where
  "digest_valid digest =
    (case strip_prefix ''sha256:'' digest of
       None \<Rightarrow> False
     | Some hex \<Rightarrow> length hex = 64 \<and> list_all is_lower_hex hex)"

definition directory_digest_valid :: "string \<Rightarrow> bool" where
  "directory_digest_valid digest =
    (digest_valid digest \<and> list_ex (\<lambda>b. b \<noteq> CHR ''0'') (drop 7 digest))"

section \<open>Counters\<close>

definition counter_text :: "string \<Rightarrow> bool" where
  "counter_text s =
    (\<not> (s = [] \<or> \<not> list_all is_ascii_digit s \<or> (1 < length s \<and> hd s = CHR ''0'')))"

definition parse_count :: "string \<Rightarrow> string \<Rightarrow> nat result" where
  "parse_count s field =
    (if \<not> counter_text s
     then Inl (SnapshotError_new ScopeInvalid (field @ '' must be a decimal string''))
     else rbind (ok_or (parse_u64 s)
                   (SnapshotError_new LimitExceeded (field @ '' exceeds the protocol counter limit'')))
       (\<lambda>value. if i64_MAX < value
          then Inl (SnapshotError_new LimitExceeded
                      (field @ '' exceeds the protocol counter limit''))
          else Inr value))"

definition decimal :: "string \<Rightarrow> string \<Rightarrow> nat result" where
  "decimal value field =
    (if value = [] \<or> \<not> list_all is_ascii_digit value \<or> (1 < length value \<and> hd value = CHR ''0'')
     then Inl (SnapshotError_new ScopeForbidden (''invalid '' @ field @ '' in resolve''))
     else rbind (ok_or (parse_u64 value)
                   (SnapshotError_new ScopeForbidden (''out-of-range '' @ field @ '' in resolve'')))
       (\<lambda>parsed. if i64_MAX < parsed
          then Inl (SnapshotError_new LimitExceeded
                      (field @ '' exceeds the protocol counter limit''))
          else Inr parsed))"

definition resolve_invalid :: snapshot_error where
  "resolve_invalid = SnapshotError_new IntegrityError
     ''resolve response violates its selected contract or requested view''"

definition counter :: "string \<Rightarrow> unit result" where
  "counter value =
    (if value = [] \<or> (1 < length value \<and> hd value = CHR ''0'')
        \<or> \<not> list_all is_ascii_digit value
        \<or> (case parse_u64 value of None \<Rightarrow> True | Some n \<Rightarrow> i64_MAX < n)
     then Inl resolve_invalid else Inr ())"

section \<open>File names\<close>

definition name_valid :: "string \<Rightarrow> bool" where
  "name_valid name =
    (name \<noteq> [] \<and> length name \<le> 255 \<and> \<not> (name = ''.'' \<or> name = ''..'')
      \<and> \<not> list_ex (\<lambda>c. c = CHR ''/'' \<or> c = CHR 0x00) name)"

section \<open>Base64\<close>

definition b64_dec :: "byte \<Rightarrow> byte option" where
  "b64_dec c =
    (if 65 \<le> c \<and> c \<le> 90 then Some (c - 65)
     else if 97 \<le> c \<and> c \<le> 122 then Some (c - 97 + 26)
     else if 48 \<le> c \<and> c \<le> 57 then Some (c - 48 + 52)
     else if c = 43 then Some 62
     else if c = 47 then Some 63
     else None)"

definition b64_invalid :: snapshot_error where
  "b64_invalid = SnapshotError_new IntegrityError ''invalid canonical padded base64''"

text \<open>
  The loop over the groups of four.  The equal sign has byte value 61.  The last equation is not
  reached: the caller has checked that the length is a multiple of four.
\<close>

fun b64_groups :: "bytes \<Rightarrow> bytes result" where
  "b64_groups [] = Inr []"
| "b64_groups (c0 # c1 # c2 # c3 # rest) =
    rbind (ok_or (b64_dec c0) b64_invalid) (\<lambda>a.
    rbind (ok_or (b64_dec c1) b64_invalid) (\<lambda>b.
    if c2 = 61 then
      (if rest \<noteq> [] \<or> c3 \<noteq> 61 \<or> b AND 15 \<noteq> 0 then Inl b64_invalid
       else rbind (b64_groups rest) (\<lambda>out. Inr ([push_bit 2 a OR drop_bit 4 b] @ out)))
    else
      rbind (ok_or (b64_dec c2) b64_invalid) (\<lambda>c.
      if c3 = 61 then
        (if rest \<noteq> [] \<or> c AND 3 \<noteq> 0 then Inl b64_invalid
         else rbind (b64_groups rest) (\<lambda>out.
           Inr ([push_bit 2 a OR drop_bit 4 b, push_bit 4 (b AND 15) OR drop_bit 2 c] @ out)))
      else
        rbind (ok_or (b64_dec c3) b64_invalid) (\<lambda>d.
        rbind (b64_groups rest) (\<lambda>out.
          Inr ([push_bit 2 a OR drop_bit 4 b, push_bit 4 (b AND 15) OR drop_bit 2 c,
                push_bit 6 (c AND 3) OR d] @ out))))))"
| "b64_groups _ = Inl b64_invalid"

definition b64_decode :: "string \<Rightarrow> bytes result" where
  "b64_decode s =
    (let bytes = as_bytes s in
     if length bytes mod 4 \<noteq> 0 then Inl b64_invalid else b64_groups bytes)"

section \<open>URL components\<close>

definition url_plain :: "char \<Rightarrow> bool" where
  "url_plain c =
    (let b = (of_char c :: nat) in
     (65 \<le> b \<and> b \<le> 90) \<or> (97 \<le> b \<and> b \<le> 122) \<or> (48 \<le> b \<and> b \<le> 57)
      \<or> c = CHR ''-'' \<or> c = CHR ''_'' \<or> c = CHR ''.'' \<or> c = CHR ''~'' \<or> c = CHR ''/'')"

definition upper_hex_digit :: "nat \<Rightarrow> char" where
  "upper_hex_digit n = (if n < 10 then char_of (48 + n) else char_of (55 + n))"

definition urlencode :: "string \<Rightarrow> string" where
  "urlencode s =
    concat (map (\<lambda>c. if url_plain c then [c]
                     else [CHR ''%'', upper_hex_digit (of_char c div 16),
                           upper_hex_digit (of_char c mod 16)]) s)"

section \<open>Digest lemmas\<close>

lemma hex_digit_table:
  "\<forall>n\<in>set [0..<16]. nibble (hex_digit n) = n \<and> is_lower_hex (hex_digit n)"
  by code_simp

lemma hex_digit_facts [simp]:
  assumes "n < 16"
  shows "nibble (hex_digit n) = n" "is_lower_hex (hex_digit n)"
  using hex_digit_table assms by (auto simp: atLeast0LessThan)

lemma nibble_facts:
  assumes "is_lower_hex c"
  shows "hex_digit (nibble c) = c" "nibble c < 16"
  using assms by (auto simp: is_lower_hex_def is_ascii_digit_def nibble_def hex_digit_def)

lemma unat_byte_less: "unat (x :: byte) < 256"
  using unsigned_less[of x, where 'a = nat] by simp

lemma hex32_Cons [simp]:
  "hex32 (x # b) = hex_digit (unat x div 16) # hex_digit (unat x mod 16) # hex32 b"
  by (simp add: hex32_def)

lemma hex32_Nil [simp]: "hex32 [] = []"
  by (simp add: hex32_def)

lemma length_hex32 [simp]: "length (hex32 b) = 2 * length b"
  by (induction b) simp_all

lemma unat_div_16_less: "unat (x :: byte) div 16 < 16"
  using unat_byte_less[of x] by simp

lemma hex32_lower: "list_all is_lower_hex (hex32 b)"
  by (induction b) (simp_all add: unat_div_16_less)

lemma hex_pairs_hex32 [simp]: "hex_pairs (hex32 b) = b"
  by (induction b) (simp_all add: unat_div_16_less)

lemma hex32_hex_pairs:
  "even (length s) \<Longrightarrow> list_all is_lower_hex s \<Longrightarrow> hex32 (hex_pairs s) = s"
proof (induction s rule: hex_pairs.induct)
  case (1 a b s)
  have "16 * nibble a + nibble b < 256"
    using 1 nibble_facts(2)[of a] nibble_facts(2)[of b] by auto
  then have "unat (word_of_nat (16 * nibble a + nibble b) :: byte) = 16 * nibble a + nibble b"
    by (simp add: unat_of_nat del: of_nat_add of_nat_mult)
  with 1 nibble_facts[of a] nibble_facts[of b] show ?case by simp
qed simp_all

lemma length_hex_pairs: "even (length s) \<Longrightarrow> length (hex_pairs s) = length s div 2"
  by (induction s rule: hex_pairs.induct) simp_all

lemma hex32_inject: "hex32 b = hex32 b' \<Longrightarrow> b = b'"
  by (metis hex_pairs_hex32)

lemma digest_text_inject: "digest_text b = digest_text b' \<longleftrightarrow> b = b'"
  by (auto simp: digest_text_def dest: hex32_inject)

lemma digest_valid_iff: "digest_valid s \<longleftrightarrow> (\<exists>b. length b = 32 \<and> s = digest_text b)"
proof
  assume "digest_valid s"
  then obtain hex where h: "s = ''sha256:'' @ hex" "length hex = 64" "list_all is_lower_hex hex"
    by (auto simp: digest_valid_def strip_prefix_Some_iff split: option.splits)
  then have "length (hex_pairs hex) = 32" "s = digest_text (hex_pairs hex)"
    by (simp_all add: length_hex_pairs digest_text_def hex32_hex_pairs)
  then show "\<exists>b. length b = 32 \<and> s = digest_text b" by blast
next
  assume "\<exists>b. length b = 32 \<and> s = digest_text b"
  then obtain b where b: "length b = 32" "s = ''sha256:'' @ hex32 b"
    by (auto simp: digest_text_def)
  then have "strip_prefix ''sha256:'' s = Some (hex32 b)"
    by (simp only: strip_prefix_Some_iff)
  with b show "digest_valid s"
    by (simp add: digest_valid_def hex32_lower)
qed

lemma parse_digest_Inr_iff:
  assumes "hex_decoder d"
  shows "parse_digest d s = Inr b \<longleftrightarrow> length b = 32 \<and> s = digest_text b"
proof
  assume "parse_digest d s = Inr b"
  then obtain hex where h: "s = ''sha256:'' @ hex" "length hex = 64" "list_all is_lower_hex hex"
      "d hex = Some b"
    by (auto simp: parse_digest_def result_simps strip_prefix_Some_iff split: if_splits)
  with assms have "b = hex_pairs hex"
    by (simp add: hex_decoder_def)
  with h show "length b = 32 \<and> s = digest_text b"
    by (simp add: length_hex_pairs digest_text_def hex32_hex_pairs)
next
  assume b: "length b = 32 \<and> s = digest_text b"
  then have "strip_prefix ''sha256:'' s = Some (hex32 b)"
    by (simp add: strip_prefix_Some_iff digest_text_def)
  moreover have "d (hex32 b) = Some b"
    using assms b hex32_lower[of b] by (simp add: hex_decoder_def)
  ultimately show "parse_digest d s = Inr b"
    using b by (simp add: parse_digest_def hex32_lower)
qed

lemma digest_valid_parse_digest: "hex_decoder d \<Longrightarrow> digest_valid s \<longleftrightarrow> is_ok (parse_digest d s)"
  by (simp add: digest_valid_iff is_ok_iff parse_digest_Inr_iff)

lemma code_parse_digest_error: "parse_digest d s = Inl e \<Longrightarrow> code e = DigestMismatch"
  by (auto simp: parse_digest_def result_simps split: if_splits)

lemma concat_map_hd_nonzero: "list_ex (\<lambda>c. c \<noteq> CHR ''0'') (hex32 b) \<longleftrightarrow> (\<exists>x\<in>set b. x \<noteq> 0)"
proof (induction b)
  case (Cons x b)
  have z: "n < 16 \<Longrightarrow> hex_digit n = CHR ''0'' \<longleftrightarrow> n = 0" for n
    by (metis dec_digit_def dec_digit_zero add.right_neutral hex_digit_def hex_digit_facts(1) less_numeral_extra(3) zero_less_numeral)
  have "hex_digit (unat x div 16) = CHR ''0'' \<and> hex_digit (unat x mod 16) = CHR ''0'' \<longleftrightarrow> unat x = 0"
    using unat_div_16_less[of x] by (auto simp: z)
  with Cons show ?case by (auto simp: unat_eq_zero)
qed simp

lemma directory_digest_valid_iff:
  "directory_digest_valid s \<longleftrightarrow> (\<exists>b. length b = 32 \<and> (\<exists>x\<in>set b. x \<noteq> 0) \<and> s = digest_text b)"
  by (auto simp: directory_digest_valid_def digest_valid_iff digest_text_def concat_map_hd_nonzero)

section \<open>Counter lemmas\<close>

lemma counter_text_show_nat: "counter_text s \<longleftrightarrow> s = show_nat (dec_value s)"
proof
  assume c: "counter_text s"
  then have "length s = 1 \<or> hd s \<noteq> CHR ''0''"
    by (cases s) (auto simp: counter_text_def)
  with c have "show_nat (dec_value s) = s"
    by (intro show_nat_dec_value) (auto simp: counter_text_def)
  then show "s = show_nat (dec_value s)" ..
next
  assume s: "s = show_nat (dec_value s)"
  have "\<not> (1 < length s \<and> hd s = CHR ''0'')"
  proof (cases "dec_value s = 0")
    case True
    with s have "s = show_nat 0" by simp
    then show ?thesis by (simp add: show_nat.simps)
  next
    case False
    with s hd_show_nat[of "dec_value s"] show ?thesis by simp
  qed
  moreover have "s \<noteq> []" "list_all is_ascii_digit s"
    using s show_nat_not_Nil[of "dec_value s"] show_nat_digits[of "dec_value s"] by metis+
  ultimately show "counter_text s"
    by (auto simp: counter_text_def)
qed

lemma i64_le_u64: "n \<le> i64_MAX \<Longrightarrow> n \<le> u64_MAX"
  by (simp add: i64_MAX_def u64_MAX_def)

lemma counter_text_parse_u64:
  "counter_text s \<Longrightarrow> parse_u64 s = (if dec_value s \<le> u64_MAX then Some (dec_value s) else None)"
  by (simp add: counter_text_def parse_u64_digits)

lemma parse_count_cases:
  "parse_count s f =
    (if \<not> counter_text s
     then Inl (SnapshotError_new ScopeInvalid (f @ '' must be a decimal string''))
     else if dec_value s \<le> i64_MAX then Inr (dec_value s)
     else Inl (SnapshotError_new LimitExceeded (f @ '' exceeds the protocol counter limit'')))"
  by (auto simp: parse_count_def counter_text_parse_u64 dest: i64_le_u64)

lemma parse_count_Inr_iff: "parse_count s f = Inr n \<longleftrightarrow> s = show_nat n \<and> n \<le> i64_MAX"
  by (auto simp: parse_count_cases counter_text_show_nat)

lemma decimal_Inr_iff: "decimal s f = Inr n \<longleftrightarrow> s = show_nat n \<and> n \<le> i64_MAX"
proof -
  have "decimal s f =
    (if \<not> counter_text s then Inl (SnapshotError_new ScopeForbidden (''invalid '' @ f @ '' in resolve''))
     else rbind (ok_or (parse_u64 s)
                   (SnapshotError_new ScopeForbidden (''out-of-range '' @ f @ '' in resolve'')))
       (\<lambda>parsed. if i64_MAX < parsed
          then Inl (SnapshotError_new LimitExceeded (f @ '' exceeds the protocol counter limit''))
          else Inr parsed))"
    by (auto simp: decimal_def counter_text_def)
  then show ?thesis
    by (auto simp: counter_text_parse_u64 counter_text_show_nat dest: i64_le_u64)
qed

lemma counter_ok_iff: "is_ok (counter s) \<longleftrightarrow> (\<exists>n. s = show_nat n \<and> n \<le> i64_MAX)"
proof -
  have "is_ok (counter s) \<longleftrightarrow> counter_text s \<and> dec_value s \<le> i64_MAX"
    by (auto simp: counter_def counter_text_def parse_u64_digits split: option.splits if_splits dest: i64_le_u64)
  then show ?thesis
    by (auto simp: counter_text_show_nat)
qed

lemma code_parse_count_error:
  "parse_count s f = Inl e \<Longrightarrow> code e = ScopeInvalid \<or> code e = LimitExceeded"
  by (auto simp: parse_count_cases split: if_splits)

section \<open>Base64 lemmas\<close>

text \<open>The encoder of RFC 4648 section 4, as the reference for the decoder.\<close>

definition b64_char :: "byte \<Rightarrow> byte" where
  "b64_char v =
    (if v < 26 then v + 65 else if v < 52 then v - 26 + 97
     else if v < 62 then v - 52 + 48 else if v = 62 then 43 else 47)"

fun b64_encode :: "bytes \<Rightarrow> bytes" where
  "b64_encode [] = []"
| "b64_encode [x] = [b64_char (drop_bit 2 x), b64_char (push_bit 4 (x AND 3)), 61, 61]"
| "b64_encode [x, y] =
    [b64_char (drop_bit 2 x), b64_char (push_bit 4 (x AND 3) OR drop_bit 4 y),
     b64_char (push_bit 2 (y AND 15)), 61]"
| "b64_encode (x # y # z # rest) =
    b64_char (drop_bit 2 x) # b64_char (push_bit 4 (x AND 3) OR drop_bit 4 y)
    # b64_char (push_bit 2 (y AND 15) OR drop_bit 6 z) # b64_char (z AND 63) # b64_encode rest"

lemmas word_nat = word_less_nat_alt word_le_nat_alt word_unat_eq_iff

lemma b64_char_dec:
  assumes "v < 64"
  shows "b64_dec (b64_char v) = Some v" "b64_char v \<noteq> 61"
proof -
  have "unat v < 64"
    using assms by (simp add: word_nat)
  then consider "unat v < 26" | "26 \<le> unat v" "unat v < 52" | "52 \<le> unat v" "unat v < 62"
    | "unat v = 62" | "unat v = 63"
    by linarith
  then have "b64_dec (b64_char v) = Some v \<and> b64_char v \<noteq> 61"
  proof cases
    case 1
    then have "unat (v + 65) = unat v + 65"
      by (simp add: unat_word_ariths)
    with 1 show ?thesis by (auto simp: b64_char_def b64_dec_def word_nat)
  next
    case 2
    then have "unat (v - 26 + 97) = unat v - 26 + 97"
      by (simp add: unat_word_ariths unat_sub word_nat)
    with 2 show ?thesis by (auto simp: b64_char_def b64_dec_def word_nat)
  next
    case 3
    then have "unat (v - 52 + 48) = unat v - 52 + 48"
      by (simp add: unat_word_ariths unat_sub word_nat)
    with 3 show ?thesis by (auto simp: b64_char_def b64_dec_def word_nat)
  next
    case 4
    then have "v = 62" by (simp add: word_nat)
    then show ?thesis by (simp add: b64_char_def b64_dec_def)
  next
    case 5
    then have "v = 63" by (simp add: word_nat)
    then show ?thesis by (simp add: b64_char_def b64_dec_def)
  qed
  then show "b64_dec (b64_char v) = Some v" "b64_char v \<noteq> 61" by simp_all
qed

lemma b64_dec_char:
  assumes "b64_dec c = Some v"
  shows "v < 64 \<and> c = b64_char v"
proof -
  consider "65 \<le> c" "c \<le> 90" "v = c - 65" | "97 \<le> c" "c \<le> 122" "v = c - 97 + 26"
    | "48 \<le> c" "c \<le> 57" "v = c - 48 + 52" | "c = 43" "v = 62" | "c = 47" "v = 63"
    using assms by (auto simp: b64_dec_def split: if_splits)
  then show ?thesis
  proof cases
    case 1
    then have "unat v = unat c - 65" "65 \<le> unat c" "unat c \<le> 90"
      by (simp_all add: unat_sub word_nat)
    with 1(3) show ?thesis by (auto simp: b64_char_def word_less_nat_alt)
  next
    case 2
    then have "unat v = unat c - 97 + 26" "97 \<le> unat c" "unat c \<le> 122"
      by (simp_all add: unat_word_ariths unat_sub word_nat)
    with 2(3) show ?thesis by (auto simp: b64_char_def word_less_nat_alt)
  next
    case 3
    then have "unat v = unat c - 48 + 52" "48 \<le> unat c" "unat c \<le> 57"
      by (simp_all add: unat_word_ariths unat_sub word_nat)
    with 3(3) show ?thesis by (auto simp: b64_char_def word_less_nat_alt)
  qed (simp_all add: b64_char_def)
qed

lemma b64_dec_Some_iff: "b64_dec c = Some v \<longleftrightarrow> v < 64 \<and> c = b64_char v"
  using b64_dec_char b64_char_dec by blast

lemma byte_lt_64_iff: "v < (64 :: byte) \<longleftrightarrow> \<not> bit v 6 \<and> \<not> bit v 7"
proof -
  have "v < 64 \<longleftrightarrow> take_bit 6 (unat v) = unat v"
    by (simp add: word_less_nat_alt take_bit_nat_eq_self_iff)
  also have "\<dots> \<longleftrightarrow> (\<forall>n. bit v n \<longrightarrow> n < 6)"
    by (auto simp: bit_eq_iff bit_take_bit_iff bit_unsigned_iff)
  also have "\<dots> \<longleftrightarrow> (\<forall>n<8. bit v n \<longrightarrow> n < 6)"
    using bit_imp_le_length[of v] by auto
  also have "\<dots> \<longleftrightarrow> \<not> bit v 6 \<and> \<not> bit v 7"
    by (auto simp: numeral_eq_Suc less_Suc_eq)
  finally show ?thesis .
qed

lemma byte_eqI:
  fixes x y :: byte
  assumes "bit x 0 = bit y 0" "bit x 1 = bit y 1" "bit x 2 = bit y 2" "bit x 3 = bit y 3"
    "bit x 4 = bit y 4" "bit x 5 = bit y 5" "bit x 6 = bit y 6" "bit x 7 = bit y 7"
  shows "x = y"
proof (rule bit_word_eqI)
  fix n assume "n < LENGTH(8)"
  then have "n = 0 \<or> n = 1 \<or> n = 2 \<or> n = 3 \<or> n = 4 \<or> n = 5 \<or> n = 6 \<or> n = 7" by auto
  with assms show "bit x n = bit y n" by auto
qed

lemma byte_masks: "(3 :: byte) = mask 2" "(15 :: byte) = mask 4" "(63 :: byte) = mask 6"
  by (simp_all add: mask_eq_exp_minus_1)

lemma bit_byte_high: "8 \<le> n \<Longrightarrow> \<not> bit (v :: byte) n"
  using bit_imp_le_length[of v n] by auto

lemmas byte_bit_simps =
  bit_byte_high byte_masks bit_or_iff bit_and_iff bit_mask_iff bit_push_bit_iff bit_drop_bit_eq possible_bit_word

lemma sextet_bounds:
  "drop_bit 2 (x :: byte) < 64" "push_bit 4 (x AND 3) < 64"
  "push_bit 4 (x AND 3) OR drop_bit 4 y < 64" "push_bit 2 (y AND 15) < 64"
  "push_bit 2 (y AND 15) OR drop_bit 6 z < 64" "z AND 63 < 64"
  unfolding byte_lt_64_iff
  by (auto simp: byte_bit_simps)

lemma pack_sextets:
  "push_bit 2 (drop_bit 2 x) OR drop_bit 4 (push_bit 4 (x AND 3)) = (x :: byte)"
  "push_bit 2 (drop_bit 2 x) OR drop_bit 4 (push_bit 4 (x AND 3) OR drop_bit 4 y) = x"
  "push_bit 4 ((push_bit 4 (x AND 3) OR drop_bit 4 y) AND 15) OR drop_bit 2 (push_bit 2 (y AND 15)) = y"
  "push_bit 4 ((push_bit 4 (x AND 3) OR drop_bit 4 y) AND 15)
     OR drop_bit 2 (push_bit 2 (y AND 15) OR drop_bit 6 z) = y"
  "push_bit 6 ((push_bit 2 (y AND 15) OR drop_bit 6 z) AND 3) OR (z AND 63) = z"
  "push_bit 4 (x AND 3) AND 15 = (0 :: byte)" "push_bit 2 (y AND 15) AND 3 = (0 :: byte)"
  by (safe intro!: byte_eqI) (auto simp: byte_bit_simps)

lemma unpack_sextets:
  assumes "a < 64" "b < 64" "c < 64" "d < (64 :: byte)"
  shows "drop_bit 2 (push_bit 2 a OR drop_bit 4 b) = a"
    "push_bit 4 ((push_bit 2 a OR drop_bit 4 b) AND 3) OR drop_bit 4 (push_bit 4 (b AND 15) OR drop_bit 2 c) = b"
    "push_bit 2 ((push_bit 4 (b AND 15) OR drop_bit 2 c) AND 15) OR drop_bit 6 (push_bit 6 (c AND 3) OR d) = c"
    "(push_bit 6 (c AND 3) OR d) AND 63 = d"
  using assms[unfolded byte_lt_64_iff]
  by (safe intro!: byte_eqI) (auto simp: byte_bit_simps)

lemma unpack_padded:
  assumes "b < 64" "c < (64 :: byte)"
  shows "b AND 15 = 0 \<Longrightarrow> push_bit 4 ((push_bit 2 a OR drop_bit 4 b) AND 3) = b"
    "c AND 3 = 0 \<Longrightarrow> push_bit 2 ((push_bit 4 (b AND 15) OR drop_bit 2 c) AND 15) = c"
proof -
  assume "b AND 15 = 0"
  then have h: "bit (b AND 15) n = bit (0 :: byte) n" for n by simp
  have "\<not> bit b n" if "n < 4" for n
    using h[of n] that by (simp add: byte_bit_simps)
  with assms[unfolded byte_lt_64_iff]
  show "push_bit 4 ((push_bit 2 a OR drop_bit 4 b) AND 3) = b"
    by (intro byte_eqI) (auto simp: byte_bit_simps)
next
  assume "c AND 3 = 0"
  then have h: "bit (c AND 3) n = bit (0 :: byte) n" for n by simp
  have "\<not> bit c n" if "n < 2" for n
    using h[of n] that by (simp add: byte_bit_simps)
  with assms[unfolded byte_lt_64_iff]
  show "push_bit 2 ((push_bit 4 (b AND 15) OR drop_bit 2 c) AND 15) = c"
    by (intro byte_eqI) (auto simp: byte_bit_simps)
qed

text \<open>One group of the decoder, in each of its three shapes, against the encoder.\<close>

lemmas bit_push_through = push_bit_and push_bit_or drop_bit_and drop_bit_or

lemma b64_encode_groups: "b64_groups (b64_encode bs) = Inr bs"
  supply bit_push_through [simp del]
proof (induction bs rule: b64_encode.induct)
  case (2 x)
  then show ?case
    by (simp add: b64_char_dec sextet_bounds pack_sextets)
next
  case (3 x y)
  then show ?case
    by (simp add: b64_char_dec sextet_bounds pack_sextets)
next
  case (4 x y z rest)
  then show ?case
    by (simp add: b64_char_dec sextet_bounds pack_sextets)
qed simp

lemma b64_groups_encode: "b64_groups cs = Inr bs \<Longrightarrow> cs = b64_encode bs"
  supply bit_push_through [simp del]
proof (induction cs arbitrary: bs rule: b64_groups.induct)
  case (2 c0 c1 c2 c3 rest)
  obtain a b where ab: "b64_dec c0 = Some a" "b64_dec c1 = Some b"
    using "2.prems" by (auto simp: result_simps)
  then have bnd: "a < 64" "b < 64" and cs: "c0 = b64_char a" "c1 = b64_char b"
    by (auto simp: b64_dec_Some_iff)
  consider (one) "c2 = 61" | (two) c where "c2 \<noteq> 61" "b64_dec c2 = Some c" "c3 = 61"
    | (three) c d where "c2 \<noteq> 61" "b64_dec c2 = Some c" "c3 \<noteq> 61" "b64_dec c3 = Some d"
    using "2.prems" ab by (auto simp: result_simps split: if_splits)
  then show ?case
  proof cases
    case one
    then have "rest = []" "c3 = 61" "b AND 15 = 0" "bs = [push_bit 2 a OR drop_bit 4 b]"
      using "2.prems" ab by (auto simp: result_simps split: if_splits)
    with one cs bnd show ?thesis
      by (simp add: unpack_sextets(1)[of a b 0 0] unpack_padded)
  next
    case two
    then have "rest = []" "c AND 3 = 0"
      and "bs = [push_bit 2 a OR drop_bit 4 b, push_bit 4 (b AND 15) OR drop_bit 2 c]"
      using "2.prems" ab by (auto simp: result_simps split: if_splits)
    moreover have "c < 64" "c2 = b64_char c"
      using two by (auto simp: b64_dec_Some_iff)
    ultimately show ?thesis
      using two(3) cs bnd by (simp add: unpack_sextets(1,2)[of a b c 0] unpack_padded)
  next
    case three
    then obtain out where out: "b64_groups rest = Inr out"
      and bs: "bs = [push_bit 2 a OR drop_bit 4 b, push_bit 4 (b AND 15) OR drop_bit 2 c,
                     push_bit 6 (c AND 3) OR d] @ out"
      using "2.prems" ab by (auto simp: result_simps)
    have "rest = b64_encode out"
      using "2.IH"(3)[OF three(1,3) out] .
    moreover have "c < 64" "d < 64" "c2 = b64_char c" "c3 = b64_char d"
      using three by (auto simp: b64_dec_Some_iff)
    ultimately show ?thesis
      using cs bnd bs by (simp add: unpack_sextets)
  qed
qed simp_all

lemma length_b64_encode: "length (b64_encode bs) mod 4 = 0"
  by (induction bs rule: b64_encode.induct) simp_all

lemma b64_decode_Inr_iff: "b64_decode s = Inr bs \<longleftrightarrow> as_bytes s = b64_encode bs"
  by (auto simp: b64_decode_def Let_def length_b64_encode b64_encode_groups b64_groups_encode)

lemma code_b64_decode_error: "b64_decode s = Inl e \<Longrightarrow> e = b64_invalid"
proof -
  have "b64_groups cs = Inl e \<Longrightarrow> e = b64_invalid" for cs
    by (induction cs rule: b64_groups.induct) (auto simp: result_simps split: if_splits)
  then show "b64_decode s = Inl e \<Longrightarrow> e = b64_invalid"
    by (auto simp: b64_decode_def Let_def split: if_splits)
qed

section \<open>URL component lemmas\<close>

text \<open>Percent-decoding (RFC 3986 section 2.1), as the reference for the encoder.\<close>

definition hex_value :: "char \<Rightarrow> nat" where
  "hex_value c = (if is_ascii_digit c then of_char c - 48 else of_char c - 55)"

fun urldecode :: "string \<Rightarrow> string" where
  "urldecode [] = []"
| "urldecode (c # s) =
    (if c = CHR ''%''
     then (case s of a # b # t \<Rightarrow> char_of (16 * hex_value a + hex_value b) # urldecode t | _ \<Rightarrow> [])
     else c # urldecode s)"

lemma hex_value_table: "\<forall>n\<in>set [0..<16]. hex_value (upper_hex_digit n) = n"
  by code_simp

lemma hex_value_upper [simp]: "n < 16 \<Longrightarrow> hex_value (upper_hex_digit n) = n"
  using hex_value_table by (simp add: atLeast0LessThan)

lemma url_plain_not_percent: "url_plain c \<Longrightarrow> c \<noteq> CHR ''%''"
  by (auto simp: url_plain_def Let_def)

lemma urlencode_simps [simp]:
  "urlencode [] = []"
  "urlencode (c # s) =
    (if url_plain c then [c]
     else [CHR ''%'', upper_hex_digit (of_char c div 16), upper_hex_digit (of_char c mod 16)]) @ urlencode s"
  by (simp_all add: urlencode_def)

lemma of_char_less_256: "(of_char c :: nat) < 256"
  by simp

lemma urldecode_urlencode [simp]: "urldecode (urlencode s) = s"
proof (induction s)
  case (Cons c s)
  have "(of_char c :: nat) div 16 < 16"
    using of_char_less_256[of c] by linarith
  with Cons show ?case
    by (simp add: url_plain_not_percent)
qed simp

lemma urlencode_inject: "urlencode s = urlencode t \<longleftrightarrow> s = t"
  by (metis urldecode_urlencode)

section \<open>Properties\<close>

text \<open>A digest string parses to exactly the 32 bytes whose lower-case rendering it is, the
  syntactic check used for directory and lookup responses accepts exactly the strings that parse,
  and every rejection is reported as a digest mismatch.\<close>

theorem parse_digest_canonical:
  assumes "hex_decoder d"
  shows "(parse_digest d s = Inr b \<longleftrightarrow> length b = 32 \<and> s = ''sha256:'' @ hex32 b)
    \<and> (digest_valid s \<longleftrightarrow> is_ok (parse_digest d s))
    \<and> (parse_digest d s = Inl e \<longrightarrow> code e = DigestMismatch)"
  using assms code_parse_digest_error
  by (auto simp: parse_digest_Inr_iff digest_valid_parse_digest digest_text_def)

theorem parse_digest_canonical_witness:
  "parse_digest (\<lambda>s. Some (hex_pairs s)) (''sha256:'' @ hex32 (replicate 32 0xAB))
     = Inr (replicate 32 0xAB)"
proof -
  have "hex_decoder (\<lambda>s. Some (hex_pairs s))"
    by (simp add: hex_decoder_def)
  from parse_digest_canonical[OF this, of "''sha256:'' @ hex32 (replicate 32 0xAB)" "replicate 32 0xAB"]
  show ?thesis by simp
qed

text \<open>The three decimal parsers accept exactly the shortest decimal rendering of the numbers
  up to the signed 64-bit maximum, and they agree with each other.\<close>

theorem parse_count_canonical:
  "(parse_count s f = Inr n \<longleftrightarrow> s = show_nat n \<and> n \<le> i64_MAX)
    \<and> (decimal s g = Inr n \<longleftrightarrow> parse_count s f = Inr n)
    \<and> (is_ok (counter s) \<longleftrightarrow> is_ok (parse_count s f))"
  by (simp add: parse_count_Inr_iff decimal_Inr_iff counter_ok_iff is_ok_iff[of "parse_count s f"])

text \<open>C34: Base64 decoding accepts exactly the canonical padded encoding of a byte string and
  returns that byte string: no two texts decode to the same bytes, and every rejection is the one
  integrity error.\<close>

theorem b64_decode_canonical:
  "(b64_decode s = Inr bs \<longleftrightarrow> as_bytes s = b64_encode bs)
    \<and> (b64_decode s \<in> range Inr \<union> {Inl b64_invalid})"
  using code_b64_decode_error[of s] b64_decode_Inr_iff[of s bs] by (cases "b64_decode s") auto

text \<open>URL encoding loses nothing: percent-decoding restores the text, so two different paths or
  digests never share a request URL.\<close>

theorem urlencode_injective:
  "urldecode (urlencode s) = s \<and> (urlencode s = urlencode t \<longleftrightarrow> s = t)"
  by (simp add: urlencode_inject)

end
