(* ===== verification/Capabilities.thy ===== *)
theory Capabilities
  imports Wire_Text
begin

text \<open>
  Discovery of the server's capabilities (\<^verbatim>\<open>snapshot/capabilities.rs\<close>) and the limits that the
  HTTP client derives from them (\<^verbatim>\<open>snapshot/client.rs\<close>).  \<^verbatim>\<open>serde_json\<close> is not part of the
  program: the accessor \<^verbatim>\<open>Value::get\<close> and the derived decoders of the two wire structures are
  arguments, over an arbitrary type of JSON values.  The lemmas show that an accepted canonical
  advertisement can only lower the compiled-in limits.
\<close>

section \<open>Advertisements\<close>

record u32_limits =
  max_path_bytes :: nat
  max_path_components :: nat
  metadata_page_bytes :: nat
  metadata_leaf_entries :: nat
  max_json_request_bytes :: nat
  max_json_response_bytes :: nat
  max_directory_entries :: nat
  max_request_items :: nat
  max_metadata_items :: nat
  small_object_bytes :: nat
  small_batch_bytes :: nat
  object_frame_raw_bytes :: nat
  chunk_frame_raw_bytes :: nat
  frame_wire_bytes :: nat
  zstd_window_bytes :: nat
  chunk_size :: nat
  chunk_batch_bytes :: nat

record capability_limits = u32_limits +
  max_file_bytes :: nat

record limits_wire = u32_limits +
  max_file_bytes_text :: string

record canonical_capability_features =
  strict_publication :: bool
  cf_directory :: bool
  cf_lookup :: bool
  cf_metadata_pages :: bool
  cf_raw_blob :: bool
  small_objects :: bool
  cf_chunk_reads :: bool
  cf_full_hydration :: bool
  region_hints :: bool
  offline_export :: bool

record canonical_wire =
  wire_protocol_versions :: "nat list"
  wire_metadata_codecs :: "nat list"
  wire_frame_encodings :: "string list"
  wire_features :: canonical_capability_features
  wire_limits :: limits_wire

record canonical_capabilities =
  cc_frame_encodings :: "string list"
  cc_features :: canonical_capability_features
  cc_limits :: capability_limits

record capability_features =
  ft_resolve :: bool
  ft_directory :: bool
  ft_leases :: bool
  ft_lookup :: bool
  ft_metadata_pages :: bool
  ft_raw_blob :: bool
  ft_objects :: bool
  ft_chunk_reads :: bool
  ft_full_hydration :: bool

record capabilities =
  protocol_versions :: "nat list"
  metadata_codecs :: "nat list"
  frame_encodings :: "string list"
  features :: capability_features

datatype capability_advertisement =
    CanonicalAdvertisement canonical_capabilities
  | LegacyAdvertisement capabilities

definition reader_capabilities :: "capability_advertisement \<Rightarrow> capabilities" where
  "reader_capabilities a =
    (case a of
       LegacyAdvertisement caps \<Rightarrow> caps
     | CanonicalAdvertisement caps \<Rightarrow>
         \<lparr>protocol_versions = [2], metadata_codecs = [1], frame_encodings = [''identity''],
          features =
           \<lparr>ft_resolve = strict_publication (cc_features caps),
            ft_directory = cf_directory (cc_features caps),
            ft_leases = True,
            ft_lookup = cf_lookup (cc_features caps),
            ft_metadata_pages = cf_metadata_pages (cc_features caps),
            ft_raw_blob = cf_raw_blob (cc_features caps),
            ft_objects = small_objects (cc_features caps),
            ft_chunk_reads = cf_chunk_reads (cc_features caps),
            ft_full_hydration = cf_full_hydration (cc_features caps)\<rparr>\<rparr>)"

definition capability_invalid :: snapshot_error where
  "capability_invalid = SnapshotError_new IntegrityError
     ''capability advertisement violates its selected wire contract''"

definition wire_encodings_bad :: "string list \<Rightarrow> bool" where
  "wire_encodings_bad e =
    (\<not> (1 \<le> length e \<and> length e \<le> 2) \<or> \<not> list_ex (\<lambda>v. v = ''identity'') e
      \<or> list_ex (\<lambda>v. v \<noteq> ''identity'' \<and> v \<noteq> ''zstd'') e
      \<or> (length e = 2 \<and> e ! 0 = e ! 1))"

definition fixed_limits :: "'a u32_limits_scheme \<Rightarrow> (nat \<times> nat) list" where
  "fixed_limits l =
    [(metadata_page_bytes l, 16384), (metadata_leaf_entries l, 128),
     (small_object_bytes l, 262144), (object_frame_raw_bytes l, 1048576),
     (chunk_frame_raw_bytes l, 1048652), (chunk_size l, 1048576)]"

definition bounded_limits :: "'a u32_limits_scheme \<Rightarrow> (nat \<times> nat) list" where
  "bounded_limits l =
    [(max_path_bytes l, 4096), (max_path_components l, 256),
     (max_json_request_bytes l, 131072), (max_json_response_bytes l, 1048576),
     (max_directory_entries l, 256), (max_request_items l, 128),
     (max_metadata_items l, 64), (small_batch_bytes l, 8388608),
     (frame_wire_bytes l, 2097152), (zstd_window_bytes l, 8388608),
     (chunk_batch_bytes l, 134217728)]"

definition capability_limits_of :: "limits_wire \<Rightarrow> nat \<Rightarrow> capability_limits" where
  "capability_limits_of l n =
    \<lparr>max_path_bytes = max_path_bytes l, max_path_components = max_path_components l,
     metadata_page_bytes = metadata_page_bytes l, metadata_leaf_entries = metadata_leaf_entries l,
     max_json_request_bytes = max_json_request_bytes l,
     max_json_response_bytes = max_json_response_bytes l,
     max_directory_entries = max_directory_entries l, max_request_items = max_request_items l,
     max_metadata_items = max_metadata_items l, small_object_bytes = small_object_bytes l,
     small_batch_bytes = small_batch_bytes l, object_frame_raw_bytes = object_frame_raw_bytes l,
     chunk_frame_raw_bytes = chunk_frame_raw_bytes l, frame_wire_bytes = frame_wire_bytes l,
     zstd_window_bytes = zstd_window_bytes l, chunk_size = chunk_size l,
     chunk_batch_bytes = chunk_batch_bytes l, max_file_bytes = n\<rparr>"

text \<open>
  The checks on a decoded canonical advertisement, then the selection between the two contracts:
  presence of a marker member selects, and a canonical advertisement that fails never falls back.
\<close>

definition canonical_from_wire :: "canonical_wire \<Rightarrow> canonical_capabilities result" where
  "canonical_from_wire wire =
    (if wire_protocol_versions wire \<noteq> [2] \<or> wire_metadata_codecs wire \<noteq> [1]
        \<or> wire_encodings_bad (wire_frame_encodings wire)
     then Inl capability_invalid
     else
       let limits = wire_limits wire in
       rbind (map_err (\<lambda>_. capability_invalid)
                (parse_count (max_file_bytes_text limits) ''max_file_bytes'')) (\<lambda>n.
       if 8796093022208 < n
          \<or> list_ex (\<lambda>(actual, fixed). actual \<noteq> fixed) (fixed_limits limits)
          \<or> list_ex (\<lambda>(actual, maximum). actual = 0 \<or> maximum < actual) (bounded_limits limits)
       then Inl capability_invalid
       else Inr \<lparr>cc_frame_encodings = wire_frame_encodings wire,
                 cc_features = wire_features wire,
                 cc_limits = capability_limits_of limits n\<rparr>))"

definition parse_capabilities ::
  "('v \<Rightarrow> string \<Rightarrow> 'v option) \<Rightarrow> ('v \<Rightarrow> capabilities option) \<Rightarrow> ('v \<Rightarrow> canonical_wire option)
    \<Rightarrow> 'v \<Rightarrow> capability_advertisement result" where
  "parse_capabilities get legacy_from_value wire_from_value value =
    (let features = get value ''features'';
         has = (\<lambda>key. Option.bind features (\<lambda>f. get f key) \<noteq> None);
         legacy_marker = list_ex has [''resolve'', ''leases'', ''objects''];
         canonical_marker = list_ex has [''strict_publication'', ''small_objects'', ''region_hints'']
           \<or> Option.bind (get value ''limits'') (\<lambda>l. get l ''max_file_bytes'') \<noteq> None
     in if \<not> canonical_marker \<and> legacy_marker
        then rbind (ok_or (legacy_from_value value) capability_invalid)
               (\<lambda>caps. Inr (LegacyAdvertisement caps))
        else rbind (ok_or (wire_from_value value) capability_invalid) (\<lambda>wire.
             rbind (canonical_from_wire wire) (\<lambda>caps. Inr (CanonicalAdvertisement caps))))"

section \<open>The limits of a client\<close>

definition OBJECT_CAP :: nat where "OBJECT_CAP = 256 * 1024"
definition MAX_FILE_SIZE :: nat where "MAX_FILE_SIZE = 8 * 1024 * 1024 * 1024 * 1024"
definition MAX_JSON_REQUEST_BYTES :: nat where "MAX_JSON_REQUEST_BYTES = 131072"
definition MAX_JSON_RESPONSE_BYTES :: nat where "MAX_JSON_RESPONSE_BYTES = 1048576"
definition MAX_BUFFERED_FILE_BYTES :: nat where "MAX_BUFFERED_FILE_BYTES = 64 * 1024 * 1024"

text \<open>The part of \<^verbatim>\<open>Mst2Client\<close> that the checks consult: the profile of the advertisement.\<close>

record mst2_client =
  profile :: "canonical_capabilities option"

definition with_advertisement :: "mst2_client \<Rightarrow> capability_advertisement \<Rightarrow> mst2_client" where
  "with_advertisement self a =
    self\<lparr>profile := (case a of CanonicalAdvertisement caps \<Rightarrow> Some caps
                                  | LegacyAdvertisement _ \<Rightarrow> None)\<rparr>"

definition is_canonical :: "mst2_client \<Rightarrow> bool" where
  "is_canonical self = (profile self \<noteq> None)"

definition limit_or :: "nat \<Rightarrow> (capability_limits \<Rightarrow> nat) \<Rightarrow> mst2_client \<Rightarrow> nat" where
  "limit_or fallback field self =
    (case profile self of None \<Rightarrow> fallback | Some caps \<Rightarrow> field (cc_limits caps))"

definition request_byte_limit :: "mst2_client \<Rightarrow> nat" where
  "request_byte_limit = limit_or MAX_JSON_REQUEST_BYTES max_json_request_bytes"
definition response_byte_limit :: "mst2_client \<Rightarrow> nat" where
  "response_byte_limit = limit_or MAX_JSON_RESPONSE_BYTES max_json_response_bytes"
definition request_item_limit :: "mst2_client \<Rightarrow> nat" where
  "request_item_limit = limit_or 128 max_request_items"
definition metadata_item_limit :: "mst2_client \<Rightarrow> nat" where
  "metadata_item_limit = limit_or 64 max_metadata_items"
definition directory_limit :: "mst2_client \<Rightarrow> nat" where
  "directory_limit = limit_or 256 max_directory_entries"
definition object_byte_limit :: "mst2_client \<Rightarrow> nat" where
  "object_byte_limit = limit_or (8 * 1024 * 1024) small_batch_bytes"
definition chunk_byte_limit :: "mst2_client \<Rightarrow> nat" where
  "chunk_byte_limit = limit_or (128 * 1024 * 1024) chunk_batch_bytes"
definition frame_wire_limit :: "mst2_client \<Rightarrow> nat" where
  "frame_wire_limit = limit_or (2 * 1024 * 1024) frame_wire_bytes"

definition validate_file_size :: "mst2_client \<Rightarrow> nat \<Rightarrow> unit result" where
  "validate_file_size self bytes =
    (if limit_or MAX_FILE_SIZE max_file_bytes self < bytes
     then Inl (SnapshotError_new LimitExceeded ''file exceeds the discovered serving limit'')
     else Inr ())"

definition validate_path :: "mst2_client \<Rightarrow> string \<Rightarrow> unit result" where
  "validate_path self path =
    (case profile self of
       None \<Rightarrow> Inr ()
     | Some caps \<Rightarrow>
         let limits = cc_limits caps;
             path = (case strip_prefix ''/'' path of None \<Rightarrow> path | Some p \<Rightarrow> p)
         in if max_path_bytes limits < length path + 1
               \<or> (path \<noteq> [] \<and> max_path_components limits < length (split_on CHR ''/'' path))
            then Inl (SnapshotError_new LimitExceeded ''path exceeds the discovered serving limit'')
            else Inr ())"

definition feature_enabled :: "canonical_capability_features \<Rightarrow> string \<Rightarrow> bool" where
  "feature_enabled f endpoint =
    (if endpoint = ''resolve'' then strict_publication f
     else if endpoint = ''directory'' then cf_directory f
     else if endpoint = ''lookup'' then cf_lookup f
     else if endpoint = ''metadata/pages'' then cf_metadata_pages f
     else if endpoint = ''blob'' then cf_raw_blob f
     else if endpoint = ''objects'' then small_objects f
     else if endpoint = ''chunks'' \<or> endpoint = ''chunk-map'' then cf_chunk_reads f
     else False)"

definition require_feature :: "mst2_client \<Rightarrow> string \<Rightarrow> unit result" where
  "require_feature self endpoint =
    (case profile self of
       None \<Rightarrow> Inr ()
     | Some caps \<Rightarrow>
         if \<not> feature_enabled (cc_features caps) endpoint
         then Inl (SnapshotError_new SnapshotNotReady ''endpoint is disabled by discovery'')
         else Inr ())"

definition validate_encoding :: "mst2_client \<Rightarrow> string option \<Rightarrow> unit result" where
  "validate_encoding self encoding =
    (if is_canonical self \<and> (case encoding of None \<Rightarrow> False | Some e \<Rightarrow> e \<noteq> ''identity'')
     then Inl (SnapshotError_new InvalidRequest ''canonical reader selects identity frames'')
     else Inr ())"

section \<open>Lemmas\<close>

definition limits_ok :: "capability_limits \<Rightarrow> bool" where
  "limits_ok l =
    (max_file_bytes l \<le> MAX_FILE_SIZE
      \<and> list_all (\<lambda>(actual, fixed). actual = fixed) (fixed_limits l)
      \<and> list_all (\<lambda>(actual, maximum). 0 < actual \<and> actual \<le> maximum) (bounded_limits l))"

definition client_ok :: "mst2_client \<Rightarrow> bool" where
  "client_ok c = (case profile c of None \<Rightarrow> True | Some caps \<Rightarrow> limits_ok (cc_limits caps))"

lemma limits_of_wire [simp]:
  "fixed_limits (capability_limits_of l n) = fixed_limits l"
  "bounded_limits (capability_limits_of l n) = bounded_limits l"
  "max_file_bytes (capability_limits_of l n) = n"
  by (simp_all add: fixed_limits_def bounded_limits_def capability_limits_of_def)

lemma not_list_ex_pairs:
  "\<not> list_ex (\<lambda>(a, f). a \<noteq> f) ps \<longleftrightarrow> list_all (\<lambda>(a, f). a = f) ps"
  "\<not> list_ex (\<lambda>(a, m). a = 0 \<or> m < a) qs \<longleftrightarrow> list_all (\<lambda>(a, m). 0 < a \<and> a \<le> (m :: nat)) qs"
proof -
  show "\<not> list_ex (\<lambda>(a, f). a \<noteq> f) ps \<longleftrightarrow> list_all (\<lambda>(a, f). a = f) ps"
    by (induction ps) auto
  show "\<not> list_ex (\<lambda>(a, m). a = 0 \<or> m < a) qs \<longleftrightarrow> list_all (\<lambda>(a, m). 0 < a \<and> a \<le> (m :: nat)) qs"
    by (induction qs) auto
qed

lemma canonical_from_wire_ok: "canonical_from_wire w = Inr caps \<Longrightarrow> limits_ok (cc_limits caps)"
  by (auto simp: canonical_from_wire_def result_simps Let_def limits_ok_def MAX_FILE_SIZE_def
      not_list_ex_pairs split: if_splits)

lemma parse_capabilities_client_ok:
  assumes "parse_capabilities get lv wv value = Inr a"
  shows "client_ok (with_advertisement c a)"
proof (cases a)
  case (CanonicalAdvertisement caps)
  with assms obtain wire where "canonical_from_wire wire = Inr caps"
    by (auto simp: parse_capabilities_def Let_def result_simps split: if_splits)
  then show ?thesis
    using CanonicalAdvertisement canonical_from_wire_ok
    by (simp add: client_ok_def with_advertisement_def)
qed (simp add: client_ok_def with_advertisement_def)

lemmas client_limit_defs =
  request_byte_limit_def response_byte_limit_def request_item_limit_def metadata_item_limit_def
  directory_limit_def object_byte_limit_def chunk_byte_limit_def frame_wire_limit_def

lemma client_ok_bounds:
  assumes "client_ok c"
  shows "request_byte_limit c \<in> {1..131072}" "response_byte_limit c \<in> {1..1048576}"
    "request_item_limit c \<in> {1..128}" "metadata_item_limit c \<in> {1..64}"
    "directory_limit c \<in> {1..256}" "object_byte_limit c \<in> {1..8388608}"
    "chunk_byte_limit c \<in> {1..134217728}" "frame_wire_limit c \<in> {1..2097152}"
  using assms
  by (auto simp: client_ok_def client_limit_defs limit_or_def limits_ok_def bounded_limits_def
      MAX_JSON_REQUEST_BYTES_def MAX_JSON_RESPONSE_BYTES_def split: option.splits)

lemma client_ok_file_size:
  "client_ok c \<Longrightarrow> validate_file_size c n = Inr u \<Longrightarrow> n \<le> MAX_FILE_SIZE"
  by (auto simp: client_ok_def validate_file_size_def limit_or_def limits_ok_def
      split: option.splits if_splits)

section \<open>Properties\<close>


definition sample_limits_wire :: limits_wire where
  "sample_limits_wire =
    \<lparr>max_path_bytes = 4096, max_path_components = 256, metadata_page_bytes = 16384,
     metadata_leaf_entries = 128, max_json_request_bytes = 65536,
     max_json_response_bytes = 1048576, max_directory_entries = 100, max_request_items = 128,
     max_metadata_items = 64, small_object_bytes = 262144, small_batch_bytes = 8388608,
     object_frame_raw_bytes = 1048576, chunk_frame_raw_bytes = 1048652,
     frame_wire_bytes = 2097152, zstd_window_bytes = 8388608, chunk_size = 1048576,
     chunk_batch_bytes = 134217728, max_file_bytes_text = ''1000''\<rparr>"

definition sample_wire :: canonical_wire where
  "sample_wire =
    \<lparr>wire_protocol_versions = [2], wire_metadata_codecs = [1],
     wire_frame_encodings = [''identity''],
     wire_features =
      \<lparr>strict_publication = True, cf_directory = True, cf_lookup = True, cf_metadata_pages = True,
       cf_raw_blob = True, small_objects = True, cf_chunk_reads = True, cf_full_hydration = True,
       region_hints = False, offline_export = False\<rparr>,
     wire_limits = sample_limits_wire\<rparr>"

definition sample_advertisement :: capability_advertisement where
  "sample_advertisement =
    CanonicalAdvertisement
     \<lparr>cc_frame_encodings = [''identity''], cc_features = wire_features sample_wire,
      cc_limits = capability_limits_of sample_limits_wire 1000\<rparr>"

lemma parse_sample_advertisement:
  "parse_capabilities (\<lambda>_ _. None) (\<lambda>_. None) (\<lambda>_. Some sample_wire) () = Inr sample_advertisement"
  by code_simp


end
