(* ===== verification/Paths.thy ===== *)
theory Paths
  imports Wire_Text
begin

text \<open>
  Path admission (\<^verbatim>\<open>snapshot/auth.rs\<close>, \<^verbatim>\<open>snapshot/closure.rs\<close>): the profile limits on a full path
  and the composition of a scope with a path relative to it.  The grammar check
  \<^verbatim>\<open>mst2_codec::descriptor::validate_scope\<close> belongs to the codec crate and is an argument that
  returns the displayed error.
\<close>

type_synonym scope_grammar = "string \<Rightarrow> string + unit"

definition trim_start_slashes :: "string \<Rightarrow> string" where
  "trim_start_slashes s = dropWhile (\<lambda>c. c = CHR ''/'') s"

definition validate_scope :: "scope_grammar \<Rightarrow> string \<Rightarrow> unit result" where
  "validate_scope grammar scope =
    (if 4096 < length scope
     then Inl (SnapshotError_new LimitExceeded ''path exceeds 4096 bytes'')
     else
       let parts = split_on CHR ''/'' (trim_start_slashes scope) in
       if (scope \<noteq> ''/'' \<and> 256 < length parts) \<or> list_ex (\<lambda>p. 255 < length p) parts
       then Inl (SnapshotError_new LimitExceeded ''full path exceeds profile limits'')
       else map_err (\<lambda>e. SnapshotError_new ScopeInvalid (''invalid path: '' @ e)) (grammar scope))"

definition validate_relative_path :: "scope_grammar \<Rightarrow> string \<Rightarrow> string \<Rightarrow> unit result" where
  "validate_relative_path grammar scope path =
    (let path = (if path = [] then ''/'' else path);
         relative = (if take 1 path = ''/'' then path else ''/'' @ path)
     in rbind (validate_scope grammar relative) (\<lambda>_.
        let composed = (if scope = ''/'' then relative
                        else if relative = ''/'' then scope
                        else scope @ relative)
        in validate_scope grammar composed))"

definition closure_limit :: "string \<Rightarrow> snapshot_error" where
  "closure_limit m = SnapshotError_new LimitExceeded m"

definition closure_integrity :: "string \<Rightarrow> snapshot_error" where
  "closure_integrity m = SnapshotError_new IntegrityError m"

definition validate_absolute_path :: "scope_grammar \<Rightarrow> string \<Rightarrow> unit result" where
  "validate_absolute_path grammar path =
    (if 4096 < length path
        \<or> (path \<noteq> ''/'' \<and> 256 < length (split_on CHR ''/'' (trim_start_slashes path)))
        \<or> list_ex (\<lambda>component. 255 < length component) (split_on CHR ''/'' path)
     then Inl (closure_limit ''full path exceeds serving profile limits'')
     else map_err (\<lambda>e. closure_integrity (''invalid closure path: '' @ e)) (grammar path))"

definition composed_path :: "string \<Rightarrow> string \<Rightarrow> string" where
  "composed_path scope relative =
    (if relative = [] then scope
     else if scope = ''/'' then ''/'' @ relative
     else scope @ ''/'' @ relative)"

definition validate_composed_path :: "scope_grammar \<Rightarrow> string \<Rightarrow> string \<Rightarrow> unit result" where
  "validate_composed_path grammar scope relative =
    validate_absolute_path grammar (composed_path scope relative)"

section \<open>Lemmas\<close>

lemma list_ex_split_trim:
  "list_ex (\<lambda>p. 255 < length p) (split_on CHR ''/'' (trim_start_slashes s))
     \<longleftrightarrow> list_ex (\<lambda>p. 255 < length p) (split_on CHR ''/'' s)"
  by (induction s) (auto simp: trim_start_slashes_def)

lemma long_component_iff:
  "list_ex (\<lambda>p. 255 < length p) ps \<longleftrightarrow> \<not> (\<forall>p\<in>set ps. length p \<le> 255)"
  by (auto simp: list_ex_iff not_le)

lemma validate_scope_ok_iff:
  "is_ok (validate_scope g s) \<longleftrightarrow>
    length s \<le> 4096 \<and> (s = ''/'' \<or> length (split_on CHR ''/'' (trim_start_slashes s)) \<le> 256)
    \<and> (\<forall>p\<in>set (split_on CHR ''/'' s). length p \<le> 255) \<and> is_ok (g s)"
  unfolding validate_scope_def Let_def list_ex_split_trim
  unfolding long_component_iff
  by (cases "g s") auto

lemma validate_absolute_path_ok_iff:
  "is_ok (validate_absolute_path g s) \<longleftrightarrow>
    length s \<le> 4096 \<and> (s = ''/'' \<or> length (split_on CHR ''/'' (trim_start_slashes s)) \<le> 256)
    \<and> (\<forall>p\<in>set (split_on CHR ''/'' s). length p \<le> 255) \<and> is_ok (g s)"
  unfolding validate_absolute_path_def long_component_iff
  by (cases "g s") auto

lemma validate_relative_path_composed:
  assumes "path = [] \<or> path = ''/'' \<or> hd path \<noteq> CHR ''/''" "scope \<noteq> []"
  shows "is_ok (validate_relative_path g scope path) \<longleftrightarrow>
    is_ok (validate_scope g (composed_path ''/'' (if path = ''/'' then [] else path)))
    \<and> is_ok (validate_scope g (composed_path scope (if path = ''/'' then [] else path)))"
proof -
  have "take 1 path \<noteq> ''/''" if "path \<noteq> []" "path \<noteq> ''/''"
    using assms that by (cases path) auto
  then show ?thesis
    by (auto simp: validate_relative_path_def composed_path_def Let_def is_ok_iff result_simps)
qed

section \<open>Properties\<close>

text \<open>The two implementations of the full-path limits, the one of the authorisation context and
  the one of the closure validator, admit the same paths; an admitted path has at most 4096 bytes,
  256 components and 255 bytes in each component; and a relative path is admitted exactly when both
  it and its composition with the scope are.\<close>

theorem path_admission_agrees:
  "(is_ok (validate_scope g s) \<longleftrightarrow> is_ok (validate_absolute_path g s))
    \<and> (is_ok (validate_scope g s) \<longrightarrow>
        length s \<le> 4096 \<and> (s = ''/'' \<or> length (split_on CHR ''/'' (trim_start_slashes s)) \<le> 256)
        \<and> (\<forall>p\<in>set (split_on CHR ''/'' s). length p \<le> 255) \<and> is_ok (g s))
    \<and> (p \<noteq> [] \<and> hd p \<noteq> CHR ''/'' \<and> scope \<noteq> [] \<longrightarrow>
        (is_ok (validate_relative_path g scope p) \<longleftrightarrow>
          is_ok (validate_composed_path g ''/'' p) \<and> is_ok (validate_composed_path g scope p)))"
proof -
  have "p \<noteq> ''/''" if "hd p \<noteq> CHR ''/''"
    using that by auto
  then show ?thesis
    using validate_relative_path_composed[of p scope g]
    by (auto simp: validate_scope_ok_iff validate_absolute_path_ok_iff validate_composed_path_def)
qed

theorem path_admission_agrees_witness:
  "is_ok (validate_relative_path (\<lambda>_. Inr ()) ''/third-party'' ''src/lib.rs'')
    \<and> is_ok (validate_composed_path (\<lambda>_. Inr ()) ''/third-party'' ''src/lib.rs'')"
proof -
  have "is_ok (validate_relative_path (\<lambda>_. Inr ()) ''/third-party'' ''src/lib.rs'')"
    by code_simp
  then show ?thesis
    using path_admission_agrees[of "\<lambda>_. Inr ()" "''/''" "''src/lib.rs''" "''/third-party''"] by simp
qed

end
