(* ===== verification/Directory.thy ===== *)
theory Directory
  imports Capabilities Paths
begin

text \<open>
  Directory and lookup responses: the page and node checks of \<^verbatim>\<open>snapshot/directory.rs\<close> and
  \<^verbatim>\<open>snapshot/lookup.rs\<close>, the requests of \<^verbatim>\<open>snapshot/client.rs\<close> that run them, and the
  enumeration loop \<^verbatim>\<open>directory_page\<close> of \<^verbatim>\<open>snapshot/reader.rs\<close> with its pagination state.
  The network is an argument: the n-th request of an enumeration receives whatever response the
  transport chooses.
\<close>

section \<open>Wire structures\<close>

record proof_page =
  pp_digest :: string
  pp_data_base64 :: string

record dir_entry =
  de_name :: string
  de_fs_kind :: string
  de_size :: "string option"
  de_content_digest :: "string option"
  de_directory_root :: "string option"

record directory_response =
  dr_snapshot_id :: string
  dr_path :: string
  dr_metadata_root :: string
  dr_directory_root :: string
  dr_node_class :: string
  dr_lifecycle :: string
  dr_range_start_exclusive :: "string option"
  dr_entries :: "dir_entry list"
  dr_entry_count :: string
  dr_next_cursor :: "string option"
  dr_proof_pages :: "proof_page list"

record lookup_node =
  ln_fs_kind :: string
  ln_name :: "string option"
  ln_size :: "string option"
  ln_content_digest :: "string option"
  ln_directory_root :: "string option"

record lookup_node_wire = lookup_node +
  lw_node_class :: "string option"
  lw_lifecycle :: "string option"

record lookup_result =
  lr_path :: string
  lr_status :: string
  lr_node :: "lookup_node option"

record lookup_response =
  lk_snapshot_id :: string
  lk_results :: "lookup_result list"

definition is_some_and :: "'a option \<Rightarrow> ('a \<Rightarrow> bool) \<Rightarrow> bool" where
  "is_some_and x p = (case x of None \<Rightarrow> False | Some a \<Rightarrow> p a)"

definition node_class_known :: "string \<Rightarrow> bool" where
  "node_class_known c =
    (c \<in> set [''native_tree'', ''native_checkout_root'', ''import_root'', ''import_tree'', ''aggregate''])"

definition lifecycle_known :: "string \<Rightarrow> bool" where
  "lifecycle_known l = (l = ''mutable'' \<or> l = ''immutable_release'')"

definition lookup_node_deserialize :: "lookup_node_wire \<Rightarrow> string + lookup_node" where
  "lookup_node_deserialize wire =
    (if is_some_and (lw_node_class wire)
          (\<lambda>class. ln_fs_kind wire \<noteq> ''directory'' \<or> \<not> node_class_known class)
        \<or> is_some_and (lw_lifecycle wire) (\<lambda>value. \<not> lifecycle_known value)
     then Inl ''invalid lookup node provenance fields''
     else Inr \<lparr>ln_fs_kind = ln_fs_kind wire, ln_name = ln_name wire, ln_size = ln_size wire,
               ln_content_digest = ln_content_digest wire,
               ln_directory_root = ln_directory_root wire\<rparr>)"

section \<open>Directory pages\<close>

definition directory_integrity :: snapshot_error where
  "directory_integrity = SnapshotError_new IntegrityError
     ''directory response is inconsistent with its fixed request or pagination''"

text \<open>One iteration of the loop over the entries; the state is the previous name.\<close>

definition validate_entry :: "string option \<Rightarrow> dir_entry \<Rightarrow> (string option) result" where
  "validate_entry previous entry =
    (if \<not> name_valid (de_name entry) \<or> is_some_and previous (\<lambda>name. de_name entry \<le> name)
     then Inl directory_integrity
     else if de_fs_kind entry = ''directory'' then
       (if de_size entry \<noteq> None \<or> de_content_digest entry \<noteq> None
           \<or> \<not> is_some_and (de_directory_root entry) directory_digest_valid
        then Inl directory_integrity else Inr (Some (de_name entry)))
     else if de_fs_kind entry \<in> set [''regular'', ''executable'', ''symlink''] then
       (if de_directory_root entry \<noteq> None
           \<or> \<not> is_some_and (de_content_digest entry) digest_valid
        then Inl directory_integrity
        else rbind (ok_or (de_size entry) directory_integrity) (\<lambda>text.
             rbind (parse_count text ''file size'') (\<lambda>bytes.
             let cap = (if de_fs_kind entry = ''symlink'' then 4095 else MAX_FILE_SIZE) in
             if cap < bytes
             then Inl (SnapshotError_new LimitExceeded
                         ''directory file size exceeds the filesystem profile'')
             else if de_fs_kind entry = ''symlink'' \<and> bytes = 0 then Inl directory_integrity
             else Inr (Some (de_name entry)))))
     else Inl directory_integrity)"

definition validate_page ::
  "directory_response \<Rightarrow> string \<Rightarrow> string \<Rightarrow> nat \<Rightarrow> string option \<Rightarrow> unit result" where
  "validate_page page sid path limit cursor =
    rbind (parse_count (dr_entry_count page) ''directory entry_count'') (\<lambda>count.
    if dr_snapshot_id page \<noteq> sid
       \<or> dr_path page \<noteq> path
       \<or> limit < length (dr_entries page)
       \<or> count < length (dr_entries page)
       \<or> \<not> directory_digest_valid (dr_metadata_root page)
       \<or> \<not> directory_digest_valid (dr_directory_root page)
       \<or> \<not> node_class_known (dr_node_class page)
       \<or> \<not> lifecycle_known (dr_lifecycle page)
       \<or> (cursor = None \<and> dr_range_start_exclusive page \<noteq> None)
       \<or> is_some_and (dr_range_start_exclusive page) (\<lambda>name. \<not> name_valid name)
       \<or> is_some_and (dr_next_cursor page)
           (\<lambda>next. next = [] \<or> Some next = cursor \<or> dr_entries page = [])
    then Inl directory_integrity
    else rbind (try_fold validate_entry (dr_range_start_exclusive page) (dr_entries page))
           (\<lambda>_. Inr ()))"

section \<open>Pagination progress\<close>

record progress =
  pg_root :: "string option"
  pg_count :: "nat option"
  pg_node_class :: "string option"
  pg_lifecycle :: "string option"
  pg_seen :: nat
  pg_last :: "string option"

definition progress_default :: progress where
  "progress_default =
    \<lparr>pg_root = None, pg_count = None, pg_node_class = None, pg_lifecycle = None,
     pg_seen = 0, pg_last = None\<rparr>"

definition for_root :: "string \<Rightarrow> progress" where
  "for_root root = progress_default\<lparr>pg_root := Some root\<rparr>"

definition last_name :: "dir_entry list \<Rightarrow> string option" where
  "last_name es = (if es = [] then None else Some (de_name (last es)))"

definition accept :: "progress \<Rightarrow> directory_response \<Rightarrow> string \<Rightarrow> progress result" where
  "accept self page metadata_root =
    rbind (parse_count (dr_entry_count page) ''directory entry_count'') (\<lambda>count.
    rbind (ok_or (checked_add (pg_seen self) (length (dr_entries page))) directory_integrity) (\<lambda>seen.
    if dr_metadata_root page \<noteq> metadata_root
       \<or> (dr_path page = ''/'' \<and> dr_directory_root page \<noteq> metadata_root)
       \<or> is_some_and (pg_root self) (\<lambda>root. root \<noteq> dr_directory_root page)
       \<or> is_some_and (pg_count self) (\<lambda>fixed. fixed \<noteq> count)
       \<or> is_some_and (pg_node_class self) (\<lambda>fixed. fixed \<noteq> dr_node_class page)
       \<or> is_some_and (pg_lifecycle self) (\<lambda>fixed. fixed \<noteq> dr_lifecycle page)
       \<or> dr_range_start_exclusive page \<noteq> pg_last self
       \<or> count < seen
       \<or> (dr_next_cursor page = None \<and> seen \<noteq> count)
    then Inl directory_integrity
    else Inr \<lparr>pg_root = Some (dr_directory_root page), pg_count = Some count,
              pg_node_class = Some (dr_node_class page), pg_lifecycle = Some (dr_lifecycle page),
              pg_seen = seen, pg_last = last_name (dr_entries page)\<rparr>))"

section \<open>Requests\<close>

definition snapshots_url :: "string \<Rightarrow> string \<Rightarrow> string" where
  "snapshots_url base tail = base @ ''/api/v2/snapshots'' @ tail"

definition directory_url :: "string \<Rightarrow> string \<Rightarrow> string \<Rightarrow> nat \<Rightarrow> string option \<Rightarrow> string" where
  "directory_url base snapshot_id path limit cursor =
    snapshots_url base
      (''/'' @ snapshot_id @ ''/directory?path='' @ urlencode path @ ''&limit='' @ show_nat limit)
    @ (case cursor of None \<Rightarrow> [] | Some c \<Rightarrow> ''&cursor='' @ urlencode c)"

definition check_entry_sizes :: "mst2_client \<Rightarrow> dir_entry list \<Rightarrow> unit result" where
  "check_entry_sizes client entries =
    try_fold (\<lambda>_ entry. case de_size entry of
        None \<Rightarrow> Inr ()
      | Some text \<Rightarrow> rbind (parse_count text ''directory size'') (validate_file_size client))
      () entries"

text \<open>\<^verbatim>\<open>send\<close> stands for the HTTP exchange and the decoding of its body.\<close>

definition directory_request ::
  "mst2_client \<Rightarrow> string \<Rightarrow> (string \<Rightarrow> directory_response result)
    \<Rightarrow> string \<Rightarrow> string \<Rightarrow> nat \<Rightarrow> string option \<Rightarrow> directory_response result" where
  "directory_request client base send snapshot_id path limit cursor =
    rbind (require_feature client ''directory'') (\<lambda>_.
    rbind (validate_path client path) (\<lambda>_.
    if \<not> (1 \<le> limit \<and> limit \<le> 256)
    then Inl (SnapshotError_new ScopeInvalid ''directory limit must be 1..256'')
    else
      let limit = min limit (directory_limit client) in
      rbind (send (directory_url base snapshot_id path limit cursor)) (\<lambda>page.
      rbind (validate_page page snapshot_id path limit cursor) (\<lambda>_.
      rbind (check_entry_sizes client (dr_entries page)) (\<lambda>_.
      Inr page)))))"

definition lookup_integrity :: snapshot_error where
  "lookup_integrity = SnapshotError_new IntegrityError
     ''lookup node fields are inconsistent with the requested path or filesystem kind''"

definition validate_node :: "lookup_node \<Rightarrow> string \<Rightarrow> unit result" where
  "validate_node node path =
    (if (if path = ''/''
         then ln_name node \<noteq> None \<or> ln_fs_kind node \<noteq> ''directory''
         else \<not> is_some_and (ln_name node)
                (\<lambda>name. name_valid name \<and> name = last (split_on CHR ''/'' path)))
     then Inl lookup_integrity
     else if ln_fs_kind node = ''directory'' then
       (if ln_size node \<noteq> None \<or> ln_content_digest node \<noteq> None
           \<or> \<not> is_some_and (ln_directory_root node) directory_digest_valid
        then Inl lookup_integrity else Inr ())
     else if ln_fs_kind node \<in> set [''regular'', ''executable'', ''symlink''] then
       (if ln_directory_root node \<noteq> None
           \<or> \<not> is_some_and (ln_content_digest node) digest_valid
        then Inl lookup_integrity
        else rbind (ok_or (ln_size node) lookup_integrity) (\<lambda>text.
             rbind (parse_count text ''lookup size'') (\<lambda>bytes.
             let cap = (if ln_fs_kind node = ''symlink'' then 4095 else MAX_FILE_SIZE) in
             if cap < bytes
             then Inl (SnapshotError_new LimitExceeded
                         ''lookup file size exceeds the filesystem profile'')
             else if ln_fs_kind node = ''symlink'' \<and> bytes = 0 then Inl lookup_integrity
             else Inr ())))
     else Inl lookup_integrity)"

definition lookup_binding_error :: snapshot_error where
  "lookup_binding_error = SnapshotError_new IntegrityError
     ''lookup response does not bind every ordered result to its requested snapshot and path''"

definition check_lookup_result :: "mst2_client \<Rightarrow> lookup_result \<times> string \<Rightarrow> unit result" where
  "check_lookup_result client rp =
    (case rp of (result, path) \<Rightarrow>
      if lr_path result \<noteq> path
         \<or> (if lr_status result = ''found'' then lr_node result = None
            else if lr_status result \<in> set [''absent'', ''not_directory'', ''symlink_traversal'']
            then lr_node result \<noteq> None
            else True)
      then Inl lookup_binding_error
      else case lr_node result of
          None \<Rightarrow> Inr ()
        | Some node \<Rightarrow>
            rbind (validate_node node path) (\<lambda>_.
            case ln_size node of
              None \<Rightarrow> Inr ()
            | Some text \<Rightarrow> rbind (parse_count text ''lookup size'') (validate_file_size client)))"

definition lookup_request ::
  "mst2_client \<Rightarrow> string \<Rightarrow> (string \<Rightarrow> string list \<Rightarrow> lookup_response result) \<Rightarrow> string
    \<Rightarrow> string list \<Rightarrow> lookup_response result" where
  "lookup_request client base send snapshot_id paths =
    rbind (require_feature client ''lookup'') (\<lambda>_.
    rbind (try_fold (\<lambda>_ path. validate_path client path) () paths) (\<lambda>_.
    if request_item_limit client < length paths \<and> is_canonical client
    then Inl (SnapshotError_new LimitExceeded ''lookup exceeds the discovered item limit'')
    else if 128 < length paths
    then Inl (SnapshotError_new LimitExceeded ''lookup accepts at most 128 paths'')
    else
      rbind (send (snapshots_url base (''/'' @ snapshot_id @ ''/lookup'')) paths) (\<lambda>response.
      if lk_snapshot_id response \<noteq> snapshot_id \<or> length (lk_results response) \<noteq> length paths
      then Inl lookup_binding_error
      else rbind (try_fold (\<lambda>_. check_lookup_result client) () (zip (lk_results response) paths))
             (\<lambda>_. Inr response))))"

section \<open>Complete enumeration of a directory\<close>

definition merge_page ::
  "directory_response option \<Rightarrow> directory_response \<Rightarrow> directory_response result" where
  "merge_page merged page =
    (case merged of
       None \<Rightarrow> Inr page
     | Some acc \<Rightarrow>
         if dr_directory_root acc \<noteq> dr_directory_root page
         then Inl (SnapshotError_new CursorStale ''directory_root changed mid-enumeration'')
         else Inr (acc\<lparr>dr_entries := dr_entries acc @ dr_entries page,
                       dr_next_cursor := dr_next_cursor page\<rparr>))"

text \<open>
  The loop, with fuel.  \<^verbatim>\<open>fetch n cursor\<close> is the n-th iteration's lease renewal and request.  The
  result \<^term>\<open>None\<close> means that the fuel ran out.
\<close>

fun directory_loop ::
  "(nat \<Rightarrow> string option \<Rightarrow> directory_response result) \<Rightarrow> string \<Rightarrow> nat \<Rightarrow> nat \<Rightarrow> string option
    \<Rightarrow> progress \<Rightarrow> directory_response option \<Rightarrow> directory_response result option" where
  "directory_loop fetch metadata_root 0 n cursor pg merged = None"
| "directory_loop fetch metadata_root (Suc fuel) n cursor pg merged =
    (case fetch n cursor of
       Inl e \<Rightarrow> Some (Inl e)
     | Inr page \<Rightarrow>
        (case accept pg page metadata_root of
           Inl e \<Rightarrow> Some (Inl e)
         | Inr pg' \<Rightarrow>
            (case merge_page merged page of
               Inl e \<Rightarrow> Some (Inl e)
             | Inr acc \<Rightarrow>
                (case dr_next_cursor page of
                   None \<Rightarrow> Some (Inr acc)
                 | Some c \<Rightarrow>
                     directory_loop fetch metadata_root fuel (Suc n) (Some c) pg' (Some acc)))))"

definition page_fetch ::
  "mst2_client \<Rightarrow> string \<Rightarrow> (nat \<Rightarrow> unit result) \<Rightarrow> (nat \<Rightarrow> string \<Rightarrow> directory_response result)
    \<Rightarrow> string \<Rightarrow> string \<Rightarrow> nat \<Rightarrow> nat \<Rightarrow> string option \<Rightarrow> directory_response result" where
  "page_fetch client base ensure_lease send snapshot_id dir limit n cursor =
    rbind (ensure_lease n) (\<lambda>_. directory_request client base (send n) snapshot_id dir limit cursor)"

definition directory_page ::
  "scope_grammar \<Rightarrow> mst2_client \<Rightarrow> string \<Rightarrow> (nat \<Rightarrow> unit result)
    \<Rightarrow> (nat \<Rightarrow> string \<Rightarrow> directory_response result) \<Rightarrow> string \<Rightarrow> string \<Rightarrow> string
    \<Rightarrow> nat \<Rightarrow> string \<Rightarrow> nat \<Rightarrow> directory_response result option" where
  "directory_page grammar client base ensure_lease send scope snapshot_id metadata_root fuel dir limit =
    (case validate_relative_path grammar scope dir of
       Inl e \<Rightarrow> Some (Inl e)
     | Inr _ \<Rightarrow>
         directory_loop (page_fetch client base ensure_lease send snapshot_id dir limit)
           metadata_root fuel 0 None progress_default None)"

section \<open>Lemmas on single responses\<close>

lemma is_some_and_simps [simp]: "is_some_and None p = False" "is_some_and (Some a) p = p a"
  by (simp_all add: is_some_and_def)

lemma is_some_and_iff: "is_some_and x p \<longleftrightarrow> (\<exists>a. x = Some a \<and> p a)"
  by (cases x) simp_all

text \<open>What an accepted entry promises, whichever response it came in.\<close>

definition file_fields_ok :: "string \<Rightarrow> string option \<Rightarrow> string option \<Rightarrow> string option \<Rightarrow> bool" where
  "file_fields_ok kind bytes content root \<longleftrightarrow>
    (kind = ''directory'' \<and> bytes = None \<and> content = None \<and> is_some_and root directory_digest_valid)
    \<or> (kind \<in> {''regular'', ''executable'', ''symlink''} \<and> root = None
       \<and> is_some_and content digest_valid
       \<and> (\<exists>n. bytes = Some (show_nat n) \<and> n \<le> MAX_FILE_SIZE
              \<and> (kind = ''symlink'' \<longrightarrow> 1 \<le> n \<and> n \<le> 4095)))"

definition entry_ok :: "dir_entry \<Rightarrow> bool" where
  "entry_ok e \<longleftrightarrow> name_valid (de_name e)
    \<and> file_fields_ok (de_fs_kind e) (de_size e) (de_content_digest e) (de_directory_root e)"

lemma MAX_FILE_SIZE_le: "n \<le> 4095 \<Longrightarrow> n \<le> MAX_FILE_SIZE" "n \<le> MAX_FILE_SIZE \<Longrightarrow> n \<le> i64_MAX"
  by (simp_all add: MAX_FILE_SIZE_def i64_MAX_def)

lemma validate_entry_Inr:
  "validate_entry prev e = Inr r \<longleftrightarrow>
    entry_ok e \<and> r = Some (de_name e) \<and> (\<forall>p. prev = Some p \<longrightarrow> p < de_name e)"
proof -
  have prev: "\<not> is_some_and prev (\<lambda>n. de_name e \<le> n) \<longleftrightarrow> (\<forall>p. prev = Some p \<longrightarrow> p < de_name e)"
    by (cases prev) (auto simp: not_le)
  consider (dir) "de_fs_kind e = ''directory''" | (link) "de_fs_kind e = ''symlink''"
    | (plain) "de_fs_kind e = ''regular'' \<or> de_fs_kind e = ''executable''"
    | (other) "de_fs_kind e \<notin> {''directory'', ''symlink'', ''regular'', ''executable''}"
    by blast
  then show ?thesis
  proof cases
    case link
    then show ?thesis
      unfolding validate_entry_def entry_ok_def file_fields_ok_def prev[symmetric]
      by (cases "de_size e")
        (auto simp: result_simps parse_count_Inr_iff Let_def MAX_FILE_SIZE_le not_less Suc_le_eq)
  next
    case plain
    then show ?thesis
      unfolding validate_entry_def entry_ok_def file_fields_ok_def prev[symmetric]
      by (cases "de_size e")
        (auto simp: result_simps parse_count_Inr_iff Let_def MAX_FILE_SIZE_le not_less)
  qed (auto simp: validate_entry_def entry_ok_def file_fields_ok_def prev[symmetric])
qed

lemma validate_entries_Inr:
  "is_ok (try_fold validate_entry prev es) \<longleftrightarrow>
    list_all entry_ok es \<and> sorted_wrt (<) (map de_name es)
    \<and> (\<forall>p e. prev = Some p \<longrightarrow> e \<in> set es \<longrightarrow> p < de_name e)"
proof (induction es arbitrary: prev)
  case (Cons e es)
  show ?case
  proof (cases "validate_entry prev e")
    case (Inl err)
    then have "\<not> (entry_ok e \<and> (\<forall>p. prev = Some p \<longrightarrow> p < de_name e))"
      using validate_entry_Inr[of prev e "Some (de_name e)"] by auto
    with Inl show ?thesis by auto
  next
    case (Inr r)
    then have "entry_ok e" "r = Some (de_name e)" "\<forall>p. prev = Some p \<longrightarrow> p < de_name e"
      by (auto simp: validate_entry_Inr)
    with Inr Cons.IH[of r] show ?thesis
      by (auto intro: less_trans)
  qed
qed simp

text \<open>The promises of a page that passed \<^const>\<open>validate_page\<close>.\<close>

definition page_ok :: "string \<Rightarrow> string \<Rightarrow> nat \<Rightarrow> string option \<Rightarrow> directory_response \<Rightarrow> bool" where
  "page_ok sid path limit cursor page \<longleftrightarrow>
    dr_snapshot_id page = sid \<and> dr_path page = path \<and> length (dr_entries page) \<le> limit
    \<and> (\<exists>n. dr_entry_count page = show_nat n \<and> length (dr_entries page) \<le> n \<and> n \<le> i64_MAX)
    \<and> (cursor = None \<longrightarrow> dr_range_start_exclusive page = None)
    \<and> (dr_next_cursor page \<noteq> None \<longrightarrow> dr_entries page \<noteq> [] \<and> dr_next_cursor page \<noteq> cursor)
    \<and> list_all entry_ok (dr_entries page)
    \<and> sorted_wrt (<) (map de_name (dr_entries page))
    \<and> (\<forall>p e. dr_range_start_exclusive page = Some p \<longrightarrow> e \<in> set (dr_entries page) \<longrightarrow> p < de_name e)"

lemma validate_page_ok: "is_ok (validate_page page sid path limit cursor) \<Longrightarrow> page_ok sid path limit cursor page"
  using validate_entries_Inr[of "dr_range_start_exclusive page" "dr_entries page"]
  by (auto simp: is_ok_iff validate_page_def page_ok_def result_simps parse_count_Inr_iff)

lemma directory_request_Inr:
  assumes "directory_request client base send sid path limit cursor = Inr page"
  shows "page_ok sid path limit cursor page" "is_ok (check_entry_sizes client (dr_entries page))"
proof -
  have v: "is_ok (validate_page page sid path (min limit (directory_limit client)) cursor)"
    and "is_ok (check_entry_sizes client (dr_entries page))"
    using assms by (auto simp: directory_request_def result_simps Let_def is_ok_iff)
  then show "is_ok (check_entry_sizes client (dr_entries page))" by simp
  show "page_ok sid path limit cursor page"
    using validate_page_ok[OF v] by (auto simp: page_ok_def)
qed

section \<open>Lemmas on the enumeration\<close>

lemma accept_Inr:
  assumes "accept pg page mr = Inr pg'"
  obtains count where "dr_entry_count page = show_nat count" "count \<le> i64_MAX"
    "pg_count pg = None \<or> pg_count pg = Some count" "pg_count pg' = Some count"
    "pg_seen pg' = pg_seen pg + length (dr_entries page)" "pg_seen pg' \<le> count"
    "dr_next_cursor page = None \<longrightarrow> pg_seen pg' = count"
    "dr_range_start_exclusive page = pg_last pg" "pg_last pg' = last_name (dr_entries page)"
    "pg_root pg = None \<or> pg_root pg = Some (dr_directory_root page)"
    "pg_root pg' = Some (dr_directory_root page)" "dr_metadata_root page = mr"
    "dr_path page = ''/'' \<longrightarrow> dr_directory_root page = mr"
  using assms
  by (cases "pg_count pg"; cases "pg_root pg")
    (auto simp: accept_def result_simps parse_count_Inr_iff)

definition remaining :: "progress \<Rightarrow> nat" where
  "remaining pg = (case pg_count pg of None \<Rightarrow> i64_MAX + 1 | Some c \<Rightarrow> c - pg_seen pg)"

lemma accept_remaining:
  assumes "accept pg page mr = Inr pg'" "dr_entries page \<noteq> []"
  shows "remaining pg' < remaining pg"
  using assms(1)
proof (rule accept_Inr)
  fix count
  assume c: "count \<le> i64_MAX" "pg_count pg = None \<or> pg_count pg = Some count"
    "pg_count pg' = Some count" "pg_seen pg' = pg_seen pg + length (dr_entries page)"
    "pg_seen pg' \<le> count"
  obtain k where "length (dr_entries page) = Suc k"
    using assms(2) by (cases "dr_entries page") auto
  with c show ?thesis
    by (auto simp: remaining_def)
qed

lemma directory_loop_returns:
  assumes "\<And>n cursor page. fetch n cursor = Inr page \<Longrightarrow> dr_next_cursor page \<noteq> None \<Longrightarrow> dr_entries page \<noteq> []"
    and "remaining pg < fuel"
  shows "directory_loop fetch mr fuel n cursor pg merged \<noteq> None"
  using assms(2)
proof (induction fuel arbitrary: n cursor pg merged)
  case (Suc fuel)
  have "directory_loop fetch mr fuel (Suc n) (Some c) pg' (Some acc) \<noteq> None"
    if "fetch n cursor = Inr page" "accept pg page mr = Inr pg'" "dr_next_cursor page = Some c"
    for page pg' c acc
    using that Suc assms(1)[of n cursor page] accept_remaining[of pg page mr pg'] by auto
  then show ?case
    by (auto split: sum.splits option.splits)
qed simp

primrec page_chain ::
  "(nat \<Rightarrow> string option \<Rightarrow> directory_response result) \<Rightarrow> nat \<Rightarrow> string option
    \<Rightarrow> directory_response list \<Rightarrow> bool" where
  "page_chain fetch n cursor [] = False"
| "page_chain fetch n cursor (p # ps) =
    (fetch n cursor = Inr p
      \<and> (case dr_next_cursor p of None \<Rightarrow> ps = []
          | Some c \<Rightarrow> page_chain fetch (Suc n) (Some c) ps))"

text \<open>What is known of the entries merged so far, and of the finished listing.\<close>

definition partial_listing :: "string \<Rightarrow> string \<Rightarrow> string \<Rightarrow> progress \<Rightarrow> directory_response \<Rightarrow> bool" where
  "partial_listing sid dir mr pg acc \<longleftrightarrow>
    dr_snapshot_id acc = sid \<and> dr_path acc = dir \<and> dr_metadata_root acc = mr
    \<and> (dir = ''/'' \<longrightarrow> dr_directory_root acc = mr)
    \<and> list_all entry_ok (dr_entries acc) \<and> sorted_wrt (<) (map de_name (dr_entries acc))
    \<and> pg_seen pg = length (dr_entries acc) \<and> pg_root pg = Some (dr_directory_root acc)
    \<and> (\<exists>c. pg_count pg = Some c \<and> dr_entry_count acc = show_nat c)"

definition listing_ok :: "string \<Rightarrow> string \<Rightarrow> string \<Rightarrow> directory_response \<Rightarrow> bool" where
  "listing_ok sid dir mr r \<longleftrightarrow>
    dr_snapshot_id r = sid \<and> dr_path r = dir \<and> dr_metadata_root r = mr
    \<and> (dir = ''/'' \<longrightarrow> dr_directory_root r = mr) \<and> dr_next_cursor r = None
    \<and> list_all entry_ok (dr_entries r) \<and> sorted_wrt (<) (map de_name (dr_entries r))
    \<and> dr_entry_count r = show_nat (length (dr_entries r))"

definition merged_inv ::
  "string \<Rightarrow> string \<Rightarrow> string \<Rightarrow> string option \<Rightarrow> progress \<Rightarrow> directory_response option \<Rightarrow> bool" where
  "merged_inv sid dir mr cursor pg merged \<longleftrightarrow>
    (case merged of
       None \<Rightarrow> cursor = None \<and> pg = progress_default
     | Some acc \<Rightarrow> partial_listing sid dir mr pg acc \<and> dr_entries acc \<noteq> []
         \<and> pg_last pg = last_name (dr_entries acc))"

lemma sorted_append_names:
  assumes "sorted_wrt (<) (map de_name xs)" "sorted_wrt (<) (map de_name ys)" "xs \<noteq> []"
    and "\<And>p e. last_name xs = Some p \<Longrightarrow> e \<in> set ys \<Longrightarrow> p < de_name e"
  shows "sorted_wrt (<) (map de_name (xs @ ys))"
proof -
  from assms(3) obtain zs z where xs: "xs = zs @ [z]"
    by (metis append_butlast_last_id)
  have "de_name z < de_name y" if "y \<in> set ys" for y
    using assms(4)[of "de_name z"] that by (simp add: xs last_name_def)
  moreover have "de_name x < de_name z" if "x \<in> set zs" for x
    using assms(1) that by (auto simp: xs sorted_wrt_append)
  ultimately show ?thesis
    using assms(1,2) by (auto simp: xs sorted_wrt_append intro: less_trans)
qed

lemma merge_step:
  assumes inv: "merged_inv sid dir mr cursor pg merged"
    and page: "page_ok sid dir limit cursor page"
    and acc: "accept pg page mr = Inr pg'" and merge: "merge_page merged page = Inr acc'"
  shows "partial_listing sid dir mr pg' acc' \<and> dr_next_cursor acc' = dr_next_cursor page
    \<and> dr_entries acc' = (case merged of None \<Rightarrow> [] | Some a \<Rightarrow> dr_entries a) @ dr_entries page"
proof (cases merged)
  case None
  with inv have "pg = progress_default" by (simp add: merged_inv_def)
  with None page acc merge show ?thesis
    by (auto elim!: accept_Inr simp: partial_listing_def merge_page_def page_ok_def progress_default_def)
next
  case (Some a)
  with inv have a: "partial_listing sid dir mr pg a" "dr_entries a \<noteq> []"
      "pg_last pg = last_name (dr_entries a)"
    by (simp_all add: merged_inv_def)
  from Some merge have acc': "acc' = a\<lparr>dr_entries := dr_entries a @ dr_entries page,
      dr_next_cursor := dr_next_cursor page\<rparr>" "dr_directory_root a = dr_directory_root page"
    by (auto simp: merge_page_def split: if_splits)
  from acc show ?thesis
  proof (rule accept_Inr)
    fix count
    assume "pg_count pg = None \<or> pg_count pg = Some count" "pg_count pg' = Some count"
      "pg_seen pg' = pg_seen pg + length (dr_entries page)"
      "dr_range_start_exclusive page = pg_last pg" "pg_root pg' = Some (dr_directory_root page)"
    with a acc' page Some sorted_append_names[of "dr_entries a" "dr_entries page"] show ?thesis
      by (auto simp: partial_listing_def page_ok_def)
  qed
qed

lemma last_name_append: "ys \<noteq> [] \<Longrightarrow> last_name (xs @ ys) = last_name ys"
  by (simp add: last_name_def)

lemma directory_loop_listing:
  assumes fetch: "\<And>n cursor page. fetch n cursor = Inr page \<Longrightarrow> page_ok sid dir limit cursor page"
    and "directory_loop fetch mr fuel n cursor pg merged = Some (Inr r)"
    and "merged_inv sid dir mr cursor pg merged"
  shows "listing_ok sid dir mr r \<and> (\<exists>ps. page_chain fetch n cursor ps \<and>
    dr_entries r = (case merged of None \<Rightarrow> [] | Some a \<Rightarrow> dr_entries a) @ concat (map dr_entries ps))"
  using assms(2,3)
proof (induction fuel arbitrary: n cursor pg merged)
  case (Suc fuel)
  from Suc.prems(1) obtain page pg' acc' where p: "fetch n cursor = Inr page"
      "accept pg page mr = Inr pg'" "merge_page merged page = Inr acc'"
    and nxt: "case dr_next_cursor page of None \<Rightarrow> r = acc'
      | Some c \<Rightarrow> directory_loop fetch mr fuel (Suc n) (Some c) pg' (Some acc') = Some (Inr r)"
    by (auto split: sum.splits option.splits)
  note ok = fetch[OF p(1)]
  note m = merge_step[OF Suc.prems(2) ok p(2,3)]
  show ?case
  proof (cases "dr_next_cursor page")
    case None
    from p(2) have "pg_seen pg' = the (pg_count pg')"
      by (rule accept_Inr) (simp add: None)
    with m nxt None have "listing_ok sid dir mr r"
      by (auto simp: listing_ok_def partial_listing_def)
    moreover have "page_chain fetch n cursor [page]"
      using p None by simp
    ultimately show ?thesis
      using m nxt None by (intro conjI exI[of _ "[page]"]) auto
  next
    case (Some c)
    have ne: "dr_entries page \<noteq> []"
      using ok Some by (simp add: page_ok_def)
    from p(2) have "pg_last pg' = last_name (dr_entries page)"
      by (rule accept_Inr) simp
    with m ne have "merged_inv sid dir mr (Some c) pg' (Some acc')"
      by (auto simp: merged_inv_def last_name_append)
    with Suc.IH[of "Suc n" "Some c" pg' "Some acc'"] nxt Some obtain ps where
      "listing_ok sid dir mr r" "page_chain fetch (Suc n) (Some c) ps"
      "dr_entries r = dr_entries acc' @ concat (map dr_entries ps)"
      by auto
    with p Some m show ?thesis
      by (intro conjI exI[of _ "page # ps"]) auto
  qed
qed simp

section \<open>Lemmas on the lookup request\<close>

lemma try_fold_unit_Inr:
  "try_fold (\<lambda>_ x. f x) () xs = Inr u \<longleftrightarrow> (\<forall>x\<in>set xs. f x = Inr ())"
  by (induction xs) (auto split: sum.splits)

lemma validate_node_Inr:
  assumes "validate_node node path = Inr u"
  shows "file_fields_ok (ln_fs_kind node) (ln_size node) (ln_content_digest node) (ln_directory_root node)"
    "path = ''/'' \<Longrightarrow> ln_name node = None \<and> ln_fs_kind node = ''directory''"
    "path \<noteq> ''/'' \<Longrightarrow> ln_name node = Some (last (split_on CHR ''/'' path))
       \<and> name_valid (last (split_on CHR ''/'' path))"
proof -
  have "path = ''/'' \<and> ln_name node = None \<and> ln_fs_kind node = ''directory''
      \<or> path \<noteq> ''/'' \<and> is_some_and (ln_name node)
           (\<lambda>name. name_valid name \<and> name = last (split_on CHR ''/'' path))"
    using assms unfolding validate_node_def by (metis (no_types, lifting) Inl_Inr_False)
  then show "path = ''/'' \<Longrightarrow> ln_name node = None \<and> ln_fs_kind node = ''directory''"
    "path \<noteq> ''/'' \<Longrightarrow> ln_name node = Some (last (split_on CHR ''/'' path))
       \<and> name_valid (last (split_on CHR ''/'' path))"
    by (auto simp: is_some_and_iff)
  show "file_fields_ok (ln_fs_kind node) (ln_size node) (ln_content_digest node) (ln_directory_root node)"
  proof (cases "ln_fs_kind node = ''directory''")
    case False
    with assms obtain n where "ln_size node = Some (show_nat n)"
        "(if ln_fs_kind node = ''symlink'' then n \<le> 4095 \<and> n \<noteq> 0 else n \<le> MAX_FILE_SIZE)"
        "ln_fs_kind node \<in> {''regular'', ''executable'', ''symlink''}"
        "ln_directory_root node = None" "is_some_and (ln_content_digest node) digest_valid"
      by (auto simp: validate_node_def result_simps parse_count_Inr_iff Let_def not_less split: if_splits)
    then show ?thesis
      by (auto simp: file_fields_ok_def MAX_FILE_SIZE_le split: if_splits)
  qed (use assms in \<open>auto simp: validate_node_def file_fields_ok_def split: if_splits\<close>)
qed

lemma check_lookup_result_Inr:
  assumes "check_lookup_result client (res, path) = Inr u"
  shows "lr_path res = path"
    "lr_status res = ''found'' \<longleftrightarrow> lr_node res \<noteq> None"
    "lr_status res \<in> {''found'', ''absent'', ''not_directory'', ''symlink_traversal''}"
    "lr_node res = Some node \<Longrightarrow> validate_node node path = Inr ()"
  using assms by (auto simp: check_lookup_result_def result_simps split: if_splits option.splits)

lemma page_fetch_ok:
  "page_fetch client base lease send sid dir limit n cursor = Inr page \<Longrightarrow> page_ok sid dir limit cursor page"
  by (auto simp: page_fetch_def result_simps dest: directory_request_Inr(1))

section \<open>Properties\<close>

text \<open>C20: Enumerating a directory ends whatever the server answers: the declared entry count is
  fixed by the first page and every page that continues the enumeration delivers at least one entry,
  so one more round than the largest admissible count is always enough.\<close>

theorem directory_page_terminates:
  assumes "i64_MAX + 1 < fuel"
  shows "directory_page g client base lease send scope sid mr fuel dir limit \<noteq> None"
proof -
  have "remaining progress_default < fuel"
    using assms by (simp add: remaining_def progress_default_def)
  then have "directory_loop (page_fetch client base lease send sid dir limit) mr fuel 0 None
      progress_default None \<noteq> None"
    using page_fetch_ok[of client base lease send sid dir limit]
    by (intro directory_loop_returns) (auto simp: page_ok_def)
  then show ?thesis
    by (auto simp: directory_page_def split: sum.splits)
qed

theorem directory_page_terminates_witness:
  "directory_page (\<lambda>_. Inr ()) \<lparr>profile = None\<rparr> ''http://host'' (\<lambda>_. Inr ())
     (\<lambda>_ _. Inl directory_integrity) ''/'' ''sha256:0'' ''sha256:1'' (i64_MAX + 2) ''/'' 256 \<noteq> None"
  by (rule directory_page_terminates) simp

text \<open>C18: A completed enumeration is the whole directory of the requested fixed view: the entries
  are those of the pages the server sent along one cursor chain, in strictly increasing byte order
  and therefore without duplicates, each entry is well formed for its kind, and their number is the
  count the directory declares.\<close>

theorem directory_page_complete:
  assumes "directory_page g client base lease send scope sid mr fuel dir limit = Some (Inr r)"
  shows "dr_snapshot_id r = sid \<and> dr_path r = dir \<and> dr_metadata_root r = mr
    \<and> (dir = ''/'' \<longrightarrow> dr_directory_root r = mr) \<and> dr_next_cursor r = None
    \<and> list_all entry_ok (dr_entries r)
    \<and> sorted_wrt (<) (map de_name (dr_entries r))
    \<and> dr_entry_count r = show_nat (length (dr_entries r))
    \<and> (\<exists>pages. page_chain (page_fetch client base lease send sid dir limit) 0 None pages
         \<and> dr_entries r = concat (map dr_entries pages))"
proof -
  have "directory_loop (page_fetch client base lease send sid dir limit) mr fuel 0 None
      progress_default None = Some (Inr r)"
    using assms by (auto simp: directory_page_def split: sum.splits)
  from directory_loop_listing[OF page_fetch_ok this]
  have "listing_ok sid dir mr r \<and> (\<exists>ps. page_chain (page_fetch client base lease send sid dir limit)
      0 None ps \<and> dr_entries r = concat (map dr_entries ps))"
    by (simp add: merged_inv_def)
  then show ?thesis
    unfolding listing_ok_def by blast
qed

definition sample_digest :: string where
  "sample_digest = ''sha256:1111111111111111111111111111111111111111111111111111111111111111''"

definition sample_page :: "string option \<Rightarrow> string \<Rightarrow> string option \<Rightarrow> directory_response" where
  "sample_page start name next_cursor =
    \<lparr>dr_snapshot_id = ''sid'', dr_path = ''/'', dr_metadata_root = sample_digest,
     dr_directory_root = sample_digest, dr_node_class = ''native_tree'', dr_lifecycle = ''mutable'',
     dr_range_start_exclusive = start,
     dr_entries = [\<lparr>de_name = name, de_fs_kind = ''regular'', de_size = Some ''12'',
                    de_content_digest = Some sample_digest, de_directory_root = None\<rparr>],
     dr_entry_count = ''2'', dr_next_cursor = next_cursor, dr_proof_pages = []\<rparr>"

definition sample_send :: "nat \<Rightarrow> string \<Rightarrow> directory_response result" where
  "sample_send n url =
    Inr (if n = 0 then sample_page None ''a'' (Some ''x'') else sample_page (Some ''a'') ''b'' None)"

lemma sample_enumeration:
  "directory_page (\<lambda>_. Inr ()) \<lparr>profile = None\<rparr> ''http://host'' (\<lambda>_. Inr ()) sample_send
     ''/'' ''sid'' sample_digest 2 ''/'' 1
   = Some (Inr ((sample_page None ''a'' None)\<lparr>dr_entries :=
       dr_entries (sample_page None ''a'' None) @ dr_entries (sample_page None ''b'' None)\<rparr>))"
  by code_simp

lemma sample_names:
  "map de_name (dr_entries (sample_page None ''a'' None) @ dr_entries (sample_page None ''b'' None))
     = [''a'', ''b'']"
  by code_simp

theorem directory_page_complete_witness:
  "\<exists>pages. page_chain (page_fetch \<lparr>profile = None\<rparr> ''http://host'' (\<lambda>_. Inr ()) sample_send
       ''sid'' ''/'' 1) 0 None pages \<and> map de_name (concat (map dr_entries pages)) = [''a'', ''b'']"
proof -
  obtain pages where p: "page_chain (page_fetch \<lparr>profile = None\<rparr> ''http://host'' (\<lambda>_. Inr ())
      sample_send ''sid'' ''/'' 1) 0 None pages"
    and e: "dr_entries (sample_page None ''a'' None) @ dr_entries (sample_page None ''b'' None)
      = concat (map dr_entries pages)"
    using directory_page_complete[OF sample_enumeration] by auto
  have "map de_name (concat (map dr_entries pages)) = [''a'', ''b'']"
    using sample_names unfolding e .
  with p show ?thesis by (intro exI[of _ pages]) (rule conjI)
qed

text \<open>C40: An accepted lookup response answers exactly the requested paths in their order under the
  requested snapshot; a result carries a node exactly when its status is found, and that node is
  named by the last component of its path and well formed for its kind.\<close>

theorem lookup_request_binds:
  assumes "lookup_request client base send sid paths = Inr response"
  shows "lk_snapshot_id response = sid \<and> map lr_path (lk_results response) = paths
    \<and> (\<forall>res\<in>set (lk_results response).
         (lr_status res = ''found'' \<longleftrightarrow> lr_node res \<noteq> None)
         \<and> (\<forall>node. lr_node res = Some node \<longrightarrow>
              file_fields_ok (ln_fs_kind node) (ln_size node) (ln_content_digest node)
                (ln_directory_root node)
              \<and> (if lr_path res = ''/'' then ln_name node = None
                 else ln_name node = Some (last (split_on CHR ''/'' (lr_path res))))))"
proof -
  have len: "length (lk_results response) = length paths" and sid: "lk_snapshot_id response = sid"
    and all: "\<forall>x\<in>set (zip (lk_results response) paths). check_lookup_result client x = Inr ()"
    using assms by (auto simp: lookup_request_def result_simps try_fold_unit_Inr split: if_splits)
  have nth: "check_lookup_result client (lk_results response ! i, paths ! i) = Inr ()"
    if "i < length paths" for i
    using all that len by (metis fst_conv in_set_zip snd_conv)
  have "map lr_path (lk_results response) = paths"
  proof (rule nth_equalityI)
    fix i assume "i < length (map lr_path (lk_results response))"
    then show "map lr_path (lk_results response) ! i = paths ! i"
      using len check_lookup_result_Inr(1)[OF nth[of i]] by simp
  qed (simp add: len)
  moreover have "check_lookup_result client (res, lr_path res) = Inr ()"
    if "res \<in> set (lk_results response)" for res
    using that nth len check_lookup_result_Inr(1) by (metis in_set_conv_nth)
  ultimately show ?thesis
    using sid by (auto dest: check_lookup_result_Inr validate_node_Inr)
qed

definition sample_lookup :: lookup_response where
  "sample_lookup =
    \<lparr>lk_snapshot_id = ''sid'',
     lk_results = [\<lparr>lr_path = ''/src/a'', lr_status = ''found'',
       lr_node = Some \<lparr>ln_fs_kind = ''regular'', ln_name = Some ''a'', ln_size = Some ''7'',
                       ln_content_digest = Some sample_digest, ln_directory_root = None\<rparr>\<rparr>,
      \<lparr>lr_path = ''/b'', lr_status = ''absent'', lr_node = None\<rparr>]\<rparr>"

lemma sample_lookup_accepted:
  "lookup_request \<lparr>profile = None\<rparr> ''http://host'' (\<lambda>_ _. Inr sample_lookup) ''sid''
     [''/src/a'', ''/b''] = Inr sample_lookup"
  by code_simp

theorem lookup_request_binds_witness:
  "map lr_path (lk_results sample_lookup) = [''/src/a'', ''/b'']"
  using lookup_request_binds[OF sample_lookup_accepted] by blast

end
