(* ===== verification/Directory_Index.thy ===== *)
theory Directory_Index
  imports Scorpio_Prelude
begin

text \<open>
  The in-memory index of a fixed directory (\<^verbatim>\<open>snapshot/fixed_directory_index.rs\<close>) and the typed
  node identities of \<^verbatim>\<open>snapshot/path_state.rs\<close>.  While a directory is loaded its names live in a
  \<^verbatim>\<open>BTreeMap\<close>; sealing turns it into a sorted array searched by bisection.  The interface
  \<^verbatim>\<open>sealed_index\<close> states what the filesystem relies on, and the interpretation discharges it for the
  two representations.
\<close>

section \<open>Node identities\<close>

datatype snapshot_node_kind = DirectoryKind | RegularKind | ExecutableKind | SymlinkKind

datatype snapshot_node_identity =
    DirectoryNode string
  | RegularNode nat string
  | ExecutableNode nat string
  | SymlinkNode nat string

fun node_kind :: "snapshot_node_identity \<Rightarrow> snapshot_node_kind" where
  "node_kind (DirectoryNode root) = DirectoryKind"
| "node_kind (RegularNode bytes digest) = RegularKind"
| "node_kind (ExecutableNode bytes digest) = ExecutableKind"
| "node_kind (SymlinkNode bytes digest) = SymlinkKind"

fun node_mode :: "snapshot_node_identity \<Rightarrow> nat" where
  "node_mode (DirectoryNode root) = 0x1ED"
| "node_mode (ExecutableNode bytes digest) = 0x1ED"
| "node_mode (RegularNode bytes digest) = 0x1A4"
| "node_mode (SymlinkNode bytes digest) = 0x1FF"

fun node_content :: "snapshot_node_identity \<Rightarrow> (nat \<times> string) option" where
  "node_content (DirectoryNode root) = None"
| "node_content (RegularNode bytes digest) = Some (bytes, digest)"
| "node_content (ExecutableNode bytes digest) = Some (bytes, digest)"
| "node_content (SymlinkNode bytes digest) = Some (bytes, digest)"

datatype snapshot_path_state = Present snapshot_node_identity | AbsentProven

section \<open>The index\<close>

text \<open>A \<^verbatim>\<open>BTreeMap\<close> is represented by its ordered list of entries.\<close>

fun btree_insert :: "'k :: linorder \<Rightarrow> 'v \<Rightarrow> ('k \<times> 'v) list \<Rightarrow> ('k \<times> 'v) list" where
  "btree_insert k v [] = [(k, v)]"
| "btree_insert k v ((k', v') # es) =
    (if k < k' then (k, v) # (k', v') # es
     else if k = k' then (k, v) # es
     else (k', v') # btree_insert k v es)"

text \<open>\<^verbatim>\<open>slice::binary_search_by\<close> on the window from left (inclusive) to right (exclusive).\<close>

function binary_search :: "('k :: linorder \<times> 'v) list \<Rightarrow> 'k \<Rightarrow> nat \<Rightarrow> nat \<Rightarrow> nat option" where
  "binary_search es k left right =
    (if left < right then
       let mid = left + (right - left) div 2 in
       if fst (es ! mid) < k then binary_search es k (mid + 1) right
       else if k < fst (es ! mid) then binary_search es k left mid
       else Some mid
     else None)"
  by pat_completeness auto
termination by (relation "measure (\<lambda>(es, k, left, right). right - left)") auto

declare binary_search.simps [simp del]

datatype fixed_directory_index =
    Building "(string \<times> nat) list"
  | Ready "(string \<times> nat) list"

definition index_default :: fixed_directory_index where
  "index_default = Building []"

fun index_get :: "fixed_directory_index \<Rightarrow> string \<Rightarrow> nat option" where
  "index_get (Building entries) name = map_of entries name"
| "index_get (Ready entries) name =
    map_option (\<lambda>i. snd (entries ! i)) (binary_search entries name 0 (length entries))"

definition contains_key :: "fixed_directory_index \<Rightarrow> string \<Rightarrow> bool" where
  "contains_key self name = (index_get self name \<noteq> None)"

fun index_insert ::
  "fixed_directory_index \<Rightarrow> string \<Rightarrow> nat \<Rightarrow> (fixed_directory_index \<times> nat option) result" where
  "index_insert (Building entries) name inode =
    Inr (Building (btree_insert name inode entries), map_of entries name)"
| "index_insert (Ready entries) name inode =
    Inl (SnapshotError_new IntegrityError ''complete fixed directory index is immutable'')"

fun seal :: "fixed_directory_index \<Rightarrow> fixed_directory_index" where
  "seal (Building entries) = Ready entries"
| "seal (Ready entries) = Ready entries"

fun index_snapshot :: "fixed_directory_index \<Rightarrow> ((string \<times> nat) list) result" where
  "index_snapshot (Ready entries) = Inr entries"
| "index_snapshot (Building entries) =
    Inl (SnapshotError_new IntegrityError ''fixed directory index is not complete'')"

section \<open>The interface\<close>

text \<open>
  An index that is filled and then sealed.  \<^verbatim>\<open>invar\<close> is the representation invariant and
  \<^verbatim>\<open>sealed\<close> tells the two phases apart.
\<close>

locale sealed_index =
  fixes empty :: "'i"
    and get :: "'i \<Rightarrow> 'k :: linorder \<Rightarrow> 'v option"
    and insert :: "'i \<Rightarrow> 'k \<Rightarrow> 'v \<Rightarrow> 'e + ('i \<times> 'v option)"
    and close :: "'i \<Rightarrow> 'i"
    and entries :: "'i \<Rightarrow> 'e + ('k \<times> 'v) list"
    and invar :: "'i \<Rightarrow> bool"
    and sealed :: "'i \<Rightarrow> bool"
  assumes empty_invar: "invar empty" "\<not> sealed empty"
    and get_empty: "get empty k = None"
    and insert_open: "invar i \<Longrightarrow> \<not> sealed i \<Longrightarrow>
      \<exists>j. insert i k v = Inr (j, get i k) \<and> invar j \<and> \<not> sealed j \<and> get j = (get i)(k \<mapsto> v)"
    and insert_sealed: "sealed i \<Longrightarrow> \<exists>e. insert i k v = Inl e"
    and close_laws: "invar i \<Longrightarrow> invar (close i)" "sealed (close i)" "invar i \<Longrightarrow> get (close i) = get i"
    and close_sealed: "sealed i \<Longrightarrow> close i = i"
    and entries_open: "\<not> sealed i \<Longrightarrow> \<exists>e. entries i = Inl e"
    and entries_sealed: "invar i \<Longrightarrow> sealed i \<Longrightarrow>
      \<exists>es. entries i = Inr es \<and> sorted_wrt (<) (map fst es) \<and> map_of es = get i"
begin

text \<open>A client that inserts a list of bindings, later ones replacing earlier ones, and then seals.\<close>

lemma fill:
  "invar i \<Longrightarrow> \<not> sealed i \<Longrightarrow>
    \<exists>j. try_fold (\<lambda>i (k, v). rbind (insert i k v) (\<lambda>(j, _). Inr j)) i kvs = Inr j
      \<and> invar j \<and> \<not> sealed j \<and> get j = get i ++ map_of (rev kvs)"
proof (induction kvs arbitrary: i)
  case (Cons kv kvs)
  obtain k v where kv: "kv = (k, v)" by (cases kv)
  from insert_open[OF Cons.prems, of k v] obtain j where
    j: "insert i k v = Inr (j, get i k)" "invar j" "\<not> sealed j" "get j = (get i)(k \<mapsto> v)"
    by blast
  with Cons.IH[OF j(2,3)] kv show ?case
    by (auto simp del: fun_upd_apply)
qed simp

lemma fill_then_close:
  "\<exists>j. try_fold (\<lambda>i (k, v). rbind (insert i k v) (\<lambda>(j, _). Inr j)) empty kvs = Inr j
    \<and> get (close j) = map_of (rev kvs)
    \<and> (\<exists>es. entries (close j) = Inr es \<and> sorted_wrt (<) (map fst es) \<and> map_of es = map_of (rev kvs))
    \<and> (\<forall>k v. \<exists>e. insert (close j) k v = Inl e)"
proof -
  have "get empty = Map.empty"
    using get_empty by (simp add: fun_eq_iff)
  with fill[OF empty_invar] obtain j where
    j: "try_fold (\<lambda>i (k, v). rbind (insert i k v) (\<lambda>(j, _). Inr j)) empty kvs = Inr j"
      "invar j" "get j = map_of (rev kvs)"
    by auto
  with entries_sealed[OF close_laws(1)[OF j(2)] close_laws(2)] close_laws(3)[OF j(2)]
    insert_sealed[OF close_laws(2)[of j]] show ?thesis
    by auto
qed

end

section \<open>The two representations implement the interface\<close>

fun index_invar :: "fixed_directory_index \<Rightarrow> bool" where
  "index_invar (Building es) = sorted_wrt (<) (map fst es)"
| "index_invar (Ready es) = sorted_wrt (<) (map fst es)"

fun is_ready :: "fixed_directory_index \<Rightarrow> bool" where
  "is_ready (Building es) = False"
| "is_ready (Ready es) = True"

lemma set_btree_insert: "fst ` set (btree_insert k v es) = insert k (fst ` set es)"
  by (induction k v es rule: btree_insert.induct) auto

lemma sorted_btree_insert:
  "sorted_wrt (<) (map fst es) \<Longrightarrow> sorted_wrt (<) (map fst (btree_insert k v es))"
proof (induction es)
  case (Cons e es)
  obtain k' v' where [simp]: "e = (k', v')" by (cases e)
  from Cons show ?case
    using set_btree_insert[of k v es] by (auto simp: image_iff Ball_def)
qed simp

lemma map_of_btree_insert:
  "sorted_wrt (<) (map fst es) \<Longrightarrow> map_of (btree_insert k v es) = (map_of es)(k \<mapsto> v)"
  by (induction es) (auto simp: fun_eq_iff)

lemma binary_search_Some:
  "binary_search es k l r = Some i \<Longrightarrow> l \<le> i \<and> i < r \<and> fst (es ! i) = k"
proof (induction es k l r rule: binary_search.induct)
  case (1 es k l r)
  show ?case
    using 1(3) 1(1)[OF _ refl] 1(2)[OF _ refl]
    by (subst (asm) binary_search.simps) (fastforce simp: Let_def split: if_splits)
qed

lemma binary_search_None:
  assumes "binary_search es k l r = None" "sorted_wrt (<) (map fst es)" "r \<le> length es"
    and "l \<le> i" "i < r"
  shows "fst (es ! i) \<noteq> k"
  using assms
proof (induction es k l r rule: binary_search.induct)
  case (1 es k l r)
  define mid where "mid = l + (r - l) div 2"
  have lr: "l < r" "l \<le> mid" "mid < r"
    using "1.prems"(4,5) by (auto simp: mid_def)
  have mono: "fst (es ! a) < fst (es ! b)" if "a < b" "b < length es" for a b
    using sorted_wrt_nth_less[OF "1.prems"(2)] that by simp
  consider (right) "fst (es ! mid) < k" "binary_search es k (mid + 1) r = None"
    | (left) "k < fst (es ! mid)" "\<not> fst (es ! mid) < k" "binary_search es k l mid = None"
    using "1.prems"(1) lr by (subst (asm) binary_search.simps)
      (auto simp: Let_def mid_def[symmetric] split: if_splits)
  then show ?case
  proof cases
    case right
    have "i \<le> mid \<Longrightarrow> fst (es ! i) \<le> fst (es ! mid)"
      using mono[of i mid] lr(3) "1.prems"(3) by (cases "i = mid") auto
    with right "1.IH"(1)[OF lr(1) mid_def right] "1.prems"(2,3,5) show ?thesis
      by (cases "i \<le> mid") auto
  next
    case left
    have "mid \<le> i \<Longrightarrow> fst (es ! mid) \<le> fst (es ! i)"
      using mono[of mid i] "1.prems"(3,5) by (cases "i = mid") auto
    with left "1.IH"(2)[OF lr(1) mid_def left(2,1,3)] "1.prems"(2,3,4) lr(3) show ?thesis
      by (cases "mid \<le> i") auto
  qed
qed

lemma ready_get:
  assumes "sorted_wrt (<) (map fst es)"
  shows "index_get (Ready es) k = map_of es k"
proof (cases "binary_search es k 0 (length es)")
  case None
  have "fst (es ! i) \<noteq> k" if "i < length es" for i
    using binary_search_None[OF None assms] that by simp
  then have "map_of es k = None"
    by (metis in_set_conv_nth map_of_SomeD not_None_eq fst_conv)
  with None show ?thesis by simp
next
  case (Some i)
  then have "i < length es" "fst (es ! i) = k"
    using binary_search_Some[OF Some] by auto
  moreover have "distinct (map fst es)"
    using assms by (simp add: strict_sorted_iff)
  ultimately have "map_of es k = Some (snd (es ! i))"
    by (metis map_of_eq_Some_iff nth_mem prod.collapse)
  with Some show ?thesis by simp
qed

interpretation fixed_index: sealed_index
  index_default index_get index_insert seal index_snapshot index_invar is_ready
proof (unfold_locales, goal_cases)
  case (4 i k v)
  then obtain es where "i = Building es" "sorted_wrt (<) (map fst es)"
    by (cases i) auto
  then show ?case
    by (auto simp: sorted_btree_insert map_of_btree_insert fun_eq_iff)
next
  case (8 i)
  then show ?case by (cases i) (auto simp: ready_get fun_eq_iff simp del: index_get.simps(2))
next
  case (11 i)
  then obtain es where "i = Ready es" "sorted_wrt (<) (map fst es)"
    by (cases i) auto
  then show ?case by (auto simp: ready_get fun_eq_iff simp del: index_get.simps(2))
next
  case (6 i)
  then show ?case by (cases i) auto
next
  case (7 i)
  show ?case by (cases i) auto
qed (auto simp: index_default_def elim: is_ready.elims)

section \<open>Properties\<close>

text \<open>C36: Loading any sequence of names into the index succeeds, and after sealing, the bisection
  finds for every name the inode of its last insertion and nothing else; the published array is
  strictly ordered by name with the same contents, and the sealed index rejects every later
  insertion.\<close>

theorem sealed_directory_index:
  "\<exists>j. try_fold (\<lambda>i (name, inode). rbind (index_insert i name inode) (\<lambda>(j, _). Inr j))
         index_default kvs = Inr j
    \<and> index_get (seal j) = map_of (rev kvs)
    \<and> (\<exists>es. index_snapshot (seal j) = Inr es \<and> sorted_wrt (<) (map fst es)
         \<and> map_of es = map_of (rev kvs))
    \<and> (\<forall>name inode. \<exists>e. index_insert (seal j) name inode = Inl e)"
  by (rule fixed_index.fill_then_close)

end
