(* ===== verification/Admission.thy ===== *)
theory Admission
  imports Scorpio_Prelude
begin

text \<open>
  Two-level admission by permits, as \<^verbatim>\<open>snapshot/content.rs\<close> uses it for buffer capacity and
  \<^verbatim>\<open>snapshot/coordinator.rs\<close> for job and caller counts: a request takes permits of its own owner's
  semaphore and then of the process-wide one, and gives the first back when the second is exhausted.
  \<^verbatim>\<open>tokio::sync::Semaphore\<close> is an argument, a record of the operations that the program calls;
  \<^verbatim>\<open>semaphore_laws\<close> states their documented effect on the number of available permits.
\<close>

section \<open>Semaphores\<close>

record 's semaphore_ops =
  sem_new :: "nat \<Rightarrow> 's"
  available_permits :: "'s \<Rightarrow> nat"
  try_acquire_many :: "'s \<Rightarrow> nat \<Rightarrow> 's option"
  add_permits :: "'s \<Rightarrow> nat \<Rightarrow> 's"

definition semaphore_laws :: "'s semaphore_ops \<Rightarrow> bool" where
  "semaphore_laws S \<longleftrightarrow>
    (\<forall>n. available_permits S (sem_new S n) = n)
    \<and> (\<forall>s n. try_acquire_many S s n = None \<longleftrightarrow> available_permits S s < n)
    \<and> (\<forall>s n t. try_acquire_many S s n = Some t \<longrightarrow> available_permits S t = available_permits S s - n)
    \<and> (\<forall>s n. available_permits S (add_permits S s n) = available_permits S s + n)"

definition counting_semaphore :: "nat semaphore_ops" where
  "counting_semaphore =
    \<lparr>sem_new = (\<lambda>n. n), available_permits = (\<lambda>s. s),
     try_acquire_many = (\<lambda>s n. if n \<le> s then Some (s - n) else None),
     add_permits = (\<lambda>s n. s + n)\<rparr>"

lemma counting_semaphore_laws: "semaphore_laws counting_semaphore"
  by (auto simp: semaphore_laws_def counting_semaphore_def)

section \<open>Acquiring a local and a global share\<close>

text \<open>
  The common body of \<^verbatim>\<open>Reservation::acquire\<close> and \<^verbatim>\<open>CountAdmission::acquire\<close>.  The permits are
  returned together with the updated semaphores; on failure of the second acquisition the dropped
  local permit is added back.
\<close>

definition acquire_pair ::
  "'s semaphore_ops \<Rightarrow> snapshot_error \<Rightarrow> 's \<Rightarrow> 's \<Rightarrow> nat \<Rightarrow> 's \<times> 's \<times> nat result" where
  "acquire_pair S e local global credits =
    (case try_acquire_many S local credits of
       None \<Rightarrow> (local, global, Inl e)
     | Some local' \<Rightarrow>
         (case try_acquire_many S global credits of
            None \<Rightarrow> (add_permits S local' credits, global, Inl e)
          | Some global' \<Rightarrow> (local', global', Inr credits)))"

definition capacity_limit :: snapshot_error where
  "capacity_limit = SnapshotError_new LimitExceeded ''content capacity admission limit reached''"

definition Reservation_acquire ::
  "'s semaphore_ops \<Rightarrow> 's \<Rightarrow> 's \<Rightarrow> nat \<Rightarrow> 's \<times> 's \<times> nat result" where
  "Reservation_acquire S = acquire_pair S capacity_limit"

definition count_limit :: snapshot_error where
  "count_limit = SnapshotError_new LimitExceeded ''fetch count admission limit reached''"

definition CountAdmission_acquire ::
  "'s semaphore_ops \<Rightarrow> 's \<Rightarrow> 's \<Rightarrow> 's \<times> 's \<times> nat result" where
  "CountAdmission_acquire S local global = acquire_pair S count_limit local global 1"

section \<open>A process-wide pool shared by owners\<close>

text \<open>
  The global semaphore, the semaphore of each owner and the permits that are out, each with its
  owner and its number of credits.  Dropping an admission releases both shares.
\<close>

record 's pool =
  pool_global :: 's
  pool_local :: "nat \<Rightarrow> 's"
  pool_held :: "(nat \<times> nat) list"

definition pool_new :: "'s semaphore_ops \<Rightarrow> nat \<Rightarrow> (nat \<Rightarrow> nat) \<Rightarrow> 's pool" where
  "pool_new S cap limit =
    \<lparr>pool_global = sem_new S cap, pool_local = (\<lambda>owner. sem_new S (limit owner)), pool_held = []\<rparr>"

definition pool_acquire ::
  "'s semaphore_ops \<Rightarrow> snapshot_error \<Rightarrow> 's pool \<Rightarrow> nat \<Rightarrow> nat \<Rightarrow> 's pool \<times> nat result" where
  "pool_acquire S e p owner credits =
    (case acquire_pair S e (pool_local p owner) (pool_global p) credits of
       (local, global, r) \<Rightarrow>
         (p\<lparr>pool_local := (pool_local p)(owner := local), pool_global := global,
            pool_held := (case r of Inl _ \<Rightarrow> pool_held p | Inr n \<Rightarrow> (owner, n) # pool_held p)\<rparr>, r))"

definition drop_nth :: "nat \<Rightarrow> 'a list \<Rightarrow> 'a list" where
  "drop_nth i xs = take i xs @ drop (Suc i) xs"

definition pool_release :: "'s semaphore_ops \<Rightarrow> 's pool \<Rightarrow> nat \<Rightarrow> 's pool" where
  "pool_release S p i =
    (if i < length (pool_held p)
     then case pool_held p ! i of (owner, credits) \<Rightarrow>
       p\<lparr>pool_local := (pool_local p)(owner := add_permits S (pool_local p owner) credits),
         pool_global := add_permits S (pool_global p) credits,
         pool_held := drop_nth i (pool_held p)\<rparr>
     else p)"

inductive pool_step :: "'s semaphore_ops \<Rightarrow> 's pool \<Rightarrow> 's pool \<Rightarrow> bool" for S where
  acquire: "pool_acquire S e p owner credits = (p', r) \<Longrightarrow> pool_step S p p'"
| release: "pool_step S p (pool_release S p i)"

inductive pool_reachable ::
  "'s semaphore_ops \<Rightarrow> nat \<Rightarrow> (nat \<Rightarrow> nat) \<Rightarrow> 's pool \<Rightarrow> bool" for S cap limit where
  init: "pool_reachable S cap limit (pool_new S cap limit)"
| step: "pool_reachable S cap limit p \<Longrightarrow> pool_step S p p' \<Longrightarrow> pool_reachable S cap limit p'"

section \<open>Lemmas\<close>

lemma semaphore_lawsD:
  assumes "semaphore_laws S"
  shows "available_permits S (sem_new S n) = n"
    "try_acquire_many S s n = None \<longleftrightarrow> available_permits S s < n"
    "try_acquire_many S s n = Some t \<Longrightarrow> available_permits S t = available_permits S s - n"
    "try_acquire_many S s n = Some t \<Longrightarrow> n \<le> available_permits S s"
    "available_permits S (add_permits S s n) = available_permits S s + n"
proof -
  show "n \<le> available_permits S s" if "try_acquire_many S s n = Some t"
    using assms that by (metis not_less option.distinct(1) semaphore_laws_def)
qed (use assms in \<open>simp_all add: semaphore_laws_def\<close>)

text \<open>Both shares or neither: a failed admission changes no availability.\<close>

lemma acquire_pair_cases:
  assumes S: "semaphore_laws S" and a: "acquire_pair S e local global n = (local', global', r)"
  obtains (ok) "r = Inr n" "n \<le> available_permits S local" "n \<le> available_permits S global"
      "available_permits S local' = available_permits S local - n"
      "available_permits S global' = available_permits S global - n"
    | (failed) "r = Inl e" "available_permits S local < n \<or> available_permits S global < n"
      "available_permits S local' = available_permits S local" "global' = global"
proof -
  note laws = semaphore_lawsD[OF S]
  consider "try_acquire_many S local n = None"
    | l where "try_acquire_many S local n = Some l" "try_acquire_many S global n = None"
    | l g where "try_acquire_many S local n = Some l" "try_acquire_many S global n = Some g"
    by (cases "try_acquire_many S local n"; cases "try_acquire_many S global n") auto
  then show thesis
  proof cases
    case 1
    then have "available_permits S local < n" using laws(2) by blast
    with 1 a show ?thesis by (intro failed) (simp_all add: acquire_pair_def)
  next
    case 2
    then have "available_permits S global < n" using laws(2) by blast
    moreover have "available_permits S (add_permits S l n) = available_permits S local"
      using laws(3-5) 2(1) by simp
    ultimately show ?thesis
      using 2 a by (intro failed) (auto simp: acquire_pair_def)
  next
    case 3
    with a have "r = Inr n" "local' = l" "global' = g" by (simp_all add: acquire_pair_def)
    with 3 laws(3,4) show ?thesis by (intro ok) simp_all
  qed
qed

definition held_by :: "nat \<Rightarrow> (nat \<times> nat) list \<Rightarrow> nat" where
  "held_by owner hs = sum_list (map snd (filter (\<lambda>h. fst h = owner) hs))"

definition pool_inv :: "'s semaphore_ops \<Rightarrow> nat \<Rightarrow> (nat \<Rightarrow> nat) \<Rightarrow> 's pool \<Rightarrow> bool" where
  "pool_inv S cap limit p \<longleftrightarrow>
    available_permits S (pool_global p) + sum_list (map snd (pool_held p)) = cap
    \<and> (\<forall>owner. available_permits S (pool_local p owner) + held_by owner (pool_held p) = limit owner)"

lemma held_by_Cons [simp]:
  "held_by o1 ((o2, n) # hs) = (if o1 = o2 then n else 0) + held_by o1 hs"
  by (simp add: held_by_def)

lemma held_by_Nil [simp]: "held_by owner [] = 0"
  by (simp add: held_by_def)

lemma split_nth: "i < length xs \<Longrightarrow> xs = take i xs @ xs ! i # drop (Suc i) xs"
  by (rule id_take_nth_drop)

lemma held_by_append: "held_by owner (xs @ ys) = held_by owner xs + held_by owner ys"
  by (simp add: held_by_def)

lemma drop_nth_sums:
  assumes "i < length hs" "hs ! i = (owner, n)"
  shows "sum_list (map snd hs) = n + sum_list (map snd (drop_nth i hs))"
    "held_by o1 hs = (if o1 = owner then n else 0) + held_by o1 (drop_nth i hs)"
proof -
  have hs: "hs = take i hs @ (owner, n) # drop (Suc i) hs"
    using split_nth[OF assms(1)] assms(2) by simp
  show "sum_list (map snd hs) = n + sum_list (map snd (drop_nth i hs))"
    by (subst hs) (simp add: drop_nth_def)
  show "held_by o1 hs = (if o1 = owner then n else 0) + held_by o1 (drop_nth i hs)"
    by (subst hs) (simp add: drop_nth_def held_by_append)
qed

lemma pool_inv_new: "semaphore_laws S \<Longrightarrow> pool_inv S cap limit (pool_new S cap limit)"
  by (simp add: pool_inv_def pool_new_def semaphore_lawsD)

lemma pool_inv_acquire:
  assumes "semaphore_laws S" "pool_inv S cap limit p" "pool_acquire S e p owner n = (p', r)"
  shows "pool_inv S cap limit p'"
proof -
  obtain l g where a: "acquire_pair S e (pool_local p owner) (pool_global p) n = (l, g, r)"
    and p': "p' = p\<lparr>pool_local := (pool_local p)(owner := l), pool_global := g,
      pool_held := (case r of Inl _ \<Rightarrow> pool_held p | Inr n \<Rightarrow> (owner, n) # pool_held p)\<rparr>"
    using assms(3) by (auto simp: pool_acquire_def split: prod.splits)
  have loc: "available_permits S (pool_local p x) + held_by x (pool_held p) = limit x" for x
    using assms(2) by (simp add: pool_inv_def)
  show ?thesis
    using assms(1) a
  proof (cases rule: acquire_pair_cases)
    case ok
    with assms(2) p' loc[of owner] show ?thesis
      by (auto simp: pool_inv_def)
  next
    case failed
    with assms(2) p' show ?thesis
      by (auto simp: pool_inv_def)
  qed
qed

lemma pool_inv_release:
  assumes "semaphore_laws S" "pool_inv S cap limit p"
  shows "pool_inv S cap limit (pool_release S p i)"
proof (cases "i < length (pool_held p)")
  case True
  obtain owner n where h: "pool_held p ! i = (owner, n)" by (cases "pool_held p ! i")
  note sums = drop_nth_sums[OF True h]
  have loc: "available_permits S (pool_local p x) + held_by x (pool_held p) = limit x" for x
    using assms(2) by (simp add: pool_inv_def)
  have "available_permits S (((pool_local p)(owner := add_permits S (pool_local p owner) n)) x)
      + held_by x (drop_nth i (pool_held p)) = limit x" for x
    using loc[of x] sums(2)[of x] assms(1) by (auto simp: semaphore_lawsD(5))
  with assms True h sums(1) show ?thesis
    by (auto simp: pool_inv_def pool_release_def semaphore_lawsD(5))
qed (use assms in \<open>simp add: pool_release_def\<close>)

lemma pool_reachable_inv:
  assumes "pool_reachable S cap limit p" "semaphore_laws S"
  shows "pool_inv S cap limit p"
  using assms
  by (induction rule: pool_reachable.induct)
    (auto simp: pool_inv_new elim!: pool_step.cases intro: pool_inv_acquire pool_inv_release)

lemma pool_reachable_bounds:
  assumes "pool_reachable S cap limit p" "semaphore_laws S"
  shows "sum_list (map snd (pool_held p)) = cap - available_permits S (pool_global p)"
    "sum_list (map snd (pool_held p)) \<le> cap"
    "held_by owner (pool_held p) = limit owner - available_permits S (pool_local p owner)"
    "held_by owner (pool_held p) \<le> limit owner"
  using pool_reachable_inv[OF assms] unfolding pool_inv_def by (auto dest!: spec[of _ owner])

end
