(* ===== verification/Content.thy ===== *)
theory Content
  imports Admission
begin

text \<open>
  Ownership of content buffers (\<^verbatim>\<open>snapshot/content.rs\<close>): the byte budgets, the fixed-capacity
  buffer whose reservation it carries, and the publication of verified content.  The sizes of the
  Rust structures and the allocator are arguments: \<^verbatim>\<open>alloc n\<close> is the capacity that
  \<^verbatim>\<open>try_reserve_exact(n)\<close> yields, or \<^term>\<open>None\<close> when it fails.
\<close>

section \<open>Budgets\<close>

definition CREDIT :: nat where "CREDIT = 1024"
definition PROCESS_OUTPUT_BYTES :: nat where "PROCESS_OUTPUT_BYTES = 512 * 1024 * 1024"
definition PROCESS_CONSTRUCTION_BYTES :: nat where "PROCESS_CONSTRUCTION_BYTES = 64 * 1024 * 1024"
definition COORDINATOR_OUTPUT_BYTES :: nat where "COORDINATOR_OUTPUT_BYTES = 128 * 1024 * 1024"
definition COORDINATOR_CONSTRUCTION_BYTES :: nat where
  "COORDINATOR_CONSTRUCTION_BYTES = 32 * 1024 * 1024"

record content_budget_limits =
  output_bytes :: nat
  construction_bytes :: nat

definition ContentBudgetLimits_new :: "nat \<Rightarrow> nat \<Rightarrow> content_budget_limits result" where
  "ContentBudgetLimits_new out con =
    (if out = 0 \<or> con = 0 \<or> COORDINATOR_OUTPUT_BYTES < out \<or> COORDINATOR_CONSTRUCTION_BYTES < con
        \<or> out mod CREDIT \<noteq> 0 \<or> con mod CREDIT \<noteq> 0
     then Inl (SnapshotError_new InvalidRequest
                 ''content budgets must use positive 1-KiB credits within coordinator caps'')
     else Inr \<lparr>output_bytes = out, construction_bytes = con\<rparr>)"

definition ContentBudgetLimits_default :: content_budget_limits where
  "ContentBudgetLimits_default =
    \<lparr>output_bytes = COORDINATOR_OUTPUT_BYTES, construction_bytes = COORDINATOR_CONSTRUCTION_BYTES\<rparr>"

datatype budget_class = Output | Construction

text \<open>
  All budgets of the process: the process-wide semaphores of both classes, and the semaphores of
  each \<^verbatim>\<open>ContentBudget\<close>, which is named by a number.
\<close>

record 's content_world =
  output_pool :: "'s pool"
  construction_pool :: "'s pool"

definition content_world_new ::
  "'s semaphore_ops \<Rightarrow> (nat \<Rightarrow> content_budget_limits) \<Rightarrow> 's content_world" where
  "content_world_new S limits =
    \<lparr>output_pool = pool_new S (PROCESS_OUTPUT_BYTES div CREDIT)
       (\<lambda>b. output_bytes (limits b) div CREDIT),
     construction_pool = pool_new S (PROCESS_CONSTRUCTION_BYTES div CREDIT)
       (\<lambda>b. construction_bytes (limits b) div CREDIT)\<rparr>"

record content_budget_usage =
  used_output_bytes :: nat
  used_construction_bytes :: nat

definition usage ::
  "'s semaphore_ops \<Rightarrow> 's content_world \<Rightarrow> content_budget_limits \<Rightarrow> nat \<Rightarrow> content_budget_usage" where
  "usage S w l b =
    \<lparr>used_output_bytes = output_bytes l
       - available_permits S (pool_local (output_pool w) b) * CREDIT,
     used_construction_bytes = construction_bytes l
       - available_permits S (pool_local (construction_pool w) b) * CREDIT\<rparr>"

definition process_usage :: "'s semaphore_ops \<Rightarrow> 's content_world \<Rightarrow> content_budget_usage" where
  "process_usage S w =
    \<lparr>used_output_bytes = PROCESS_OUTPUT_BYTES
       - available_permits S (pool_global (output_pool w)) * CREDIT,
     used_construction_bytes = PROCESS_CONSTRUCTION_BYTES
       - available_permits S (pool_global (construction_pool w)) * CREDIT\<rparr>"

definition can_overlap_hydration ::
  "'s semaphore_ops \<Rightarrow> 's content_world \<Rightarrow> content_budget_limits \<Rightarrow> nat \<Rightarrow> bool" where
  "can_overlap_hydration S w l b =
    (if output_bytes l \<noteq> COORDINATOR_OUTPUT_BYTES
        \<or> construction_bytes l \<noteq> COORDINATOR_CONSTRUCTION_BYTES
     then False
     else
       let local = usage S w l b; process = process_usage S w in
       used_output_bytes local = 0 \<and> used_construction_bytes local = 0
       \<and> used_output_bytes process \<le> PROCESS_OUTPUT_BYTES - COORDINATOR_OUTPUT_BYTES
       \<and> used_construction_bytes process
           \<le> PROCESS_CONSTRUCTION_BYTES - COORDINATOR_CONSTRUCTION_BYTES)"

definition on_pool ::
  "budget_class \<Rightarrow> 's content_world \<Rightarrow> ('s pool \<Rightarrow> 's pool \<times> 'r) \<Rightarrow> 's content_world \<times> 'r" where
  "on_pool class w f =
    (case class of
       Output \<Rightarrow> (case f (output_pool w) of (p, r) \<Rightarrow> (w\<lparr>output_pool := p\<rparr>, r))
     | Construction \<Rightarrow> (case f (construction_pool w) of (p, r) \<Rightarrow> (w\<lparr>construction_pool := p\<rparr>, r)))"

definition credits_for :: "nat \<Rightarrow> nat result" where
  "credits_for bytes =
    ok_or (Option.bind (checked_add bytes (CREDIT - 1))
            (\<lambda>n. if n div CREDIT \<le> u32_MAX then Some (n div CREDIT) else None)) capacity_limit"

definition reserve ::
  "'s semaphore_ops \<Rightarrow> 's content_world \<Rightarrow> nat \<Rightarrow> budget_class \<Rightarrow> nat \<Rightarrow> 's content_world \<times> nat result" where
  "reserve S w b class bytes =
    (case credits_for bytes of
       Inl e \<Rightarrow> (w, Inl e)
     | Inr credits \<Rightarrow> on_pool class w (\<lambda>p. pool_acquire S capacity_limit p b credits))"

text \<open>Dropping the reservation at a position of the list of admissions.\<close>

definition drop_reservation ::
  "'s semaphore_ops \<Rightarrow> 's content_world \<Rightarrow> budget_class \<Rightarrow> nat \<Rightarrow> 's content_world" where
  "drop_reservation S w class i = fst (on_pool class w (\<lambda>p. (pool_release S p i, ())))"

inductive content_step :: "'s semaphore_ops \<Rightarrow> 's content_world \<Rightarrow> 's content_world \<Rightarrow> bool" for S where
  reserved: "reserve S w b class bytes = (w', r) \<Longrightarrow> content_step S w w'"
| dropped: "content_step S w (drop_reservation S w class i)"

inductive content_reachable ::
  "'s semaphore_ops \<Rightarrow> (nat \<Rightarrow> content_budget_limits) \<Rightarrow> 's content_world \<Rightarrow> bool" for S limits where
  init: "content_reachable S limits (content_world_new S limits)"
| step: "content_reachable S limits w \<Longrightarrow> content_step S w w' \<Longrightarrow> content_reachable S limits w'"

section \<open>Accounted buffers\<close>

record accounted_buffer =
  ab_bytes :: bytes
  ab_capacity :: nat
  ab_credits :: nat

definition AccountedBuffer_new ::
  "'s semaphore_ops \<Rightarrow> nat \<Rightarrow> (nat \<Rightarrow> nat option) \<Rightarrow> 's content_world \<Rightarrow> nat \<Rightarrow> budget_class \<Rightarrow> nat \<Rightarrow> nat
    \<Rightarrow> 's content_world \<times> accounted_buffer result" where
  "AccountedBuffer_new S overhead alloc w b class capacity extra =
    (case Option.bind (checked_add capacity extra) (\<lambda>n. checked_add n overhead) of
       None \<Rightarrow> (w, Inl capacity_limit)
     | Some charge \<Rightarrow>
        (case reserve S w b class charge of
           (w1, Inl e) \<Rightarrow> (w1, Inl e)
         | (w1, Inr credits) \<Rightarrow>
            (case alloc capacity of
               None \<Rightarrow> (drop_reservation S w1 class 0, Inl capacity_limit)
             | Some actual \<Rightarrow>
                if actual \<noteq> capacity
                then (drop_reservation S w1 class 0,
                      Inl (SnapshotError_new Internal ''unexpected fixed buffer capacity''))
                else (w1, Inr \<lparr>ab_bytes = [], ab_capacity = capacity, ab_credits = credits\<rparr>))))"

definition ab_append :: "accounted_buffer \<Rightarrow> bytes \<Rightarrow> accounted_buffer result" where
  "ab_append self bytes =
    (if ab_capacity self - length (ab_bytes self) < length bytes
     then Inl (SnapshotError_new DigestMismatch ''body exceeds its fixed expected size'')
     else Inr (self\<lparr>ab_bytes := ab_bytes self @ bytes\<rparr>))"

text \<open>\<^verbatim>\<open>Vec::resize\<close> truncates or pads with zeros.\<close>

definition ab_initialize :: "accounted_buffer \<Rightarrow> accounted_buffer" where
  "ab_initialize self =
    self\<lparr>ab_bytes := take (ab_capacity self) (ab_bytes self)
      @ replicate (ab_capacity self - length (ab_bytes self)) 0\<rparr>"

definition ab_write_at :: "accounted_buffer \<Rightarrow> nat \<Rightarrow> bytes \<Rightarrow> accounted_buffer result" where
  "ab_write_at self offset bytes =
    rbind (ok_or (checked_add offset (length bytes)) capacity_limit) (\<lambda>end.
    if length (ab_bytes self) < end
    then Inl (SnapshotError_new DigestMismatch ''chunk exceeds its fixed output range'')
    else Inr (self\<lparr>ab_bytes := take offset (ab_bytes self) @ bytes @ drop end (ab_bytes self)\<rparr>))"

section \<open>Verified content\<close>

record verified_content =
  vc_buffer :: accounted_buffer
  vc_digest :: bytes

definition matches_integrity :: "verified_content \<Rightarrow> bytes \<Rightarrow> nat \<Rightarrow> bool" where
  "matches_integrity self digest bytes =
    (vc_digest self = digest \<and> length (ab_bytes (vc_buffer self)) = bytes)"

definition publish ::
  "(bytes \<Rightarrow> bytes) \<Rightarrow> accounted_buffer \<Rightarrow> nat \<Rightarrow> bytes \<Rightarrow> verified_content result" where
  "publish sha256 buffer expected_size expected_digest =
    (if length (ab_bytes buffer) \<noteq> expected_size \<or> sha256 (ab_bytes buffer) \<noteq> expected_digest
     then Inl (SnapshotError_new DigestMismatch
                 ''content does not match its fixed size and whole digest'')
     else Inr \<lparr>vc_buffer = buffer, vc_digest = expected_digest\<rparr>)"

record batch_builder =
  bb_entries :: "(string \<times> verified_content) list"
  bb_capacity :: nat
  bb_credits :: nat

definition BatchBuilder_new ::
  "'s semaphore_ops \<Rightarrow> nat \<Rightarrow> nat \<Rightarrow> (nat \<Rightarrow> nat option) \<Rightarrow> 's content_world \<Rightarrow> nat \<Rightarrow> nat
    \<Rightarrow> 's content_world \<times> batch_builder result" where
  "BatchBuilder_new S entry_size overhead alloc w b count =
    (case Option.bind (checked_mul count (entry_size + 71)) (\<lambda>n. checked_add n overhead) of
       None \<Rightarrow> (w, Inl capacity_limit)
     | Some bytes \<Rightarrow>
        (case reserve S w b Output bytes of
           (w1, Inl e) \<Rightarrow> (w1, Inl e)
         | (w1, Inr credits) \<Rightarrow>
            (case alloc count of
               None \<Rightarrow> (drop_reservation S w1 Output 0, Inl capacity_limit)
             | Some actual \<Rightarrow>
                if actual \<noteq> count
                then (drop_reservation S w1 Output 0,
                      Inl (SnapshotError_new Internal ''unexpected fixed batch table capacity''))
                else (w1, Inr \<lparr>bb_entries = [], bb_capacity = count, bb_credits = credits\<rparr>))))"

definition bb_push ::
  "(nat \<Rightarrow> nat option) \<Rightarrow> batch_builder \<Rightarrow> string \<Rightarrow> verified_content \<Rightarrow> batch_builder result" where
  "bb_push alloc self digest content =
    (if length digest \<noteq> 71 \<or> length (bb_entries self) = bb_capacity self
     then Inl (SnapshotError_new Internal ''invalid fixed batch table entry'')
     else rbind (ok_or (alloc 71) capacity_limit) (\<lambda>actual.
          if actual \<noteq> 71
          then Inl (SnapshotError_new Internal ''unexpected fixed batch key capacity'')
          else Inr (self\<lparr>bb_entries := bb_entries self @ [(digest, content)]\<rparr>)))"

definition batch_get :: "(string \<times> verified_content) list \<Rightarrow> string \<Rightarrow> verified_content option" where
  "batch_get entries digest = map_option snd (find (\<lambda>e. fst e = digest) entries)"

section \<open>Lemmas on budgets\<close>

definition limits_valid :: "content_budget_limits \<Rightarrow> bool" where
  "limits_valid l \<longleftrightarrow> ContentBudgetLimits_new (output_bytes l) (construction_bytes l) = Inr l"

lemma limits_valid_facts:
  assumes "limits_valid l"
  shows "output_bytes l div CREDIT * CREDIT = output_bytes l"
    "construction_bytes l div CREDIT * CREDIT = construction_bytes l"
    "output_bytes l \<le> COORDINATOR_OUTPUT_BYTES"
    "construction_bytes l \<le> COORDINATOR_CONSTRUCTION_BYTES"
  using assms by (auto simp: limits_valid_def ContentBudgetLimits_new_def split: if_splits)

lemma limits_valid_default: "limits_valid ContentBudgetLimits_default"
  by (simp add: limits_valid_def ContentBudgetLimits_new_def ContentBudgetLimits_default_def
      COORDINATOR_OUTPUT_BYTES_def COORDINATOR_CONSTRUCTION_BYTES_def CREDIT_def)

lemma credits_for_Inr:
  assumes "credits_for bytes = Inr c"
  shows "bytes \<le> c * CREDIT" "c * CREDIT < bytes + CREDIT" "c \<le> u32_MAX"
proof -
  have c: "c = (bytes + (CREDIT - 1)) div CREDIT" and "c \<le> u32_MAX"
    using assms by (auto simp: credits_for_def result_simps bind_eq_Some_conv split: if_splits)
  then show "c \<le> u32_MAX" by simp
  show "bytes \<le> c * CREDIT" "c * CREDIT < bytes + CREDIT"
    unfolding c CREDIT_def by simp_all
qed

lemma credits_for_Inl: "credits_for bytes = Inl e \<Longrightarrow> e = capacity_limit"
  by (auto simp: credits_for_def result_simps)

definition pool_of :: "budget_class \<Rightarrow> 's content_world \<Rightarrow> 's pool" where
  "pool_of class w = (case class of Output \<Rightarrow> output_pool w | Construction \<Rightarrow> construction_pool w)"

lemma pool_of_simps [simp]:
  "pool_of Output w = output_pool w" "pool_of Construction w = construction_pool w"
  by (simp_all add: pool_of_def)

lemma on_pool_result:
  assumes "on_pool class w f = (w', r)"
  obtains p where "f (pool_of class w) = (p, r)" "pool_of class w' = p"
    "\<And>c. c \<noteq> class \<Longrightarrow> pool_of c w' = pool_of c w"
proof -
  obtain p where p: "f (pool_of class w) = (p, r)"
    "w' = (case class of Output \<Rightarrow> w\<lparr>output_pool := p\<rparr> | Construction \<Rightarrow> w\<lparr>construction_pool := p\<rparr>)"
    using assms by (cases "class") (auto simp: on_pool_def split: prod.splits)
  show thesis
  proof (rule that[OF p(1)])
    show "pool_of class w' = p" by (cases "class") (simp_all add: p)
    show "pool_of c w' = pool_of c w" if "c \<noteq> class" for c
      using that by (cases "class"; cases c) (simp_all add: p)
  qed
qed

definition class_total :: "budget_class \<Rightarrow> nat" where
  "class_total class = (case class of Output \<Rightarrow> PROCESS_OUTPUT_BYTES
                                    | Construction \<Rightarrow> PROCESS_CONSTRUCTION_BYTES)"

definition class_limit :: "budget_class \<Rightarrow> content_budget_limits \<Rightarrow> nat" where
  "class_limit class l = (case class of Output \<Rightarrow> output_bytes l | Construction \<Rightarrow> construction_bytes l)"

lemma content_step_pool:
  assumes "content_step S w w'"
  shows "pool_of c w' = pool_of c w \<or> pool_step S (pool_of c w) (pool_of c w')"
  using assms
proof cases
  case (reserved b cl bytes r)
  show ?thesis
  proof (cases "credits_for bytes")
    case (Inr n)
    with reserved have "on_pool cl w (\<lambda>p. pool_acquire S capacity_limit p b n) = (w', r)"
      by (simp add: reserve_def)
    then show ?thesis
      by (rule on_pool_result) (cases "c = cl"; metis pool_step.acquire)
  qed (use reserved in \<open>simp add: reserve_def\<close>)
next
  case (dropped cl i)
  have "on_pool cl w (\<lambda>p. (pool_release S p i, ())) = (w', ())"
    using dropped by (simp add: drop_reservation_def prod_eq_iff)
  then show ?thesis
    by (rule on_pool_result) (cases "c = cl"; metis pool_step.release prod.inject)
qed

lemma content_reachable_pool:
  assumes "content_reachable S limits w"
  shows "pool_reachable S (class_total c div CREDIT) (\<lambda>b. class_limit c (limits b) div CREDIT) (pool_of c w)"
  using assms
proof induction
  case init
  show ?case
    using pool_reachable.init[of S] by (cases c) (simp_all add: content_world_new_def class_total_def class_limit_def)
next
  case (step w w')
  then show ?case
    using content_step_pool[of S w w' c] pool_reachable.step by metis
qed

definition class_used :: "budget_class \<Rightarrow> content_budget_usage \<Rightarrow> nat" where
  "class_used class u =
    (case class of Output \<Rightarrow> used_output_bytes u | Construction \<Rightarrow> used_construction_bytes u)"

lemma class_used_usage:
  "class_used c (usage S w l b) = class_limit c l - available_permits S (pool_local (pool_of c w) b) * CREDIT"
  "class_used c (process_usage S w) = class_total c - available_permits S (pool_global (pool_of c w)) * CREDIT"
  by (cases c; simp add: class_used_def usage_def process_usage_def class_limit_def class_total_def)+

lemma class_total_credits: "class_total c div CREDIT * CREDIT = class_total c"
  by (cases c) (simp_all add: class_total_def PROCESS_OUTPUT_BYTES_def PROCESS_CONSTRUCTION_BYTES_def CREDIT_def)

lemma class_limit_credits: "limits_valid l \<Longrightarrow> class_limit c l div CREDIT * CREDIT = class_limit c l"
  by (cases c) (simp_all add: class_limit_def limits_valid_facts)

section \<open>Lemmas on single operations\<close>

definition same_availability :: "'s semaphore_ops \<Rightarrow> 's content_world \<Rightarrow> 's content_world \<Rightarrow> bool" where
  "same_availability S w w' \<longleftrightarrow>
    (\<forall>c. available_permits S (pool_global (pool_of c w')) = available_permits S (pool_global (pool_of c w))
       \<and> (\<forall>b. available_permits S (pool_local (pool_of c w') b)
              = available_permits S (pool_local (pool_of c w) b))
       \<and> pool_held (pool_of c w') = pool_held (pool_of c w))"

lemma reserve_cases:
  assumes S: "semaphore_laws S" and r: "reserve S w b class bytes = (w', r)"
  obtains (ok) n where "r = Inr n" "bytes \<le> n * CREDIT" "n * CREDIT < bytes + CREDIT"
      "pool_held (pool_of class w') = (b, n) # pool_held (pool_of class w)"
      "n \<le> available_permits S (pool_global (pool_of class w))"
      "n \<le> available_permits S (pool_local (pool_of class w) b)"
      "available_permits S (pool_global (pool_of class w')) = available_permits S (pool_global (pool_of class w)) - n"
      "\<And>b'. available_permits S (pool_local (pool_of class w') b')
         = available_permits S (pool_local (pool_of class w) b') - (if b' = b then n else 0)"
      "\<And>c. c \<noteq> class \<Longrightarrow> pool_of c w' = pool_of c w"
    | (failed) "r = Inl capacity_limit" "same_availability S w w'"
proof (cases "credits_for bytes")
  case (Inl e)
  with r credits_for_Inl[OF Inl] failed show ?thesis
    by (auto simp: reserve_def same_availability_def)
next
  case (Inr n)
  with r have "on_pool class w (\<lambda>p. pool_acquire S capacity_limit p b n) = (w', r)"
    by (simp add: reserve_def)
  then show ?thesis
  proof (rule on_pool_result)
    fix p
    assume p: "pool_acquire S capacity_limit (pool_of class w) b n = (p, r)" "pool_of class w' = p"
      and other: "\<And>c. c \<noteq> class \<Longrightarrow> pool_of c w' = pool_of c w"
    from p(1) obtain l g where a:
      "acquire_pair S capacity_limit (pool_local (pool_of class w) b) (pool_global (pool_of class w)) n = (l, g, r)"
      and pe: "p = (pool_of class w)\<lparr>pool_local := (pool_local (pool_of class w))(b := l), pool_global := g,
        pool_held := (case r of Inl _ \<Rightarrow> pool_held (pool_of class w) | Inr n \<Rightarrow> (b, n) # pool_held (pool_of class w))\<rparr>"
      by (auto simp: pool_acquire_def split: prod.splits)
    from S a show thesis
    proof (cases rule: acquire_pair_cases)
      case ok
      then show ?thesis
        using p(2) pe other credits_for_Inr[OF Inr] by (intro that(1)[of n]) auto
    next
      case failed
      have "pool_held (pool_of c w') = pool_held (pool_of c w)"
        "available_permits S (pool_global (pool_of c w')) = available_permits S (pool_global (pool_of c w))"
        "available_permits S (pool_local (pool_of c w') b') = available_permits S (pool_local (pool_of c w) b')"
        for c b'
        using p(2) pe other[of c] failed by (cases "c = class"; simp)+
      with failed show ?thesis
        by (intro that(2)) (simp_all add: same_availability_def)
    qed
  qed
qed

lemma drop_nth_0 [simp]: "drop_nth 0 (x # xs) = xs"
  by (simp add: drop_nth_def)

lemma drop_after_reserve:
  assumes S: "semaphore_laws S" and r: "reserve S w b cl bytes = (w1, Inr n)"
  shows "same_availability S w (drop_reservation S w1 cl 0)"
  using S r
proof (cases rule: reserve_cases)
  case (ok m)
  obtain w2 where w2: "drop_reservation S w1 cl 0 = w2"
      "on_pool cl w1 (\<lambda>p. (pool_release S p 0, ())) = (w2, ())"
    by (simp add: drop_reservation_def prod_eq_iff)
  have rel: "pool_of cl w2 = pool_release S (pool_of cl w1) 0"
    and other: "c \<noteq> cl \<Longrightarrow> pool_of c w2 = pool_of c w" for c
    using w2(2) ok by (auto elim!: on_pool_result)
  have relq: "pool_of cl w2 = (pool_of cl w1)
      \<lparr>pool_local := (pool_local (pool_of cl w1))(b := add_permits S (pool_local (pool_of cl w1) b) m),
       pool_global := add_permits S (pool_global (pool_of cl w1)) m,
       pool_held := pool_held (pool_of cl w)\<rparr>"
    using ok(4) by (simp add: rel pool_release_def)
  have "pool_held (pool_of c w2) = pool_held (pool_of c w)"
    "available_permits S (pool_global (pool_of c w2)) = available_permits S (pool_global (pool_of c w))"
    "available_permits S (pool_local (pool_of c w2) b') = available_permits S (pool_local (pool_of c w) b')"
    for c b'
    using relq other[of c] ok(5-8) semaphore_lawsD(5)[OF S] by (cases "c = cl"; auto)+
  then have "same_availability S w w2"
    by (simp add: same_availability_def)
  with w2 show ?thesis by simp
qed simp

lemma same_availability_refl [simp]: "same_availability S w w"
  by (simp add: same_availability_def)

lemma AccountedBuffer_new_cases:
  assumes S: "semaphore_laws S"
    and new: "AccountedBuffer_new S overhead alloc w b cl capacity extra = (w', r)"
  obtains (ok) n where "r = Inr \<lparr>ab_bytes = [], ab_capacity = capacity, ab_credits = n\<rparr>"
      "capacity + extra + overhead \<le> n * CREDIT" "reserve S w b cl (capacity + extra + overhead) = (w', Inr n)"
    | (failed) e where "r = Inl e" "same_availability S w w'"
proof (cases "Option.bind (checked_add capacity extra) (\<lambda>n. checked_add n overhead)")
  case None
  with new failed show ?thesis by (auto simp: AccountedBuffer_new_def)
next
  case (Some charge)
  then have charge: "charge = capacity + extra + overhead"
    by (auto simp: bind_eq_Some_conv result_simps)
  obtain w1 r1 where r1: "reserve S w b cl charge = (w1, r1)" by fastforce
  show ?thesis
  proof (cases r1)
    case (Inl e)
    from S r1 have "same_availability S w w1"
      by (cases rule: reserve_cases) (use Inl in auto)
    with Inl Some r1 new failed show ?thesis by (auto simp: AccountedBuffer_new_def)
  next
    case (Inr n)
    with r1 have r: "reserve S w b cl charge = (w1, Inr n)" by simp
    have n: "charge \<le> n * CREDIT"
      using S r by (cases rule: reserve_cases) auto
    show ?thesis
    proof (cases "alloc capacity = Some capacity")
      case True
      with new Some r have "w' = w1" "r = Inr \<lparr>ab_bytes = [], ab_capacity = capacity, ab_credits = n\<rparr>"
        unfolding AccountedBuffer_new_def by simp_all
      then show ?thesis using n charge r by (intro ok) simp_all
    next
      case False
      with new Some r have "w' = drop_reservation S w1 cl 0" "\<exists>e. r = Inl e"
        by (auto simp: AccountedBuffer_new_def split: option.splits if_splits)
      then show ?thesis using drop_after_reserve[OF S r] failed by blast
    qed
  qed
qed

datatype buffer_op = Append bytes | Initialize | WriteAt nat bytes

fun run_buffer_op :: "accounted_buffer \<Rightarrow> buffer_op \<Rightarrow> accounted_buffer" where
  "run_buffer_op buf (Append bs) = (case ab_append buf bs of Inl _ \<Rightarrow> buf | Inr buf' \<Rightarrow> buf')"
| "run_buffer_op buf Initialize = ab_initialize buf"
| "run_buffer_op buf (WriteAt off bs) = (case ab_write_at buf off bs of Inl _ \<Rightarrow> buf | Inr buf' \<Rightarrow> buf')"

definition buffer_ok :: "accounted_buffer \<Rightarrow> bool" where
  "buffer_ok buf \<longleftrightarrow> length (ab_bytes buf) \<le> ab_capacity buf"

lemma ab_append_Inr:
  "ab_append buf bs = Inr buf' \<longleftrightarrow>
    length bs \<le> ab_capacity buf - length (ab_bytes buf) \<and> buf' = buf\<lparr>ab_bytes := ab_bytes buf @ bs\<rparr>"
  by (auto simp: ab_append_def)

lemma ab_write_at_Inr:
  "ab_write_at buf off bs = Inr buf' \<longleftrightarrow>
    off + length bs \<le> u64_MAX \<and> off + length bs \<le> length (ab_bytes buf)
    \<and> buf' = buf\<lparr>ab_bytes := take off (ab_bytes buf) @ bs @ drop (off + length bs) (ab_bytes buf)\<rparr>"
  by (auto simp: ab_write_at_def result_simps not_less)

lemma run_buffer_op_ok:
  assumes "buffer_ok buf"
  shows "buffer_ok (run_buffer_op buf op)" "ab_capacity (run_buffer_op buf op) = ab_capacity buf"
    "ab_credits (run_buffer_op buf op) = ab_credits buf"
  using assms
  by (cases op; auto simp: buffer_ok_def ab_initialize_def ab_append_Inr ab_write_at_Inr split: sum.splits)+

lemma run_buffer_ops_ok:
  assumes "buffer_ok buf"
  shows "buffer_ok (fold (\<lambda>op buf. run_buffer_op buf op) ops buf)
    \<and> ab_capacity (fold (\<lambda>op buf. run_buffer_op buf op) ops buf) = ab_capacity buf
    \<and> ab_credits (fold (\<lambda>op buf. run_buffer_op buf op) ops buf) = ab_credits buf"
  using assms by (induction ops arbitrary: buf) (simp_all add: run_buffer_op_ok)

section \<open>Properties\<close>



text \<open>C38: Creating a buffer is all or nothing: on success the credits taken from both levels cover
  its capacity and overhead, and on any failure, including an allocator failure after the admission,
  every semaphore has as many permits as before and no admission is left behind.  No later operation
  on the buffer can make it hold more than its admitted capacity.\<close>

theorem accounted_buffer_admission:
  assumes "semaphore_laws S"
    and "AccountedBuffer_new S overhead alloc w b cl capacity extra = (w', r)"
  shows "case r of
      Inl e \<Rightarrow> same_availability S w w'
    | Inr buf \<Rightarrow>
        pool_held (pool_of cl w') = (b, ab_credits buf) # pool_held (pool_of cl w)
        \<and> available_permits S (pool_global (pool_of cl w)) =
            available_permits S (pool_global (pool_of cl w')) + ab_credits buf
        \<and> (let buf' = fold (\<lambda>op buf. run_buffer_op buf op) ops buf in
             length (ab_bytes buf') + extra + overhead \<le> ab_credits buf' * CREDIT
             \<and> length (ab_bytes buf') \<le> capacity)"
  using assms
proof (cases rule: AccountedBuffer_new_cases)
  case (ok n)
  let ?buf = "\<lparr>ab_bytes = [], ab_capacity = capacity, ab_credits = n\<rparr>"
  have "buffer_ok ?buf" by (simp add: buffer_ok_def)
  from run_buffer_ops_ok[OF this, of ops]
  have "let buf' = fold (\<lambda>op buf. run_buffer_op buf op) ops ?buf in
      length (ab_bytes buf') + extra + overhead \<le> ab_credits buf' * CREDIT
      \<and> length (ab_bytes buf') \<le> capacity"
    using ok(2) by (simp add: buffer_ok_def Let_def)
  moreover have "pool_held (pool_of cl w') = (b, n) # pool_held (pool_of cl w)
      \<and> available_permits S (pool_global (pool_of cl w)) =
          available_permits S (pool_global (pool_of cl w')) + n"
    using assms(1) ok(3) by (cases rule: reserve_cases) auto
  ultimately show ?thesis
    using ok(1) by simp
next
  case (failed e)
  then show ?thesis by simp
qed

theorem accounted_buffer_admission_witness:
  "case AccountedBuffer_new counting_semaphore 40 Some
     (content_world_new counting_semaphore (\<lambda>_. ContentBudgetLimits_default)) 0 Output 4096 100 of
   (w', r) \<Rightarrow> (case r of Inl e \<Rightarrow> False
      | Inr buf \<Rightarrow> length (ab_bytes (fold (\<lambda>op buf. run_buffer_op buf op) [Initialize] buf)) \<le> 4096)"
proof -
  let ?w = "content_world_new counting_semaphore (\<lambda>_. ContentBudgetLimits_default)"
  obtain w' r where new: "AccountedBuffer_new counting_semaphore 40 Some ?w 0 Output 4096 100 = (w', r)"
    by fastforce
  have "is_ok (snd (AccountedBuffer_new counting_semaphore 40 Some ?w 0 Output 4096 100))"
    by code_simp
  with new have "\<exists>buf. r = Inr buf" by (simp add: is_ok_iff)
  with accounted_buffer_admission[OF counting_semaphore_laws new, of "[Initialize]"] new show ?thesis
    by (auto simp: Let_def)
qed



end
