(* ===== verification/Range_Scan.thy ===== *)
theory Range_Scan
  imports Content Capabilities
begin

text \<open>
  Verified reads of a local content-addressed object (\<^verbatim>\<open>snapshot/cas_index.rs\<close>): the cold path
  that hashes the whole file while it copies the requested range and records the digest of every
  chunk, and the warm path that re-reads only the covering chunks and checks them against those
  digests.  The operating system is an argument: a read of the file is answered from a list of
  events, each delivering some bytes, an interruption or an error, so every pattern of short reads
  is covered.  SHA-256 and the hex encoder are arguments.  A digest context is the list of bytes fed
  to it so far.
\<close>

section \<open>Reading\<close>

definition CHUNK_SIZE :: nat where "CHUNK_SIZE = 1024 * 1024"

datatype read_event = Data bytes | Interrupted | Failed string

record local_cas_range_meters =
  bytes_read :: nat
  whole_sha256_bytes :: nat
  chunk_sha256_bytes :: nat
  output_append_bytes :: nat
  index_hit :: bool
  index_built :: bool
  strict_fallback :: bool
  index_fact_charge_bytes :: nat

definition meters_default :: local_cas_range_meters where
  "meters_default =
    \<lparr>bytes_read = 0, whole_sha256_bytes = 0, chunk_sha256_bytes = 0, output_append_bytes = 0,
     index_hit = False, index_built = False, strict_fallback = False, index_fact_charge_bytes = 0\<rparr>"

definition mismatch :: "string \<Rightarrow> snapshot_error" where
  "mismatch m = SnapshotError_new DigestMismatch m"

definition io_error :: "string \<Rightarrow> snapshot_error" where
  "io_error m = SnapshotError_new Internal m"

definition allocation_error :: snapshot_error where
  "allocation_error = SnapshotError_new LimitExceeded ''local CAS range allocation failed''"

text \<open>The end of the list is the end of the file; a read delivers at most the buffer's length.\<close>

fun read_retry :: "nat \<Rightarrow> read_event list \<Rightarrow> (bytes \<times> read_event list) result" where
  "read_retry cap [] = Inr ([], [])"
| "read_retry cap (Data bs # evs) =
    Inr (take cap bs, if length bs \<le> cap then evs else Data (drop cap bs) # evs)"
| "read_retry cap (Interrupted # evs) = read_retry cap evs"
| "read_retry cap (Failed e # evs) = Inl (io_error e)"

text \<open>A read through \<^verbatim>\<open>Read::take\<close> with some bytes left of its limit.\<close>

definition read_bounded :: "nat \<Rightarrow> nat \<Rightarrow> read_event list \<Rightarrow> (bytes \<times> read_event list) result" where
  "read_bounded left cap evs = (if left = 0 then Inr ([], evs) else read_retry (min left cap) evs)"

definition check_metadata :: "string + (bool \<times> nat) \<Rightarrow> nat \<Rightarrow> unit result" where
  "check_metadata metadata bytes =
    rbind (map_err io_error metadata) (\<lambda>(is_file, len).
    if \<not> is_file \<or> len \<noteq> bytes
    then Inl (mismatch ''local CAS object size/type differs from the fixed view'')
    else Inr ())"

section \<open>Sinks\<close>

text \<open>The trait \<^verbatim>\<open>RangeSink\<close> is the record of its two methods.\<close>

record 's sink_ops =
  sink_len :: "'s \<Rightarrow> nat"
  sink_append :: "'s \<Rightarrow> bytes \<Rightarrow> 's result"

record vec_sink =
  vs_bytes :: bytes
  vs_capacity :: nat

definition vec_append :: "vec_sink \<Rightarrow> bytes \<Rightarrow> vec_sink result" where
  "vec_append self bytes =
    (if vs_capacity self - length (vs_bytes self) < length bytes
     then Inl (mismatch ''local CAS range exceeds its fixed output capacity'')
     else Inr (self\<lparr>vs_bytes := vs_bytes self @ bytes\<rparr>))"

definition vec_ops :: "vec_sink sink_ops" where
  "vec_ops = \<lparr>sink_len = (\<lambda>s. length (vs_bytes s)), sink_append = vec_append\<rparr>"

definition buffer_ops :: "accounted_buffer sink_ops" where
  "buffer_ops = \<lparr>sink_len = (\<lambda>s. length (ab_bytes s)), sink_append = ab_append\<rparr>"

definition range_output :: "(nat \<Rightarrow> nat option) \<Rightarrow> nat \<Rightarrow> nat \<Rightarrow> nat \<Rightarrow> (vec_sink \<times> nat) result" where
  "range_output alloc bytes offset len =
    (let want = min (bytes - offset) len in
     if MAX_BUFFERED_FILE_BYTES < want
     then Inl (SnapshotError_new LimitExceeded
            ''local CAS read exceeds the 64 MiB output budget; request a smaller range'')
     else rbind (ok_or (alloc want) allocation_error) (\<lambda>capacity.
          Inr (\<lparr>vs_bytes = [], vs_capacity = capacity\<rparr>, saturating_add offset want)))"

definition copy_intersection ::
  "'s sink_ops \<Rightarrow> 's \<Rightarrow> bytes \<Rightarrow> nat \<Rightarrow> nat \<Rightarrow> nat \<Rightarrow> local_cas_range_meters
    \<Rightarrow> ('s \<times> local_cas_range_meters) result" where
  "copy_intersection ops out buffer start offset end m =
    (let from = max start offset; to = min (start + length buffer) end in
     if from < to
     then rbind (sink_append ops out (slice (from - start) (to - from) buffer)) (\<lambda>out'.
          Inr (out', m\<lparr>output_append_bytes := output_append_bytes m + (to - from)\<rparr>))
     else Inr (out, m))"

section \<open>The cold path\<close>

text \<open>
  The inner loop that cuts a buffer at the chunk boundaries.  The open chunk always has room when the
  loop runs, so the second disjunct of the exit condition is never taken.
\<close>

function feed_chunks ::
  "(bytes \<Rightarrow> bytes) \<Rightarrow> bytes \<Rightarrow> bytes \<Rightarrow> bytes list \<Rightarrow> local_cas_range_meters
    \<Rightarrow> bytes \<times> bytes list \<times> local_cas_range_meters" where
  "feed_chunks sha256 buffer chunk chunks m =
    (if buffer = [] \<or> CHUNK_SIZE \<le> length chunk then (chunk, chunks, m)
     else
       let n = min (CHUNK_SIZE - length chunk) (length buffer);
           chunk' = chunk @ take n buffer;
           m' = m\<lparr>chunk_sha256_bytes := chunk_sha256_bytes m + n\<rparr>
       in if length chunk' = CHUNK_SIZE
          then feed_chunks sha256 (drop n buffer) [] (chunks @ [sha256 chunk']) m'
          else feed_chunks sha256 (drop n buffer) chunk' chunks m')"
  by pat_completeness auto
termination by (relation "measure (\<lambda>(_, buffer, _). length buffer)") auto

declare feed_chunks.simps [simp del]

record 's scan_state =
  ss_whole :: bytes
  ss_chunk :: bytes
  ss_read :: nat
  ss_chunks :: "bytes list option"
  ss_sink :: 's
  ss_meters :: local_cas_range_meters

text \<open>One iteration after a read that delivered some bytes.\<close>

definition scan_buffer ::
  "(bytes \<Rightarrow> bytes) \<Rightarrow> 's sink_ops \<Rightarrow> nat \<Rightarrow> nat \<Rightarrow> nat \<Rightarrow> 's scan_state \<Rightarrow> bytes \<Rightarrow> 's scan_state result" where
  "scan_buffer sha256 ops bytes offset end st buffer =
    (let next = ss_read st + length buffer in
     if bytes < next then Inl (mismatch ''local CAS object grew past its fixed size'')
     else
       let m = (ss_meters st)\<lparr>whole_sha256_bytes := whole_sha256_bytes (ss_meters st) + length buffer\<rparr>;
           whole = ss_whole st @ buffer;
           (chunk, chunks, m) =
             (case ss_chunks st of
                None \<Rightarrow> (ss_chunk st, None, m)
              | Some cs \<Rightarrow>
                  (case feed_chunks sha256 buffer (ss_chunk st) cs m of (c, cs', m') \<Rightarrow> (c, Some cs', m')))
       in rbind (copy_intersection ops (ss_sink st) buffer (ss_read st) offset end m) (\<lambda>(sink, m).
          Inr \<lparr>ss_whole = whole, ss_chunk = chunk, ss_read = next, ss_chunks = chunks,
               ss_sink = sink, ss_meters = m\<rparr>))"

fun events_size :: "read_event list \<Rightarrow> nat" where
  "events_size [] = 0"
| "events_size (Data bs # evs) = Suc (length bs + events_size evs)"
| "events_size (_ # evs) = Suc (events_size evs)"

lemma read_retry_decreases:
  "read_retry cap evs = Inr (bs, evs') \<Longrightarrow> bs \<noteq> [] \<Longrightarrow> events_size evs' < events_size evs"
  by (induction cap evs rule: read_retry.induct) (auto split: if_splits)

lemma read_bounded_decreases:
  "read_bounded left cap evs = Inr (bs, evs') \<Longrightarrow> bs \<noteq> [] \<Longrightarrow> events_size evs' < events_size evs"
  using read_retry_decreases by (auto simp: read_bounded_def split: if_splits)

function scan_loop ::
  "(bytes \<Rightarrow> bytes) \<Rightarrow> 's sink_ops \<Rightarrow> nat \<Rightarrow> nat \<Rightarrow> nat \<Rightarrow> nat \<Rightarrow> 's scan_state \<Rightarrow> read_event list
    \<Rightarrow> 's scan_state result" where
  "scan_loop sha256 ops cap bytes offset end st evs =
    (case read_bounded (saturating_add bytes 1 - ss_read st) cap evs of
       Inl e \<Rightarrow> Inl e
     | Inr (buffer, evs') \<Rightarrow>
         let st' = st\<lparr>ss_meters := (ss_meters st)
               \<lparr>bytes_read := bytes_read (ss_meters st) + length buffer\<rparr>\<rparr> in
         if buffer = [] then Inr st'
         else (case scan_buffer sha256 ops bytes offset end st' buffer of
                 Inl e \<Rightarrow> Inl e
               | Inr st'' \<Rightarrow> scan_loop sha256 ops cap bytes offset end st'' evs'))"
  by pat_completeness auto
termination
  by (relation "measure (\<lambda>(_, _, _, _, _, _, _, evs). events_size evs)")
    (auto dest: read_bounded_decreases)

declare scan_loop.simps [simp del]

definition scan_finish ::
  "(bytes \<Rightarrow> bytes) \<Rightarrow> (bytes \<Rightarrow> string) \<Rightarrow> 's sink_ops \<Rightarrow> string \<Rightarrow> nat \<Rightarrow> nat \<Rightarrow> nat \<Rightarrow> 's scan_state
    \<Rightarrow> ('s \<times> bytes list option \<times> local_cas_range_meters) result" where
  "scan_finish sha256 hex_encode ops digest bytes offset end st =
    (let chunks = map_option (\<lambda>cs. if ss_chunk st \<noteq> [] then cs @ [sha256 (ss_chunk st)] else cs)
                    (ss_chunks st) in
     if ss_read st \<noteq> bytes
        \<or> sink_len ops (ss_sink st) \<noteq> end - offset
        \<or> ''sha256:'' @ hex_encode (sha256 (ss_whole st)) \<noteq> digest
     then Inl (mismatch ''local CAS object does not match the fixed whole-file identity'')
     else Inr (ss_sink st, chunks, ss_meters st))"

definition scan_body ::
  "(bytes \<Rightarrow> bytes) \<Rightarrow> (bytes \<Rightarrow> string) \<Rightarrow> 's sink_ops \<Rightarrow> nat \<Rightarrow> read_event list \<Rightarrow> string \<Rightarrow> nat \<Rightarrow> nat
    \<Rightarrow> nat \<Rightarrow> 's \<Rightarrow> bytes list option \<Rightarrow> local_cas_range_meters
    \<Rightarrow> ('s \<times> bytes list option \<times> local_cas_range_meters) result" where
  "scan_body sha256 hex_encode ops scratch_len input digest bytes offset end out chunks m =
    (let scan_capacity = min scratch_len (64 * 1024) in
     if scan_capacity = 0 then Inl allocation_error
     else rbind (scan_loop sha256 ops scan_capacity bytes offset end
                   \<lparr>ss_whole = [], ss_chunk = [], ss_read = 0, ss_chunks = chunks,
                    ss_sink = out, ss_meters = m\<rparr> input)
            (scan_finish sha256 hex_encode ops digest bytes offset end))"

section \<open>The warm path\<close>

text \<open>
  Seeking positions the reader; \<^verbatim>\<open>seek start\<close> yields the events of the reads that follow.
\<close>

fun fill_chunk ::
  "nat \<Rightarrow> bytes \<Rightarrow> read_event list \<Rightarrow> local_cas_range_meters \<Rightarrow> (bytes \<times> local_cas_range_meters) result" where
  "fill_chunk n acc [] m =
    (if length acc < n then Inl (mismatch ''local CAS covering chunk is truncated'') else Inr (acc, m))"
| "fill_chunk n acc (Data bs # evs) m =
    (if length acc < n then
       (let got = take (n - length acc) bs in
        if got = [] then Inl (mismatch ''local CAS covering chunk is truncated'')
        else fill_chunk n (acc @ got) evs (m\<lparr>bytes_read := bytes_read m + length got\<rparr>))
     else Inr (acc, m))"
| "fill_chunk n acc (Interrupted # evs) m =
    (if length acc < n then fill_chunk n acc evs m else Inr (acc, m))"
| "fill_chunk n acc (Failed e # evs) m =
    (if length acc < n then Inl (io_error e) else Inr (acc, m))"

record index_fact =
  ix_domain :: string
  ix_digest :: bytes
  ix_size :: nat
  ix_format :: nat
  ix_chunks :: "bytes list"
  ix_charge :: nat

definition read_one_chunk ::
  "(bytes \<Rightarrow> bytes) \<Rightarrow> 's sink_ops \<Rightarrow> (nat \<Rightarrow> string + read_event list) \<Rightarrow> nat \<Rightarrow> index_fact \<Rightarrow> nat \<Rightarrow> nat
    \<Rightarrow> 's \<times> local_cas_range_meters \<Rightarrow> nat \<Rightarrow> ('s \<times> local_cas_range_meters) result" where
  "read_one_chunk sha256 ops seek scratch_len ix offset end s index =
    (case s of (out, m) \<Rightarrow>
      let start = index * CHUNK_SIZE;
          chunk_len = min (ix_size ix - start) CHUNK_SIZE in
      if scratch_len < chunk_len then Inl allocation_error
      else
        rbind (map_err io_error (seek start)) (\<lambda>evs.
        rbind (fill_chunk chunk_len [] evs m) (\<lambda>(buffer, m).
        let m = m\<lparr>chunk_sha256_bytes := chunk_sha256_bytes m + chunk_len\<rparr> in
        if sha256 buffer \<noteq> ix_chunks ix ! index
        then Inl (mismatch ''local CAS covering chunk does not match its verified digest'')
        else copy_intersection ops out buffer start offset end m)))"

definition read_chunks ::
  "(bytes \<Rightarrow> bytes) \<Rightarrow> 's sink_ops \<Rightarrow> (nat \<Rightarrow> string + read_event list) \<Rightarrow> string + (bool \<times> nat) \<Rightarrow> nat
    \<Rightarrow> index_fact \<Rightarrow> nat \<Rightarrow> nat \<Rightarrow> 's \<Rightarrow> local_cas_range_meters \<Rightarrow> ('s \<times> local_cas_range_meters) result" where
  "read_chunks sha256 ops seek metadata scratch_len ix offset end out m =
    rbind (if offset < end
           then try_fold (read_one_chunk sha256 ops seek scratch_len ix offset end) (out, m)
                  [offset div CHUNK_SIZE..<Suc ((end - 1) div CHUNK_SIZE)]
           else Inr (out, m)) (\<lambda>(out, m).
    if sink_len ops out \<noteq> end - offset
    then Inl (mismatch ''local CAS range differs from its fixed output length'')
    else rbind (check_metadata metadata (ix_size ix)) (\<lambda>_. Inr (out, m)))"

section \<open>Lemmas on reading\<close>

text \<open>The bytes a reader sees up to the end of the file, and whether it gets there without an error.\<close>

fun stream_bytes :: "read_event list \<Rightarrow> bytes" where
  "stream_bytes [] = []"
| "stream_bytes (Data bs # evs) = (if bs = [] then [] else bs @ stream_bytes evs)"
| "stream_bytes (Interrupted # evs) = stream_bytes evs"
| "stream_bytes (Failed e # evs) = []"

fun stream_clean :: "read_event list \<Rightarrow> bool" where
  "stream_clean [] = True"
| "stream_clean (Data bs # evs) = (bs = [] \<or> stream_clean evs)"
| "stream_clean (Interrupted # evs) = stream_clean evs"
| "stream_clean (Failed e # evs) = False"

lemma read_retry_Inr:
  assumes "read_retry cap evs = Inr (bs, evs')" "0 < cap"
  shows "bs = [] \<Longrightarrow> stream_bytes evs = [] \<and> stream_clean evs"
    "bs \<noteq> [] \<Longrightarrow> stream_bytes evs = bs @ stream_bytes evs' \<and> (stream_clean evs \<longleftrightarrow> stream_clean evs')"
    "length bs \<le> cap"
  using assms by (induction cap evs rule: read_retry.induct) (auto split: if_splits)

lemma read_retry_Inl:
  "read_retry cap evs = Inl e \<Longrightarrow> stream_bytes evs = [] \<and> \<not> stream_clean evs"
  by (induction cap evs rule: read_retry.induct) auto

section \<open>Lemmas on chunks\<close>

lemma CHUNK_SIZE_pos [simp]: "0 < CHUNK_SIZE" "CHUNK_SIZE \<noteq> 0"
  by (simp_all add: CHUNK_SIZE_def)

abbreviation chunk_digests :: "(bytes \<Rightarrow> bytes) \<Rightarrow> bytes \<Rightarrow> bytes list" where
  "chunk_digests sha256 body \<equiv> map sha256 (chunks_of CHUNK_SIZE body)"

definition chunks_so_far :: "(bytes \<Rightarrow> bytes) \<Rightarrow> bytes \<Rightarrow> bytes \<Rightarrow> bytes list \<Rightarrow> bool" where
  "chunks_so_far sha256 body chunk cs \<longleftrightarrow>
    (\<exists>front k. body = front @ chunk \<and> length front = k * CHUNK_SIZE \<and> length chunk < CHUNK_SIZE
       \<and> cs = chunk_digests sha256 front)"

lemma chunks_of_single: "xs \<noteq> [] \<Longrightarrow> length xs \<le> n \<Longrightarrow> chunks_of n xs = [xs]"
  using chunks_of_step[of n xs] by (cases "n = 0") simp_all

lemma feed_chunks_so_far:
  assumes "feed_chunks sha256 buffer chunk cs m = (chunk', cs', m')"
    and "chunks_so_far sha256 body chunk cs"
  shows "chunks_so_far sha256 (body @ buffer) chunk' cs'"
  using assms
proof (induction sha256 buffer chunk cs m arbitrary: body rule: feed_chunks.induct)
  case (1 sha256 buffer chunk cs m)
  obtain front k where f: "body = front @ chunk" "length front = k * CHUNK_SIZE"
      "length chunk < CHUNK_SIZE" "cs = chunk_digests sha256 front"
    using "1.prems"(2) by (auto simp: chunks_so_far_def)
  show ?case
  proof (cases "buffer = []")
    case True
    with "1.prems" show ?thesis by (simp add: feed_chunks.simps)
  next
    case False
    then have ne: "\<not> (buffer = [] \<or> CHUNK_SIZE \<le> length chunk)"
      using f by simp
    define n where "n = min (CHUNK_SIZE - length chunk) (length buffer)"
    define m2 where "m2 = m\<lparr>chunk_sha256_bytes := chunk_sha256_bytes m + n\<rparr>"
    define c2 where "c2 = chunk @ take n buffer"
    have body: "body @ buffer = (body @ take n buffer) @ drop n buffer" by simp
    show ?thesis
    proof (cases "length c2 = CHUNK_SIZE")
      case True
      have step: "feed_chunks sha256 (drop n buffer) [] (cs @ [sha256 c2]) m2 = (chunk', cs', m')"
        using "1.prems"(1) ne True
        by (subst (asm) feed_chunks.simps) (simp add: n_def m2_def c2_def Let_def)
      have "chunk_digests sha256 (front @ c2) = cs @ [sha256 c2]"
        using f True by (simp add: chunks_of_append chunks_of_single)
          (metis CHUNK_SIZE_pos(1) chunks_of_single le_refl length_greater_0_conv list.map(1,2))
      then have "chunks_so_far sha256 (body @ take n buffer) [] (cs @ [sha256 c2])"
        using f True unfolding chunks_so_far_def
        by (intro exI[of _ "front @ c2"] exI[of _ "Suc k"]) (auto simp: c2_def)
      then show ?thesis
        using "1.IH"(1)[OF ne n_def c2_def m2_def True step] body by metis
    next
      case False
      have step: "feed_chunks sha256 (drop n buffer) c2 cs m2 = (chunk', cs', m')"
        using "1.prems"(1) ne False
        by (subst (asm) feed_chunks.simps) (simp add: n_def m2_def c2_def Let_def)
      have "length c2 < CHUNK_SIZE"
        using False f(3) by (simp add: c2_def n_def)
      then have "chunks_so_far sha256 (body @ take n buffer) c2 cs"
        using f unfolding chunks_so_far_def by (intro exI[of _ front] exI[of _ k]) (auto simp: c2_def)
      then show ?thesis
        using "1.IH"(2)[OF ne n_def c2_def m2_def False step] body by metis
    qed
  qed
qed

lemma chunks_so_far_finish:
  assumes "chunks_so_far sha256 body chunk cs"
  shows "(if chunk \<noteq> [] then cs @ [sha256 chunk] else cs) = chunk_digests sha256 body"
proof -
  obtain front k where f: "body = front @ chunk" "length front = k * CHUNK_SIZE"
      "length chunk < CHUNK_SIZE" "cs = chunk_digests sha256 front"
    using assms by (auto simp: chunks_so_far_def)
  then show ?thesis
    by (auto simp: chunks_of_append chunks_of_single)
qed

section \<open>Lemmas on sinks\<close>

text \<open>The bytes of a body in the requested window.\<close>

definition window :: "nat \<Rightarrow> nat \<Rightarrow> bytes \<Rightarrow> bytes" where
  "window offset end body = take (end - offset) (drop offset body)"

lemma window_Nil [simp]: "window offset end [] = []"
  by (simp add: window_def)

lemma window_slice: "window offset end body = slice offset (end - offset) body"
  by (simp add: window_def slice_def)

lemma length_window: "length (window offset end body) = min (end - offset) (length body - offset)"
  by (simp add: window_def)

lemma take_cong_length: "min a (length xs) = min b (length xs) \<Longrightarrow> take a xs = take b xs"
  by (metis min.commute take_all_iff take_take min.cobounded2 nle_le take_all)

lemma window_append:
  "window offset end (body @ buffer) = window offset end body
    @ slice (max (length body) offset - length body)
        (min (length body + length buffer) end - max (length body) offset) buffer"
proof -
  have "take (end - offset - (length body - offset)) (drop (offset - length body) buffer)
      = take (min (length body + length buffer) end - max (length body) offset)
          (drop (offset - length body) buffer)"
    by (rule take_cong_length) (auto simp: min_def max_def)
  then show ?thesis
    by (simp add: window_def slice_def max_def)
qed

lemma fill_chunk_stream:
  "fill_chunk n acc evs m = Inr (buffer, m') \<Longrightarrow> length acc \<le> n \<Longrightarrow>
    buffer = acc @ take (n - length acc) (stream_bytes evs)"
proof (induction n acc evs m rule: fill_chunk.induct)
  case (2 n acc bs evs m)
  show ?case
  proof (cases "length acc < n")
    case True
    define got where "got = take (n - length acc) bs"
    have ne: "got \<noteq> []" and step: "fill_chunk n (acc @ got) evs (m\<lparr>bytes_read := bytes_read m + length got\<rparr>) = Inr (buffer, m')"
      using 2(2) True by (auto simp: got_def Let_def split: if_splits)
    have "length (acc @ got) \<le> n"
      using True by (simp add: got_def)
    from 2(1)[OF True got_def ne step this] ne show ?thesis
      by (auto simp: got_def min_def split: if_splits)
  qed (use 2 in auto)
qed (auto split: if_splits)

text \<open>
  A chunk of the file that differs from the chunk of a body at the same place and has the same
  digest, which no check of digests can reject.
\<close>

definition colliding_chunk ::
  "(bytes \<Rightarrow> bytes) \<Rightarrow> (nat \<Rightarrow> string + read_event list) \<Rightarrow> bytes \<Rightarrow> nat \<Rightarrow> bool" where
  "colliding_chunk sha256 seek body i \<longleftrightarrow>
    (case seek (i * CHUNK_SIZE) of
       Inl e \<Rightarrow> False
     | Inr evs \<Rightarrow>
         let part = slice (i * CHUNK_SIZE) CHUNK_SIZE body; got = take (length part) (stream_bytes evs)
         in got \<noteq> part \<and> sha256 got = sha256 part)"

text \<open>What the scanning code relies on in a sink, and what follows for the copies it makes.\<close>

locale range_sink =
  fixes ops :: "'s sink_ops"
    and contents :: "'s \<Rightarrow> bytes"
    and room :: "'s \<Rightarrow> nat"
  assumes len_contents: "sink_len ops s = length (contents s)"
    and append_fits: "length bs \<le> room s \<Longrightarrow>
      \<exists>t. sink_append ops s bs = Inr t \<and> contents t = contents s @ bs \<and> room t = room s - length bs"
    and append_full: "room s < length bs \<Longrightarrow> \<exists>e. sink_append ops s bs = Inl e"
begin

lemma append_Inr:
  assumes "sink_append ops s bs = Inr t"
  shows "contents t = contents s @ bs" "room t = room s - length bs" "length bs \<le> room s"
  using assms append_fits[of bs s] append_full[of s bs] by (cases "length bs \<le> room s"; auto)+

lemma copy_intersection_Inr:
  assumes "copy_intersection ops s buffer (length body) offset end m = Inr (t, m')"
    and "contents s = pre @ window offset end body"
  shows "contents t = pre @ window offset end (body @ buffer)"
  using assms append_Inr(1)
  by (auto simp: copy_intersection_def Let_def result_simps window_append max.commute split: if_splits)

lemma copy_intersection_ok:
  assumes "contents s = window offset end body" "end - offset \<le> length (contents s) + room s"
  shows "\<exists>t m'. copy_intersection ops s buffer (length body) offset end m = Inr (t, m')
    \<and> end - offset \<le> length (contents t) + room t"
proof -
  let ?from = "max (length body) offset" and ?to = "min (length body + length buffer) end"
  define part where "part = slice (?from - length body) (?to - ?from) buffer"
  have "window offset end (body @ buffer) = contents s @ part"
    using assms(1) by (simp add: part_def window_append)
  then have "length (contents s @ part) \<le> end - offset"
    by (metis length_window min.cobounded1)
  then have fits: "length part \<le> room s"
    using assms(2) by simp
  from append_fits[OF fits] obtain t where
    t: "sink_append ops s part = Inr t" "contents t = contents s @ part" "room t = room s - length part"
    by blast
  show ?thesis
  proof (cases "?from < ?to")
    case True
    then have "\<exists>m'. copy_intersection ops s buffer (length body) offset end m = Inr (t, m')"
      using t(1) by (simp add: copy_intersection_def part_def Let_def)
    then show ?thesis
      using t fits assms(2) by auto
  next
    case False
    then have "copy_intersection ops s buffer (length body) offset end m = Inr (s, m)"
      unfolding copy_intersection_def Let_def by (rule if_not_P)
    then show ?thesis
      using assms(2) by simp
  qed
qed

text \<open>
  The invariant of the scanning loop: what was hashed so far is what was read so far, the sink holds
  the part of it inside the window, and the open chunk and the chunk digests account for all of it.
\<close>

definition scan_inv :: "(bytes \<Rightarrow> bytes) \<Rightarrow> nat \<Rightarrow> nat \<Rightarrow> bytes \<Rightarrow> bool \<Rightarrow> 's scan_state \<Rightarrow> bytes \<Rightarrow> bool" where
  "scan_inv sha256 offset end pre indexed st body \<longleftrightarrow>
    ss_whole st = body \<and> ss_read st = length body
    \<and> contents (ss_sink st) = pre @ window offset end body
    \<and> (case ss_chunks st of None \<Rightarrow> \<not> indexed
         | Some cs \<Rightarrow> indexed \<and> chunks_so_far sha256 body (ss_chunk st) cs)"

lemma scan_inv_meters: "scan_inv sha256 offset end pre ix (st\<lparr>ss_meters := m\<rparr>) body
    \<longleftrightarrow> scan_inv sha256 offset end pre ix st body"
  by (auto simp: scan_inv_def split: option.splits)

lemma scan_buffer_inv:
  assumes "scan_buffer sha256 ops n offset end st buffer = Inr st'"
    and "scan_inv sha256 offset end pre ix st body"
  shows "scan_inv sha256 offset end pre ix st' (body @ buffer)" "length body + length buffer \<le> n"
proof -
  from assms obtain chunk chunks m sink m' where
    le: "length body + length buffer \<le> n"
    and ch: "(case ss_chunks st of None \<Rightarrow> (ss_chunk st, None, m)
      | Some cs \<Rightarrow> (case feed_chunks sha256 buffer (ss_chunk st) cs m of (c, cs', m') \<Rightarrow> (c, Some cs', m')))
        = (chunk, chunks, m')"
    and cp: "copy_intersection ops (ss_sink st) buffer (length body) offset end m' = Inr (sink, ss_meters st')"
    and st': "ss_whole st' = body @ buffer" "ss_read st' = length body + length buffer"
      "ss_chunk st' = chunk" "ss_chunks st' = chunks" "ss_sink st' = sink"
    by (auto simp: scan_buffer_def scan_inv_def Let_def result_simps split: prod.splits if_splits)
  show "length body + length buffer \<le> n" by (rule le)
  have "contents sink = pre @ window offset end (body @ buffer)"
    using copy_intersection_Inr[OF cp] assms(2) by (simp add: scan_inv_def)
  moreover have "case chunks of None \<Rightarrow> \<not> ix | Some cs \<Rightarrow> ix \<and> chunks_so_far sha256 (body @ buffer) chunk cs"
    using ch assms(2) feed_chunks_so_far by (auto simp: scan_inv_def split: option.splits prod.splits)
  ultimately show "scan_inv sha256 offset end pre ix st' (body @ buffer)"
    using st' by (auto simp: scan_inv_def split: option.splits)
qed

text \<open>One round of the loop, as an equation on the read it performs.\<close>

lemma scan_loop_read:
  assumes "ss_read st \<le> n" "n < u64_MAX"
  shows "scan_loop sha256 ops cap n offset end st evs =
    (case read_retry (min (n + 1 - ss_read st) cap) evs of
       Inl e \<Rightarrow> Inl e
     | Inr (buffer, evs') \<Rightarrow>
         let st' = st\<lparr>ss_meters := (ss_meters st)
               \<lparr>bytes_read := bytes_read (ss_meters st) + length buffer\<rparr>\<rparr> in
         if buffer = [] then Inr st'
         else rbind (scan_buffer sha256 ops n offset end st' buffer)
                (\<lambda>st''. scan_loop sha256 ops cap n offset end st'' evs'))"
proof -
  have "saturating_add n 1 - ss_read st = n + 1 - ss_read st" "n + 1 - ss_read st \<noteq> 0"
    using assms by (simp_all add: saturating_add_def)
  then show ?thesis
    by (subst scan_loop.simps) (auto simp: read_bounded_def rbind_def Let_def split: sum.splits)
qed

lemma scan_loop_inv:
  assumes "scan_loop sha256 ops cap n offset end st evs = Inr st'" "0 < cap" "n < u64_MAX"
    and "scan_inv sha256 offset end pre ix st body" "length body \<le> n"
  shows "scan_inv sha256 offset end pre ix st' (body @ stream_bytes evs) \<and> stream_clean evs
    \<and> length (body @ stream_bytes evs) \<le> n"
  using assms
proof (induction "events_size evs" arbitrary: evs st body rule: less_induct)
  case less
  have rd: "ss_read st = length body"
    using less.prems(4) by (simp add: scan_inv_def)
  then have le: "ss_read st \<le> n" and pos: "0 < min (n + 1 - ss_read st) cap"
    using less.prems by auto
  obtain buffer evs' where r: "read_retry (min (n + 1 - ss_read st) cap) evs = Inr (buffer, evs')"
    using less.prems(1) scan_loop_read[OF le less.prems(3)] by (auto split: sum.splits)
  note read = read_retry_Inr[OF r pos]
  define st1 where "st1 = st\<lparr>ss_meters := (ss_meters st)
      \<lparr>bytes_read := bytes_read (ss_meters st) + length buffer\<rparr>\<rparr>"
  have inv1: "scan_inv sha256 offset end pre ix st1 body"
    using less.prems(4) by (simp add: st1_def scan_inv_meters)
  show ?case
  proof (cases "buffer = []")
    case True
    have "st' = st1"
      using less.prems(1) scan_loop_read[OF le less.prems(3)] r True by (simp add: st1_def)
    then show ?thesis
      using read(1)[OF True] inv1 less.prems(5) by simp
  next
    case False
    obtain st2 where s2: "scan_buffer sha256 ops n offset end st1 buffer = Inr st2"
        "scan_loop sha256 ops cap n offset end st2 evs' = Inr st'"
      using less.prems(1) scan_loop_read[OF le less.prems(3)] r False
      by (auto simp: st1_def Let_def result_simps)
    note step = scan_buffer_inv[OF s2(1) inv1]
    have "scan_inv sha256 offset end pre ix st' ((body @ buffer) @ stream_bytes evs') \<and> stream_clean evs'
        \<and> length ((body @ buffer) @ stream_bytes evs') \<le> n"
      using less.hyps[OF read_retry_decreases[OF r False] s2(2) less.prems(2,3) step(1)] step(2) by simp
    then show ?thesis
      using read(2)[OF False] by simp
  qed
qed

lemma scan_body_Inr:
  assumes "scan_body sha256 hex_encode ops scratch evs digest n offset end s chunks m = Inr (t, cs, m')"
    and "n < u64_MAX" "chunks = None \<or> chunks = Some []"
  shows "stream_clean evs" "length (stream_bytes evs) = n"
    "''sha256:'' @ hex_encode (sha256 (stream_bytes evs)) = digest"
    "contents t = contents s @ window offset end (stream_bytes evs)"
    "cs = map_option (\<lambda>_. chunk_digests sha256 (stream_bytes evs)) chunks"
    "length (contents t) = end - offset"
proof -
  define st where "st = \<lparr>ss_whole = [], ss_chunk = [], ss_read = 0, ss_chunks = chunks, ss_sink = s, ss_meters = m\<rparr>"
  let ?ix = "chunks \<noteq> None"
  have cap: "0 < min scratch (64 * 1024)"
    using assms(1) by (auto simp: scan_body_def Let_def split: if_splits)
  obtain st' where loop: "scan_loop sha256 ops (min scratch (64 * 1024)) n offset end st evs = Inr st'"
    and fin: "scan_finish sha256 hex_encode ops digest n offset end st' = Inr (t, cs, m')"
    using assms(1) by (auto simp: scan_body_def Let_def st_def result_simps split: if_splits)
  have "chunks_so_far sha256 [] [] []"
    by (simp add: chunks_so_far_def)
  then have "scan_inv sha256 offset end (contents s) ?ix st []"
    using assms(3) by (auto simp: st_def scan_inv_def)
  from scan_loop_inv[OF loop cap assms(2) this]
  have inv: "scan_inv sha256 offset end (contents s) ?ix st' (stream_bytes evs)" and "stream_clean evs"
    by simp_all
  then show "stream_clean evs" by simp
  show "length (stream_bytes evs) = n" "''sha256:'' @ hex_encode (sha256 (stream_bytes evs)) = digest"
    "contents t = contents s @ window offset end (stream_bytes evs)" "length (contents t) = end - offset"
    using fin inv by (auto simp: scan_finish_def scan_inv_def Let_def len_contents split: if_splits)
  show "cs = map_option (\<lambda>_. chunk_digests sha256 (stream_bytes evs)) chunks"
  proof (cases "ss_chunks st'")
    case None
    then show ?thesis
      using fin inv by (auto simp: scan_finish_def scan_inv_def Let_def split: if_splits)
  next
    case (Some cs')
    then have "chunks_so_far sha256 (stream_bytes evs) (ss_chunk st') cs'" "chunks \<noteq> None"
      using inv by (auto simp: scan_inv_def)
    from chunks_so_far_finish[OF this(1)] this(2) show ?thesis
      using fin Some by (auto simp: scan_finish_def Let_def split: if_splits)
  qed
qed

text \<open>Conversely, a file that has the fixed identity is delivered, however its reads are cut.\<close>

lemma scan_buffer_ok:
  assumes "scan_inv sha256 offset end [] ix st body" "length body + length buffer \<le> n"
    and "end - offset \<le> length (contents (ss_sink st)) + room (ss_sink st)"
  shows "\<exists>st'. scan_buffer sha256 ops n offset end st buffer = Inr st'
    \<and> end - offset \<le> length (contents (ss_sink st')) + room (ss_sink st')"
proof -
  have inv: "ss_read st = length body" "contents (ss_sink st) = window offset end body"
    using assms(1) by (simp_all add: scan_inv_def)
  define m where "m = (ss_meters st)\<lparr>whole_sha256_bytes := whole_sha256_bytes (ss_meters st) + length buffer\<rparr>"
  obtain chunk chunks m' where ch: "(case ss_chunks st of None \<Rightarrow> (ss_chunk st, None, m)
      | Some cs \<Rightarrow> (case feed_chunks sha256 buffer (ss_chunk st) cs m of (c, cs', m') \<Rightarrow> (c, Some cs', m')))
        = (chunk, chunks, m')"
    by (metis prod_cases3)
  from copy_intersection_ok[OF inv(2) assms(3), of buffer m'] obtain t m'' where
    t: "copy_intersection ops (ss_sink st) buffer (length body) offset end m' = Inr (t, m'')"
      "end - offset \<le> length (contents t) + room t"
    by blast
  then show ?thesis
    using ch[unfolded m_def] assms(2) inv(1) by (simp add: scan_buffer_def Let_def)
qed

lemma scan_loop_ok:
  assumes "stream_clean evs" "0 < cap" "n < u64_MAX"
    and "scan_inv sha256 offset end [] ix st body" "length body + length (stream_bytes evs) \<le> n"
    and "end - offset \<le> length (contents (ss_sink st)) + room (ss_sink st)"
  shows "\<exists>st'. scan_loop sha256 ops cap n offset end st evs = Inr st'"
  using assms
proof (induction "events_size evs" arbitrary: evs st body rule: less_induct)
  case less
  have rd: "ss_read st = length body"
    using less.prems(4) by (simp add: scan_inv_def)
  then have le: "ss_read st \<le> n" and pos: "0 < min (n + 1 - ss_read st) cap"
    using less.prems by auto
  obtain buffer evs' where r: "read_retry (min (n + 1 - ss_read st) cap) evs = Inr (buffer, evs')"
    using less.prems(1) read_retry_Inl
    by (metis old.prod.exhaust sum.exhaust)
  note read = read_retry_Inr[OF r pos]
  define st1 where "st1 = st\<lparr>ss_meters := (ss_meters st)
      \<lparr>bytes_read := bytes_read (ss_meters st) + length buffer\<rparr>\<rparr>"
  show ?case
  proof (cases "buffer = []")
    case True
    then show ?thesis
      using scan_loop_read[OF le less.prems(3)] r by simp
  next
    case False
    have inv1: "scan_inv sha256 offset end [] ix st1 body"
      using less.prems(4) by (simp add: st1_def scan_inv_meters)
    have "length body + length buffer \<le> n"
      using read(2)[OF False] less.prems(5) by simp
    from scan_buffer_ok[OF inv1 this] less.prems(6) obtain st2 where
      s2: "scan_buffer sha256 ops n offset end st1 buffer = Inr st2"
        "end - offset \<le> length (contents (ss_sink st2)) + room (ss_sink st2)"
      by (auto simp: st1_def)
    have "\<exists>st'. scan_loop sha256 ops cap n offset end st2 evs' = Inr st'"
      using less.hyps[OF read_retry_decreases[OF r False] _ less.prems(2,3)
          scan_buffer_inv(1)[OF s2(1) inv1] _ s2(2)] read(2)[OF False] less.prems(1,5)
      by simp
    then show ?thesis
      using scan_loop_read[OF le less.prems(3)] r False s2(1) by (auto simp: st1_def Let_def)
  qed
qed

lemma scan_body_ok:
  assumes "stream_clean evs" "length (stream_bytes evs) = n" "n < u64_MAX" "0 < scratch"
    and "''sha256:'' @ hex_encode (sha256 (stream_bytes evs)) = digest"
    and "contents s = []" "end - offset \<le> room s" "end \<le> n"
    and "chunks = None \<or> chunks = Some []"
  shows "is_ok (scan_body sha256 hex_encode ops scratch evs digest n offset end s chunks m)"
proof -
  define st where "st = \<lparr>ss_whole = [], ss_chunk = [], ss_read = 0, ss_chunks = chunks, ss_sink = s, ss_meters = m\<rparr>"
  have cap: "0 < min scratch (64 * 1024)"
    using assms(4) by simp
  have inv0: "scan_inv sha256 offset end [] (chunks \<noteq> None) st []"
    using assms(6,9) by (auto simp: st_def scan_inv_def chunks_so_far_def)
  obtain st' where loop: "scan_loop sha256 ops (min scratch (64 * 1024)) n offset end st evs = Inr st'"
    using scan_loop_ok[OF assms(1) cap assms(3) inv0] assms(2,6,7) by (auto simp: st_def)
  have inv: "scan_inv sha256 offset end [] (chunks \<noteq> None) st' (stream_bytes evs)"
    using scan_loop_inv[OF loop cap assms(3) inv0] by simp
  have "length (contents (ss_sink st')) = end - offset"
    using inv assms(2,8) by (simp add: scan_inv_def length_window)
  then have "is_ok (scan_finish sha256 hex_encode ops digest n offset end st')"
    using inv assms(2,5) by (simp add: scan_finish_def Let_def scan_inv_def len_contents)
  with loop cap show ?thesis
    by (simp add: scan_body_def Let_def flip: st_def)
qed

lemma read_one_chunk_Inr:
  assumes "read_one_chunk sha256 ops seek scratch ix offset end (s, m) i = Inr (t, m')"
    and "ix_chunks ix = chunk_digests sha256 body" "ix_size ix = length body" "i * CHUNK_SIZE < length body"
    and "contents s = pre @ window offset end (take (i * CHUNK_SIZE) body)"
    and inj: "\<And>i. \<not> colliding_chunk sha256 seek body i"
  shows "contents t = pre @ window offset end (take (Suc i * CHUNK_SIZE) body)"
proof -
  define part where "part = slice (i * CHUNK_SIZE) CHUNK_SIZE body"
  obtain evs buffer m1 m2 where seek: "seek (i * CHUNK_SIZE) = Inr evs"
    and fill: "fill_chunk (min (length body - i * CHUNK_SIZE) CHUNK_SIZE) [] evs m = Inr (buffer, m1)"
    and dig: "sha256 buffer = ix_chunks ix ! i"
    and cp: "copy_intersection ops s buffer (i * CHUNK_SIZE) offset end m2 = Inr (t, m')"
    using assms(1,3) by (auto simp: read_one_chunk_def Let_def result_simps split: if_splits)
  have got: "buffer = take (length part) (stream_bytes evs)"
    using fill_chunk_stream[OF fill] by (simp add: part_def min.commute)
  have i: "i < length (chunks_of CHUNK_SIZE body)"
    using assms(4) by (metis CHUNK_SIZE_pos(1) div_ceil_le_iff length_chunks_of not_le)
  then have "sha256 buffer = sha256 part"
    using dig assms(2) by (simp add: nth_chunks_of part_def)
  with inj[of i] have "buffer = part"
    by (auto simp: colliding_chunk_def seek Let_def got simp flip: part_def)
  moreover have "take (Suc i * CHUNK_SIZE) body = take (i * CHUNK_SIZE) body @ part"
    by (simp add: part_def slice_def add.commute flip: take_add)
  moreover have "length (take (i * CHUNK_SIZE) body) = i * CHUNK_SIZE"
    using assms(4) by simp
  ultimately show ?thesis
    using copy_intersection_Inr[of s buffer "take (i * CHUNK_SIZE) body" offset "end" m2 t m' pre] cp assms(5)
    by simp
qed

lemma read_chunks_fold:
  assumes "try_fold (read_one_chunk sha256 ops seek scratch ix offset end) (s, m) [a..<b] = Inr (t, m')"
    and "a \<le> b" "ix_chunks ix = chunk_digests sha256 body" "ix_size ix = length body"
    and "\<And>i. i < b \<Longrightarrow> i * CHUNK_SIZE < length body"
    and "contents s = pre @ window offset end (take (a * CHUNK_SIZE) body)"
    and inj: "\<And>i. \<not> colliding_chunk sha256 seek body i"
  shows "contents t = pre @ window offset end (take (b * CHUNK_SIZE) body)"
  using assms(1,2,5,6)
proof (induction "b - a" arbitrary: a s m)
  case (Suc k)
  then have "a < b" by simp
  with Suc.prems(1) obtain s1 m1 where one:
      "read_one_chunk sha256 ops seek scratch ix offset end (s, m) a = Inr (s1, m1)"
      "try_fold (read_one_chunk sha256 ops seek scratch ix offset end) (s1, m1) [Suc a..<b] = Inr (t, m')"
    by (auto simp: upt_conv_Cons split: sum.splits)
  have "contents s1 = pre @ window offset end (take (Suc a * CHUNK_SIZE) body)"
    using read_one_chunk_Inr[OF one(1) assms(3,4) _ Suc.prems(4) inj] Suc.prems(3) \<open>a < b\<close> by blast
  with Suc.hyps(1)[of "Suc a" s1 m1] Suc.hyps(2) one(2) \<open>a < b\<close> Suc.prems(3) show ?case
    by simp
qed simp

lemma read_chunks_Inr:
  assumes "read_chunks sha256 ops seek metadata scratch ix offset end s m = Inr (t, m')"
    and "ix_chunks ix = chunk_digests sha256 body" "ix_size ix = length body" "offset < end \<Longrightarrow> end \<le> length body"
  shows "contents t = contents s @ window offset end body
    \<or> (\<exists>i. colliding_chunk sha256 seek body i)"
proof (rule disjCI)
  assume "\<not> (\<exists>i. colliding_chunk sha256 seek body i)"
  then have inj: "\<And>i. \<not> colliding_chunk sha256 seek body i" by blast
  show "contents t = contents s @ window offset end body"
  proof (cases "offset < end")
    case True
    define a b where "a = offset div CHUNK_SIZE" and "b = Suc ((end - 1) div CHUNK_SIZE)"
    obtain m1 where f: "try_fold (read_one_chunk sha256 ops seek scratch ix offset end) (s, m) [a..<b] = Inr (t, m1)"
      using assms(1) True by (auto simp: read_chunks_def result_simps a_def b_def split: if_splits)
    have ab: "a \<le> b"
      using True by (simp add: a_def b_def div_le_mono le_SucI)
    have cover: "i * CHUNK_SIZE < length body" if "i < b" for i
    proof -
      have "i * CHUNK_SIZE \<le> end - 1"
        using that by (metis b_def div_times_less_eq_dividend less_Suc_eq_le mult_le_mono1 order_trans)
      then show ?thesis using True assms(4) by simp
    qed
    have start: "contents s = contents s @ window offset end (take (a * CHUNK_SIZE) body)"
      using div_times_less_eq_dividend[of offset CHUNK_SIZE]
      by (simp add: window_def a_def min.coboundedI2)
    have "end \<le> b * CHUNK_SIZE"
      using True dividend_less_div_times[of CHUNK_SIZE "end - 1"] by (simp add: b_def)
    then have "window offset end (take (b * CHUNK_SIZE) body) = window offset end body"
      by (simp add: window_def drop_take min.absorb1 diff_le_mono)
    moreover have "contents t = contents s @ window offset end (take (b * CHUNK_SIZE) body)"
      using f ab assms(2,3) cover start inj by (rule read_chunks_fold)
    ultimately show ?thesis by metis
  next
    case False
    with assms(1) show ?thesis
      by (auto simp: read_chunks_def result_simps window_def split: if_splits)
  qed
qed

text \<open>The cold path accepts exactly the files with the fixed identity.\<close>

lemma scan_body_exact:
  assumes "n < u64_MAX" "0 < scratch" "contents s = []" "end - offset \<le> room s" "end \<le> n"
    and "chunks = None \<or> chunks = Some []"
  shows "(is_ok (scan_body sha256 hex_encode ops scratch evs digest n offset end s chunks m) \<longleftrightarrow>
      stream_clean evs \<and> length (stream_bytes evs) = n
      \<and> ''sha256:'' @ hex_encode (sha256 (stream_bytes evs)) = digest)
    \<and> (scan_body sha256 hex_encode ops scratch evs digest n offset end s chunks m = Inr (t, cs, m') \<longrightarrow>
        contents t = window offset end (stream_bytes evs)
        \<and> cs = map_option (\<lambda>_. chunk_digests sha256 (stream_bytes evs)) chunks)"
proof (intro conjI iffI impI)
  assume "is_ok (scan_body sha256 hex_encode ops scratch evs digest n offset end s chunks m)"
  then obtain t cs m' where "scan_body sha256 hex_encode ops scratch evs digest n offset end s chunks m = Inr (t, cs, m')"
    by (auto simp: is_ok_iff)
  from scan_body_Inr[OF this assms(1,6)]
  show "stream_clean evs" "length (stream_bytes evs) = n"
    "''sha256:'' @ hex_encode (sha256 (stream_bytes evs)) = digest" by simp_all
next
  assume "stream_clean evs \<and> length (stream_bytes evs) = n
      \<and> ''sha256:'' @ hex_encode (sha256 (stream_bytes evs)) = digest"
  with assms show "is_ok (scan_body sha256 hex_encode ops scratch evs digest n offset end s chunks m)"
    by (intro scan_body_ok) auto
next
  assume "scan_body sha256 hex_encode ops scratch evs digest n offset end s chunks m = Inr (t, cs, m')"
  from scan_body_Inr[OF this assms(1,6)] assms(3)
  show "contents t = window offset end (stream_bytes evs)"
    "cs = map_option (\<lambda>_. chunk_digests sha256 (stream_bytes evs)) chunks" by simp_all
qed

end

section \<open>The two sinks\<close>

interpretation vec: range_sink vec_ops vs_bytes "\<lambda>s. vs_capacity s - length (vs_bytes s)"
  by unfold_locales (auto simp: vec_ops_def vec_append_def)

interpretation accounted: range_sink buffer_ops ab_bytes "\<lambda>s. ab_capacity s - length (ab_bytes s)"
  by unfold_locales (auto simp: buffer_ops_def ab_append_def)

section \<open>Properties\<close>

text \<open>C13: A cold read of a local object succeeds exactly when the file, read in whatever pieces and
  with whatever interruptions, ends without an error, has the fixed size and hashes to the fixed
  digest; it then returns precisely the requested window of those bytes and the SHA-256 of every
  1 MiB chunk of them.\<close>

theorem cold_read_exact:
  assumes "n < u64_MAX" "0 < scratch" "end \<le> n"
    and "vs_bytes s = []" "end - offset \<le> vs_capacity s"
  shows "(is_ok (scan_body sha256 hex_encode vec_ops scratch evs digest n offset end s (Some []) m) \<longleftrightarrow>
      stream_clean evs \<and> length (stream_bytes evs) = n
      \<and> ''sha256:'' @ hex_encode (sha256 (stream_bytes evs)) = digest)
    \<and> (scan_body sha256 hex_encode vec_ops scratch evs digest n offset end s (Some []) m
         = Inr (t, cs, m') \<longrightarrow>
        vs_bytes t = slice offset (end - offset) (stream_bytes evs)
        \<and> cs = Some (map sha256 (chunks_of CHUNK_SIZE (stream_bytes evs))))"
  using vec.scan_body_exact[of n scratch s "end" offset "Some []" sha256 hex_encode evs digest m t cs m'] assms
  by (simp add: window_slice)

theorem cold_read_exact_witness:
  "is_ok (scan_body rev hex32 vec_ops 65536 [Data [1, 2], Interrupted, Data [3, 4, 5]] ''sha256:0504030201''
     5 1 4 \<lparr>vs_bytes = [], vs_capacity = 3\<rparr> (Some []) meters_default)"
proof -
  have "hex32 (rev [1, 2, 3, 4, 5]) = ''0504030201''"
    by code_simp
  then show ?thesis
    using cold_read_exact[of 5 65536 4 "\<lparr>vs_bytes = [], vs_capacity = 3\<rparr>" 1 rev hex32
        "[Data [1, 2], Interrupted, Data [3, 4, 5]]" "''sha256:0504030201''" meters_default]
    by (simp add: u64_MAX_def)
qed

text \<open>C14: A warm read that checks only the covering chunks against the digests recorded by an earlier
  successful whole-file scan returns exactly the bytes that scan verified, even if the file was
  modified in between; otherwise a chunk of the file read here differs from the chunk verified then
  and has the same SHA-256.\<close>

theorem warm_read_sound:
  assumes "scan_body sha256 hex_encode buffer_ops scratch0 evs digest n offset0 end0 s0 (Some []) m0
      = Inr (t0, Some cs, m1)"
    and "ix_chunks ix = cs" "ix_size ix = n" "n < u64_MAX" "end \<le> n"
    and "read_chunks sha256 buffer_ops seek metadata scratch ix offset end s m = Inr (t, m')"
  shows "''sha256:'' @ hex_encode (sha256 (stream_bytes evs)) = digest
    \<and> (ab_bytes t = ab_bytes s @ slice offset (end - offset) (stream_bytes evs)
       \<or> (\<exists>i. colliding_chunk sha256 seek (stream_bytes evs) i))"
proof -
  note cold = accounted.scan_body_Inr[OF assms(1,4)]
  have "ix_chunks ix = map sha256 (chunks_of CHUNK_SIZE (stream_bytes evs))"
    "ix_size ix = length (stream_bytes evs)" "end \<le> length (stream_bytes evs)"
    using cold(2,5) assms(2,3,5) by simp_all
  from accounted.read_chunks_Inr[OF assms(6) this] cold(3) show ?thesis
    by (simp add: window_slice)
qed

definition sample_buffer :: accounted_buffer where
  "sample_buffer = \<lparr>ab_bytes = [], ab_capacity = 4, ab_credits = 1\<rparr>"

definition sample_fact :: index_fact where
  "sample_fact = \<lparr>ix_domain = ''/cas'', ix_digest = [], ix_size = 5, ix_format = 1,
     ix_chunks = [[5, 4, 3, 2, 1]], ix_charge = 0\<rparr>"

lemma map_sum_eq_Inr: "map_sum f g r = Inr b \<longleftrightarrow> (\<exists>a. r = Inr a \<and> b = g a)"
  by (cases r) auto

lemma sample_cold:
  "\<exists>t m. scan_body rev hex32 buffer_ops 65536 [Data [1, 2], Data [3, 4, 5]] ''sha256:0504030201'' 5 0 0
     sample_buffer (Some []) meters_default = Inr (t, Some [[5, 4, 3, 2, 1]], m)"
proof -
  have "map_sum id (\<lambda>(t, cs, m). cs) (scan_body rev hex32 buffer_ops 65536 [Data [1, 2], Data [3, 4, 5]]
      ''sha256:0504030201'' 5 0 0 sample_buffer (Some []) meters_default) = Inr (Some [[5, 4, 3, 2, 1]])"
    by code_simp
  then show ?thesis
    by (auto simp: map_sum_eq_Inr split_def)
qed

lemma sample_warm:
  "\<exists>t m. read_chunks rev buffer_ops (\<lambda>_. Inr [Data [1], Data [2, 3, 4, 5, 6]]) (Inr (True, 5)) 65536 sample_fact 1 4
     sample_buffer meters_default = Inr (t, m) \<and> ab_bytes t = [2, 3, 4]"
proof -
  have "map_sum id (\<lambda>(t, m). ab_bytes t) (read_chunks rev buffer_ops (\<lambda>_. Inr [Data [1], Data [2, 3, 4, 5, 6]])
      (Inr (True, 5)) 65536 sample_fact 1 4 sample_buffer meters_default) = Inr [2, 3, 4]"
    by code_simp
  then show ?thesis
    by (auto simp: map_sum_eq_Inr split_def)
qed

theorem warm_read_sound_witness:
  "''sha256:'' @ hex32 (rev [1, 2, 3, 4, 5]) = ''sha256:0504030201''
    \<and> (\<exists>t m. read_chunks rev buffer_ops (\<lambda>_. Inr [Data [1], Data [2, 3, 4, 5, 6]]) (Inr (True, 5)) 65536
         sample_fact 1 4 sample_buffer meters_default = Inr (t, m)
       \<and> ab_bytes t = slice 1 3 [1, 2, 3, 4, 5])"
proof -
  obtain t0 m0 where c: "scan_body rev hex32 buffer_ops 65536 [Data [1, 2], Data [3, 4, 5]] ''sha256:0504030201'' 5 0 0
     sample_buffer (Some []) meters_default = Inr (t0, Some [[5, 4, 3, 2, 1]], m0)"
    using sample_cold by blast
  obtain t m where w: "read_chunks rev buffer_ops (\<lambda>_. Inr [Data [1], Data [2, 3, 4, 5, 6]]) (Inr (True, 5)) 65536
     sample_fact 1 4 sample_buffer meters_default = Inr (t, m)"
    using sample_warm by blast
  have "ix_chunks sample_fact = [[5, 4, 3, 2, 1]]" "ix_size sample_fact = 5" "(5 :: nat) < u64_MAX" "(4 :: nat) \<le> 5"
    by (simp_all add: sample_fact_def u64_MAX_def)
  moreover have "\<not> colliding_chunk rev seek body i" for seek body i
    by (auto simp: colliding_chunk_def Let_def split: sum.splits)
  ultimately show ?thesis
    using warm_read_sound[OF c _ _ _ _ w] w by (auto simp: sample_buffer_def)
qed

end
