(* ===== verification/Index_Cache.thy ===== *)
theory Index_Cache
  imports Range_Scan
begin

text \<open>
  The process-wide cache of chunk digests (\<^verbatim>\<open>snapshot/cas_index.rs\<close>): its byte budget, the
  128 slots with least-recently-used eviction, and the range read that consults it.  An
  \<^verbatim>\<open>Arc<Index>\<close> is a number into a heap of facts; the cache slots and the readers hold such
  numbers, and the budget is charged until the last holder is gone.  A lock protects the slots, so
  each operation is one step.
\<close>

section \<open>The cache\<close>

definition INDEX_FORMAT :: nat where "INDEX_FORMAT = 1"
definition MAX_DIGEST_BYTES :: nat where "MAX_DIGEST_BYTES = 8 * 1024 * 1024"
definition PROCESS_INDEX_BYTES :: nat where "PROCESS_INDEX_BYTES = 64 * 1024 * 1024"
definition CACHE_ENTRIES :: nat where "CACHE_ENTRIES = 128"
definition INDEX_OVERHEAD :: nat where "INDEX_OVERHEAD = 512"

definition ix_matches :: "index_fact \<Rightarrow> string \<Rightarrow> bytes \<Rightarrow> nat \<Rightarrow> bool" where
  "ix_matches self domain digest bytes =
    (ix_domain self = domain \<and> ix_digest self = digest \<and> ix_size self = bytes
      \<and> ix_format self = INDEX_FORMAT)"

record cache =
  ca_limit :: nat
  ca_owned :: nat
  ca_heap :: "nat \<Rightarrow> index_fact"
  ca_next :: nat
  ca_entries :: "(nat \<times> nat) option list"
  ca_clock :: nat
  ca_readers :: "nat list"
  ca_builders :: "nat list"

definition cache_new :: "nat \<Rightarrow> nat \<Rightarrow> (nat \<Rightarrow> index_fact) \<Rightarrow> cache" where
  "cache_new fixed_slots limit heap =
    \<lparr>ca_limit = limit, ca_owned = fixed_slots, ca_heap = heap, ca_next = 0,
     ca_entries = replicate CACHE_ENTRIES None, ca_clock = 0, ca_readers = [], ca_builders = []\<rparr>"

definition entry_ids :: "(nat \<times> nat) option list \<Rightarrow> nat list" where
  "entry_ids es = map fst (List.map_filter id es)"

definition budget_reserve :: "cache \<Rightarrow> nat \<Rightarrow> cache option" where
  "budget_reserve c bytes =
    (case checked_add (ca_owned c) bytes of
       None \<Rightarrow> None
     | Some next \<Rightarrow>
         if next \<le> ca_limit c
         then Some (c\<lparr>ca_owned := next, ca_builders := bytes # ca_builders c\<rparr>)
         else None)"

text \<open>The charge of a fact is returned when the reference just removed was the last one.\<close>

definition arc_drop :: "cache \<Rightarrow> nat \<Rightarrow> cache" where
  "arc_drop c i =
    (if i \<in> set (entry_ids (ca_entries c)) \<or> i \<in> set (ca_readers c) then c
     else c\<lparr>ca_owned := ca_owned c - ix_charge (ca_heap c i)\<rparr>)"

text \<open>\<^verbatim>\<open>Reservation::drop\<close> of a builder that has not published.\<close>

definition drop_builder :: "cache \<Rightarrow> nat \<Rightarrow> cache" where
  "drop_builder c bytes =
    c\<lparr>ca_owned := ca_owned c - bytes, ca_builders := remove1 bytes (ca_builders c)\<rparr>"

definition drop_reader :: "cache \<Rightarrow> nat \<Rightarrow> cache" where
  "drop_reader c i = arc_drop (c\<lparr>ca_readers := remove1 i (ca_readers c)\<rparr>) i"

definition occupied :: "(nat \<times> nat) option list \<Rightarrow> (nat \<times> nat \<times> nat) list" where
  "occupied es = List.map_filter (\<lambda>(slot, e). map_option (\<lambda>(i, used). (slot, i, used)) e)
     (List.enumerate 0 es)"

fun min_by_used :: "(nat \<times> nat \<times> nat) list \<Rightarrow> (nat \<times> nat \<times> nat) option" where
  "min_by_used [] = None"
| "min_by_used (x # xs) =
    (case min_by_used xs of
       None \<Rightarrow> Some x
     | Some y \<Rightarrow> if snd (snd y) < snd (snd x) then Some y else Some x)"

definition evict_oldest :: "cache \<Rightarrow> cache option" where
  "evict_oldest c =
    (case min_by_used (occupied (ca_entries c)) of
       None \<Rightarrow> None
     | Some (slot, i, used) \<Rightarrow> Some (arc_drop (c\<lparr>ca_entries := (ca_entries c)[slot := None]\<rparr>) i))"

definition tick :: "cache \<Rightarrow> cache" where
  "tick c = c\<lparr>ca_clock := saturating_add (ca_clock c) 1\<rparr>"

fun touch_first :: "(nat \<Rightarrow> bool) \<Rightarrow> nat \<Rightarrow> (nat \<times> nat) option list \<Rightarrow> (nat \<times> (nat \<times> nat) option list) option" where
  "touch_first p now [] = None"
| "touch_first p now (None # es) = map_option (map_prod id (Cons None)) (touch_first p now es)"
| "touch_first p now (Some (i, used) # es) =
    (if p i then Some (i, Some (i, now) # es)
     else map_option (map_prod id (Cons (Some (i, used)))) (touch_first p now es))"

definition cache_get :: "cache \<Rightarrow> string \<Rightarrow> bytes \<Rightarrow> nat \<Rightarrow> cache \<times> nat option" where
  "cache_get c domain digest bytes =
    (let c = tick c in
     case touch_first (\<lambda>i. ix_matches (ca_heap c i) domain digest bytes) (ca_clock c) (ca_entries c) of
       None \<Rightarrow> (c, None)
     | Some (i, es) \<Rightarrow> (c\<lparr>ca_entries := es, ca_readers := i # ca_readers c\<rparr>, Some i))"

lemma length_occupied_evict:
  "min_by_used (occupied es) = Some (slot, i, used) \<Longrightarrow>
    slot < length es \<and> es ! slot = Some (i, used)"
proof -
  have "min_by_used xs = Some x \<Longrightarrow> x \<in> set xs" for xs x
    by (induction xs arbitrary: x) (auto split: option.splits if_splits)
  then show "min_by_used (occupied es) = Some (slot, i, used) \<Longrightarrow>
      slot < length es \<and> es ! slot = Some (i, used)"
    by (fastforce simp: occupied_def map_filter_def in_set_enumerate_eq)
qed

lemma entry_ids_update_None:
  "slot < length es \<Longrightarrow> es ! slot = Some (i, used) \<Longrightarrow>
    length (entry_ids es) = Suc (length (entry_ids (es[slot := None])))"
proof (induction es arbitrary: slot)
  case (Cons e es)
  then show ?case
    by (cases slot) (auto simp: entry_ids_def map_filter_simps split: option.splits)
qed simp

lemma evict_oldest_entries:
  assumes "evict_oldest c = Some d"
  obtains slot i used where "slot < length (ca_entries c)" "ca_entries c ! slot = Some (i, used)"
    "d = arc_drop (c\<lparr>ca_entries := (ca_entries c)[slot := None]\<rparr>) i"
    "min_by_used (occupied (ca_entries c)) = Some (slot, i, used)"
  using assms length_occupied_evict by (fastforce simp: evict_oldest_def split: option.splits)

lemma arc_drop_entries [simp]: "ca_entries (arc_drop c i) = ca_entries c"
  by (simp add: arc_drop_def)

function cache_reserve :: "cache \<Rightarrow> nat \<Rightarrow> cache \<times> bool" where
  "cache_reserve c bytes =
    (case budget_reserve c bytes of
       Some c' \<Rightarrow> (c', True)
     | None \<Rightarrow>
         (case evict_oldest c of
            None \<Rightarrow> (c, False)
          | Some c' \<Rightarrow> cache_reserve c' bytes))"
  by pat_completeness auto
termination
  by (relation "measure (\<lambda>(c, _). length (entry_ids (ca_entries c)))")
    (auto elim!: evict_oldest_entries simp: entry_ids_update_None)

declare cache_reserve.simps [simp del]

fun first_none :: "'a option list \<Rightarrow> nat option" where
  "first_none [] = None"
| "first_none (None # es) = Some 0"
| "first_none (Some e # es) = map_option Suc (first_none es)"

text \<open>
  Publishing moves the charge of the builder to the new fact; a duplicate fact is dropped with its
  charge.
\<close>

definition cache_publish :: "cache \<Rightarrow> index_fact \<Rightarrow> cache" where
  "cache_publish c f =
    (if list_ex (\<lambda>i. ix_matches (ca_heap c i) (ix_domain f) (ix_digest f) (ix_size f))
          (entry_ids (ca_entries c))
     then drop_builder c (ix_charge f)
     else
       let c = (if list_all (\<lambda>e. e \<noteq> None) (ca_entries c)
                then (case evict_oldest c of None \<Rightarrow> c | Some c' \<Rightarrow> c') else c);
           c = tick c
       in case first_none (ca_entries c) of
            None \<Rightarrow> drop_builder c (ix_charge f)
          | Some slot \<Rightarrow>
              c\<lparr>ca_heap := (ca_heap c)(ca_next c := f), ca_next := Suc (ca_next c),
                ca_entries := (ca_entries c)[slot := Some (ca_next c, ca_clock c)],
                ca_builders := remove1 (ix_charge f) (ca_builders c)\<rparr>)"

text \<open>
  The steps of concurrent users: a lookup that leaves a reader behind, a reservation that leaves a
  builder behind, and the ends of both.  A builder publishes a fact that satisfies the given
  predicate.
\<close>

inductive cache_step :: "(index_fact \<Rightarrow> bool) \<Rightarrow> cache \<Rightarrow> cache \<Rightarrow> bool" for valid where
  get: "cache_get c domain digest bytes = (c', r) \<Longrightarrow> cache_step valid c c'"
| reserve: "cache_reserve c bytes = (c', r) \<Longrightarrow> cache_step valid c c'"
| publish: "ix_charge f \<in> set (ca_builders c) \<Longrightarrow> ix_format f = INDEX_FORMAT \<Longrightarrow> valid f \<Longrightarrow>
    cache_step valid c (cache_publish c f)"
| abandon: "bytes \<in> set (ca_builders c) \<Longrightarrow> cache_step valid c (drop_builder c bytes)"
| finish: "i \<in> set (ca_readers c) \<Longrightarrow> cache_step valid c (drop_reader c i)"

inductive cache_reachable :: "(index_fact \<Rightarrow> bool) \<Rightarrow> cache \<Rightarrow> cache \<Rightarrow> bool" for valid start where
  init: "cache_reachable valid start start"
| step: "cache_reachable valid start c \<Longrightarrow> cache_step valid c c' \<Longrightarrow> cache_reachable valid start c'"

section \<open>The range read\<close>

text \<open>
  One opened file: its metadata when it is opened, the events of its sequential reads, the events
  after each seek, and the metadata observed after the reads.
\<close>

record os_file =
  of_opened :: "string + (bool \<times> nat)"
  of_reads :: "read_event list"
  of_seek :: "nat \<Rightarrow> string + read_event list"
  of_metadata :: "string + (bool \<times> nat)"

text \<open>What the read takes from outside the program: the digest, the two hex functions,
  \<^verbatim>\<open>fs::canonicalize\<close>, the storage size of a path and the allocator.\<close>

record cas_env =
  env_sha256 :: "bytes \<Rightarrow> bytes"
  env_hex_encode :: "bytes \<Rightarrow> string"
  env_hex_decode :: "string \<Rightarrow> bytes option"
  env_canonicalize :: "string \<Rightarrow> string option"
  env_path_capacity :: "string \<Rightarrow> nat"
  env_alloc :: "nat \<Rightarrow> nat option"

definition scan ::
  "cas_env \<Rightarrow> 's sink_ops \<Rightarrow> nat \<Rightarrow> os_file \<Rightarrow> string \<Rightarrow> nat \<Rightarrow> nat \<Rightarrow> nat \<Rightarrow> 's \<Rightarrow> bytes list option
    \<Rightarrow> local_cas_range_meters \<Rightarrow> ('s \<times> bytes list option \<times> local_cas_range_meters) result" where
  "scan env ops scratch_len input digest bytes offset end out chunks m =
    rbind (scan_body (env_sha256 env) (env_hex_encode env) ops scratch_len (of_reads input) digest bytes
             offset end out chunks m) (\<lambda>r.
    rbind (check_metadata (of_metadata input) bytes) (\<lambda>_. Inr r))"

definition scan_legacy ::
  "cas_env \<Rightarrow> 's sink_ops \<Rightarrow> os_file \<Rightarrow> string \<Rightarrow> nat \<Rightarrow> nat \<Rightarrow> nat \<Rightarrow> 's \<Rightarrow> bytes list option
    \<Rightarrow> local_cas_range_meters \<Rightarrow> ('s \<times> bytes list option \<times> local_cas_range_meters) result" where
  "scan_legacy env ops = scan env ops (64 * 1024)"

definition scan_with_scratch ::
  "cas_env \<Rightarrow> 's sink_ops \<Rightarrow> nat option \<Rightarrow> os_file \<Rightarrow> string \<Rightarrow> nat \<Rightarrow> nat \<Rightarrow> nat \<Rightarrow> 's \<Rightarrow> bytes list option
    \<Rightarrow> local_cas_range_meters \<Rightarrow> ('s \<times> bytes list option \<times> local_cas_range_meters) result" where
  "scan_with_scratch env ops scratch =
    (case scratch of Some n \<Rightarrow> scan env ops n | None \<Rightarrow> scan_legacy env ops)"

definition read_chunks_with_scratch ::
  "cas_env \<Rightarrow> 's sink_ops \<Rightarrow> nat option \<Rightarrow> os_file \<Rightarrow> index_fact \<Rightarrow> nat \<Rightarrow> nat \<Rightarrow> 's
    \<Rightarrow> local_cas_range_meters \<Rightarrow> ('s \<times> local_cas_range_meters) result" where
  "read_chunks_with_scratch env ops scratch input ix offset end out m =
    (case scratch of
       Some n \<Rightarrow> read_chunks (env_sha256 env) ops (of_seek input) (of_metadata input) n ix offset end out m
     | None \<Rightarrow>
         if offset < end
         then rbind (ok_or (env_alloc env CHUNK_SIZE) allocation_error) (\<lambda>_.
              read_chunks (env_sha256 env) ops (of_seek input) (of_metadata input) CHUNK_SIZE ix
                offset end out m)
         else read_chunks (env_sha256 env) ops (of_seek input) (of_metadata input) 0 ix offset end out m)"

definition fixed_digest_of :: "cas_env \<Rightarrow> string \<Rightarrow> bytes option" where
  "fixed_digest_of env digest =
    Option.bind (strip_prefix ''sha256:'' digest) (\<lambda>hex.
    if list_all is_lower_hex hex
    then Option.bind (env_hex_decode env hex) (\<lambda>b. if length b = 32 then Some b else None)
    else None)"

function next_power_of_two_from :: "nat \<Rightarrow> nat \<Rightarrow> nat" where
  "next_power_of_two_from p n = (if 0 < p \<and> p < n then next_power_of_two_from (2 * p) n else p)"
  by pat_completeness auto
termination by (relation "measure (\<lambda>(p, n). n - p)") auto

declare next_power_of_two_from.simps [simp del]

definition index_charge :: "cas_env \<Rightarrow> nat \<Rightarrow> string \<Rightarrow> nat" where
  "index_charge env count domain =
    (let payload = min (next_power_of_two_from 1 (count * 32)) MAX_DIGEST_BYTES;
         path_bytes = min (env_path_capacity env domain * 2) u64_MAX
     in saturating_add (saturating_add payload path_bytes) INDEX_OVERHEAD)"

definition strict_scan ::
  "cas_env \<Rightarrow> 's sink_ops \<Rightarrow> nat option \<Rightarrow> os_file \<Rightarrow> string \<Rightarrow> nat \<Rightarrow> nat \<Rightarrow> nat \<Rightarrow> 's
    \<Rightarrow> local_cas_range_meters \<Rightarrow> ('s \<times> local_cas_range_meters) result" where
  "strict_scan env ops scratch input digest bytes offset end out m =
    map_sum id (\<lambda>(out, _, m). (out, m))
      (scan_with_scratch env ops scratch input digest bytes offset end out None
         (m\<lparr>strict_fallback := True\<rparr>))"

text \<open>The part of the read after a miss, when the identity is canonical and small enough.\<close>

definition build_and_read ::
  "cas_env \<Rightarrow> 's sink_ops \<Rightarrow> cache \<Rightarrow> os_file \<Rightarrow> string \<Rightarrow> bytes \<Rightarrow> string \<Rightarrow> nat \<Rightarrow> nat \<Rightarrow> nat \<Rightarrow> 's \<Rightarrow> nat option
    \<Rightarrow> local_cas_range_meters \<Rightarrow> cache \<times> ('s \<times> local_cas_range_meters) result" where
  "build_and_read env ops c input domain fixed_digest digest bytes offset end out scratch m =
    (let count = div_ceil bytes CHUNK_SIZE;
         charge = index_charge env count domain;
         payload = min (next_power_of_two_from 1 (count * 32)) MAX_DIGEST_BYTES
     in case cache_reserve c charge of
          (c, False) \<Rightarrow> (c, strict_scan env ops scratch input digest bytes offset end out m)
        | (c, True) \<Rightarrow>
            (case env_alloc env count of
               None \<Rightarrow> (drop_builder c charge,
                        strict_scan env ops scratch input digest bytes offset end out m)
             | Some capacity \<Rightarrow>
               if payload < min (capacity * 32) u64_MAX
               then (drop_builder c charge,
                     strict_scan env ops scratch input digest bytes offset end out m)
               else (case scan_with_scratch env ops scratch input digest bytes offset end out (Some []) m of
                   Inl e \<Rightarrow> (drop_builder c charge, Inl e)
                 | Inr (out, chunks, m) \<Rightarrow>
                     let chunks = (case chunks of None \<Rightarrow> [] | Some cs \<Rightarrow> cs) in
                     if length chunks \<noteq> count
                     then (drop_builder c charge,
                           Inl (mismatch ''local CAS chunk geometry differs from the fixed file''))
                     else
                       (cache_publish c
                          \<lparr>ix_domain = domain, ix_digest = fixed_digest, ix_size = bytes,
                           ix_format = INDEX_FORMAT, ix_chunks = chunks, ix_charge = charge\<rparr>,
                        Inr (out, m\<lparr>index_fact_charge_bytes := charge, index_built := True\<rparr>)))))"

definition read_input_with_cache ::
  "cas_env \<Rightarrow> 's sink_ops \<Rightarrow> cache \<Rightarrow> os_file \<Rightarrow> string \<Rightarrow> string \<Rightarrow> nat \<Rightarrow> nat \<Rightarrow> nat \<Rightarrow> 's \<Rightarrow> nat option
    \<Rightarrow> local_cas_range_meters \<Rightarrow> cache \<times> ('s \<times> local_cas_range_meters) result" where
  "read_input_with_cache env ops c input domain digest bytes offset end out scratch m =
    (case (env_canonicalize env domain, fixed_digest_of env digest) of
       (Some domain, Some fixed_digest) \<Rightarrow>
         if MAX_DIGEST_BYTES div 32 < div_ceil bytes CHUNK_SIZE
         then (c, strict_scan env ops scratch input digest bytes offset end out m)
         else (case cache_get c domain fixed_digest bytes of
             (c, Some i) \<Rightarrow>
               (drop_reader c i,
                read_chunks_with_scratch env ops scratch input (ca_heap c i) offset end out
                  (m\<lparr>index_hit := True, index_fact_charge_bytes := ix_charge (ca_heap c i)\<rparr>))
           | (c, None) \<Rightarrow>
               build_and_read env ops c input domain fixed_digest digest bytes offset end out scratch m)
     | _ \<Rightarrow> (c, strict_scan env ops scratch input digest bytes offset end out m))"

datatype open_outcome = Opened os_file | NotFound | OpenFailed string

definition cas_open :: "open_outcome \<Rightarrow> nat \<Rightarrow> os_file option result" where
  "cas_open outcome bytes =
    (case outcome of
       NotFound \<Rightarrow> Inr None
     | OpenFailed e \<Rightarrow> Inl (io_error e)
     | Opened input \<Rightarrow> rbind (check_metadata (of_opened input) bytes) (\<lambda>_. Inr (Some input)))"

text \<open>The public reads; the first argument after the environment is the outcome of the shared file
  lock of a managed cache.\<close>

definition read_strict ::
  "cas_env \<Rightarrow> unit result \<Rightarrow> open_outcome \<Rightarrow> string \<Rightarrow> nat \<Rightarrow> nat \<Rightarrow> nat \<Rightarrow> local_cas_range_meters
    \<Rightarrow> (bytes option \<times> local_cas_range_meters) result" where
  "read_strict env io_guard outcome digest bytes offset len m =
    rbind io_guard (\<lambda>_.
    rbind (cas_open outcome bytes) (\<lambda>input.
    case input of
      None \<Rightarrow> Inr (None, m)
    | Some input \<Rightarrow>
        rbind (range_output (env_alloc env) bytes offset len) (\<lambda>(out, end).
        rbind (scan_legacy env vec_ops input digest bytes offset end out None m) (\<lambda>(out, _, m).
        Inr (Some (vs_bytes out), m)))))"

definition read_with_cache ::
  "cas_env \<Rightarrow> unit result \<Rightarrow> open_outcome \<Rightarrow> cache \<Rightarrow> string \<Rightarrow> string \<Rightarrow> nat \<Rightarrow> nat \<Rightarrow> nat
    \<Rightarrow> local_cas_range_meters \<Rightarrow> cache \<times> (bytes option \<times> local_cas_range_meters) result" where
  "read_with_cache env io_guard outcome c domain digest bytes offset len m =
    (case rbind io_guard (\<lambda>_. cas_open outcome bytes) of
       Inl e \<Rightarrow> (c, Inl e)
     | Inr None \<Rightarrow> (c, Inr (None, m))
     | Inr (Some input) \<Rightarrow>
         (case range_output (env_alloc env) bytes offset len of
            Inl e \<Rightarrow> (c, Inl e)
          | Inr (out, end) \<Rightarrow>
              map_prod id (map_sum id (\<lambda>(out, m). (Some (vs_bytes out), m)))
                (read_input_with_cache env vec_ops c input domain digest bytes offset end out None m)))"

definition read_indexed_into ::
  "cas_env \<Rightarrow> unit result \<Rightarrow> open_outcome \<Rightarrow> cache \<Rightarrow> string \<Rightarrow> string \<Rightarrow> nat \<Rightarrow> nat \<Rightarrow> nat
    \<Rightarrow> accounted_buffer \<Rightarrow> nat \<Rightarrow> local_cas_range_meters
    \<Rightarrow> cache \<times> (accounted_buffer \<times> bool \<times> local_cas_range_meters) result" where
  "read_indexed_into env io_guard outcome c domain digest bytes offset wanted out scratch_len m =
    (case rbind io_guard (\<lambda>_. cas_open outcome bytes) of
       Inl e \<Rightarrow> (c, Inl e)
     | Inr None \<Rightarrow> (c, Inr (out, False, m))
     | Inr (Some input) \<Rightarrow>
         map_prod id (map_sum id (\<lambda>(out, m). (out, True, m)))
           (read_input_with_cache env buffer_ops c input domain digest bytes offset
              (saturating_add offset wanted) out (Some scratch_len) m))"

section \<open>Accounting lemmas\<close>

definition live :: "cache \<Rightarrow> nat set" where
  "live c = set (entry_ids (ca_entries c)) \<union> set (ca_readers c)"

definition charges :: "cache \<Rightarrow> nat" where
  "charges c = (\<Sum>i\<in>live c. ix_charge (ca_heap c i)) + sum_list (ca_builders c)"

definition ix_key :: "index_fact \<Rightarrow> string \<times> bytes \<times> nat" where
  "ix_key f = (ix_domain f, ix_digest f, ix_size f)"

text \<open>
  The invariant: the budget is charged exactly for the facts that something still holds and for the
  builders at work, and the slots hold different facts with different keys.
\<close>

definition cache_inv :: "nat \<Rightarrow> cache \<Rightarrow> bool" where
  "cache_inv base c \<longleftrightarrow>
    ca_owned c = base + charges c \<and> ca_owned c \<le> max base (ca_limit c)
    \<and> (\<forall>i\<in>live c. i < ca_next c)
    \<and> length (ca_entries c) = CACHE_ENTRIES
    \<and> distinct (map (\<lambda>i. ix_key (ca_heap c i)) (entry_ids (ca_entries c)))
    \<and> (\<forall>i\<in>set (entry_ids (ca_entries c)). ix_format (ca_heap c i) = INDEX_FORMAT)"

lemma finite_live [simp]: "finite (live c)"
  by (simp add: live_def)

lemma entry_ids_simps [simp]:
  "entry_ids [] = []" "entry_ids (None # es) = entry_ids es"
  "entry_ids (Some (i, u) # es) = i # entry_ids es" "entry_ids (es @ fs) = entry_ids es @ entry_ids fs"
  by (simp_all add: entry_ids_def map_filter_simps map_filter_def)

lemma ix_matches_key:
  "ix_format f = INDEX_FORMAT \<Longrightarrow> ix_matches f d g n \<longleftrightarrow> ix_key f = (d, g, n)"
  by (auto simp: ix_matches_def ix_key_def)

lemma arc_drop_simps [simp]:
  "ca_limit (arc_drop c i) = ca_limit c" "ca_heap (arc_drop c i) = ca_heap c"
  "ca_next (arc_drop c i) = ca_next c" "ca_clock (arc_drop c i) = ca_clock c"
  "ca_readers (arc_drop c i) = ca_readers c" "ca_builders (arc_drop c i) = ca_builders c"
  by (simp_all add: arc_drop_def)

lemma live_arc_drop [simp]: "live (arc_drop c i) = live c"
  by (simp add: live_def)

lemma charges_arc_drop [simp]: "charges (arc_drop c i) = charges c"
  by (simp add: charges_def)

lemma arc_drop_owned:
  assumes "ca_owned c = base + (\<Sum>j\<in>insert i (live c). ix_charge (ca_heap c j)) + sum_list (ca_builders c)"
  shows "ca_owned (arc_drop c i) = base + charges c" "ca_owned (arc_drop c i) \<le> ca_owned c"
proof -
  show "ca_owned (arc_drop c i) \<le> ca_owned c"
    by (simp add: arc_drop_def)
  show "ca_owned (arc_drop c i) = base + charges c"
  proof (cases "i \<in> live c")
    case True
    then show ?thesis
      using assms by (auto simp: arc_drop_def charges_def live_def insert_absorb)
  next
    case False
    then show ?thesis
      using assms by (simp add: arc_drop_def charges_def) (auto simp: live_def)
  qed
qed

lemma evict_oldest_inv:
  assumes "cache_inv base c" "evict_oldest c = Some d"
  shows "cache_inv base d" "ca_readers d = ca_readers c" "ca_builders d = ca_builders c"
    "ca_heap d = ca_heap c" "ca_next d = ca_next c" "ca_limit d = ca_limit c" "ca_clock d = ca_clock c"
    "set (entry_ids (ca_entries d)) \<subseteq> set (entry_ids (ca_entries c))" "\<exists>x\<in>set (ca_entries d). x = None"
proof -
  obtain slot i used where s: "slot < length (ca_entries c)" "ca_entries c ! slot = Some (i, used)"
      "d = arc_drop (c\<lparr>ca_entries := (ca_entries c)[slot := None]\<rparr>) i"
    using assms(2) by (rule evict_oldest_entries)
  define xs ys where "xs = take slot (ca_entries c)" and "ys = drop (Suc slot) (ca_entries c)"
  have es: "ca_entries c = xs @ Some (i, used) # ys"
    using s id_take_nth_drop[of slot "ca_entries c"] by (simp add: xs_def ys_def)
  have es': "(ca_entries c)[slot := None] = xs @ None # ys"
    using s by (simp add: xs_def ys_def upd_conv_take_nth_drop)
  define c1 where "c1 = c\<lparr>ca_entries := xs @ None # ys\<rparr>"
  have d: "d = arc_drop c1 i"
    using s(3) es' by (simp add: c1_def)
  have live: "live c = insert i (live c1)"
    by (auto simp: live_def es c1_def)
  have "ca_owned c1 = base + (\<Sum>j\<in>insert i (live c1). ix_charge (ca_heap c1 j)) + sum_list (ca_builders c1)"
    using assms(1) by (simp add: cache_inv_def charges_def live c1_def)
  from arc_drop_owned[OF this] have own: "ca_owned d = base + charges d" "ca_owned d \<le> ca_owned c"
    by (simp_all add: d) (simp add: c1_def)
  show "cache_inv base d"
    using assms(1) own live unfolding cache_inv_def
    by (auto simp: d c1_def es)
  show "set (entry_ids (ca_entries d)) \<subseteq> set (entry_ids (ca_entries c))"
    by (auto simp: d c1_def es)
  show "\<exists>x\<in>set (ca_entries d). x = None"
    by (auto simp: d c1_def)
qed (use assms(2) in \<open>auto elim!: evict_oldest_entries\<close>)

lemma budget_reserve_inv:
  assumes "cache_inv base c" "budget_reserve c n = Some d"
  shows "cache_inv base d" "ca_builders d = n # ca_builders c"
  using assms
  by (auto simp: budget_reserve_def result_simps cache_inv_def charges_def live_def
      split: option.splits if_splits)

lemma cache_reserve_inv:
  "cache_inv base c \<Longrightarrow> cache_reserve c n = (d, ok) \<Longrightarrow>
    cache_inv base d \<and> ca_readers d = ca_readers c \<and> ca_heap d = ca_heap c
    \<and> set (entry_ids (ca_entries d)) \<subseteq> set (entry_ids (ca_entries c))
    \<and> ca_builders d = (if ok then n # ca_builders c else ca_builders c)
    \<and> ca_limit d = ca_limit c"
proof (induction c n rule: cache_reserve.induct)
  case (1 c n)
  show ?case
  proof (cases "budget_reserve c n")
    case (Some c')
    then have "d = c'" "ok"
      using 1(3) by (simp_all add: cache_reserve.simps)
    then show ?thesis
      using budget_reserve_inv[OF 1(2) Some] Some
      by (auto simp: budget_reserve_def split: option.splits if_splits)
  next
    case None
    show ?thesis
    proof (cases "evict_oldest c")
      case None
      then show ?thesis
        using 1(2,3) \<open>budget_reserve c n = None\<close> by (simp add: cache_reserve.simps)
    next
      case (Some c')
      then have "cache_reserve c' n = (d, ok)"
        using 1(3) None by (subst (asm) cache_reserve.simps) simp
      with 1(1)[OF None Some evict_oldest_inv(1)[OF 1(2) Some]] evict_oldest_inv[OF 1(2) Some]
      show ?thesis by auto
    qed
  qed
qed

lemma touch_first_ids:
  "touch_first p now es = Some (i, es') \<Longrightarrow>
    entry_ids es' = entry_ids es \<and> i \<in> set (entry_ids es) \<and> p i \<and> length es' = length es"
proof (induction p now es arbitrary: i es' rule: touch_first.induct)
  case (3 p now j used es)
  then show ?case by (cases "p j") auto
qed auto

lemma live_tick [simp]: "live (tick c) = live c"
  by (simp add: live_def tick_def)

lemma tick_simps [simp]:
  "ca_limit (tick c) = ca_limit c" "ca_owned (tick c) = ca_owned c" "ca_heap (tick c) = ca_heap c"
  "ca_next (tick c) = ca_next c" "ca_entries (tick c) = ca_entries c"
  "ca_readers (tick c) = ca_readers c" "ca_builders (tick c) = ca_builders c"
  by (simp_all add: tick_def)

lemma tick_inv [simp]: "cache_inv base (tick c) \<longleftrightarrow> cache_inv base c"
  by (simp add: cache_inv_def charges_def)

lemma cache_get_inv:
  assumes "cache_inv base c" "cache_get c domain digest n = (d, r)"
  shows "cache_inv base d" "ca_builders d = ca_builders c" "ca_heap d = ca_heap c"
    "entry_ids (ca_entries d) = entry_ids (ca_entries c)"
    "ca_readers d = (case r of None \<Rightarrow> ca_readers c | Some i \<Rightarrow> i # ca_readers c)"
    "\<And>i. r = Some i \<Longrightarrow> i \<in> set (entry_ids (ca_entries c)) \<and> ix_matches (ca_heap c i) domain digest n"
proof -
  let ?p = "\<lambda>i. ix_matches (ca_heap c i) domain digest n"
  have cases: "(r = None \<and> d = tick c) \<or> (\<exists>i es. r = Some i \<and>
      touch_first ?p (ca_clock (tick c)) (ca_entries c) = Some (i, es) \<and>
      d = (tick c)\<lparr>ca_entries := es, ca_readers := i # ca_readers c\<rparr>)"
    using assms(2) by (auto simp: cache_get_def Let_def split: option.splits)
  show "cache_inv base d"
    using cases
  proof (elim disjE exE conjE)
    fix i es
    assume t: "touch_first ?p (ca_clock (tick c)) (ca_entries c) = Some (i, es)"
      and d: "d = (tick c)\<lparr>ca_entries := es, ca_readers := i # ca_readers c\<rparr>"
    note ids = touch_first_ids[OF t]
    have "live d = live c"
      using ids by (auto simp: live_def d)
    then show ?thesis
      using assms(1) ids by (simp add: cache_inv_def charges_def d)
  qed (use assms(1) in simp)
qed (use assms(2) in \<open>auto simp: cache_get_def Let_def split: option.splits dest!: touch_first_ids\<close>)

lemma sum_list_remove1: "x \<in> set xs \<Longrightarrow> sum_list xs = x + sum_list (remove1 x (xs :: nat list))"
  by (induction xs) auto

lemma drop_builder_inv:
  assumes "cache_inv base c" "n \<in> set (ca_builders c)"
  shows "cache_inv base (drop_builder c n)"
  using assms sum_list_remove1[OF assms(2)]
  by (auto simp: cache_inv_def charges_def drop_builder_def live_def)

lemma set_remove1_insert: "x \<in> set xs \<Longrightarrow> set xs = insert x (set (remove1 x xs))"
  by (induction xs) auto

lemma drop_reader_inv:
  assumes "cache_inv base c" "i \<in> set (ca_readers c)"
  shows "cache_inv base (drop_reader c i)"
proof -
  define c1 where "c1 = c\<lparr>ca_readers := remove1 i (ca_readers c)\<rparr>"
  have live: "live c = insert i (live c1)"
    using set_remove1_insert[OF assms(2)] by (auto simp: live_def c1_def)
  have "ca_owned c1 = base + (\<Sum>j\<in>insert i (live c1). ix_charge (ca_heap c1 j)) + sum_list (ca_builders c1)"
    using assms(1) by (simp add: cache_inv_def charges_def live c1_def)
  note own = arc_drop_owned[OF this]
  show ?thesis
    using assms(1) own live unfolding cache_inv_def drop_reader_def c1_def[symmetric]
    by (auto simp: c1_def)
qed

lemma first_none_Some: "first_none es = Some slot \<Longrightarrow> slot < length es \<and> es ! slot = None"
  by (induction es arbitrary: slot rule: first_none.induct) auto

lemma first_none_None: "first_none es = None \<longleftrightarrow> None \<notin> set es"
  by (induction es rule: first_none.induct) auto

lemma publish_slot_inv:
  assumes inv: "cache_inv base c" and b: "ix_charge f \<in> set (ca_builders c)"
    and fmt: "ix_format f = INDEX_FORMAT"
    and new: "\<And>i. i \<in> set (entry_ids (ca_entries c)) \<Longrightarrow> ix_key (ca_heap c i) \<noteq> ix_key f"
    and slot: "first_none (ca_entries c) = Some slot"
  shows "cache_inv base (c\<lparr>ca_heap := (ca_heap c)(ca_next c := f), ca_next := Suc (ca_next c),
      ca_entries := (ca_entries c)[slot := Some (ca_next c, now)],
      ca_builders := remove1 (ix_charge f) (ca_builders c)\<rparr>)" (is "cache_inv base ?d")
proof -
  note sl = first_none_Some[OF slot]
  define xs ys where "xs = take slot (ca_entries c)" and "ys = drop (Suc slot) (ca_entries c)"
  have es: "ca_entries c = xs @ None # ys"
    using sl id_take_nth_drop[of slot "ca_entries c"] by (simp add: xs_def ys_def)
  have es': "(ca_entries c)[slot := Some (ca_next c, now)] = xs @ Some (ca_next c, now) # ys"
    using sl by (simp add: xs_def ys_def upd_conv_take_nth_drop)
  have fresh: "ca_next c \<notin> live c" and old: "\<And>i. i \<in> live c \<Longrightarrow> i < ca_next c"
    using inv by (auto simp: cache_inv_def)
  have ids: "entry_ids ((ca_entries c)[slot := Some (ca_next c, now)]) = entry_ids xs @ ca_next c # entry_ids ys"
    by (simp add: es')
  have idc: "entry_ids (ca_entries c) = entry_ids xs @ entry_ids ys"
    by (simp add: es)
  have live: "live ?d = insert (ca_next c) (live c)"
    by (auto simp: live_def ids idc)
  have sub: "set (entry_ids xs) \<union> set (entry_ids ys) \<subseteq> live c"
    by (auto simp: live_def idc)
  have heap: "ca_heap ?d i = ca_heap c i" if "i \<in> live c" for i
    using that fresh by auto
  have "(\<Sum>i\<in>live ?d. ix_charge (ca_heap ?d i)) = ix_charge f + (\<Sum>i\<in>live c. ix_charge (ca_heap c i))"
    using fresh heap by (simp add: live del: fun_upd_apply) (simp cong: sum.cong)
  then have "charges ?d = charges c"
    using sum_list_remove1[OF b] by (simp add: charges_def)
  moreover have "distinct (map (\<lambda>i. ix_key (ca_heap ?d i)) (entry_ids (ca_entries ?d)))"
  proof -
    have eq: "map (\<lambda>i. ix_key (ca_heap ?d i)) (entry_ids zs) = map (\<lambda>i. ix_key (ca_heap c i)) (entry_ids zs)"
      if "set (entry_ids zs) \<subseteq> live c" for zs
      using that fresh by auto
    have "distinct (map (\<lambda>i. ix_key (ca_heap c i)) (entry_ids xs @ entry_ids ys))"
      using inv by (simp add: cache_inv_def idc)
    moreover have "ix_key f \<notin> set (map (\<lambda>i. ix_key (ca_heap c i)) (entry_ids xs @ entry_ids ys))"
      using new by (force simp: idc)
    ultimately show ?thesis
      using eq[of xs] eq[of ys] sub by (auto simp: ids simp del: map_eq_conv)
  qed
  moreover have "ix_format (ca_heap ?d i) = INDEX_FORMAT" if "i \<in> set (entry_ids (ca_entries ?d))" for i
  proof (cases "i = ca_next c")
    case False
    then have "i \<in> set (entry_ids (ca_entries c))"
      using that by (auto simp: ids idc)
    with False inv show ?thesis by (simp add: cache_inv_def)
  qed (simp add: fmt)
  moreover have "i < ca_next ?d" if "i \<in> live ?d" for i
    using that old by (auto simp: live less_SucI)
  moreover have "ca_owned ?d = ca_owned c" "ca_limit ?d = ca_limit c" "length (ca_entries ?d) = CACHE_ENTRIES"
    using inv by (simp_all add: cache_inv_def)
  ultimately show ?thesis
    using inv unfolding cache_inv_def by metis
qed

lemma cache_publish_inv:
  assumes "cache_inv base c" "ix_charge f \<in> set (ca_builders c)" "ix_format f = INDEX_FORMAT"
  shows "cache_inv base (cache_publish c f)"
proof (cases "list_ex (\<lambda>i. ix_matches (ca_heap c i) (ix_domain f) (ix_digest f) (ix_size f)) (entry_ids (ca_entries c))")
  case True
  then show ?thesis
    using assms by (simp add: cache_publish_def drop_builder_inv)
next
  case False
  define c1 where "c1 = (if list_all (\<lambda>e. e \<noteq> None) (ca_entries c)
      then (case evict_oldest c of None \<Rightarrow> c | Some c' \<Rightarrow> c') else c)"
  have "c1 = c \<or> evict_oldest c = Some c1"
    by (auto simp: c1_def split: option.splits)
  then have c1: "cache_inv base c1" "ca_builders c1 = ca_builders c" "ca_heap c1 = ca_heap c"
      "set (entry_ids (ca_entries c1)) \<subseteq> set (entry_ids (ca_entries c))"
    using assms(1) evict_oldest_inv(1,3,4,8)[OF assms(1), of c1] by (elim disjE; simp)+
  have new: "ix_key (ca_heap c1 i) \<noteq> ix_key f" if "i \<in> set (entry_ids (ca_entries c1))" for i
  proof -
    have "\<not> ix_matches (ca_heap c i) (ix_domain f) (ix_digest f) (ix_size f)" "ix_format (ca_heap c i) = INDEX_FORMAT"
      using False that c1(4) assms(1) by (auto simp: list_ex_iff cache_inv_def)
    then show ?thesis
      using c1(3) by (auto simp: ix_matches_def ix_key_def)
  qed
  have pub: "cache_publish c f = (case first_none (ca_entries (tick c1)) of
        None \<Rightarrow> drop_builder (tick c1) (ix_charge f)
      | Some slot \<Rightarrow> (tick c1)\<lparr>ca_heap := (ca_heap (tick c1))(ca_next (tick c1) := f),
          ca_next := Suc (ca_next (tick c1)),
          ca_entries := (ca_entries (tick c1))[slot := Some (ca_next (tick c1), ca_clock (tick c1))],
          ca_builders := remove1 (ix_charge f) (ca_builders (tick c1))\<rparr>)"
    unfolding cache_publish_def if_not_P[OF False] Let_def c1_def[symmetric] by (rule refl)
  show ?thesis
  proof (cases "first_none (ca_entries (tick c1))")
    case None
    then show ?thesis
      using pub c1 assms(2) by (simp add: drop_builder_inv)
  next
    case (Some slot)
    then show ?thesis
      using pub publish_slot_inv[of base "tick c1" f slot] c1 assms(2,3) new by simp
  qed
qed

lemma cache_new_inv: "cache_inv base (cache_new base limit heap)"
proof -
  have "entry_ids (replicate n None) = []" for n
    by (induction n) simp_all
  then show ?thesis
    by (simp add: cache_inv_def cache_new_def charges_def live_def)
qed

lemma cache_step_inv: "cache_step valid c d \<Longrightarrow> cache_inv base c \<Longrightarrow> cache_inv base d"
  by (induction rule: cache_step.induct)
    (auto intro: cache_get_inv cache_publish_inv drop_builder_inv drop_reader_inv dest: cache_reserve_inv)

lemma cache_reachable_inv:
  "cache_reachable valid start c \<Longrightarrow> cache_inv base start \<Longrightarrow> cache_inv base c"
  by (induction rule: cache_reachable.induct) (auto intro: cache_step_inv)

section \<open>Facts stay valid\<close>

definition facts_satisfy :: "(index_fact \<Rightarrow> bool) \<Rightarrow> cache \<Rightarrow> bool" where
  "facts_satisfy valid c \<longleftrightarrow> (\<forall>i\<in>live c. valid (ca_heap c i))"

lemma facts_satisfy_mono:
  "facts_satisfy valid c \<Longrightarrow> live d \<subseteq> live c \<Longrightarrow> ca_heap d = ca_heap c \<Longrightarrow> facts_satisfy valid d"
  by (auto simp: facts_satisfy_def)

lemma drop_builder_simps [simp]:
  "live (drop_builder c n) = live c" "ca_heap (drop_builder c n) = ca_heap c"
  by (simp_all add: drop_builder_def live_def)

lemma drop_reader_simps [simp]:
  "live (drop_reader c i) \<subseteq> live c" "ca_heap (drop_reader c i) = ca_heap c"
  using set_remove1_subset[of i "ca_readers c"] by (auto simp: drop_reader_def live_def)

lemma cache_get_live:
  assumes "cache_inv base c" "cache_get c domain digest n = (d, r)"
  shows "live d = live c"
  using cache_get_inv(4,5)[OF assms] cache_get_inv(6)[OF assms] by (auto simp: live_def split: option.splits)

lemma publish_slot_facts:
  assumes "facts_satisfy valid c" "valid f"
  shows "facts_satisfy valid (c\<lparr>ca_heap := (ca_heap c)(ca_next c := f), ca_next := Suc (ca_next c),
      ca_entries := (ca_entries c)[slot := Some (ca_next c, now)],
      ca_builders := remove1 (ix_charge f) (ca_builders c)\<rparr>)"
proof -
  have "set (entry_ids (es[k := Some (j, now)])) \<subseteq> insert j (set (entry_ids es))" for es k j
    by (auto simp: entry_ids_def map_filter_def dest!: set_update_subset_insert[THEN subsetD])
  then show ?thesis
    using assms by (fastforce simp: facts_satisfy_def live_def)
qed

lemma cache_publish_facts:
  assumes "cache_inv base c" "facts_satisfy valid c" "valid f"
  shows "facts_satisfy valid (cache_publish c f)"
proof (cases "list_ex (\<lambda>i. ix_matches (ca_heap c i) (ix_domain f) (ix_digest f) (ix_size f)) (entry_ids (ca_entries c))")
  case True
  then show ?thesis
    using assms(2) by (simp add: cache_publish_def facts_satisfy_def)
next
  case False
  define c1 where "c1 = (if list_all (\<lambda>e. e \<noteq> None) (ca_entries c)
      then (case evict_oldest c of None \<Rightarrow> c | Some c' \<Rightarrow> c') else c)"
  have "c1 = c \<or> evict_oldest c = Some c1"
    by (auto simp: c1_def split: option.splits)
  then have "live c1 \<subseteq> live c" "ca_heap c1 = ca_heap c"
    using evict_oldest_inv(2,4,8)[OF assms(1), of c1] by (auto simp: live_def)
  with assms(2) have "facts_satisfy valid (tick c1)"
    by (auto simp: facts_satisfy_def)
  moreover have "cache_publish c f = (case first_none (ca_entries (tick c1)) of
        None \<Rightarrow> drop_builder (tick c1) (ix_charge f)
      | Some slot \<Rightarrow> (tick c1)\<lparr>ca_heap := (ca_heap (tick c1))(ca_next (tick c1) := f),
          ca_next := Suc (ca_next (tick c1)),
          ca_entries := (ca_entries (tick c1))[slot := Some (ca_next (tick c1), ca_clock (tick c1))],
          ca_builders := remove1 (ix_charge f) (ca_builders (tick c1))\<rparr>)"
    unfolding cache_publish_def if_not_P[OF False] Let_def c1_def[symmetric] by (rule refl)
  ultimately show ?thesis
    using publish_slot_facts[of valid "tick c1" f] assms(3)
    by (cases "first_none (ca_entries (tick c1))") (simp_all add: facts_satisfy_def)
qed

lemma cache_step_facts:
  assumes "cache_step valid c d" "cache_inv base c" "facts_satisfy valid c"
  shows "facts_satisfy valid d"
  using assms
proof (induction rule: cache_step.induct)
  case (get c domain digest n c' r)
  then show ?case
    using cache_get_live[OF get(2,1)] cache_get_inv(3)[OF get(2,1)] by (auto intro: facts_satisfy_mono)
next
  case (reserve c n c' r)
  then show ?case
    using cache_reserve_inv[OF reserve(2,1)] by (auto simp: live_def facts_satisfy_def)
next
  case (publish f c)
  then show ?case by (blast intro: cache_publish_facts)
qed (auto simp: facts_satisfy_def dest: subsetD[OF drop_reader_simps(1)])

lemma cache_reachable_facts:
  "cache_reachable valid (cache_new base limit heap) c \<Longrightarrow> facts_satisfy valid c"
proof (induction rule: cache_reachable.induct)
  case init
  have "entry_ids (replicate n None) = []" for n
    by (induction n) simp_all
  then show ?case by (simp add: facts_satisfy_def live_def cache_new_def)
next
  case (step c c')
  then show ?case
    by (blast intro: cache_step_facts cache_reachable_inv cache_new_inv)
qed

section \<open>Eviction order\<close>

lemma min_by_used_least:
  "min_by_used xs = Some x \<Longrightarrow> y \<in> set xs \<Longrightarrow> snd (snd x) \<le> snd (snd y)"
proof (induction xs arbitrary: x y)
  case (Cons z zs)
  show ?case
  proof (cases "min_by_used zs")
    case None
    then have "zs = []" by (cases zs) (auto split: option.splits if_splits)
    with Cons.prems show ?thesis by simp
  next
    case (Some w)
    with Cons.IH[OF Some] Cons.prems show ?thesis
      by (fastforce split: if_splits)
  qed
qed simp

lemma occupied_iff: "(s, j, u) \<in> set (occupied es) \<longleftrightarrow> s < length es \<and> es ! s = Some (j, u)"
proof
  show "s < length es \<and> es ! s = Some (j, u)" if "(s, j, u) \<in> set (occupied es)"
    using that by (auto simp: occupied_def map_filter_def in_set_enumerate_eq)
  show "(s, j, u) \<in> set (occupied es)" if "s < length es \<and> es ! s = Some (j, u)"
    using that unfolding occupied_def map_filter_def
    by (auto simp: in_set_enumerate_eq intro!: image_eqI[where x = "(s, Some (j, u))"])
qed

lemma evict_oldest_least:
  assumes "evict_oldest c = Some d"
  shows "\<exists>slot i used. slot < length (ca_entries c) \<and> ca_entries c ! slot = Some (i, used)
    \<and> ca_entries d = (ca_entries c)[slot := None]
    \<and> (\<forall>s j u. s < length (ca_entries c) \<longrightarrow> ca_entries c ! s = Some (j, u) \<longrightarrow> used \<le> u)"
proof -
  obtain slot i used where e: "slot < length (ca_entries c)" "ca_entries c ! slot = Some (i, used)"
    "d = arc_drop (c\<lparr>ca_entries := (ca_entries c)[slot := None]\<rparr>) i"
    "min_by_used (occupied (ca_entries c)) = Some (slot, i, used)"
    using assms by (rule evict_oldest_entries)
  have "used \<le> u" if "s < length (ca_entries c)" "ca_entries c ! s = Some (j, u)" for s j u
  proof -
    have "(s, j, u) \<in> set (occupied (ca_entries c))"
      using that by (simp add: occupied_iff)
    from min_by_used_least[OF e(4) this] show ?thesis by simp
  qed
  then show ?thesis using e by auto
qed

section \<open>Reading through the cache\<close>

text \<open>What the \<^verbatim>\<open>hex\<close> crate promises: decoding inverts encoding, and the lower-case text
  that decodes to some bytes is the encoding of them.\<close>

definition hex_codec :: "cas_env \<Rightarrow> bool" where
  "hex_codec env \<longleftrightarrow>
    (\<forall>b. env_hex_decode env (env_hex_encode env b) = Some b)
    \<and> (\<forall>s b. list_all is_lower_hex s \<longrightarrow> env_hex_decode env s = Some b \<longrightarrow> env_hex_encode env b = s)"

text \<open>A body has a fixed identity, and a fact was derived from such a body.\<close>

definition has_identity :: "cas_env \<Rightarrow> bytes \<Rightarrow> string \<Rightarrow> nat \<Rightarrow> bool" where
  "has_identity env body digest n \<longleftrightarrow>
    length body = n \<and> ''sha256:'' @ env_hex_encode env (env_sha256 env body) = digest"

definition fact_valid :: "cas_env \<Rightarrow> index_fact \<Rightarrow> bool" where
  "fact_valid env f \<longleftrightarrow>
    (\<exists>body. length body = ix_size f \<and> env_sha256 env body = ix_digest f
       \<and> ix_chunks f = map (env_sha256 env) (chunks_of CHUNK_SIZE body))"

lemma fixed_digest_of_Some:
  assumes "hex_codec env" "fixed_digest_of env digest = Some b"
  shows "digest = ''sha256:'' @ env_hex_encode env b"
proof -
  obtain hex where h: "digest = ''sha256:'' @ hex" "list_all is_lower_hex hex" "env_hex_decode env hex = Some b"
    using assms(2) by (auto simp: fixed_digest_of_def strip_prefix_Some_iff Option.bind_eq_Some_conv split: if_splits)
  then show ?thesis
    using assms(1) unfolding hex_codec_def by blast
qed

lemma hex_encode_inject:
  "hex_codec env \<Longrightarrow> env_hex_encode env a = env_hex_encode env b \<Longrightarrow> a = b"
  unfolding hex_codec_def by (metis option.inject)

context range_sink
begin

lemma scan_Inr:
  assumes "scan env ops scratch input digest n offset end s chunks m = Inr (t, cs, m')"
    and "n < u64_MAX" "chunks = None \<or> chunks = Some []"
  shows "\<exists>body. has_identity env body digest n \<and> contents t = contents s @ window offset end body
    \<and> cs = map_option (\<lambda>_. map (env_sha256 env) (chunks_of CHUNK_SIZE body)) chunks"
proof -
  have "scan_body (env_sha256 env) (env_hex_encode env) ops scratch (of_reads input) digest n offset end s chunks m
      = Inr (t, cs, m')"
    using assms(1) by (auto simp: scan_def result_simps)
  from scan_body_Inr[OF this assms(2,3)] show ?thesis
    unfolding has_identity_def by blast
qed

lemma scan_with_scratch_Inr:
  assumes "scan_with_scratch env ops scratch input digest n offset end s chunks m = Inr (t, cs, m')"
    and "n < u64_MAX" "chunks = None \<or> chunks = Some []"
  shows "\<exists>body. has_identity env body digest n \<and> contents t = contents s @ window offset end body
    \<and> cs = map_option (\<lambda>_. map (env_sha256 env) (chunks_of CHUNK_SIZE body)) chunks"
  using assms scan_Inr
  by (cases scratch) (simp_all add: scan_with_scratch_def scan_legacy_def)

text \<open>What every successful read delivers.\<close>

definition delivers :: "cas_env \<Rightarrow> os_file \<Rightarrow> string \<Rightarrow> nat \<Rightarrow> nat \<Rightarrow> nat \<Rightarrow> 's \<Rightarrow> ('s \<times> 'm) result \<Rightarrow> bool" where
  "delivers env input digest n offset end s r \<longleftrightarrow>
    (\<forall>t m. r = Inr (t, m) \<longrightarrow> (\<exists>body. has_identity env body digest n
       \<and> (contents t = contents s @ window offset end body
          \<or> (\<exists>i. colliding_chunk (env_sha256 env) (of_seek input) body i))))"

lemma strict_scan_delivers:
  assumes "n < u64_MAX"
  shows "delivers env input digest n offset end s (strict_scan env ops scratch input digest n offset end s m)"
  using scan_with_scratch_Inr[OF _ assms, of env scratch input digest offset "end" s None]
  unfolding delivers_def strict_scan_def
  by (fastforce simp: map_sum_eq_Inr)

lemma read_chunks_with_scratch_delivers:
  assumes "fact_valid env ix" "ix_size ix = n" "offset < end \<Longrightarrow> end \<le> n"
    and "''sha256:'' @ env_hex_encode env (ix_digest ix) = digest"
  shows "delivers env input digest n offset end s
    (read_chunks_with_scratch env ops scratch input ix offset end s m)"
  unfolding delivers_def
proof (intro allI impI)
  fix t m'
  assume "read_chunks_with_scratch env ops scratch input ix offset end s m = Inr (t, m')"
  then obtain len where r: "read_chunks (env_sha256 env) ops (of_seek input) (of_metadata input) len ix offset end s m
      = Inr (t, m')"
    by (auto simp: read_chunks_with_scratch_def result_simps split: option.splits if_splits)
  obtain body where b: "length body = ix_size ix" "env_sha256 env body = ix_digest ix"
      "ix_chunks ix = map (env_sha256 env) (chunks_of CHUNK_SIZE body)"
    using assms(1) unfolding fact_valid_def by blast
  have "contents t = contents s @ window offset end body
      \<or> (\<exists>i. colliding_chunk (env_sha256 env) (of_seek input) body i)"
    using read_chunks_Inr[OF r b(3)] b(1) assms(2,3) by simp
  moreover have "has_identity env body digest n"
    using b assms(2,4) by (simp add: has_identity_def)
  ultimately show "\<exists>body. has_identity env body digest n
       \<and> (contents t = contents s @ window offset end body
          \<or> (\<exists>i. colliding_chunk (env_sha256 env) (of_seek input) body i))" by blast
qed

end

text \<open>The fact a successful building scan publishes is valid.\<close>

lemma built_fact_valid:
  assumes "hex_codec env" "fixed_digest_of env digest = Some d" "has_identity env body digest n"
  shows "fact_valid env \<lparr>ix_domain = domain, ix_digest = d, ix_size = n, ix_format = INDEX_FORMAT,
    ix_chunks = map (env_sha256 env) (chunks_of CHUNK_SIZE body), ix_charge = charge\<rparr>"
proof -
  have "env_hex_encode env (env_sha256 env body) = env_hex_encode env d"
    using fixed_digest_of_Some[OF assms(1,2)] assms(3) by (simp add: has_identity_def)
  then have "env_sha256 env body = d"
    using hex_encode_inject[OF assms(1)] by blast
  then show ?thesis
    using assms(3) by (auto simp: fact_valid_def has_identity_def)
qed


context range_sink
begin

lemma build_and_read_sound:
  assumes c: "cache_reachable (fact_valid env) start c" and hex: "hex_codec env" and n: "n < u64_MAX"
    and inv: "cache_inv base c" and d: "fixed_digest_of env digest = Some d"
    and run: "build_and_read env ops c input domain d digest n offset end s scratch m = (c', r)"
  shows "cache_reachable (fact_valid env) start c' \<and> delivers env input digest n offset end s r"
proof -
  define charge where "charge = index_charge env (div_ceil n CHUNK_SIZE) domain"
  obtain c1 ok where res: "cache_reserve c charge = (c1, ok)" by fastforce
  have c1: "cache_reachable (fact_valid env) start c1"
    using c cache_step.reserve[OF res] by (rule cache_reachable.step)
  have b: "charge \<in> set (ca_builders c1)" if ok
    using that cache_reserve_inv[OF inv res] by simp
  have dropped: "cache_reachable (fact_valid env) start (drop_builder c1 charge)" if ok
    using c1 cache_step.abandon[OF b[OF that]] by (rule cache_reachable.step)
  note strict = strict_scan_delivers[OF n, of env input digest offset "end" s scratch m]
  have failed: "delivers env input digest n offset end s (Inl e)" for e
    by (simp add: delivers_def)
  note eqs = run[unfolded build_and_read_def Let_def charge_def[symmetric] res]
  show ?thesis
  proof (cases ok)
    case False
    with eqs c1 strict show ?thesis by auto
  next
    case True
    note dropped = dropped[OF True] and b = b[OF True]
    show ?thesis
    proof (cases "scan_with_scratch env ops scratch input digest n offset end s (Some []) m")
      case (Inl e)
      have "c' = drop_builder c1 charge \<and> (r = strict_scan env ops scratch input digest n offset end s m \<or> r = Inl e)"
        using eqs True by (simp add: Inl split: option.split_asm if_split_asm)
      with dropped strict failed[of e] show ?thesis by metis
    next
      case (Inr x)
      obtain t cs m1 where x: "x = (t, cs, m1)" by (cases x)
      note scan = Inr[unfolded x]
      from scan_with_scratch_Inr[OF scan n] obtain body where
        body: "has_identity env body digest n" "contents t = contents s @ window offset end body"
          "cs = Some (map (env_sha256 env) (chunks_of CHUNK_SIZE body))" by auto
      have del: "delivers env input digest n offset end s (Inr (t, m2))" for m2 :: local_cas_range_meters
        using body unfolding delivers_def by blast
      have pub: "cache_reachable (fact_valid env) start (cache_publish c1
          \<lparr>ix_domain = domain, ix_digest = d, ix_size = n, ix_format = INDEX_FORMAT,
           ix_chunks = map (env_sha256 env) (chunks_of CHUNK_SIZE body), ix_charge = charge\<rparr>)"
        using b built_fact_valid[OF hex d body(1)]
        by (intro cache_reachable.step[OF c1] cache_step.publish) simp_all
      show ?thesis
        using eqs True del pub failed dropped strict unfolding scan body(3)
        by (auto split: option.splits if_splits)
    qed
  qed
qed

lemma read_input_sound:
  assumes c: "cache_reachable (fact_valid env) (cache_new base limit heap) c" and hex: "hex_codec env"
    and n: "n < u64_MAX" and fits: "offset < end \<Longrightarrow> end \<le> n"
    and run: "read_input_with_cache env ops c input domain digest n offset end s scratch m = (c', r)"
  shows "cache_reachable (fact_valid env) (cache_new base limit heap) c' \<and> delivers env input digest n offset end s r"
proof -
  note inv = cache_reachable_inv[OF c cache_new_inv]
  note strict = strict_scan_delivers[OF n, of env input digest offset "end" s scratch m]
  note eqs = run[unfolded read_input_with_cache_def]
  show ?thesis
  proof (cases "\<exists>dom d. env_canonicalize env domain = Some dom \<and> fixed_digest_of env digest = Some d
      \<and> \<not> MAX_DIGEST_BYTES div 32 < div_ceil n CHUNK_SIZE")
    case False
    with eqs c strict show ?thesis
      by (auto split: option.splits if_splits)
  next
    case True
    then obtain dom d where eq: "env_canonicalize env domain = Some dom" "fixed_digest_of env digest = Some d"
      "\<not> MAX_DIGEST_BYTES div 32 < div_ceil n CHUNK_SIZE" by blast
    obtain c1 g where get: "cache_get c dom d n = (c1, g)" by fastforce
    have c1: "cache_reachable (fact_valid env) (cache_new base limit heap) c1"
      using c cache_step.get[OF get] by (rule cache_reachable.step)
    note ginv = cache_get_inv[OF inv get]
    note eqs = eqs[unfolded eq get option.case prod.case if_not_P[OF eq(3)]]
    show ?thesis
    proof (cases g)
      case None
      show ?thesis
        using build_and_read_sound[OF c1 hex n ginv(1) eq(2)] eqs[unfolded None option.case] by blast
    next
      case (Some i)
      have i: "i \<in> set (ca_readers c1)" "i \<in> live c1" "ix_matches (ca_heap c1 i) dom d n"
        using ginv(3,5,6) Some by (simp_all add: live_def)
      have "fact_valid env (ca_heap c1 i)"
        using cache_reachable_facts[OF c1] i(2) by (simp add: facts_satisfy_def)
      moreover have "''sha256:'' @ env_hex_encode env (ix_digest (ca_heap c1 i)) = digest"
        using fixed_digest_of_Some[OF hex eq(2)] i(3) by (simp add: ix_matches_def)
      moreover have "ix_size (ca_heap c1 i) = n"
        using i(3) by (simp add: ix_matches_def)
      ultimately have "delivers env input digest n offset end s
          (read_chunks_with_scratch env ops scratch input (ca_heap c1 i) offset end s m1)" for m1
        using fits by (intro read_chunks_with_scratch_delivers) simp_all
      moreover have "cache_reachable (fact_valid env) (cache_new base limit heap) (drop_reader c1 i)"
        using c1 cache_step.finish[OF i(1)] by (rule cache_reachable.step)
      ultimately show ?thesis
        using eqs[unfolded Some option.case] by auto
    qed
  qed
qed

end

section \<open>When a reservation succeeds\<close>

lemma cache_reserve_limit: "cache_reserve c n = (d, r) \<Longrightarrow> ca_limit d = ca_limit c"
proof (induction c n rule: cache_reserve.induct)
  case (1 c n)
  show ?case
  proof (cases "budget_reserve c n")
    case None
    then show ?thesis
      using 1(1)[OF None] 1(2)[unfolded cache_reserve.simps[of c n]]
      by (auto elim!: evict_oldest_entries split: option.splits)
  next
    case (Some c')
    then show ?thesis
      using 1(2) by (auto simp: cache_reserve.simps budget_reserve_def split: option.splits if_splits)
  qed
qed

lemma cache_reachable_limit: "cache_reachable valid start c \<Longrightarrow> ca_limit c = ca_limit start"
proof (induction rule: cache_reachable.induct)
  case (step c c')
  from step(2) have "ca_limit c' = ca_limit c"
  proof cases
    case (reserve n r)
    then show ?thesis by (rule cache_reserve_limit)
  qed (auto simp: cache_get_def cache_publish_def drop_builder_def drop_reader_def Let_def
      elim!: evict_oldest_entries split: option.splits if_splits)
  with step(3) show ?case by simp
qed simp

text \<open>What a sequence of evictions cannot release.\<close>

definition pinned :: "nat \<Rightarrow> cache \<Rightarrow> nat" where
  "pinned base c = base + (\<Sum>i\<in>set (ca_readers c). ix_charge (ca_heap c i)) + sum_list (ca_builders c)"

lemma pinned_le_owned: "cache_inv base c \<Longrightarrow> pinned base c \<le> ca_owned c"
  unfolding cache_inv_def pinned_def charges_def
  by (auto simp: live_def intro: sum_mono2)

lemma evict_oldest_None: "evict_oldest c = None \<Longrightarrow> entry_ids (ca_entries c) = []"
proof -
  have "min_by_used xs = None \<longleftrightarrow> xs = []" for xs
    by (cases xs) (auto split: option.splits if_splits)
  moreover have "es ! s \<noteq> Some (j, u)" if "occupied es = []" "s < length es" for es s j u
    using that occupied_iff[of s j u es] by auto
  ultimately show "evict_oldest c = None \<Longrightarrow> entry_ids (ca_entries c) = []"
    by (auto simp: evict_oldest_def entry_ids_def map_filter_def filter_empty_conv in_set_conv_nth
        split: option.splits)
qed

lemma cache_reserve_iff:
  "cache_inv base c \<Longrightarrow> ca_limit c \<le> u64_MAX \<Longrightarrow>
    snd (cache_reserve c n) \<longleftrightarrow> pinned base c + n \<le> ca_limit c"
proof (induction c n rule: cache_reserve.induct)
  case (1 c n)
  show ?case
  proof (cases "ca_owned c + n \<le> ca_limit c")
    case True
    then show ?thesis
      using pinned_le_owned[OF 1(2)] 1(3) by (simp add: cache_reserve.simps budget_reserve_def checked_add_def)
  next
    case False
    then have none: "budget_reserve c n = None"
      by (simp add: budget_reserve_def checked_add_def)
    show ?thesis
    proof (cases "evict_oldest c")
      case None
      have "pinned base c = ca_owned c"
        using 1(2) evict_oldest_None[OF None] by (simp add: pinned_def cache_inv_def charges_def live_def)
      with False none None show ?thesis by (simp add: cache_reserve.simps)
    next
      case (Some d)
      note ev = evict_oldest_inv[OF 1(2) Some]
      have "pinned base d = pinned base c"
        by (simp add: pinned_def ev)
      moreover have "snd (cache_reserve d n) \<longleftrightarrow> pinned base d + n \<le> ca_limit d"
        using 1(1)[OF none Some ev(1)] 1(3) ev(6) by simp
      moreover have "cache_reserve c n = cache_reserve d n"
        using none Some by (subst cache_reserve.simps) simp
      ultimately show ?thesis using ev(6) by simp
    qed
  qed
qed

lemma map_prod_id_eq: "map_prod id g p = (a, b) \<longleftrightarrow> (\<exists>y. p = (a, y) \<and> g y = b)"
  by (cases p) auto

section \<open>Properties\<close>

text \<open>C25: Whatever its users do concurrently, the index cache charges its budget with exactly the
  facts that a slot or a reader still holds and the builders at work, never exceeds its limit, keeps
  128 slots and never holds two facts for the same object.\<close>

theorem index_cache_accounting:
  assumes "cache_reachable valid (cache_new base limit heap) c" "base \<le> limit"
  shows "ca_owned c = base + (\<Sum>i\<in>set (entry_ids (ca_entries c)) \<union> set (ca_readers c). ix_charge (ca_heap c i))
      + sum_list (ca_builders c)
    \<and> ca_owned c \<le> limit
    \<and> length (ca_entries c) = CACHE_ENTRIES
    \<and> distinct (map (\<lambda>i. (ix_domain (ca_heap c i), ix_digest (ca_heap c i), ix_size (ca_heap c i)))
        (entry_ids (ca_entries c)))"
proof -
  note inv = cache_reachable_inv[OF assms(1) cache_new_inv]
  have "ca_limit c = limit"
    using cache_reachable_limit[OF assms(1)] by (simp add: cache_new_def)
  with inv assms(2) show ?thesis
    by (simp add: cache_inv_def charges_def live_def ix_key_def max_absorb2)
qed

definition demo_fact :: "nat \<Rightarrow> index_fact" where
  "demo_fact n = \<lparr>ix_domain = ''/cas'', ix_digest = [], ix_size = n, ix_format = 1, ix_chunks = [], ix_charge = 600\<rparr>"

definition demo_start :: cache where
  "demo_start = cache_new 100 1000 (\<lambda>_. demo_fact 0)"

definition demo_cache :: cache where
  "demo_cache = cache_publish (fst (cache_reserve demo_start 600)) (demo_fact 7)"

lemma demo_cache_reachable: "cache_reachable (\<lambda>_. True) demo_start demo_cache"
proof -
  have "cache_step (\<lambda>_. True) demo_start (fst (cache_reserve demo_start 600))"
    by (rule cache_step.reserve) (rule prod.collapse[symmetric])
  moreover have "600 \<in> set (ca_builders (fst (cache_reserve demo_start 600)))"
    by code_simp
  then have "cache_step (\<lambda>_. True) (fst (cache_reserve demo_start 600)) demo_cache"
    unfolding demo_cache_def by (intro cache_step.publish) (simp_all add: demo_fact_def INDEX_FORMAT_def)
  ultimately show ?thesis
    by (blast intro: cache_reachable.intros)
qed

theorem index_cache_accounting_witness:
  "ca_owned demo_cache \<le> 1000 \<and> length (ca_entries demo_cache) = 128 \<and> ca_owned demo_cache = 700"
proof -
  have "ca_owned demo_cache \<le> 1000 \<and> length (ca_entries demo_cache) = CACHE_ENTRIES"
    using index_cache_accounting[OF demo_cache_reachable[unfolded demo_start_def]] by simp
  moreover have "ca_owned demo_cache = 700"
    by code_simp
  ultimately show ?thesis
    by (simp add: CACHE_ENTRIES_def)
qed



text \<open>C6: A read through the cache, from any state that concurrent reads of this kind can have left
  it in, returns bytes of a body with the fixed size and digest, precisely the requested range of
  it, whether the index was hit, built or bypassed; the only escape is a chunk of the file that
  differs from the verified chunk and has the same SHA-256.  The read leaves the cache in such a
  state again: only facts of fully verified bodies are ever published.\<close>

theorem cached_read_sound:
  assumes "cache_reachable (fact_valid env) (cache_new base limit heap) c" "hex_codec env"
    and "n < u64_MAX" "offset \<le> u64_MAX"
    and "read_with_cache env io_guard (Opened input) c domain digest n offset len m = (c', Inr (Some bs, m'))"
  shows "cache_reachable (fact_valid env) (cache_new base limit heap) c'
    \<and> (\<exists>body. length body = n \<and> ''sha256:'' @ env_hex_encode env (env_sha256 env body) = digest
         \<and> (bs = slice offset (min (n - offset) len) body
            \<or> (\<exists>i. colliding_chunk (env_sha256 env) (of_seek input) body i)))"
proof -
  obtain s stop t where out: "range_output (env_alloc env) n offset len = Inr (s, stop)"
    and run: "read_input_with_cache env vec_ops c input domain digest n offset stop s None m = (c', Inr (t, m'))"
    and bs: "bs = vs_bytes t"
    using assms(5) by (auto simp: read_with_cache_def cas_open_def rbind_def map_sum_eq_Inr map_prod_id_eq
        split: sum.splits option.splits if_splits prod.splits)
  define want where "want = min (n - offset) len"
  have s: "vs_bytes s = []" and stop: "stop = saturating_add offset want"
    using out by (auto simp: range_output_def Let_def result_simps want_def split: if_splits)
  have fits: "stop \<le> n" if "offset < stop"
    using that assms(3) by (auto simp: stop saturating_add_def want_def)
  have "stop - offset = want"
    using assms(3,4) by (auto simp: stop saturating_add_def want_def min_def)
  then show ?thesis
    using vec.read_input_sound[OF assms(1-3) fits run] s
    by (auto simp: vec.delivers_def has_identity_def window_slice bs want_def)
qed

definition demo_env :: cas_env where
  "demo_env = \<lparr>env_sha256 = (\<lambda>b. take 32 (b @ replicate 32 0)), env_hex_encode = hex32,
     env_hex_decode = (\<lambda>s. if even (length s) then Some (hex_pairs s) else None),
     env_canonicalize = Some, env_path_capacity = length, env_alloc = Some\<rparr>"

definition demo_input :: os_file where
  "demo_input = \<lparr>of_opened = Inr (True, 5), of_reads = [Data [1, 2, 3], Interrupted, Data [4, 5]],
     of_seek = (\<lambda>_. Inr [Data [1, 2, 3, 4], Data [5]]), of_metadata = Inr (True, 5)\<rparr>"

definition demo_read :: "cache \<Rightarrow> cache \<times> (bytes option \<times> local_cas_range_meters) result" where
  "demo_read c = read_with_cache demo_env (Inr ()) (Opened demo_input) c ''/cas''
     (''sha256:'' @ hex32 ([1, 2, 3, 4, 5] @ replicate 27 0)) 5 1 3 meters_default"

definition demo_empty :: cache where
  "demo_empty = cache_new 100 100000 (\<lambda>_. demo_fact 0)"

lemma demo_codec: "hex_codec demo_env"
  by (auto simp: hex_codec_def demo_env_def hex32_hex_pairs split: if_splits)

lemma demo_reads:
  "map_sum id (\<lambda>(bs, m). (bs, index_built m)) (snd (demo_read demo_empty)) = Inr (Some [2, 3, 4], True)"
  "map_sum id (\<lambda>(bs, m). (bs, index_hit m)) (snd (demo_read (fst (demo_read demo_empty)))) = Inr (Some [2, 3, 4], True)"
  by code_simp+

theorem cached_read_sound_witness:
  "\<exists>c. cache_reachable (fact_valid demo_env) demo_empty c
     \<and> map_sum id (\<lambda>(bs, m). (bs, index_hit m)) (snd (demo_read c)) = Inr (Some [2, 3, 4], True)"
proof -
  obtain m where "demo_read demo_empty = (fst (demo_read demo_empty), Inr (Some [2, 3, 4], m))"
    using demo_reads(1) by (auto simp: map_sum_eq_Inr prod_eq_iff)
  from cached_read_sound[OF cache_reachable.init demo_codec _ _ this[unfolded demo_read_def demo_empty_def]]
  have "cache_reachable (fact_valid demo_env) demo_empty (fst (demo_read demo_empty))"
    by (simp add: u64_MAX_def demo_read_def demo_empty_def)
  with demo_reads(2) show ?thesis by blast
qed

end
