(* ===== verification/Mutation_Fence.thy ===== *)
theory Mutation_Fence
  imports Admission
begin

text \<open>
  The mutation fence (\<^verbatim>\<open>util/mutation_fence.rs\<close>): native mutations hold a read lock and a permit of
  a bounded lane while they run, a scan of the upper layer or a teardown holds the write lock, the
  locked flag says that the mount is sealed, and a latch records that the outcome of some mutation is
  unknown.  An asynchronous operation is cut at its suspension points, so that the step relation
  covers every interleaving and every cancellation.  \<^verbatim>\<open>tokio::sync::RwLock\<close> is an argument like the
  semaphore: \<^verbatim>\<open>rwlock_laws\<close> states its documented exclusion, and leaves it free to make a reader
  wait behind a queued writer.
\<close>

section \<open>The lock\<close>

record 'l rwlock_ops =
  rw_new :: "bool \<Rightarrow> 'l"
  rw_value :: "'l \<Rightarrow> bool"
  rw_readers :: "'l \<Rightarrow> nat"
  rw_writer :: "'l \<Rightarrow> bool"
  rw_try_read :: "'l \<Rightarrow> 'l option"
  rw_try_write :: "'l \<Rightarrow> 'l option"
  rw_drop_read :: "'l \<Rightarrow> 'l"
  rw_drop_write :: "'l \<Rightarrow> 'l"
  rw_store :: "'l \<Rightarrow> bool \<Rightarrow> 'l"

definition rw_view :: "'l rwlock_ops \<Rightarrow> 'l \<Rightarrow> bool \<times> nat \<times> bool" where
  "rw_view R l = (rw_value R l, rw_readers R l, rw_writer R l)"

definition rwlock_laws :: "'l rwlock_ops \<Rightarrow> bool" where
  "rwlock_laws R \<longleftrightarrow>
    (\<forall>b. rw_view R (rw_new R b) = (b, 0, False))
    \<and> (\<forall>l l'. rw_try_read R l = Some l' \<longrightarrow>
         \<not> rw_writer R l \<and> rw_view R l' = (rw_value R l, Suc (rw_readers R l), False))
    \<and> (\<forall>l l'. rw_try_write R l = Some l' \<longrightarrow>
         rw_readers R l = 0 \<and> \<not> rw_writer R l \<and> rw_view R l' = (rw_value R l, 0, True))
    \<and> (\<forall>l. rw_readers R l = 0 \<longrightarrow> \<not> rw_writer R l \<longrightarrow> rw_try_write R l \<noteq> None)
    \<and> (\<forall>l. rw_view R (rw_drop_read R l) = (rw_value R l, rw_readers R l - 1, rw_writer R l))
    \<and> (\<forall>l. rw_view R (rw_drop_write R l) = (rw_value R l, rw_readers R l, False))
    \<and> (\<forall>l b. rw_view R (rw_store R l b) = (b, rw_readers R l, rw_writer R l))"

definition counting_rwlock :: "(bool \<times> nat \<times> bool) rwlock_ops" where
  "counting_rwlock =
    \<lparr>rw_new = (\<lambda>b. (b, 0, False)), rw_value = fst, rw_readers = (\<lambda>l. fst (snd l)),
     rw_writer = (\<lambda>l. snd (snd l)),
     rw_try_read = (\<lambda>(b, n, w). if w then None else Some (b, Suc n, False)),
     rw_try_write = (\<lambda>(b, n, w). if w \<or> n \<noteq> 0 then None else Some (b, 0, True)),
     rw_drop_read = (\<lambda>(b, n, w). (b, n - 1, w)), rw_drop_write = (\<lambda>(b, n, w). (b, n, False)),
     rw_store = (\<lambda>(_, n, w) b. (b, n, w))\<rparr>"

lemma counting_rwlock_laws: "rwlock_laws counting_rwlock"
  by (auto simp: rwlock_laws_def rw_view_def counting_rwlock_def split: if_splits)

section \<open>The fence\<close>

datatype io_fault = EIO | EAGAIN | EBUSY | Other string

datatype 'a poll = Pending | Ready "io_fault + 'a"

text \<open>
  The lock, the latch and the two lanes are the fields of the struct.  The futures that hold a permit
  and wait for the lock, the admitted mutations and the pause are listed too, a mutation by its
  cleanup flag.
\<close>

record ('s, 'l) fence =
  mf_sealed :: 'l
  mf_uncertain :: bool
  mf_capacity :: 's
  mf_cleanup_capacity :: 's
  mf_queued :: "bool list"
  mf_admitted :: "bool list"
  mf_paused :: bool

definition MutationFence_new :: "'s semaphore_ops \<Rightarrow> 'l rwlock_ops \<Rightarrow> nat \<Rightarrow> ('s, 'l) fence option" where
  "MutationFence_new S R max_in_flight =
    (if 0 < max_in_flight
     then Some \<lparr>mf_sealed = rw_new R False, mf_uncertain = False, mf_capacity = sem_new S max_in_flight,
            mf_cleanup_capacity = sem_new S max_in_flight, mf_queued = [], mf_admitted = [],
            mf_paused = False\<rparr>
     else None)"

text \<open>\<^verbatim>\<open>admit\<close> up to the read lock: a cleanup waits for its lane, other mutations fail at once.\<close>

definition admit_capacity ::
  "'s semaphore_ops \<Rightarrow> ('s, 'l) fence \<Rightarrow> bool \<Rightarrow> ('s, 'l) fence \<times> unit poll" where
  "admit_capacity S f cleanup =
    (if cleanup
     then (case try_acquire_many S (mf_cleanup_capacity f) 1 of
             None \<Rightarrow> (f, Pending)
           | Some c \<Rightarrow> (f\<lparr>mf_cleanup_capacity := c, mf_queued := mf_queued f @ [True]\<rparr>, Ready (Inr ())))
     else (case try_acquire_many S (mf_capacity f) 1 of
             None \<Rightarrow> (f, Ready (Inl EAGAIN))
           | Some c \<Rightarrow> (f\<lparr>mf_capacity := c, mf_queued := mf_queued f @ [False]\<rparr>, Ready (Inr ()))))"

definition release_capacity :: "'s semaphore_ops \<Rightarrow> ('s, 'l) fence \<Rightarrow> bool \<Rightarrow> ('s, 'l) fence" where
  "release_capacity S f cleanup =
    (if cleanup then f\<lparr>mf_cleanup_capacity := add_permits S (mf_cleanup_capacity f) 1\<rparr>
     else f\<lparr>mf_capacity := add_permits S (mf_capacity f) 1\<rparr>)"

text \<open>\<^verbatim>\<open>admit\<close> from the read lock on, for the queued future at a position.\<close>

definition admit_lock ::
  "'s semaphore_ops \<Rightarrow> 'l rwlock_ops \<Rightarrow> ('s, 'l) fence \<Rightarrow> nat \<Rightarrow> ('s, 'l) fence \<times> unit poll" where
  "admit_lock S R f i =
    (if i < length (mf_queued f)
     then let cleanup = mf_queued f ! i in
       case rw_try_read R (mf_sealed f) of
         None \<Rightarrow> (f, Pending)
       | Some sealed \<Rightarrow>
           if rw_value R sealed \<and> \<not> cleanup
           then (release_capacity S
                   (f\<lparr>mf_sealed := rw_drop_read R sealed, mf_queued := drop_nth i (mf_queued f)\<rparr>) cleanup,
                 Ready (Inl EBUSY))
           else (f\<lparr>mf_sealed := sealed, mf_queued := drop_nth i (mf_queued f),
                   mf_admitted := mf_admitted f @ [cleanup]\<rparr>, Ready (Inr ()))
     else (f, Pending))"

text \<open>A caller drops the future of \<^verbatim>\<open>admit\<close> before it is ready.\<close>

definition admit_cancel :: "'s semaphore_ops \<Rightarrow> ('s, 'l) fence \<Rightarrow> nat \<Rightarrow> ('s, 'l) fence" where
  "admit_cancel S f i =
    (if i < length (mf_queued f)
     then release_capacity S (f\<lparr>mf_queued := drop_nth i (mf_queued f)\<rparr>) (mf_queued f ! i)
     else f)"

text \<open>The end of an admitted mutation, with \<^verbatim>\<open>complete\<close> or without it.\<close>

definition drop_admitted ::
  "'s semaphore_ops \<Rightarrow> 'l rwlock_ops \<Rightarrow> ('s, 'l) fence \<Rightarrow> nat \<Rightarrow> bool \<Rightarrow> ('s, 'l) fence" where
  "drop_admitted S R f i completed =
    (if i < length (mf_admitted f)
     then release_capacity S
       (f\<lparr>mf_uncertain := mf_uncertain f \<or> \<not> completed, mf_sealed := rw_drop_read R (mf_sealed f),
          mf_admitted := drop_nth i (mf_admitted f)\<rparr>) (mf_admitted f ! i)
     else f)"

definition fence_pause :: "'l rwlock_ops \<Rightarrow> ('s, 'l) fence \<Rightarrow> ('s, 'l) fence \<times> unit poll" where
  "fence_pause R f =
    (case rw_try_write R (mf_sealed f) of
       None \<Rightarrow> (f, Pending)
     | Some sealed \<Rightarrow>
         if mf_uncertain f
         then (f\<lparr>mf_sealed := rw_drop_write R sealed\<rparr>,
               Ready (Inl (Other ''native mutation or handle cleanup has an unknown outcome'')))
         else (f\<lparr>mf_sealed := sealed, mf_paused := True\<rparr>, Ready (Inr ())))"

definition ensure_certain :: "('s, 'l) fence \<Rightarrow> io_fault + unit" where
  "ensure_certain f =
    (if mf_uncertain f then Inl (Other ''handle cleanup became unknown during the mutation pause'')
     else Inr ())"

definition pause_seal :: "'l rwlock_ops \<Rightarrow> ('s, 'l) fence \<Rightarrow> ('s, 'l) fence \<times> (io_fault + unit)" where
  "pause_seal R f =
    (case ensure_certain f of
       Inl e \<Rightarrow> (f, Inl e)
     | Inr _ \<Rightarrow> (f\<lparr>mf_sealed := rw_store R (mf_sealed f) True\<rparr>, Inr ()))"

definition drop_pause :: "'l rwlock_ops \<Rightarrow> ('s, 'l) fence \<Rightarrow> ('s, 'l) fence" where
  "drop_pause R f = f\<lparr>mf_sealed := rw_drop_write R (mf_sealed f), mf_paused := False\<rparr>"

definition fence_seal :: "'l rwlock_ops \<Rightarrow> ('s, 'l) fence \<Rightarrow> ('s, 'l) fence \<times> unit poll" where
  "fence_seal R f =
    (case fence_pause R f of
       (f, Ready (Inr _)) \<Rightarrow> (case pause_seal R f of (f, r) \<Rightarrow> (drop_pause R f, Ready r))
     | (f, p) \<Rightarrow> (f, p))"

definition is_uncertain :: "('s, 'l) fence \<Rightarrow> bool" where
  "is_uncertain f = mf_uncertain f"

definition mark_uncertain :: "('s, 'l) fence \<Rightarrow> ('s, 'l) fence" where
  "mark_uncertain f = f\<lparr>mf_uncertain := True\<rparr>"

inductive fence_step ::
  "'s semaphore_ops \<Rightarrow> 'l rwlock_ops \<Rightarrow> ('s, 'l) fence \<Rightarrow> ('s, 'l) fence \<Rightarrow> bool" for S R where
  capacity: "admit_capacity S f cleanup = (f', p) \<Longrightarrow> fence_step S R f f'"
| lock: "admit_lock S R f i = (f', p) \<Longrightarrow> fence_step S R f f'"
| cancel: "fence_step S R f (admit_cancel S f i)"
| finish: "fence_step S R f (drop_admitted S R f i completed)"
| pause: "fence_pause R f = (f', p) \<Longrightarrow> fence_step S R f f'"
| seal_pause: "mf_paused f \<Longrightarrow> pause_seal R f = (f', r) \<Longrightarrow> fence_step S R f f'"
| resume: "mf_paused f \<Longrightarrow> fence_step S R f (drop_pause R f)"
| seal: "fence_seal R f = (f', p) \<Longrightarrow> fence_step S R f f'"
| mark: "fence_step S R f (mark_uncertain f)"

inductive fence_reachable ::
  "'s semaphore_ops \<Rightarrow> 'l rwlock_ops \<Rightarrow> ('s, 'l) fence \<Rightarrow> ('s, 'l) fence \<Rightarrow> bool" for S R start where
  init: "fence_reachable S R start start"
| step: "fence_reachable S R start f \<Longrightarrow> fence_step S R f f' \<Longrightarrow> fence_reachable S R start f'"

section \<open>The invariant\<close>

lemma rwlock_lawsD:
  assumes "rwlock_laws R"
  shows "rw_value R (rw_new R b) = b" "rw_readers R (rw_new R b) = 0" "\<not> rw_writer R (rw_new R b)"
    "rw_try_read R l = Some l' \<Longrightarrow> \<not> rw_writer R l \<and> rw_value R l' = rw_value R l
       \<and> rw_readers R l' = Suc (rw_readers R l) \<and> \<not> rw_writer R l'"
    "rw_try_write R l = Some l' \<Longrightarrow> rw_readers R l = 0 \<and> \<not> rw_writer R l \<and> rw_value R l' = rw_value R l
       \<and> rw_readers R l' = 0 \<and> rw_writer R l'"
    "rw_readers R l = 0 \<Longrightarrow> \<not> rw_writer R l \<Longrightarrow> rw_try_write R l \<noteq> None"
    "rw_value R (rw_drop_read R l) = rw_value R l" "rw_readers R (rw_drop_read R l) = rw_readers R l - 1"
    "rw_writer R (rw_drop_read R l) = rw_writer R l"
    "rw_value R (rw_drop_write R l) = rw_value R l" "rw_readers R (rw_drop_write R l) = rw_readers R l"
    "\<not> rw_writer R (rw_drop_write R l)"
    "rw_value R (rw_store R l b) = b" "rw_readers R (rw_store R l b) = rw_readers R l"
    "rw_writer R (rw_store R l b) = rw_writer R l"
proof -
qed (use assms in \<open>simp_all add: rwlock_laws_def rw_view_def\<close>)

text \<open>The number of mutations of one lane that hold a permit.\<close>

definition in_lane :: "bool \<Rightarrow> ('s, 'l) fence \<Rightarrow> nat" where
  "in_lane cleanup f = count_list (mf_queued f) cleanup + count_list (mf_admitted f) cleanup"

definition fence_inv :: "'s semaphore_ops \<Rightarrow> 'l rwlock_ops \<Rightarrow> nat \<Rightarrow> ('s, 'l) fence \<Rightarrow> bool" where
  "fence_inv S R cap f \<longleftrightarrow>
    rw_readers R (mf_sealed f) = length (mf_admitted f)
    \<and> rw_writer R (mf_sealed f) = mf_paused f
    \<and> (mf_paused f \<longrightarrow> mf_admitted f = [])
    \<and> (rw_value R (mf_sealed f) \<longrightarrow> False \<notin> set (mf_admitted f))
    \<and> available_permits S (mf_capacity f) + in_lane False f = cap
    \<and> available_permits S (mf_cleanup_capacity f) + in_lane True f = cap"

lemma set_drop_nth: "set (drop_nth i xs) \<subseteq> set xs"
  by (auto simp: drop_nth_def dest: in_set_takeD in_set_dropD)

lemma count_list_drop_nth:
  assumes "i < length xs"
  shows "count_list xs x = count_list (drop_nth i xs) x + (if xs ! i = x then 1 else 0)"
proof -
  have "count_list xs x = count_list (take i xs @ xs ! i # drop (Suc i) xs) x"
    using id_take_nth_drop[OF assms] by simp
  then show ?thesis by (simp add: drop_nth_def)
qed

lemma length_drop_nth: "i < length xs \<Longrightarrow> length (drop_nth i xs) = length xs - 1"
  by (simp add: drop_nth_def)

lemma release_capacity_simps [simp]:
  "mf_sealed (release_capacity S f b) = mf_sealed f" "mf_uncertain (release_capacity S f b) = mf_uncertain f"
  "mf_queued (release_capacity S f b) = mf_queued f" "mf_admitted (release_capacity S f b) = mf_admitted f"
  "mf_paused (release_capacity S f b) = mf_paused f"
  by (simp_all add: release_capacity_def)

lemma in_lane_simps [simp]:
  "in_lane b (f\<lparr>mf_sealed := l\<rparr>) = in_lane b f" "in_lane b (f\<lparr>mf_uncertain := u\<rparr>) = in_lane b f"
  "in_lane b (f\<lparr>mf_capacity := c\<rparr>) = in_lane b f" "in_lane b (f\<lparr>mf_cleanup_capacity := c\<rparr>) = in_lane b f"
  "in_lane b (f\<lparr>mf_paused := p\<rparr>) = in_lane b f"
  by (simp_all add: in_lane_def)

lemma release_capacity_inv:
  assumes S: "semaphore_laws S"
    and "rw_readers R (mf_sealed f) = length (mf_admitted f)" "rw_writer R (mf_sealed f) = mf_paused f"
    and "mf_paused f \<longrightarrow> mf_admitted f = []" "rw_value R (mf_sealed f) \<longrightarrow> False \<notin> set (mf_admitted f)"
    and "available_permits S (mf_capacity f) + in_lane False f + (if cleanup then 0 else 1) = cap"
    and "available_permits S (mf_cleanup_capacity f) + in_lane True f + (if cleanup then 1 else 0) = cap"
  shows "fence_inv S R cap (release_capacity S f cleanup)"
  using assms(2-) by (cases cleanup) (simp_all add: fence_inv_def release_capacity_def semaphore_lawsD(5)[OF S])

lemma admit_capacity_inv:
  assumes S: "semaphore_laws S" and inv: "fence_inv S R cap f" and a: "admit_capacity S f cleanup = (f', p)"
  shows "fence_inv S R cap f'"
proof (cases cleanup)
  case True
  then show ?thesis
    using inv a semaphore_lawsD(3,4)[OF S, of "mf_cleanup_capacity f" 1]
    by (auto simp: admit_capacity_def fence_inv_def in_lane_def split: option.splits)
next
  case False
  then show ?thesis
    using inv a semaphore_lawsD(3,4)[OF S, of "mf_capacity f" 1]
    by (auto simp: admit_capacity_def fence_inv_def in_lane_def split: option.splits)
qed

lemma admit_cancel_inv:
  assumes S: "semaphore_laws S" and inv: "fence_inv S R cap f"
  shows "fence_inv S R cap (admit_cancel S f i)"
proof (cases "i < length (mf_queued f)")
  case True
  note count = count_list_drop_nth[OF True, of True] count_list_drop_nth[OF True, of False]
  have "fence_inv S R cap (release_capacity S (f\<lparr>mf_queued := drop_nth i (mf_queued f)\<rparr>) (mf_queued f ! i))"
    by (intro release_capacity_inv[OF S])
      (use inv count in \<open>cases "mf_queued f ! i"; simp add: fence_inv_def in_lane_def\<close>)+
  with True show ?thesis by (simp add: admit_cancel_def)
qed (simp add: admit_cancel_def inv)

lemma admit_lock_inv:
  assumes S: "semaphore_laws S" and R: "rwlock_laws R" and inv: "fence_inv S R cap f"
    and a: "admit_lock S R f i = (f', p)"
  shows "fence_inv S R cap f'"
proof (cases "i < length (mf_queued f) \<and> rw_try_read R (mf_sealed f) \<noteq> None")
  case True
  then obtain l where i: "i < length (mf_queued f)" and l: "rw_try_read R (mf_sealed f) = Some l" by auto
  note count = count_list_drop_nth[OF i, of True] count_list_drop_nth[OF i, of False]
  note lock = rwlock_lawsD(4)[OF R l]
  show ?thesis
  proof (cases "rw_value R l \<and> \<not> mf_queued f ! i")
    case True
    then have "f' = release_capacity S
        (f\<lparr>mf_sealed := rw_drop_read R l, mf_queued := drop_nth i (mf_queued f)\<rparr>) False"
      using a i l by (auto simp: admit_lock_def Let_def)
    moreover have "fence_inv S R cap (release_capacity S
        (f\<lparr>mf_sealed := rw_drop_read R l, mf_queued := drop_nth i (mf_queued f)\<rparr>) False)"
      by (intro release_capacity_inv[OF S])
        (use inv count lock True in \<open>auto simp: fence_inv_def in_lane_def rwlock_lawsD(7-9)[OF R]\<close>)
    ultimately show ?thesis by simp
  next
    case False
    then have f': "f' = f\<lparr>mf_sealed := l, mf_queued := drop_nth i (mf_queued f),
        mf_admitted := mf_admitted f @ [mf_queued f ! i]\<rparr>"
      using a i l by (auto simp: admit_lock_def Let_def)
    show ?thesis
      using inv count lock False
      by (cases "mf_queued f ! i") (simp_all add: f' fence_inv_def in_lane_def)
  qed
qed (use inv a in \<open>auto simp: admit_lock_def Let_def split: if_splits\<close>)

lemma drop_admitted_inv:
  assumes S: "semaphore_laws S" and R: "rwlock_laws R" and inv: "fence_inv S R cap f"
  shows "fence_inv S R cap (drop_admitted S R f i completed)"
proof (cases "i < length (mf_admitted f)")
  case True
  note count = count_list_drop_nth[OF True, of True] count_list_drop_nth[OF True, of False]
  define g where "g = f\<lparr>mf_uncertain := mf_uncertain f \<or> \<not> completed,
      mf_sealed := rw_drop_read R (mf_sealed f), mf_admitted := drop_nth i (mf_admitted f)\<rparr>"
  have "mf_admitted f \<noteq> []" using True by auto
  then have "rw_readers R (mf_sealed g) = length (mf_admitted g)" "rw_writer R (mf_sealed g) = mf_paused g"
      "mf_paused g \<longrightarrow> mf_admitted g = []" "rw_value R (mf_sealed g) = rw_value R (mf_sealed f)"
    using inv by (simp_all add: g_def fence_inv_def rwlock_lawsD(7-9)[OF R] length_drop_nth[OF True])
  moreover have "rw_value R (mf_sealed f) \<longrightarrow> False \<notin> set (mf_admitted g)"
    using inv set_drop_nth[of i "mf_admitted f"] by (auto simp: g_def fence_inv_def)
  moreover have "available_permits S (mf_capacity g) + in_lane False g + (if mf_admitted f ! i then 0 else 1) = cap"
      "available_permits S (mf_cleanup_capacity g) + in_lane True g + (if mf_admitted f ! i then 1 else 0) = cap"
    using inv count by (cases "mf_admitted f ! i"; simp add: g_def fence_inv_def in_lane_def)+
  ultimately have "fence_inv S R cap (release_capacity S g (mf_admitted f ! i))"
    by (intro release_capacity_inv[OF S]) simp_all
  then show ?thesis
    using True by (simp add: drop_admitted_def g_def)
qed (simp add: drop_admitted_def inv)

lemma fence_pause_inv:
  assumes R: "rwlock_laws R" and inv: "fence_inv S R cap f" and a: "fence_pause R f = (f', p)"
  shows "fence_inv S R cap f'" "p = Ready (Inr ()) \<Longrightarrow> mf_paused f'"
proof -
  have "fence_inv S R cap f' \<and> (p = Ready (Inr ()) \<longrightarrow> mf_paused f')"
  proof (cases "rw_try_write R (mf_sealed f)")
    case None
    with inv a show ?thesis by (auto simp: fence_pause_def)
  next
    case (Some l)
    note lock = rwlock_lawsD(5)[OF R Some]
    show ?thesis
    proof (cases "mf_uncertain f")
      case True
      then have "f' = f\<lparr>mf_sealed := rw_drop_write R l\<rparr>" "p \<noteq> Ready (Inr ())"
        using a Some by (auto simp: fence_pause_def)
      then show ?thesis
        using inv lock by (simp add: fence_inv_def rwlock_lawsD(10-12)[OF R])
    next
      case False
      then have "f' = f\<lparr>mf_sealed := l, mf_paused := True\<rparr>"
        using a Some by (auto simp: fence_pause_def)
      then show ?thesis
        using inv lock by (simp add: fence_inv_def)
    qed
  qed
  then show "fence_inv S R cap f'" "p = Ready (Inr ()) \<Longrightarrow> mf_paused f'" by simp_all
qed

lemma pause_seal_inv:
  assumes R: "rwlock_laws R" and inv: "fence_inv S R cap f" and a: "pause_seal R f = (f', r)" and "mf_paused f"
  shows "fence_inv S R cap f'" "mf_paused f'"
  using inv a assms(4)
  by (auto simp: pause_seal_def ensure_certain_def fence_inv_def rwlock_lawsD(13-15)[OF R] split: if_splits)

lemma drop_pause_inv:
  assumes R: "rwlock_laws R" and inv: "fence_inv S R cap f"
  shows "fence_inv S R cap (drop_pause R f)"
  using inv by (simp add: drop_pause_def fence_inv_def rwlock_lawsD(10-12)[OF R])

lemma fence_seal_inv:
  assumes R: "rwlock_laws R" and inv: "fence_inv S R cap f" and a: "fence_seal R f = (f', p)"
  shows "fence_inv S R cap f'"
proof -
  obtain g q where g: "fence_pause R f = (g, q)" by fastforce
  note inv' = fence_pause_inv[OF R inv g]
  show ?thesis
  proof (cases "q = Ready (Inr ())")
    case True
    obtain h r where h: "pause_seal R g = (h, r)" by fastforce
    then have "f' = drop_pause R h"
      using a g True by (simp add: fence_seal_def)
    then show ?thesis
      using pause_seal_inv[OF R inv'(1) h] inv'(2)[OF True] drop_pause_inv[OF R] by blast
  next
    case False
    then have "f' = g"
      using a g by (auto simp: fence_seal_def split: poll.splits sum.splits)
    with inv' show ?thesis by simp
  qed
qed

lemma fence_step_inv:
  assumes "semaphore_laws S" "rwlock_laws R" "fence_step S R f f'" "fence_inv S R cap f"
  shows "fence_inv S R cap f'"
  using assms(3,4)
proof (cases rule: fence_step.cases)
  case mark
  then show ?thesis
    using assms(4) by (simp add: mark_uncertain_def fence_inv_def)
qed (use assms in \<open>blast intro: admit_capacity_inv admit_lock_inv admit_cancel_inv drop_admitted_inv
    fence_pause_inv(1) pause_seal_inv(1) drop_pause_inv fence_seal_inv\<close>)+

lemma fence_reachable_inv:
  assumes "semaphore_laws S" "rwlock_laws R" "fence_reachable S R start f" "fence_inv S R cap start"
  shows "fence_inv S R cap f"
  using assms(3,4) by (induction rule: fence_reachable.induct) (auto intro: fence_step_inv[OF assms(1,2)])

lemma MutationFence_new_inv:
  assumes "semaphore_laws S" "rwlock_laws R" "MutationFence_new S R cap = Some f"
  shows "fence_inv S R cap f"
  using assms by (auto simp: MutationFence_new_def fence_inv_def in_lane_def rwlock_lawsD(1-3)
      semaphore_lawsD(1) split: if_splits)

section \<open>The latch\<close>

lemma fence_pause_uncertain:
  "mf_uncertain f \<Longrightarrow> fence_pause R f = (f', p) \<Longrightarrow> p \<noteq> Ready (Inr ())"
  by (auto simp: fence_pause_def split: option.splits)

lemma fence_pause_keeps:
  assumes "rwlock_laws R" "fence_pause R f = (f', p)"
  shows "mf_uncertain f' = mf_uncertain f" "rw_value R (mf_sealed f') = rw_value R (mf_sealed f)"
  using assms by (auto simp: fence_pause_def rwlock_lawsD dest: rwlock_lawsD(5) split: option.splits if_splits)

lemma pause_seal_keeps:
  "pause_seal R f = (f', r) \<Longrightarrow> mf_uncertain f' = mf_uncertain f"
  "mf_uncertain f \<Longrightarrow> pause_seal R f = (f', r) \<Longrightarrow> f' = f"
  by (auto simp: pause_seal_def ensure_certain_def split: if_splits)

text \<open>The latch is never cleared, the seal is never broken, and nothing is sealed under the latch.\<close>

lemma fence_step_latch:
  assumes R: "rwlock_laws R" and "fence_step S R f f'"
  shows "(mf_uncertain f \<longrightarrow> mf_uncertain f' \<and> rw_value R (mf_sealed f') = rw_value R (mf_sealed f))
    \<and> (rw_value R (mf_sealed f) \<longrightarrow> rw_value R (mf_sealed f'))"
  using assms(2)
proof (cases rule: fence_step.cases)
  case (seal p)
  obtain g q where g: "fence_pause R f = (g, q)" by fastforce
  note keep = fence_pause_keeps[OF R g]
  obtain h r where h: "pause_seal R g = (h, r)" by fastforce
  have "f' = (if q = Ready (Inr ()) then drop_pause R h else g)"
    using seal g h by (auto simp: fence_seal_def split: poll.splits sum.splits)
  then show ?thesis
    using keep h fence_pause_uncertain[OF _ g]
    by (auto simp: drop_pause_def pause_seal_def ensure_certain_def rwlock_lawsD[OF R] split: if_splits)
next
  case (seal_pause r)
  then show ?thesis
    by (auto simp: pause_seal_def ensure_certain_def rwlock_lawsD[OF R] split: if_splits)
next
  case (pause p)
  then show ?thesis using fence_pause_keeps[OF R pause] by simp
next
  case (lock i p)
  then show ?thesis
    by (auto simp: admit_lock_def Let_def rwlock_lawsD(7)[OF R] dest!: rwlock_lawsD(4)[OF R]
        split: if_splits option.splits)
next
  case (capacity cleanup p)
  then show ?thesis by (auto simp: admit_capacity_def split: option.splits if_splits)
qed (simp_all add: admit_cancel_def drop_admitted_def drop_pause_def mark_uncertain_def rwlock_lawsD[OF R])

lemma fence_reachable_latch:
  assumes R: "rwlock_laws R" and "fence_reachable S R f f'"
  shows "(mf_uncertain f \<longrightarrow> mf_uncertain f' \<and> rw_value R (mf_sealed f') = rw_value R (mf_sealed f))
    \<and> (rw_value R (mf_sealed f) \<longrightarrow> rw_value R (mf_sealed f'))"
  using assms(2) by (induction rule: fence_reachable.induct) (use fence_step_latch[OF R] in blast)+

section \<open>Properties\<close>

text \<open>C10: While a pause is held no admitted mutation is running, after the mount is sealed only
  handle cleanups are ever running, and in each lane the queued and running mutations together never
  exceed the configured number; all of this under every interleaving of admissions, cancellations,
  completions, pauses and seals.\<close>

theorem mutation_fence_exclusion:
  assumes "semaphore_laws S" "rwlock_laws R" "MutationFence_new S R n = Some start"
    and "fence_reachable S R start f"
  shows "(mf_paused f \<longrightarrow> mf_admitted f = [])
    \<and> (rw_value R (mf_sealed f) \<longrightarrow> (\<forall>cleanup\<in>set (mf_admitted f). cleanup))
    \<and> count_list (mf_queued f) cleanup + count_list (mf_admitted f) cleanup \<le> n"
proof -
  have inv: "fence_inv S R n f"
    using fence_reachable_inv[OF assms(1,2,4) MutationFence_new_inv[OF assms(1-3)]] .
  then have "count_list (mf_queued f) cleanup + count_list (mf_admitted f) cleanup \<le> n"
    by (cases cleanup) (auto simp: fence_inv_def in_lane_def)
  with inv show ?thesis
    by (auto simp: fence_inv_def) (metis (full_types))
qed

definition demo_fence :: "(nat, bool \<times> nat \<times> bool) fence" where
  "demo_fence = the (MutationFence_new counting_semaphore counting_rwlock 1)"

definition demo_admitted :: "(nat, bool \<times> nat \<times> bool) fence" where
  "demo_admitted = fst (admit_lock counting_semaphore counting_rwlock
     (fst (admit_capacity counting_semaphore demo_fence False)) 0)"

lemma demo_admitted_reachable:
  "fence_reachable counting_semaphore counting_rwlock demo_fence demo_admitted"
proof -
  have "fence_step counting_semaphore counting_rwlock demo_fence (fst (admit_capacity counting_semaphore demo_fence False))"
    by (rule fence_step.capacity) (rule prod.collapse[symmetric])
  moreover have "fence_step counting_semaphore counting_rwlock
      (fst (admit_capacity counting_semaphore demo_fence False)) demo_admitted"
    unfolding demo_admitted_def by (rule fence_step.lock) (rule prod.collapse[symmetric])
  ultimately show ?thesis by (blast intro: fence_reachable.intros)
qed

lemma demo_fence_new: "MutationFence_new counting_semaphore counting_rwlock 1 = Some demo_fence"
  by (simp add: demo_fence_def MutationFence_new_def)

theorem mutation_fence_exclusion_witness:
  "mf_admitted demo_admitted = [False] \<and> \<not> mf_paused demo_admitted \<and> \<not> rw_value counting_rwlock (mf_sealed demo_admitted)"
proof -
  have "mf_admitted demo_admitted = [False]" by code_simp
  then show ?thesis
    using mutation_fence_exclusion[OF counting_semaphore_laws counting_rwlock_laws demo_fence_new
        demo_admitted_reachable]
    by auto
qed

text \<open>C16: A mutation that ends without reporting completion latches an unknown outcome that nothing
  clears: from then on no pause and no seal ever succeeds, and the sealed flag keeps its value.  A
  seal that did succeed stays, and it rejects every later mutation other than a cleanup.\<close>

theorem mutation_fence_latch:
  assumes "rwlock_laws R" "fence_reachable S R (drop_admitted S R f i completed) g" "i < length (mf_admitted f)"
  shows "(\<not> completed \<longrightarrow> is_uncertain g \<and> snd (fence_pause R g) \<noteq> Ready (Inr ())
      \<and> snd (fence_seal R g) \<noteq> Ready (Inr ()) \<and> rw_value R (mf_sealed g) = rw_value R (mf_sealed f))
    \<and> (rw_value R (mf_sealed f) \<longrightarrow> rw_value R (mf_sealed g)
      \<and> (j < length (mf_queued g) \<longrightarrow> \<not> mf_queued g ! j \<longrightarrow>
          snd (admit_lock S R g j) \<in> {Pending, Ready (Inl EBUSY)}))"
proof -
  note latch = fence_reachable_latch[OF assms(1,2)]
  have d: "rw_value R (mf_sealed (drop_admitted S R f i completed)) = rw_value R (mf_sealed f)"
      "\<not> completed \<Longrightarrow> mf_uncertain (drop_admitted S R f i completed)"
    using assms(3) by (simp_all add: drop_admitted_def rwlock_lawsD[OF assms(1)])
  have busy: "snd (admit_lock S R g j) \<in> {Pending, Ready (Inl EBUSY)}"
    if "rw_value R (mf_sealed g)" "j < length (mf_queued g)" "\<not> mf_queued g ! j"
    using that rwlock_lawsD(4)[OF assms(1), of "mf_sealed g"] by (auto simp: admit_lock_def Let_def split: option.splits)
  have "is_uncertain g \<and> snd (fence_pause R g) \<noteq> Ready (Inr ()) \<and> snd (fence_seal R g) \<noteq> Ready (Inr ())"
    if "mf_uncertain g"
    using that by (auto simp: is_uncertain_def fence_pause_def fence_seal_def split: option.splits)
  with latch d busy show ?thesis by blast
qed

theorem mutation_fence_latch_witness:
  "snd (fence_pause counting_rwlock (drop_admitted counting_semaphore counting_rwlock demo_admitted 0 False)) \<noteq> Ready (Inr ())
    \<and> snd (fence_pause counting_rwlock (drop_admitted counting_semaphore counting_rwlock demo_admitted 0 True)) = Ready (Inr ())"
proof -
  have "0 < length (mf_admitted demo_admitted)" by code_simp
  from mutation_fence_latch[OF counting_rwlock_laws fence_reachable.init this, where completed = False]
  have "snd (fence_pause counting_rwlock (drop_admitted counting_semaphore counting_rwlock demo_admitted 0 False)) \<noteq> Ready (Inr ())"
    by blast
  moreover have "snd (fence_pause counting_rwlock (drop_admitted counting_semaphore counting_rwlock demo_admitted 0 True)) = Ready (Inr ())"
    by code_simp
  ultimately show ?thesis by simp
qed

end
