(* ===== verification/Authority.thy ===== *)
theory Authority
  imports Paths
begin

text \<open>
  Read authority and the partitioning of local caches (\<^verbatim>\<open>snapshot/auth.rs\<close>): the identity check of
  a serving descriptor, the context that a resolve captures, the cache domain and directory names
  derived from it, and the record that binds a directory to one authority.  The codec crate, the
  URL, UUID and hex crates, SHA-256 and the JSON form of the record are arguments, collected in
  \<^verbatim>\<open>auth_env\<close>; \<^verbatim>\<open>hex_encoder\<close> and \<^verbatim>\<open>binding_codec\<close> state what their documentation promises.
\<close>

section \<open>Descriptors\<close>

record descriptor =
  schema_version :: nat
  metadata_codec :: nat
  instance_id :: string
  namespace_view_id :: string
  scope :: string
  materialization_policy :: nat
  fs_semantics :: nat
  access_projection :: nat
  metadata_root :: string
  snapshot_id :: string

record serving_descriptor =
  instance_uuid :: bytes
  sd_namespace_view_id :: bytes
  sd_scope :: string
  sd_metadata_root :: bytes

record parsed_url =
  url_scheme :: string
  url_host :: "string option"
  url_username :: string
  url_password :: "string option"
  url_query :: "string option"
  url_fragment :: "string option"
  url_path :: string

record cache_binding =
  revision :: nat
  cb_domain :: string
  cb_scope :: string
  cb_snapshot_id :: "string option"

record auth_env =
  SCHEMA_VERSION :: nat
  METADATA_CODEC :: nat
  MATERIALIZATION_POLICY_GIT_RAW_V1 :: nat
  FS_SEMANTICS_LINUX_CODE_V1 :: nat
  ACCESS_PROJECTION_EXACT_FULL :: nat
  ae_grammar :: scope_grammar
  ae_serving_snapshot_id :: "serving_descriptor \<Rightarrow> string + bytes"
  ae_uuid_parse :: "string \<Rightarrow> bytes option"
  ae_uuid_is_nil :: "bytes \<Rightarrow> bool"
  ae_uuid_text :: "bytes \<Rightarrow> string"
  ae_hex_encode :: "bytes \<Rightarrow> string"
  ae_hex_decode :: "string \<Rightarrow> bytes option"
  ae_sha256 :: "bytes \<Rightarrow> bytes"
  ae_url_parse :: "string \<Rightarrow> parsed_url option"
  ae_url_text :: "parsed_url \<Rightarrow> string"
  ae_to_json :: "cache_binding \<Rightarrow> string + bytes"
  ae_from_json :: "bytes \<Rightarrow> cache_binding option"

definition validate_descriptor :: "auth_env \<Rightarrow> descriptor \<Rightarrow> unit result" where
  "validate_descriptor env d =
    (if schema_version d \<noteq> SCHEMA_VERSION env
        \<or> metadata_codec d \<noteq> METADATA_CODEC env
        \<or> materialization_policy d \<noteq> MATERIALIZATION_POLICY_GIT_RAW_V1 env
        \<or> fs_semantics d \<noteq> FS_SEMANTICS_LINUX_CODE_V1 env
        \<or> access_projection d \<noteq> ACCESS_PROJECTION_EXACT_FULL env
     then Inl (SnapshotError_new IntegrityError ''unsupported serving descriptor profile'')
     else
       rbind (ok_or (ae_uuid_parse env (instance_id d))
                (SnapshotError_new IntegrityError ''invalid descriptor instance UUID'')) (\<lambda>inst.
       if ae_uuid_is_nil env inst \<or> ae_uuid_text env inst \<noteq> instance_id d
       then Inl (SnapshotError_new IntegrityError ''instance UUID must be non-nil and canonical'')
       else
         rbind (parse_digest (ae_hex_decode env) (namespace_view_id d)) (\<lambda>view.
         rbind (parse_digest (ae_hex_decode env) (metadata_root d)) (\<lambda>root.
         rbind (map_err (\<lambda>e. SnapshotError_new IntegrityError (''invalid serving descriptor: '' @ e))
                  (ae_serving_snapshot_id env
                     \<lparr>instance_uuid = inst, sd_namespace_view_id = view, sd_scope = scope d,
                      sd_metadata_root = root\<rparr>)) (\<lambda>snapshot.
         if snapshot_id d \<noteq> ''sha256:'' @ ae_hex_encode env snapshot
         then Inl (SnapshotError_new DigestMismatch ''snapshot_id does not match canonical descriptor'')
         else Inr ())))))"

section \<open>Contexts\<close>

text \<open>\<^verbatim>\<open>to_be_bytes\<close> of an unsigned integer of the given number of bytes.\<close>

fun be_bytes :: "nat \<Rightarrow> nat \<Rightarrow> bytes" where
  "be_bytes 0 n = []"
| "be_bytes (Suc k) n = be_bytes k (n div 256) @ [word_of_nat (n mod 256)]"

definition encode_fields :: "bytes list \<Rightarrow> bytes" where
  "encode_fields parts = concat (map (\<lambda>part. be_bytes 8 (length part) @ part) parts)"

definition hash_fields :: "auth_env \<Rightarrow> bytes \<Rightarrow> bytes list \<Rightarrow> string" where
  "hash_fields env domain parts = ae_hex_encode env (ae_sha256 env (domain @ encode_fields parts))"

definition CACHE_DOMAIN_TAG :: bytes where
  "CACHE_DOMAIN_TAG = as_bytes ''mega.scorpio.cache-domain.v1'' @ [0]"

definition SCOPE_TAG :: bytes where
  "SCOPE_TAG = as_bytes ''mega.scorpio.scope.v1'' @ [0]"

record authorized_context =
  ctx_descriptor :: descriptor
  ctx_authorization_epoch :: nat
  ctx_publication_sequence :: nat
  ctx_domain :: string

definition trim_end_slashes :: "string \<Rightarrow> string" where
  "trim_end_slashes s = rev (dropWhile (\<lambda>c. c = CHR ''/'') (rev s))"

definition domain_fields :: "string \<Rightarrow> string \<Rightarrow> nat \<Rightarrow> descriptor \<Rightarrow> bytes list" where
  "domain_fields url credential_partition epoch d =
    [as_bytes url, as_bytes (instance_id d), as_bytes credential_partition, be_bytes 8 epoch,
     be_bytes 2 (schema_version d), be_bytes 2 (metadata_codec d),
     be_bytes 2 (materialization_policy d), be_bytes 2 (fs_semantics d),
     be_bytes 2 (access_projection d)]"

definition deployment_url :: "auth_env \<Rightarrow> string \<Rightarrow> string result" where
  "deployment_url env deployment =
    rbind (ok_or (ae_url_parse env deployment)
             (SnapshotError_new ScopeInvalid ''invalid deployment URL'')) (\<lambda>url.
    if \<not> (url_scheme url = ''http'' \<or> url_scheme url = ''https'')
       \<or> url_host url = None \<or> url_username url \<noteq> [] \<or> url_password url \<noteq> None
       \<or> url_query url \<noteq> None \<or> url_fragment url \<noteq> None
    then Inl (SnapshotError_new ScopeInvalid
                ''deployment URL must be HTTP(S) without credentials, query or fragment'')
    else Inr (ae_url_text env (url\<lparr>url_path := trim_end_slashes (url_path url)\<rparr>)))"

definition AuthorizedSnapshotContext_new ::
  "auth_env \<Rightarrow> string \<Rightarrow> string \<Rightarrow> string \<Rightarrow> descriptor \<Rightarrow> string \<Rightarrow> string \<Rightarrow> authorized_context result" where
  "AuthorizedSnapshotContext_new env deployment credential_partition requested_scope d epoch sequence =
    rbind (validate_scope (ae_grammar env) requested_scope) (\<lambda>_.
    rbind (validate_scope (ae_grammar env) (scope d)) (\<lambda>_.
    if scope d \<noteq> requested_scope
    then Inl (SnapshotError_new ScopeForbidden ''resolve returned a different scope'')
    else
      rbind (validate_descriptor env d) (\<lambda>_.
      rbind (decimal epoch ''authorization_epoch'') (\<lambda>epoch.
      rbind (decimal sequence ''publication_sequence'') (\<lambda>sequence.
      rbind (deployment_url env deployment) (\<lambda>url.
      Inr \<lparr>ctx_descriptor = d, ctx_authorization_epoch = epoch, ctx_publication_sequence = sequence,
           ctx_domain = hash_fields env CACHE_DOMAIN_TAG
             (domain_fields url credential_partition epoch d)\<rparr>))))))"

text \<open>A path is the list of its components.\<close>

definition scope_cache_dir :: "auth_env \<Rightarrow> authorized_context \<Rightarrow> string list \<Rightarrow> string list" where
  "scope_cache_dir env ctx root =
    root @ [''snapshots'', ctx_domain ctx,
            hash_fields env SCOPE_TAG [as_bytes (scope (ctx_descriptor ctx))]]"

definition view_cache_dir :: "auth_env \<Rightarrow> authorized_context \<Rightarrow> string list \<Rightarrow> string list result" where
  "view_cache_dir env ctx root =
    rbind (parse_digest (ae_hex_decode env) (snapshot_id (ctx_descriptor ctx))) (\<lambda>digest.
    Inr (scope_cache_dir env ctx root @ [ae_hex_encode env digest]))"

section \<open>Binding a directory\<close>

definition AUTHORITY_FILE :: string where "AUTHORITY_FILE = ''authority.json''"
definition AUTHORITY_LOCK :: string where "AUTHORITY_LOCK = ''authority.lock''"
definition AUTHORITY_TMP :: string where "AUTHORITY_TMP = ''authority.json.tmp''"

definition auth_io_error :: "string \<Rightarrow> snapshot_error" where
  "auth_io_error e = SnapshotError_new Internal e"

datatype dir_node = PlainFile bytes | EmptyDir | PopulatedDir | OtherNode

type_synonym cache_dir = "(string \<times> dir_node) list"

definition dir_put :: "string \<Rightarrow> dir_node \<Rightarrow> cache_dir \<Rightarrow> cache_dir" where
  "dir_put name node d = (name, node) # filter (\<lambda>e. fst e \<noteq> name) d"

definition dir_remove :: "string \<Rightarrow> cache_dir \<Rightarrow> cache_dir" where
  "dir_remove name d = filter (\<lambda>e. fst e \<noteq> name) d"

text \<open>
  The outcomes of the system calls of one attempt, each an error text or success.  In a managed cache
  the write admission supplies an operation id that names the temporary file, and removes that file
  again.
\<close>

record bind_io =
  bi_guard :: "unit result"
  bi_create :: "string option"
  bi_lock :: "string option"
  bi_read :: "string option"
  bi_not_regular :: string
  bi_scan :: "string option"
  bi_admission :: "string option result"
  bi_open_temp :: "string option"
  bi_write :: "string option"
  bi_rename :: "string option"
  bi_sync_dir :: "string option"

definition temporary_name :: "string \<Rightarrow> string \<Rightarrow> string" where
  "temporary_name final operation_id = ''.'' @ final @ ''.tmp.'' @ operation_id"

definition legacy_entry :: "string \<times> dir_node \<Rightarrow> bool" where
  "legacy_entry e =
    (case e of (name, node) \<Rightarrow> name \<noteq> AUTHORITY_LOCK \<and> name \<noteq> AUTHORITY_TMP \<and> node \<noteq> EmptyDir)"

definition publish_authority ::
  "bind_io \<Rightarrow> cache_dir \<Rightarrow> bytes \<Rightarrow> cache_dir \<times> unit result" where
  "publish_authority io d bytes =
    (case bi_admission io of
       Inl e \<Rightarrow> (d, Inl e)
     | Inr managed \<Rightarrow>
         let temp = (case managed of Some op \<Rightarrow> temporary_name AUTHORITY_FILE op | None \<Rightarrow> AUTHORITY_TMP);
             leave = (\<lambda>d. case managed of Some _ \<Rightarrow> dir_remove temp d | None \<Rightarrow> d) in
         case bi_open_temp io of
           Some e \<Rightarrow> (leave d, Inl (auth_io_error e))
         | None \<Rightarrow>
           (case bi_write io of
              Some e \<Rightarrow> (leave (dir_put temp (PlainFile []) d), Inl (auth_io_error e))
            | None \<Rightarrow>
              (case bi_rename io of
                 Some e \<Rightarrow> (leave (dir_put temp (PlainFile bytes) d), Inl (auth_io_error e))
               | None \<Rightarrow>
                 (leave (dir_put AUTHORITY_FILE (PlainFile bytes) (dir_remove temp d)),
                  case bi_sync_dir io of Some e \<Rightarrow> Inl (auth_io_error e) | None \<Rightarrow> Inr ()))))"

definition bind_directory ::
  "auth_env \<Rightarrow> bind_io \<Rightarrow> cache_dir \<Rightarrow> cache_binding \<Rightarrow> cache_dir \<times> unit result" where
  "bind_directory env io d binding =
    (case bi_guard io of
       Inl e \<Rightarrow> (d, Inl e)
     | Inr _ \<Rightarrow>
       (case bi_create io of
          Some e \<Rightarrow> (d, Inl (auth_io_error e))
        | None \<Rightarrow>
          (case bi_lock io of
             Some e \<Rightarrow> (d, Inl (auth_io_error e))
           | None \<Rightarrow>
             let d = (if map_of d AUTHORITY_LOCK = None then dir_put AUTHORITY_LOCK (PlainFile []) d else d) in
             case bi_read io of
               Some e \<Rightarrow> (d, Inl (auth_io_error e))
             | None \<Rightarrow>
               (case map_of d AUTHORITY_FILE of
                  Some (PlainFile bytes) \<Rightarrow>
                    (d, rbind (ok_or (ae_from_json env bytes)
                                 (SnapshotError_new ScopeForbidden ''cache authority record is malformed'')) (\<lambda>stored.
                        if stored \<noteq> binding
                        then Inl (SnapshotError_new ScopeForbidden
                                    ''cache belongs to a different authority, scope or snapshot'')
                        else Inr ()))
                | Some _ \<Rightarrow> (d, Inl (auth_io_error (bi_not_regular io)))
                | None \<Rightarrow>
                  (case bi_scan io of
                     Some e \<Rightarrow> (d, Inl (auth_io_error e))
                   | None \<Rightarrow>
                     if list_ex legacy_entry d
                     then (d, Inl (SnapshotError_new ScopeForbidden
                                     ''populated legacy cache has no authority record''))
                     else (case ae_to_json env binding of
                             Inl e \<Rightarrow> (d, Inl (auth_io_error e))
                           | Inr bytes \<Rightarrow> publish_authority io d bytes))))))"

definition bind_cache ::
  "auth_env \<Rightarrow> authorized_context \<Rightarrow> string option \<Rightarrow> cache_binding" where
  "bind_cache env ctx snapshot =
    \<lparr>revision = 1, cb_domain = ctx_domain ctx, cb_scope = scope (ctx_descriptor ctx),
     cb_snapshot_id = snapshot\<rparr>"

definition bind_scope_cache ::
  "auth_env \<Rightarrow> authorized_context \<Rightarrow> bind_io \<Rightarrow> cache_dir \<Rightarrow> cache_dir \<times> unit result" where
  "bind_scope_cache env ctx io d = bind_directory env io d (bind_cache env ctx None)"

definition bind_view_cache ::
  "auth_env \<Rightarrow> authorized_context \<Rightarrow> bind_io \<Rightarrow> cache_dir \<Rightarrow> cache_dir \<times> unit result" where
  "bind_view_cache env ctx io d =
    bind_directory env io d (bind_cache env ctx (Some (snapshot_id (ctx_descriptor ctx))))"

section \<open>Managed scopes\<close>

definition retention_invalid :: snapshot_error where
  "retention_invalid = SnapshotError_new IntegrityError ''managed scope authority or location differs''"

text \<open>The record file as it is opened and read: its length by the metadata, and the bytes of a read
  that stops after 16 KiB and one byte.\<close>

record authority_read =
  ar_opened :: bool
  ar_len :: "nat option"
  ar_bytes :: "bytes option"

definition retention_binding :: "auth_env \<Rightarrow> authority_read \<Rightarrow> cache_binding result" where
  "retention_binding env r =
    (if \<not> ar_opened r then Inl retention_invalid
     else rbind (ok_or (ar_len r) retention_invalid) (\<lambda>len.
       if 16 * 1024 < len then Inl retention_invalid
       else rbind (ok_or (ar_bytes r) retention_invalid) (\<lambda>all.
         let bytes = take (16 * 1024 + 1) all in
         if 16 * 1024 < length bytes then Inl retention_invalid
         else ok_or (ae_from_json env bytes) retention_invalid)))"

definition file_name :: "string list \<Rightarrow> string option" where
  "file_name dir = (if dir = [] then None else Some (last dir))"

definition parent :: "string list \<Rightarrow> string list option" where
  "parent dir = (if dir = [] then None else Some (butlast dir))"

definition validate_retention_scope :: "auth_env \<Rightarrow> string list \<Rightarrow> authority_read \<Rightarrow> unit result" where
  "validate_retention_scope env dir r =
    rbind (retention_binding env r) (\<lambda>binding.
    rbind (validate_scope (ae_grammar env) (cb_scope binding)) (\<lambda>_.
    let scope_id = hash_fields env SCOPE_TAG [as_bytes (cb_scope binding)] in
    if revision binding \<noteq> 1 \<or> cb_snapshot_id binding \<noteq> None
       \<or> length (cb_domain binding) \<noteq> 64 \<or> \<not> list_all is_lower_hex (cb_domain binding)
       \<or> file_name dir \<noteq> Some scope_id
       \<or> Option.bind (parent dir) file_name \<noteq> Some (cb_domain binding)
    then Inl retention_invalid else Inr ()))"

datatype content_scope = ContentDirectory authority_read | ContentMissing | ContentOther

definition validate_retention_content_scope ::
  "auth_env \<Rightarrow> content_scope \<Rightarrow> authority_read \<Rightarrow> unit result" where
  "validate_retention_content_scope env content scope_read =
    (case content of
       ContentDirectory r \<Rightarrow>
         rbind (retention_binding env r) (\<lambda>a.
         rbind (retention_binding env scope_read) (\<lambda>b.
         if a \<noteq> b then Inl (SnapshotError_new IntegrityError ''managed content authority differs from scope'')
         else Inr ()))
     | ContentMissing \<Rightarrow> Inr ()
     | ContentOther \<Rightarrow>
         Inl (SnapshotError_new IntegrityError ''managed content scope is not a real directory''))"

section \<open>Hashed fields\<close>

definition hex_encoder :: "(bytes \<Rightarrow> string) \<Rightarrow> bool" where
  "hex_encoder h \<longleftrightarrow> (\<forall>a b. h a = h b \<longrightarrow> a = b)
    \<and> (\<forall>b. length (h b) = 2 * length b \<and> list_all is_lower_hex (h b))"

lemma hex_encoder_hex32: "hex_encoder hex32"
  using hex32_inject by (auto simp: hex_encoder_def hex32_lower)

lemma length_be_bytes [simp]: "length (be_bytes k n) = k"
  by (induction k arbitrary: n) simp_all

lemma be_bytes_inject: "n < 256 ^ k \<Longrightarrow> m < 256 ^ k \<Longrightarrow> be_bytes k n = be_bytes k m \<Longrightarrow> n = m"
proof (induction k arbitrary: n m)
  case (Suc k)
  have "n div 256 < 256 ^ k" "m div 256 < 256 ^ k"
    using Suc.prems(1,2) by (simp_all add: less_mult_imp_div_less mult.commute)
  moreover have be: "be_bytes k (n div 256) = be_bytes k (m div 256)"
    and "(word_of_nat (n mod 256) :: byte) = word_of_nat (m mod 256)"
    using Suc.prems(3) by simp_all
  then have "unat (word_of_nat (n mod 256) :: byte) = unat (word_of_nat (m mod 256) :: byte)"
    by simp
  then have "n mod 256 = m mod 256"
    by (simp add: unat_of_nat)
  ultimately show ?case
    using Suc.IH be by (metis div_mult_mod_eq)
qed simp

lemma encode_fields_inject:
  "length xs = length ys \<Longrightarrow> (\<And>x. x \<in> set xs \<union> set ys \<Longrightarrow> length x \<le> u64_MAX) \<Longrightarrow>
    encode_fields xs = encode_fields ys \<Longrightarrow> xs = ys"
proof (induction xs ys rule: list_induct2)
  case (Cons x xs y ys)
  have bound: "(256 :: nat) ^ 8 = Suc u64_MAX"
    by (simp add: u64_MAX_def)
  have eq: "be_bytes 8 (length x) @ x @ encode_fields xs = be_bytes 8 (length y) @ y @ encode_fields ys"
    using Cons.prems(2) by (simp add: encode_fields_def)
  then have "be_bytes 8 (length x) = be_bytes 8 (length y)" and rest: "x @ encode_fields xs = y @ encode_fields ys"
    by simp_all
  then have "length x = length y"
    using be_bytes_inject[of "length x" 8 "length y"] Cons.prems(1)[of x] Cons.prems(1)[of y] bound by simp
  with rest Cons show ?case by simp
qed simp

lemma as_bytes_inject: "as_bytes s = as_bytes t \<longleftrightarrow> s = t"
proof -
  have "c = d" if "(of_char c :: byte) = of_char d" for c d
  proof -
    have "word_of_nat (of_char x) = (of_char x :: byte)" for x
      by (cases x) (simp add: of_char_def)
    then have "(word_of_nat (of_char c) :: byte) = word_of_nat (of_char d)"
      using that by metis
    then have "unat (word_of_nat (of_char c) :: byte) = unat (word_of_nat (of_char d) :: byte)"
      by (rule arg_cong)
    then have "(of_char c :: nat) = of_char d"
      using of_char_less_256[of c] of_char_less_256[of d] by (simp add: unat_of_nat del: of_nat_of_char)
    then show ?thesis by simp
  qed
  then have "inj (of_char :: char \<Rightarrow> byte)"
    by (rule injI)
  then show ?thesis
    unfolding as_bytes_def by (simp add: inj_map_eq_map)
qed

lemma length_as_bytes [simp]: "length (as_bytes s) = length s"
  by (simp add: as_bytes_def)

section \<open>Descriptor identity\<close>

definition serving_of :: "auth_env \<Rightarrow> descriptor \<Rightarrow> serving_descriptor" where
  "serving_of env d =
    \<lparr>instance_uuid = the (ae_uuid_parse env (instance_id d)),
     sd_namespace_view_id = projr (parse_digest (ae_hex_decode env) (namespace_view_id d)),
     sd_scope = scope d,
     sd_metadata_root = projr (parse_digest (ae_hex_decode env) (metadata_root d))\<rparr>"

lemma validate_descriptor_Inr:
  assumes "validate_descriptor env d = Inr u"
  obtains inst view root sid where
    "schema_version d = SCHEMA_VERSION env" "metadata_codec d = METADATA_CODEC env"
    "materialization_policy d = MATERIALIZATION_POLICY_GIT_RAW_V1 env"
    "fs_semantics d = FS_SEMANTICS_LINUX_CODE_V1 env"
    "access_projection d = ACCESS_PROJECTION_EXACT_FULL env"
    "ae_uuid_parse env (instance_id d) = Some inst" "ae_uuid_text env inst = instance_id d"
    "parse_digest (ae_hex_decode env) (namespace_view_id d) = Inr view"
    "parse_digest (ae_hex_decode env) (metadata_root d) = Inr root"
    "serving_of env d = \<lparr>instance_uuid = inst, sd_namespace_view_id = view, sd_scope = scope d, sd_metadata_root = root\<rparr>"
    "ae_serving_snapshot_id env (serving_of env d) = Inr sid"
    "snapshot_id d = ''sha256:'' @ ae_hex_encode env sid"
  using assms unfolding validate_descriptor_def
  by (auto simp: result_simps serving_of_def split: if_splits)

lemma parse_digest_inject:
  assumes "hex_decoder h" "parse_digest h s = Inr b" "parse_digest h t = Inr b"
  shows "s = t"
  using assms by (simp add: parse_digest_Inr_iff)

lemma validate_descriptor_unique:
  assumes hd: "hex_decoder (ae_hex_decode env)"
    and a: "validate_descriptor env d = Inr u" and b: "validate_descriptor env e = Inr v"
    and sv: "serving_of env d = serving_of env e" and sid: "snapshot_id d = snapshot_id e"
  shows "d = e"
proof -
  from a obtain i1 v1 r1 where 1: "schema_version d = SCHEMA_VERSION env" "metadata_codec d = METADATA_CODEC env"
    "materialization_policy d = MATERIALIZATION_POLICY_GIT_RAW_V1 env"
    "fs_semantics d = FS_SEMANTICS_LINUX_CODE_V1 env"
    "access_projection d = ACCESS_PROJECTION_EXACT_FULL env" "ae_uuid_text env i1 = instance_id d"
    "parse_digest (ae_hex_decode env) (namespace_view_id d) = Inr v1"
    "parse_digest (ae_hex_decode env) (metadata_root d) = Inr r1"
    "serving_of env d = \<lparr>instance_uuid = i1, sd_namespace_view_id = v1, sd_scope = scope d, sd_metadata_root = r1\<rparr>"
    by (rule validate_descriptor_Inr)
  from b obtain i2 v2 r2 where 2: "schema_version e = SCHEMA_VERSION env" "metadata_codec e = METADATA_CODEC env"
    "materialization_policy e = MATERIALIZATION_POLICY_GIT_RAW_V1 env"
    "fs_semantics e = FS_SEMANTICS_LINUX_CODE_V1 env"
    "access_projection e = ACCESS_PROJECTION_EXACT_FULL env" "ae_uuid_text env i2 = instance_id e"
    "parse_digest (ae_hex_decode env) (namespace_view_id e) = Inr v2"
    "parse_digest (ae_hex_decode env) (metadata_root e) = Inr r2"
    "serving_of env e = \<lparr>instance_uuid = i2, sd_namespace_view_id = v2, sd_scope = scope e, sd_metadata_root = r2\<rparr>"
    by (rule validate_descriptor_Inr)
  have eq: "i1 = i2" "v1 = v2" "scope d = scope e" "r1 = r2"
    using sv 1(9) 2(9) by simp_all
  have "namespace_view_id d = namespace_view_id e" "metadata_root d = metadata_root e"
    using parse_digest_inject[OF hd] 1(7,8) 2(7,8) eq by blast+
  moreover have "instance_id d = instance_id e"
    using 1(6) 2(6) eq by simp
  ultimately show ?thesis
    using 1(1-5) 2(1-5) eq(3) sid by simp
qed

section \<open>Contexts and their directories\<close>

lemma context_new_Inr:
  assumes "AuthorizedSnapshotContext_new env dep cred req d e q = Inr ctx"
  obtains url n where
    "validate_scope (ae_grammar env) (scope d) = Inr ()" "scope d = req" "validate_descriptor env d = Inr ()"
    "decimal e ''authorization_epoch'' = Inr n" "deployment_url env dep = Inr url"
    "ctx_descriptor ctx = d" "ctx_authorization_epoch ctx = n"
    "ctx_domain ctx = hash_fields env CACHE_DOMAIN_TAG (domain_fields url cred n d)"
  using assms unfolding AuthorizedSnapshotContext_new_def
  by (auto simp: result_simps split: if_splits)

lemma decimal_le: "decimal s f = Inr n \<Longrightarrow> n < 256 ^ 8"
  by (simp add: decimal_Inr_iff i64_MAX_def)

text \<open>Two different texts with the same digest.\<close>

definition collides :: "(bytes \<Rightarrow> bytes) \<Rightarrow> bytes \<Rightarrow> bytes \<Rightarrow> bool" where
  "collides sha256 x y \<longleftrightarrow> x \<noteq> y \<and> sha256 x = sha256 y"

lemma hash_fields_eq:
  assumes "hex_encoder (ae_hex_encode env)" "hash_fields env tag xs = hash_fields env tag ys"
    and "length xs = length ys" "\<And>x. x \<in> set xs \<union> set ys \<Longrightarrow> length x \<le> u64_MAX"
  shows "xs = ys \<or> collides (ae_sha256 env) (tag @ encode_fields xs) (tag @ encode_fields ys)"
proof -
  have "ae_sha256 env (tag @ encode_fields xs) = ae_sha256 env (tag @ encode_fields ys)"
    using assms(1,2) unfolding hash_fields_def hex_encoder_def by blast
  then show ?thesis
    using encode_fields_inject[OF assms(3,4)] by (auto simp: collides_def)
qed

lemma validate_scope_length: "validate_scope g s = Inr u \<Longrightarrow> length s \<le> u64_MAX"
  by (auto simp: validate_scope_def u64_MAX_def split: if_splits)

lemma hash_scope_eq:
  assumes "hex_encoder (ae_hex_encode env)" "hash_fields env tag [as_bytes s] = hash_fields env tag [as_bytes t]"
    and "length s \<le> u64_MAX" "length t \<le> u64_MAX"
  shows "s = t \<or> collides (ae_sha256 env) (tag @ encode_fields [as_bytes s]) (tag @ encode_fields [as_bytes t])"
proof -
  have "length x \<le> u64_MAX" if "x \<in> set [as_bytes s] \<union> set [as_bytes t]" for x
    using that assms(3,4) by auto
  from hash_fields_eq[OF assms(1,2) _ this] show ?thesis
    by (simp add: as_bytes_inject)
qed

section \<open>Bound directories\<close>

text \<open>What the serialization of the record promises.\<close>

definition binding_codec :: "auth_env \<Rightarrow> bool" where
  "binding_codec env \<longleftrightarrow> (\<forall>b bytes. ae_to_json env b = Inr bytes \<longrightarrow> ae_from_json env bytes = Some b)"

text \<open>
  The life of a directory: attempts of any process to bind it, however they end, and writes and
  removals of files other than the record.
\<close>

inductive dir_evolves :: "auth_env \<Rightarrow> cache_dir \<Rightarrow> cache_dir \<Rightarrow> bool" for env start where
  init: "dir_evolves env start start"
| attempt: "dir_evolves env start d \<Longrightarrow> bind_directory env io d b = (d', r) \<Longrightarrow> dir_evolves env start d'"
| written: "dir_evolves env start d \<Longrightarrow> name \<noteq> AUTHORITY_FILE \<Longrightarrow> dir_evolves env start (dir_put name node d)"
| removed: "dir_evolves env start d \<Longrightarrow> name \<noteq> AUTHORITY_FILE \<Longrightarrow> dir_evolves env start (dir_remove name d)"

lemma map_of_dir_put: "map_of (dir_put name node d) n = (if n = name then Some node else map_of d n)"
  by (induction d) (auto simp: dir_put_def)

lemma map_of_dir_remove: "map_of (dir_remove name d) n = (if n = name then None else map_of d n)"
  by (induction d) (auto simp: dir_remove_def)

lemmas dir_simps = map_of_dir_put map_of_dir_remove

lemma authority_names [simp]:
  "AUTHORITY_LOCK \<noteq> AUTHORITY_FILE" "AUTHORITY_TMP \<noteq> AUTHORITY_FILE" "AUTHORITY_FILE \<noteq> AUTHORITY_LOCK"
  "AUTHORITY_FILE \<noteq> AUTHORITY_TMP" "temporary_name AUTHORITY_FILE i \<noteq> AUTHORITY_FILE"
  "AUTHORITY_FILE \<noteq> temporary_name AUTHORITY_FILE i"
  by (simp_all add: AUTHORITY_LOCK_def AUTHORITY_FILE_def AUTHORITY_TMP_def temporary_name_def)

lemma publish_authority_record:
  assumes "publish_authority io d bytes = (d', r)"
  shows "map_of d' AUTHORITY_FILE = map_of d AUTHORITY_FILE \<or> map_of d' AUTHORITY_FILE = Some (PlainFile bytes)"
    "r = Inr () \<Longrightarrow> map_of d' AUTHORITY_FILE = Some (PlainFile bytes)"
  using assms unfolding publish_authority_def Let_def
  by (auto simp: dir_simps split: sum.splits option.splits)

text \<open>An attempt on a directory with a record changes no record.\<close>

lemma bind_directory_kept:
  assumes "bind_directory env io d b = (d', r)" "map_of d AUTHORITY_FILE = Some node"
  shows "map_of d' AUTHORITY_FILE = Some node"
  using assms unfolding bind_directory_def Let_def
  by (auto simp: dir_simps split: sum.splits option.splits dir_node.splits if_splits)

lemma bind_directory_Inr:
  assumes "binding_codec env" "bind_directory env io d b = (d', Inr ())"
  shows "\<exists>bytes. map_of d' AUTHORITY_FILE = Some (PlainFile bytes) \<and> ae_from_json env bytes = Some b"
proof (cases "map_of d AUTHORITY_FILE")
  case None
  then obtain bytes d1 where "ae_to_json env b = Inr bytes" "publish_authority io d1 bytes = (d', Inr ())"
    using assms(2) unfolding bind_directory_def Let_def
    by (auto simp: dir_simps split: sum.splits option.splits if_splits)
  then show ?thesis
    using publish_authority_record(2) assms(1) unfolding binding_codec_def by blast
next
  case (Some node)
  then have "map_of d' AUTHORITY_FILE = Some node" by (rule bind_directory_kept[OF assms(2)])
  moreover have "\<exists>bytes. node = PlainFile bytes \<and> ae_from_json env bytes = Some b"
    using assms(2) Some unfolding bind_directory_def Let_def
    by (auto simp: dir_simps result_simps split: sum.splits option.splits dir_node.splits if_splits)
  ultimately show ?thesis by blast
qed

lemma dir_evolves_kept:
  "dir_evolves env d d' \<Longrightarrow> map_of d AUTHORITY_FILE = Some node \<Longrightarrow> map_of d' AUTHORITY_FILE = Some node"
  by (induction rule: dir_evolves.induct) (auto simp: dir_simps dest: bind_directory_kept)

lemma legacy_refused:
  assumes "map_of d AUTHORITY_FILE = None" "list_ex legacy_entry d" "bind_directory env io d b = (d', r)"
  shows "\<not> is_ok r \<and> map_of d' AUTHORITY_FILE = None"
proof -
  have "legacy_entry (AUTHORITY_LOCK, node) = False" for node
    by (simp add: legacy_entry_def)
  then have "list_ex legacy_entry (dir_put AUTHORITY_LOCK (PlainFile []) d)"
    using assms(2) by (fastforce simp: list_ex_iff dir_put_def)
  with assms show ?thesis
    unfolding bind_directory_def Let_def
    by (auto simp: dir_simps is_ok_def split: sum.splits option.splits if_splits)
qed

section \<open>Properties\<close>

text \<open>C27: A snapshot id identifies its descriptor: two descriptors that pass validation with the same
  id are equal in every field, unless the codec's id function maps two different serving descriptors
  to one id.\<close>

theorem snapshot_id_identifies_descriptor:
  assumes "hex_decoder (ae_hex_decode env)" "hex_encoder (ae_hex_encode env)"
    and "validate_descriptor env d = Inr u" "validate_descriptor env e = Inr v"
    and "snapshot_id d = snapshot_id e"
  shows "d = e \<or> (serving_of env d \<noteq> serving_of env e
    \<and> ae_serving_snapshot_id env (serving_of env d) = ae_serving_snapshot_id env (serving_of env e))"
proof -
  from assms(3) obtain s1 where 1: "ae_serving_snapshot_id env (serving_of env d) = Inr s1"
    "snapshot_id d = ''sha256:'' @ ae_hex_encode env s1" by (rule validate_descriptor_Inr)
  from assms(4) obtain s2 where 2: "ae_serving_snapshot_id env (serving_of env e) = Inr s2"
    "snapshot_id e = ''sha256:'' @ ae_hex_encode env s2" by (rule validate_descriptor_Inr)
  have "s1 = s2"
    using 1(2) 2(2) assms(2,5) by (auto simp: hex_encoder_def)
  with 1(1) 2(1) show ?thesis
    using validate_descriptor_unique[OF assms(1,3,4) _ assms(5)] by auto
qed

definition demo_auth :: auth_env where
  "demo_auth =
    \<lparr>SCHEMA_VERSION = 2, METADATA_CODEC = 1, MATERIALIZATION_POLICY_GIT_RAW_V1 = 1,
     FS_SEMANTICS_LINUX_CODE_V1 = 1, ACCESS_PROJECTION_EXACT_FULL = 0,
     ae_grammar = (\<lambda>s. if take 1 s = ''/'' then Inr () else Inl ''not absolute''),
     ae_serving_snapshot_id = (\<lambda>s. Inr (take 32 (sd_metadata_root s @ replicate 32 0))),
     ae_uuid_parse = (\<lambda>s. if s = ''uuid'' then Some [1] else None),
     ae_uuid_is_nil = (\<lambda>b. b = []), ae_uuid_text = (\<lambda>_. ''uuid''),
     ae_hex_encode = hex32, ae_hex_decode = (\<lambda>s. Some (hex_pairs s)),
     ae_sha256 = (\<lambda>b. take 32 (rev b @ replicate 32 0)),
     ae_url_parse = (\<lambda>s. Some \<lparr>url_scheme = ''https'', url_host = Some s, url_username = [],
        url_password = None, url_query = None, url_fragment = None, url_path = ''/''\<rparr>),
     ae_url_text = (\<lambda>u. case url_host u of Some h \<Rightarrow> h | None \<Rightarrow> []),
     ae_to_json = (\<lambda>_. Inl ''unsupported''), ae_from_json = (\<lambda>_. None)\<rparr>"

definition demo_descriptor :: descriptor where
  "demo_descriptor =
    \<lparr>schema_version = 2, metadata_codec = 1, instance_id = ''uuid'',
     namespace_view_id = ''sha256:'' @ hex32 (replicate 32 0x55), scope = ''/p'',
     materialization_policy = 1, fs_semantics = 1, access_projection = 0,
     metadata_root = ''sha256:'' @ hex32 (replicate 32 0x11),
     snapshot_id = ''sha256:'' @ hex32 (replicate 32 0x11)\<rparr>"

lemma demo_descriptor_valid:
  "validate_descriptor demo_auth demo_descriptor = Inr ()"
  "validate_descriptor demo_auth (demo_descriptor\<lparr>scope := ''/q''\<rparr>) = Inr ()"
proof -
  have "parse_digest (\<lambda>s. Some (hex_pairs s)) (''sha256:'' @ hex32 (replicate 32 x)) = Inr (replicate 32 x)" for x
    by (subst parse_digest_Inr_iff) (simp_all add: hex_decoder_def digest_text_def)
  then show "validate_descriptor demo_auth demo_descriptor = Inr ()"
    "validate_descriptor demo_auth (demo_descriptor\<lparr>scope := ''/q''\<rparr>) = Inr ()"
    by (simp_all add: validate_descriptor_def demo_auth_def demo_descriptor_def)
qed

lemma demo_auth_hex: "hex_decoder (ae_hex_decode demo_auth)" "hex_encoder (ae_hex_encode demo_auth)"
  using hex_encoder_hex32 by (simp_all add: demo_auth_def hex_decoder_def)

theorem snapshot_id_identifies_descriptor_witness:
  "validate_descriptor demo_auth demo_descriptor = Inr ()
    \<and> validate_descriptor demo_auth (demo_descriptor\<lparr>scope := ''/q''\<rparr>) = Inr ()
    \<and> serving_of demo_auth demo_descriptor \<noteq> serving_of demo_auth (demo_descriptor\<lparr>scope := ''/q''\<rparr>)"
  using snapshot_id_identifies_descriptor[OF demo_auth_hex demo_descriptor_valid] demo_descriptor_valid
  by (simp add: demo_descriptor_def)

text \<open>C11: Two contexts share a cache directory only if they were resolved from the same deployment URL
  with the same credential partition, instance, authorization epoch and scope, unless two different
  texts that were hashed for the directory names have the same SHA-256.\<close>

theorem cache_directory_partition:
  assumes "hex_encoder (ae_hex_encode env)"
    and "AuthorizedSnapshotContext_new env dep1 cred1 req1 d1 e1 q1 = Inr c1"
    and "AuthorizedSnapshotContext_new env dep2 cred2 req2 d2 e2 q2 = Inr c2"
    and "deployment_url env dep1 = Inr url1" "deployment_url env dep2 = Inr url2"
    and "\<And>s. s \<in> {url1, url2, cred1, cred2, instance_id d1, instance_id d2} \<Longrightarrow> length s \<le> u64_MAX"
    and "scope_cache_dir env c1 root = scope_cache_dir env c2 root"
  shows "(url1 = url2 \<and> cred1 = cred2 \<and> instance_id d1 = instance_id d2 \<and> req1 = req2
      \<and> ctx_authorization_epoch c1 = ctx_authorization_epoch c2)
    \<or> collides (ae_sha256 env)
        (CACHE_DOMAIN_TAG @ encode_fields (domain_fields url1 cred1 (ctx_authorization_epoch c1) d1))
        (CACHE_DOMAIN_TAG @ encode_fields (domain_fields url2 cred2 (ctx_authorization_epoch c2) d2))
    \<or> collides (ae_sha256 env) (SCOPE_TAG @ encode_fields [as_bytes req1]) (SCOPE_TAG @ encode_fields [as_bytes req2])"
proof -
  from assms(2) obtain u1 n1 where 1: "validate_scope (ae_grammar env) (scope d1) = Inr ()" "scope d1 = req1"
    "decimal e1 ''authorization_epoch'' = Inr n1" "deployment_url env dep1 = Inr u1" "ctx_descriptor c1 = d1"
    "ctx_authorization_epoch c1 = n1" "ctx_domain c1 = hash_fields env CACHE_DOMAIN_TAG (domain_fields u1 cred1 n1 d1)"
    by (rule context_new_Inr)
  from assms(3) obtain u2 n2 where 2: "validate_scope (ae_grammar env) (scope d2) = Inr ()" "scope d2 = req2"
    "decimal e2 ''authorization_epoch'' = Inr n2" "deployment_url env dep2 = Inr u2" "ctx_descriptor c2 = d2"
    "ctx_authorization_epoch c2 = n2" "ctx_domain c2 = hash_fields env CACHE_DOMAIN_TAG (domain_fields u2 cred2 n2 d2)"
    by (rule context_new_Inr)
  have u: "u1 = url1" "u2 = url2"
    using 1(4) 2(4) assms(4,5) by simp_all
  have "hash_fields env SCOPE_TAG [as_bytes req1] = hash_fields env SCOPE_TAG [as_bytes req2]"
    and dom: "hash_fields env CACHE_DOMAIN_TAG (domain_fields url1 cred1 n1 d1)
      = hash_fields env CACHE_DOMAIN_TAG (domain_fields url2 cred2 n2 d2)"
    using assms(7) 1 2 u by (simp_all add: scope_cache_dir_def)
  moreover have "length req1 \<le> u64_MAX" "length req2 \<le> u64_MAX"
    using 1(1,2) 2(1,2) validate_scope_length by blast+
  ultimately have scopes: "req1 = req2 \<or> collides (ae_sha256 env) (SCOPE_TAG @ encode_fields [as_bytes req1])
      (SCOPE_TAG @ encode_fields [as_bytes req2])"
    using hash_scope_eq[OF assms(1)] by blast
  have "length url1 \<le> u64_MAX" "length url2 \<le> u64_MAX" "length cred1 \<le> u64_MAX" "length cred2 \<le> u64_MAX"
      "length (instance_id d1) \<le> u64_MAX" "length (instance_id d2) \<le> u64_MAX" "8 \<le> u64_MAX" "2 \<le> u64_MAX"
    by (rule assms(6), simp)+ (simp_all add: u64_MAX_def)
  then have "length x \<le> u64_MAX"
    if "x \<in> set (domain_fields url1 cred1 n1 d1) \<union> set (domain_fields url2 cred2 n2 d2)" for x
    using that unfolding domain_fields_def by (elim UnE; simp; elim disjE; simp)
  from hash_fields_eq[OF assms(1) dom _ this]
  have "domain_fields url1 cred1 n1 d1 = domain_fields url2 cred2 n2 d2
      \<or> collides (ae_sha256 env) (CACHE_DOMAIN_TAG @ encode_fields (domain_fields url1 cred1 n1 d1))
          (CACHE_DOMAIN_TAG @ encode_fields (domain_fields url2 cred2 n2 d2))"
    by (simp add: domain_fields_def)
  moreover have "n1 = n2" if "be_bytes 8 n1 = be_bytes 8 n2"
    using that be_bytes_inject[of n1 8 n2] decimal_le 1(3) 2(3) by blast
  ultimately show ?thesis
    using scopes 1(6) 2(6) by (auto simp: domain_fields_def as_bytes_inject)
qed

definition demo_context :: authorized_context where
  "demo_context = projr (AuthorizedSnapshotContext_new demo_auth ''mega.example'' ''token'' ''/p'' demo_descriptor ''1'' ''7'')"

lemma demo_context_new:
  "AuthorizedSnapshotContext_new demo_auth ''mega.example'' ''token'' ''/p'' demo_descriptor ''1'' ''7'' = Inr demo_context"
proof -
  have "validate_scope (ae_grammar demo_auth) ''/p'' = Inr ()"
    by (simp add: validate_scope_def trim_start_slashes_def demo_auth_def)
  moreover have "scope demo_descriptor = ''/p''"
    by (simp add: demo_descriptor_def)
  moreover have "decimal ''1'' f = Inr 1" "decimal ''7'' f = Inr 7" for f
    by (simp_all add: decimal_Inr_iff show_nat.simps dec_digit_def i64_MAX_def) code_simp+
  moreover have "deployment_url demo_auth ''mega.example'' = Inr ''mega.example''"
    by (simp add: deployment_url_def demo_auth_def)
  ultimately show ?thesis
    using demo_descriptor_valid by (simp add: demo_context_def AuthorizedSnapshotContext_new_def)
qed

theorem cache_directory_partition_witness:
  "instance_id demo_descriptor = ''uuid'' \<and> \<not> collides (ae_sha256 demo_auth) (SCOPE_TAG @ encode_fields [as_bytes ''/p'']) (SCOPE_TAG @ encode_fields [as_bytes ''/p''])"
proof -
  have url: "deployment_url demo_auth ''mega.example'' = Inr ''mega.example''"
    by (simp add: deployment_url_def demo_auth_def)
  have len: "\<And>s. s \<in> {''mega.example'', ''mega.example'', ''token'', ''token'', instance_id demo_descriptor, instance_id demo_descriptor}
      \<Longrightarrow> length s \<le> u64_MAX"
    by (auto simp: u64_MAX_def demo_descriptor_def)
  from cache_directory_partition[OF demo_auth_hex(2) demo_context_new demo_context_new url url len refl]
  show ?thesis
    by (auto simp: collides_def demo_descriptor_def)
qed

text \<open>C7: A cache directory belongs to one authority for good: once some process has bound it, no
  attempt with a different record ever succeeds, whatever attempts fail half-way and whatever else is
  written there in between; and a populated directory without a record is never adopted.\<close>

theorem authority_binding_exclusive:
  assumes "binding_codec env" "bind_directory env io d b = (d1, Inr ())" "dir_evolves env d1 d2"
    and "bind_directory env io' d2 b' = (d3, r)"
    and "map_of old AUTHORITY_FILE = None" "list_ex legacy_entry old" "bind_directory env io'' old b'' = (old', r'')"
  shows "(r = Inr () \<longrightarrow> b' = b) \<and> \<not> is_ok r'' \<and> map_of old' AUTHORITY_FILE = None"
proof -
  obtain bytes where b: "map_of d1 AUTHORITY_FILE = Some (PlainFile bytes)" "ae_from_json env bytes = Some b"
    using bind_directory_Inr[OF assms(1,2)] by blast
  have d3: "map_of d3 AUTHORITY_FILE = Some (PlainFile bytes)"
    using bind_directory_kept[OF assms(4) dir_evolves_kept[OF assms(3) b(1)]] .
  have "b' = b" if "r = Inr ()"
    using bind_directory_Inr[OF assms(1) assms(4)[unfolded that]] d3 b(2) by auto
  then show ?thesis
    using legacy_refused[OF assms(5-7)] by simp
qed

definition demo_binding :: "string \<Rightarrow> cache_binding" where
  "demo_binding actor = \<lparr>revision = 1, cb_domain = actor, cb_scope = ''/p'', cb_snapshot_id = None\<rparr>"

definition demo_json :: auth_env where
  "demo_json = demo_auth
    \<lparr>ae_to_json := (\<lambda>b. if b = demo_binding ''a'' then Inr [1] else if b = demo_binding ''b'' then Inr [2] else Inl []),
     ae_from_json := (\<lambda>bytes. if bytes = [1] then Some (demo_binding ''a'')
        else if bytes = [2] then Some (demo_binding ''b'') else None)\<rparr>"

definition demo_io :: bind_io where
  "demo_io = \<lparr>bi_guard = Inr (), bi_create = None, bi_lock = None, bi_read = None, bi_not_regular = [],
     bi_scan = None, bi_admission = Inr None, bi_open_temp = None, bi_write = None, bi_rename = None,
     bi_sync_dir = None\<rparr>"

theorem authority_binding_exclusive_witness:
  "snd (bind_directory demo_json demo_io [] (demo_binding ''a'')) = Inr ()
    \<and> snd (bind_directory demo_json demo_io (fst (bind_directory demo_json demo_io [] (demo_binding ''a''))) (demo_binding ''b''))
        \<noteq> Inr ()"
proof -
  have codec: "binding_codec demo_json"
    by (auto simp: binding_codec_def demo_json_def demo_binding_def split: if_splits)
  have ok: "snd (bind_directory demo_json demo_io [] (demo_binding ''a'')) = Inr ()"
    by code_simp
  have old: "map_of [(''view.json'', PlainFile [])] AUTHORITY_FILE = None" "list_ex legacy_entry [(''view.json'', PlainFile [])]"
    by code_simp+
  have "bind_directory demo_json demo_io [] (demo_binding ''a'')
      = (fst (bind_directory demo_json demo_io [] (demo_binding ''a'')), Inr ())"
    using ok by (metis prod.collapse)
  from authority_binding_exclusive[OF codec this dir_evolves.init prod.collapse[symmetric] old prod.collapse[symmetric],
      of demo_io "demo_binding ''b''" demo_io "demo_binding ''b''"]
  have "snd (bind_directory demo_json demo_io (fst (bind_directory demo_json demo_io [] (demo_binding ''a''))) (demo_binding ''b''))
      = Inr () \<longrightarrow> demo_binding ''b'' = demo_binding ''a''" by blast
  with ok show ?thesis
    by (auto simp: demo_binding_def)
qed

text \<open>The scope directory of a context, bound by that context, passes the check that a managed cache
  makes of it when it is reopened, and any record that passes the check there names the domain of
  that context and its scope, up to a collision of SHA-256 on the two scopes.\<close>

theorem retention_scope_round_trip:
  assumes "hex_encoder (ae_hex_encode env)" "\<And>b. length (ae_sha256 env b) = 32" "binding_codec env"
    and "AuthorizedSnapshotContext_new env dep cred req d e q = Inr ctx"
    and "ae_to_json env (bind_cache env ctx None) = Inr bytes" "length bytes \<le> 16 * 1024"
  shows "validate_retention_scope env (scope_cache_dir env ctx root)
      \<lparr>ar_opened = True, ar_len = Some (length bytes), ar_bytes = Some bytes\<rparr> = Inr ()
    \<and> (validate_retention_scope env (scope_cache_dir env ctx root) r = Inr () \<and> retention_binding env r = Inr b \<longrightarrow>
        cb_domain b = ctx_domain ctx
        \<and> (cb_scope b = req \<or> collides (ae_sha256 env) (SCOPE_TAG @ encode_fields [as_bytes (cb_scope b)])
             (SCOPE_TAG @ encode_fields [as_bytes req])))"
proof (intro conjI impI)
  from assms(4) obtain url n where c: "validate_scope (ae_grammar env) (scope d) = Inr ()" "scope d = req"
    "ctx_descriptor ctx = d" "ctx_domain ctx = hash_fields env CACHE_DOMAIN_TAG (domain_fields url cred n d)"
    by (rule context_new_Inr)
  have dom: "length (ctx_domain ctx) = 64" "list_all is_lower_hex (ctx_domain ctx)"
    using assms(1,2) by (simp_all add: c(4) hash_fields_def hex_encoder_def)
  have json: "ae_from_json env bytes = Some (bind_cache env ctx None)"
    using assms(3,5) by (simp add: binding_codec_def)
  show "validate_retention_scope env (scope_cache_dir env ctx root)
      \<lparr>ar_opened = True, ar_len = Some (length bytes), ar_bytes = Some bytes\<rparr> = Inr ()"
    using assms(6) json dom c
    by (simp add: validate_retention_scope_def retention_binding_def bind_cache_def scope_cache_dir_def
        file_name_def parent_def butlast_append)
  assume r: "validate_retention_scope env (scope_cache_dir env ctx root) r = Inr () \<and> retention_binding env r = Inr b"
  then have b: "validate_scope (ae_grammar env) (cb_scope b) = Inr ()" "cb_domain b = ctx_domain ctx"
      "hash_fields env SCOPE_TAG [as_bytes (cb_scope b)] = hash_fields env SCOPE_TAG [as_bytes req]"
    using c by (auto simp: validate_retention_scope_def scope_cache_dir_def Let_def result_simps
        file_name_def parent_def butlast_append split: if_splits)
  show "cb_domain b = ctx_domain ctx" by (rule b(2))
  show "cb_scope b = req \<or> collides (ae_sha256 env) (SCOPE_TAG @ encode_fields [as_bytes (cb_scope b)])
      (SCOPE_TAG @ encode_fields [as_bytes req])"
    using hash_scope_eq[OF assms(1) b(3)] validate_scope_length[OF b(1)] validate_scope_length[OF c(1)] c(2) by simp
qed

definition demo_managed :: auth_env where
  "demo_managed = demo_auth
    \<lparr>ae_to_json := (\<lambda>b. if b = bind_cache demo_auth demo_context None then Inr [7] else Inl []),
     ae_from_json := (\<lambda>bytes. if bytes = [7] then Some (bind_cache demo_auth demo_context None) else None)\<rparr>"

theorem retention_scope_round_trip_witness:
  "validate_retention_scope demo_managed (scope_cache_dir demo_managed demo_context [''cache''])
     \<lparr>ar_opened = True, ar_len = Some 1, ar_bytes = Some [7]\<rparr> = Inr ()"
proof -
  have "hex_encoder (ae_hex_encode demo_managed)" "binding_codec demo_managed"
      "\<And>b. length (ae_sha256 demo_managed b) = 32"
    using demo_auth_hex(2) by (auto simp: demo_managed_def binding_codec_def demo_auth_def split: if_splits)
  moreover have "AuthorizedSnapshotContext_new demo_managed ''mega.example'' ''token'' ''/p'' demo_descriptor ''1'' ''7'' = Inr demo_context"
  proof -
    have same: "SCHEMA_VERSION demo_managed = SCHEMA_VERSION demo_auth"
        "METADATA_CODEC demo_managed = METADATA_CODEC demo_auth"
        "MATERIALIZATION_POLICY_GIT_RAW_V1 demo_managed = MATERIALIZATION_POLICY_GIT_RAW_V1 demo_auth"
        "FS_SEMANTICS_LINUX_CODE_V1 demo_managed = FS_SEMANTICS_LINUX_CODE_V1 demo_auth"
        "ACCESS_PROJECTION_EXACT_FULL demo_managed = ACCESS_PROJECTION_EXACT_FULL demo_auth"
        "ae_grammar demo_managed = ae_grammar demo_auth" "ae_uuid_parse demo_managed = ae_uuid_parse demo_auth"
        "ae_serving_snapshot_id demo_managed = ae_serving_snapshot_id demo_auth"
        "ae_uuid_is_nil demo_managed = ae_uuid_is_nil demo_auth" "ae_uuid_text demo_managed = ae_uuid_text demo_auth"
        "ae_hex_encode demo_managed = ae_hex_encode demo_auth" "ae_hex_decode demo_managed = ae_hex_decode demo_auth"
        "ae_sha256 demo_managed = ae_sha256 demo_auth" "ae_url_parse demo_managed = ae_url_parse demo_auth"
        "ae_url_text demo_managed = ae_url_text demo_auth"
      by (simp_all add: demo_managed_def)
    show ?thesis
      using demo_context_new
      unfolding AuthorizedSnapshotContext_new_def validate_descriptor_def deployment_url_def hash_fields_def same .
  qed
  moreover have "ae_to_json demo_managed (bind_cache demo_managed demo_context None) = Inr [7]"
    by (simp add: demo_managed_def bind_cache_def)
  ultimately show ?thesis
    using retention_scope_round_trip[of demo_managed "''mega.example''" "''token''" "''/p''" demo_descriptor "''1''" "''7''" demo_context "[7]"]
    by simp
qed

end
