(* ===== verification/Wire_Contracts.thy ===== *)
theory Wire_Contracts
  imports Authority Capabilities
begin

text \<open>
  The JSON contracts of the service (\<^verbatim>\<open>snapshot/error_wire.rs\<close>, \<^verbatim>\<open>lease_wire.rs\<close>,
  \<^verbatim>\<open>descriptor_wire.rs\<close>, \<^verbatim>\<open>resolve_wire.rs\<close>, \<^verbatim>\<open>resolve_receipt.rs\<close>, \<^verbatim>\<open>chunk_wire.rs\<close> and the
  offline grant of \<^verbatim>\<open>types.rs\<close>).  A parsed JSON value is a value of an arbitrary type together with
  the accessors that the code calls, and the decoders that \<^verbatim>\<open>serde\<close> derives for the wire structs are
  arguments too; a decoded struct is a record with the fields of the source.
\<close>

section \<open>JSON values\<close>

record 'v json_ops =
  js_get :: "'v \<Rightarrow> string \<Rightarrow> 'v option"
  js_as_str :: "'v \<Rightarrow> string option"
  js_as_array :: "'v \<Rightarrow> 'v list option"
  js_keys :: "'v \<Rightarrow> string list option"

text \<open>\<^verbatim>\<open>value[key].as_str()\<close>; indexing a missing member yields null.\<close>

definition js_str :: "'v json_ops \<Rightarrow> 'v \<Rightarrow> string \<Rightarrow> string option" where
  "js_str J v key = Option.bind (js_get J v key) (js_as_str J)"

text \<open>\<^verbatim>\<open>chars().count()\<close> of a UTF-8 text: the bytes that are not continuation bytes.\<close>

definition chars_count :: "string \<Rightarrow> nat" where
  "chars_count s = length (filter (\<lambda>c. \<not> (128 \<le> (of_char c :: nat) \<and> (of_char c :: nat) < 192)) s)"

section \<open>Errors\<close>

datatype canonical_error_code =
    CanPathNotFound | CanNotDirectory | CanNotFile | CanSymlinkTraversal | CanUnauthenticated
  | CanScopeForbidden | CanLeaseExpired | CanSnapshotGone | CanSnapshotNotReady | CanMetadataNotReady
  | CanObjectUnavailable | CanIntegrityError | CanCursorStale | CanExpectedDigestMismatch
  | CanMixedSourceBatch | CanUnsupportedEntry | CanUnsupportedCodec | CanObjectTooLarge
  | CanLimitExceeded | CanProofBudgetExceeded | CanInvalidRequest | CanRangeNotSupported
  | CanNamespaceConflict | CanPublicationConflict | CanReleaseImmutable | CanRateLimited
  | CanTemporaryUnavailable | CanInternal

definition canonical_names :: "(string \<times> canonical_error_code) list" where
  "canonical_names =
    [(''PATH_NOT_FOUND'', CanPathNotFound), (''NOT_DIRECTORY'', CanNotDirectory),
     (''NOT_FILE'', CanNotFile), (''SYMLINK_TRAVERSAL'', CanSymlinkTraversal),
     (''UNAUTHENTICATED'', CanUnauthenticated), (''SCOPE_FORBIDDEN'', CanScopeForbidden),
     (''LEASE_EXPIRED'', CanLeaseExpired), (''SNAPSHOT_GONE'', CanSnapshotGone),
     (''SNAPSHOT_NOT_READY'', CanSnapshotNotReady), (''METADATA_NOT_READY'', CanMetadataNotReady),
     (''OBJECT_UNAVAILABLE'', CanObjectUnavailable), (''INTEGRITY_ERROR'', CanIntegrityError),
     (''CURSOR_STALE'', CanCursorStale), (''EXPECTED_DIGEST_MISMATCH'', CanExpectedDigestMismatch),
     (''MIXED_SOURCE_BATCH'', CanMixedSourceBatch), (''UNSUPPORTED_ENTRY'', CanUnsupportedEntry),
     (''UNSUPPORTED_CODEC'', CanUnsupportedCodec), (''OBJECT_TOO_LARGE'', CanObjectTooLarge),
     (''LIMIT_EXCEEDED'', CanLimitExceeded), (''PROOF_BUDGET_EXCEEDED'', CanProofBudgetExceeded),
     (''INVALID_REQUEST'', CanInvalidRequest), (''RANGE_NOT_SUPPORTED'', CanRangeNotSupported),
     (''NAMESPACE_CONFLICT'', CanNamespaceConflict), (''PUBLICATION_CONFLICT'', CanPublicationConflict),
     (''RELEASE_IMMUTABLE'', CanReleaseImmutable), (''RATE_LIMITED'', CanRateLimited),
     (''TEMPORARY_UNAVAILABLE'', CanTemporaryUnavailable), (''INTERNAL'', CanInternal)]"

definition from_wire :: "string \<Rightarrow> canonical_error_code option" where
  "from_wire c = map_of canonical_names c"

definition expected_status :: "string \<Rightarrow> nat option" where
  "expected_status c =
    (if c = ''PATH_NOT_FOUND'' then Some 404
     else if c \<in> set [''NOT_DIRECTORY'', ''NOT_FILE'', ''SYMLINK_TRAVERSAL'', ''CURSOR_STALE'',
        ''EXPECTED_DIGEST_MISMATCH'', ''NAMESPACE_CONFLICT'', ''PUBLICATION_CONFLICT'',
        ''RELEASE_IMMUTABLE''] then Some 409
     else if c = ''UNAUTHENTICATED'' then Some 401
     else if c = ''SCOPE_FORBIDDEN'' then Some 403
     else if c \<in> set [''LEASE_EXPIRED'', ''SNAPSHOT_GONE''] then Some 410
     else if c \<in> set [''SNAPSHOT_NOT_READY'', ''METADATA_NOT_READY'', ''OBJECT_UNAVAILABLE'',
        ''TEMPORARY_UNAVAILABLE''] then Some 503
     else if c = ''INTEGRITY_ERROR'' then Some 502
     else if c \<in> set [''MIXED_SOURCE_BATCH'', ''UNSUPPORTED_ENTRY'', ''UNSUPPORTED_CODEC''] then Some 422
     else if c \<in> set [''OBJECT_TOO_LARGE'', ''LIMIT_EXCEEDED'', ''PROOF_BUDGET_EXCEEDED''] then Some 413
     else if c \<in> set [''INVALID_REQUEST'', ''RANGE_NOT_SUPPORTED''] then Some 400
     else if c = ''RATE_LIMITED'' then Some 429
     else if c \<in> set [''SCOPE_INVALID'', ''CURSOR_INVALID''] then Some 400
     else if c \<in> set [''VIEW_NOT_FOUND'', ''LEASE_UNKNOWN''] then Some 404
     else if c \<in> set [''OBJECT_DIGEST_MISMATCH'', ''CONFLICT''] then Some 409
     else if c = ''INTERNAL'' then Some 500
     else None)"

record canonical_error =
  ce_code :: string
  ce_message :: string
  ce_request_id :: string
  ce_retryable :: bool

record legacy_error =
  le_code :: string
  le_message :: string

record canonical_snapshot_error =
  cs_code :: canonical_error_code
  cs_message :: string
  cs_request_id :: string
  cs_retryable :: bool
  cs_http_status :: nat

definition canonical_shape_bad :: "canonical_error \<Rightarrow> nat \<Rightarrow> bool" where
  "canonical_shape_bad e status =
    (\<not> (1 \<le> chars_count (ce_request_id e) \<and> chars_count (ce_request_id e) \<le> 512)
      \<or> 1024 < chars_count (ce_message e)
      \<or> expected_status (ce_code e) \<noteq> Some status)"

definition canonical_invalid :: "nat \<Rightarrow> snapshot_error" where
  "canonical_invalid status =
    \<lparr>code = IntegrityError, message = ''invalid canonical HTTP error envelope or status binding'',
     http_status = status\<rparr>"

definition parse_response ::
  "(bytes \<Rightarrow> canonical_error option) \<Rightarrow> bytes \<Rightarrow> nat \<Rightarrow> canonical_snapshot_error result" where
  "parse_response parse_json bytes status =
    (if MAX_JSON_RESPONSE_BYTES < length bytes
     then Inl \<lparr>code = LimitExceeded,
               message = ''canonical HTTP error exceeds the JSON response byte budget'',
               http_status = status\<rparr>
     else
       rbind (ok_or (parse_json bytes) (canonical_invalid status)) (\<lambda>e.
       if canonical_shape_bad e status then Inl (canonical_invalid status)
       else rbind (ok_or (from_wire (ce_code e)) (canonical_invalid status)) (\<lambda>c.
         Inr \<lparr>cs_code = c, cs_message = ce_message e, cs_request_id = ce_request_id e,
              cs_retryable = ce_retryable e, cs_http_status = status\<rparr>)))"

definition error_parse ::
  "'v json_ops \<Rightarrow> ('v \<Rightarrow> canonical_error option) \<Rightarrow> ('v \<Rightarrow> legacy_error option) \<Rightarrow> 'v \<Rightarrow> nat
    \<Rightarrow> snapshot_error option" where
  "error_parse J from_canonical from_legacy v status =
    Option.bind (js_get J v ''error'') (\<lambda>detail.
    Option.bind
      (if js_get J detail ''request_id'' \<noteq> None \<or> js_get J detail ''retryable'' \<noteq> None
       then Option.bind (from_canonical v) (\<lambda>e.
            if canonical_shape_bad e status then None else Some (ce_code e, ce_message e))
       else Option.bind (from_legacy detail) (\<lambda>e.
            if expected_status (le_code e) \<noteq> None \<and> expected_status (le_code e) \<noteq> Some status
            then None else Some (le_code e, le_message e)))
      (\<lambda>(c, m). Some \<lparr>code = from_server c, message = m, http_status = status\<rparr>))"

section \<open>Resolve\<close>

definition opaque :: "string \<Rightarrow> bool" where
  "opaque value = (1 \<le> chars_count value \<and> chars_count value \<le> 512)"

text \<open>\<^verbatim>\<open>OffsetDateTime::parse\<close> with RFC 3339 yields an instant, here a number.\<close>

definition timestamp :: "(string \<Rightarrow> int option) \<Rightarrow> string \<Rightarrow> int result" where
  "timestamp rfc3339 value =
    (if \<not> (10 < length value \<and> (value ! 10 = CHR ''T'' \<or> value ! 10 = CHR ''t''))
        \<or> (6 \<le> length value \<and> drop (length value - 6) value = ''-00:00'')
     then Inl resolve_invalid
     else ok_or (rfc3339 value) resolve_invalid)"

datatype resolve_target = Latest | View string
datatype resolve_delivery = Full | Lazy

record resolve_request =
  rq_target :: resolve_target
  rq_scope :: string
  rq_delivery :: resolve_delivery
  rq_lease_seconds :: nat

definition ResolveRequest_latest :: "string \<Rightarrow> nat \<Rightarrow> resolve_request" where
  "ResolveRequest_latest sc lease_seconds =
    \<lparr>rq_target = Latest, rq_scope = sc, rq_delivery = Full, rq_lease_seconds = lease_seconds\<rparr>"

record offline_grant =
  grant_id :: string
  og_snapshot_id :: string
  actor_domain_id :: string
  expires_at :: string
  policy :: string

record canonical_resolve =
  cr_descriptor :: descriptor
  cr_publication_sequence :: string
  cr_writer_epoch :: string
  cr_lease_id :: string
  cr_lease_expires_at :: string
  cr_authorization_epoch :: string
  cr_resolved_at :: string
  cr_delivery :: string
  cr_offline_grant :: "offline_grant option"

record resolve_response =
  rr_descriptor :: descriptor
  rr_lease_id :: string
  rr_lease_expires_at :: string
  rr_publication_sequence :: string
  rr_authorization_epoch :: string
  rr_offline_grant :: "offline_grant option"

definition grant_fields_bad :: "offline_grant \<Rightarrow> descriptor \<Rightarrow> bool" where
  "grant_fields_bad g d =
    (\<not> opaque (grant_id g) \<or> \<not> opaque (actor_domain_id g)
      \<or> og_snapshot_id g \<noteq> snapshot_id d \<or> policy g \<noteq> ''trusted_local_export_v1'')"

definition check_grant :: "(string \<Rightarrow> int option) \<Rightarrow> offline_grant option \<Rightarrow> descriptor \<Rightarrow> unit result" where
  "check_grant rfc3339 grant d =
    (case grant of
       None \<Rightarrow> Inr ()
     | Some g \<Rightarrow>
         if grant_fields_bad g d then Inl resolve_invalid
         else rbind (timestamp rfc3339 (expires_at g)) (\<lambda>_. Inr ()))"

definition check_counters :: "string list \<Rightarrow> unit result" where
  "check_counters values = try_fold (\<lambda>_ c. counter c) () values"

definition parse_request ::
  "auth_env \<Rightarrow> (string \<Rightarrow> int option) \<Rightarrow> 'v json_ops \<Rightarrow> ('v \<Rightarrow> canonical_resolve option)
    \<Rightarrow> ('v \<Rightarrow> resolve_response option) \<Rightarrow> 'v \<Rightarrow> resolve_request \<Rightarrow> bool \<Rightarrow> resolve_response result" where
  "parse_request env rfc3339 J from_canonical from_legacy v request require_canonical =
    (let canonical = list_ex (\<lambda>key. js_get J v key \<noteq> None)
           [''writer_epoch'', ''resolved_at'', ''delivery'', ''offline_grant''] in
     if \<not> canonical
     then (if require_canonical then Inl resolve_invalid else ok_or (from_legacy v) resolve_invalid)
     else
       rbind (ok_or (from_canonical v) resolve_invalid) (\<lambda>wire.
       let d = cr_descriptor wire in
       rbind (map_err (\<lambda>_. resolve_invalid) (validate_descriptor env d)) (\<lambda>_.
       let delivery = (case rq_delivery request of Full \<Rightarrow> ''full'' | Lazy \<Rightarrow> ''lazy'') in
       if scope d \<noteq> rq_scope request
          \<or> cr_delivery wire \<noteq> delivery
          \<or> (case rq_target request of View view_id \<Rightarrow> namespace_view_id d \<noteq> view_id | Latest \<Rightarrow> False)
          \<or> \<not> opaque (cr_lease_id wire)
       then Inl resolve_invalid
       else
         rbind (check_counters [cr_publication_sequence wire, cr_writer_epoch wire, cr_authorization_epoch wire]) (\<lambda>_.
         rbind (timestamp rfc3339 (cr_resolved_at wire)) (\<lambda>resolved.
         rbind (timestamp rfc3339 (cr_lease_expires_at wire)) (\<lambda>expires.
         if expires \<le> resolved then Inl resolve_invalid
         else
           rbind (check_grant rfc3339 (cr_offline_grant wire) d) (\<lambda>_.
           Inr \<lparr>rr_descriptor = d, rr_lease_id = cr_lease_id wire,
                rr_lease_expires_at = cr_lease_expires_at wire,
                rr_publication_sequence = cr_publication_sequence wire,
                rr_authorization_epoch = cr_authorization_epoch wire,
                rr_offline_grant = cr_offline_grant wire\<rparr>)))))))"

definition grant_validate_for ::
  "(string \<Rightarrow> int option) \<Rightarrow> offline_grant \<Rightarrow> string \<Rightarrow> string option \<Rightarrow> unit result" where
  "grant_validate_for rfc3339 g sid actor =
    (if grant_id g = [] \<or> 512 < chars_count (grant_id g)
        \<or> actor_domain_id g = [] \<or> 512 < chars_count (actor_domain_id g)
        \<or> og_snapshot_id g \<noteq> sid
        \<or> (case actor of None \<Rightarrow> False | Some expected \<Rightarrow> expected \<noteq> actor_domain_id g)
        \<or> policy g \<noteq> ''trusted_local_export_v1''
     then Inl (SnapshotError_new ScopeForbidden
                 ''offline grant is bound to a different snapshot or actor domain'')
     else rbind (map_err (\<lambda>_. SnapshotError_new IntegrityError ''offline grant expiry is not RFC3339'')
                   (timestamp rfc3339 (expires_at g))) (\<lambda>_. Inr ()))"

definition grant_expired :: "(string \<Rightarrow> int option) \<Rightarrow> int \<Rightarrow> offline_grant \<Rightarrow> bool" where
  "grant_expired rfc3339 now g =
    (case timestamp rfc3339 (expires_at g) of Inl _ \<Rightarrow> True | Inr expiry \<Rightarrow> expiry \<le> now)"

section \<open>Leases and descriptors\<close>

record canonical_lease =
  cl_lease_id :: string
  cl_snapshot_id :: string
  cl_lease_expires_at :: string
  cl_authorization_epoch :: string

record legacy_lease =
  ll_lease_id :: string
  ll_snapshot_id :: string
  ll_lease_expires_at :: string

definition lease_invalid :: snapshot_error where
  "lease_invalid = SnapshotError_new IntegrityError
     ''lease renewal violates its selected contract or requested lease''"

definition segment_plain :: "char \<Rightarrow> bool" where
  "segment_plain c =
    (let b = (of_char c :: nat) in
     (65 \<le> b \<and> b \<le> 90) \<or> (97 \<le> b \<and> b \<le> 122) \<or> (48 \<le> b \<and> b \<le> 57)
      \<or> c = CHR ''-'' \<or> c = CHR ''_'' \<or> c = CHR ''.'' \<or> c = CHR ''~'')"

definition lease_segment :: "string \<Rightarrow> string" where
  "lease_segment lease_id =
    concat (map (\<lambda>c. if segment_plain c then [c]
                     else [CHR ''%'', upper_hex_digit (of_char c div 16),
                           upper_hex_digit (of_char c mod 16)]) lease_id)"

definition lease_url ::
  "auth_env \<Rightarrow> (parsed_url \<Rightarrow> bool) \<Rightarrow> string \<Rightarrow> string \<Rightarrow> bool \<Rightarrow> parsed_url result" where
  "lease_url env cannot_be_a_base base lease_id renew =
    (if \<not> opaque lease_id \<or> lease_id = ''.'' \<or> lease_id = ''..''
     then Inl (SnapshotError_new InvalidRequest
                 ''lease identity cannot be represented as an opaque URL path segment'')
     else
       rbind (ok_or (ae_url_parse env (base @ ''/api/v2/snapshots/leases''))
                (SnapshotError_new InvalidRequest ''invalid lease base URL'')) (\<lambda>url.
       if cannot_be_a_base url \<or> url_query url \<noteq> None \<or> url_fragment url \<noteq> None
       then Inl (SnapshotError_new InvalidRequest ''invalid lease base URL'')
       else Inr (url\<lparr>url_path := url_path url @ ''/'' @ lease_segment lease_id
                      @ (if renew then ''/renew'' else [])\<rparr>)))"

definition lease_validate ::
  "auth_env \<Rightarrow> (string \<Rightarrow> int option) \<Rightarrow> 'v json_ops \<Rightarrow> ('v \<Rightarrow> canonical_lease option)
    \<Rightarrow> ('v \<Rightarrow> legacy_lease option) \<Rightarrow> 'v \<Rightarrow> string \<Rightarrow> unit result" where
  "lease_validate env rfc3339 J from_canonical from_legacy v lease_id =
    (if js_get J v ''authorization_epoch'' \<noteq> None
     then
       rbind (ok_or (from_canonical v) lease_invalid) (\<lambda>wire.
       if cl_lease_id wire \<noteq> lease_id \<or> \<not> opaque (cl_lease_id wire) then Inl lease_invalid
       else
         rbind (map_err (\<lambda>_. lease_invalid) (parse_digest (ae_hex_decode env) (cl_snapshot_id wire))) (\<lambda>_.
         rbind (map_err (\<lambda>_. lease_invalid) (counter (cl_authorization_epoch wire))) (\<lambda>_.
         rbind (map_err (\<lambda>_. lease_invalid) (timestamp rfc3339 (cl_lease_expires_at wire))) (\<lambda>_. Inr ()))))
     else
       rbind (ok_or (from_legacy v) lease_invalid) (\<lambda>wire.
       if ll_lease_id wire \<noteq> lease_id then Inl lease_invalid
       else
         rbind (map_err (\<lambda>_. lease_invalid) (parse_digest (ae_hex_decode env) (ll_snapshot_id wire))) (\<lambda>_.
         rbind (map_err (\<lambda>_. lease_invalid) (timestamp rfc3339 (ll_lease_expires_at wire))) (\<lambda>_. Inr ()))))"

record legacy_descriptor_wire =
  ld_snapshot_id :: string
  ld_descriptor :: descriptor
  ld_lease_id :: string
  ld_lease_expires_at :: string

definition descriptor_invalid :: snapshot_error where
  "descriptor_invalid = SnapshotError_new IntegrityError ''invalid descriptor response contract''"

definition descriptor_validate ::
  "auth_env \<Rightarrow> 'v json_ops \<Rightarrow> ('v \<Rightarrow> legacy_descriptor_wire option) \<Rightarrow> ('v \<Rightarrow> descriptor option) \<Rightarrow> 'v
    \<Rightarrow> string \<Rightarrow> descriptor result" where
  "descriptor_validate env J from_wrapper from_bare v requested =
    rbind (if js_get J v ''descriptor'' \<noteq> None
           then
             rbind (ok_or (from_wrapper v) descriptor_invalid) (\<lambda>wrapper.
             if ld_snapshot_id wrapper \<noteq> requested \<or> ld_lease_id wrapper = [] \<or> ld_lease_expires_at wrapper = []
             then Inl descriptor_invalid else Inr (ld_descriptor wrapper))
           else ok_or (from_bare v) descriptor_invalid) (\<lambda>d.
    if snapshot_id d \<noteq> requested then Inl descriptor_invalid
    else rbind (validate_descriptor env d) (\<lambda>_. Inr d))"

section \<open>Resolve receipts\<close>

definition ATTEMPT_LIMIT :: nat where "ATTEMPT_LIMIT = 4"

record resolve_trace_receipt =
  logical_request_id :: string
  attempt_ids :: "string list"
  final_attempt_id :: string
  retry_count :: nat

definition echo_error :: snapshot_error where
  "echo_error = SnapshotError_new IntegrityError
     ''resolve observation response must echo exactly one matching request id''"

definition trace_byte :: "char \<Rightarrow> bool" where
  "trace_byte c =
    (let b = (of_char c :: nat) in
     (97 \<le> b \<and> b \<le> 122) \<or> (65 \<le> b \<and> b \<le> 90) \<or> (48 \<le> b \<and> b \<le> 57)
      \<or> c = CHR ''-'' \<or> c = CHR ''_'' \<or> c = CHR ''.'' \<or> c = CHR '':'' \<or> c = CHR ''/'')"

definition validate_logical_id :: "string \<Rightarrow> unit result" where
  "validate_logical_id i =
    (if i = [] \<or> 125 < length i \<or> \<not> list_all trace_byte i
     then Inl (SnapshotError_new InvalidRequest ''resolve observation id must be a bounded ASCII trace token'')
     else Inr ())"

definition receipt_new :: "string \<Rightarrow> resolve_trace_receipt result" where
  "receipt_new i =
    rbind (validate_logical_id i) (\<lambda>_.
    Inr \<lparr>logical_request_id = i, attempt_ids = [], final_attempt_id = [], retry_count = 0\<rparr>)"

definition receipt_attempt :: "resolve_trace_receipt \<Rightarrow> nat \<Rightarrow> (resolve_trace_receipt \<times> string) result" where
  "receipt_attempt self attempt =
    (if \<not> (1 \<le> attempt \<and> attempt \<le> ATTEMPT_LIMIT) \<or> length (attempt_ids self) \<noteq> attempt - 1
     then Inl echo_error
     else
       let i = logical_request_id self @ '':a'' @ show_nat attempt in
       Inr (self\<lparr>attempt_ids := attempt_ids self @ [i]\<rparr>, i))"

definition receipt_finish :: "resolve_trace_receipt \<Rightarrow> resolve_trace_receipt result" where
  "receipt_finish self =
    (if attempt_ids self = [] then Inl echo_error
     else Inr (self\<lparr>final_attempt_id := last (attempt_ids self),
                     retry_count := length (attempt_ids self) - 1\<rparr>))"

text \<open>The values of all \<^verbatim>\<open>x-request-id\<close> headers, each with its text when it is visible ASCII.\<close>

definition validate_echo :: "string option list \<Rightarrow> string \<Rightarrow> unit result" where
  "validate_echo values expected =
    (case values of
       [Some v] \<Rightarrow> if v = expected then Inr () else Inl echo_error
     | _ \<Rightarrow> Inl echo_error)"

section \<open>Chunk maps\<close>

definition binding_error :: snapshot_error where
  "binding_error = SnapshotError_new IntegrityError
     ''chunk-map JSON does not match its selected fixed-view contract''"

definition closed_object :: "'v json_ops \<Rightarrow> 'v \<Rightarrow> string list \<Rightarrow> unit result" where
  "closed_object J v allowed =
    rbind (ok_or (js_keys J v) binding_error) (\<lambda>keys.
    if list_ex (\<lambda>key. key \<notin> set allowed) keys then Inl binding_error else Inr ())"

definition MAP_FIELDS :: "string list" where
  "MAP_FIELDS = [''schema_version'', ''file_content_id'', ''file_size'', ''chunk_size'', ''chunk_count'',
     ''page_count'', ''pages_root'', ''map_id'']"

definition map_descriptor :: "'v json_ops \<Rightarrow> 'v \<Rightarrow> 'v \<Rightarrow> string \<Rightarrow> string \<Rightarrow> 'v result" where
  "map_descriptor J null v sid path =
    (if js_str J v ''snapshot_id'' \<noteq> Some sid \<or> js_str J v ''path'' \<noteq> Some path
     then Inl binding_error
     else if js_get J v ''map'' \<noteq> None
     then
       rbind (closed_object J v [''snapshot_id'', ''path'', ''map'']) (\<lambda>_.
       let map_value = (case js_get J v ''map'' of Some x \<Rightarrow> x | None \<Rightarrow> null) in
       rbind (closed_object J map_value MAP_FIELDS) (\<lambda>_. Inr map_value))
     else rbind (closed_object J v (''snapshot_id'' # ''path'' # MAP_FIELDS)) (\<lambda>_. Inr v))"

definition str_or_empty :: "string option \<Rightarrow> string" where
  "str_or_empty s = (case s of None \<Rightarrow> [] | Some t \<Rightarrow> t)"

definition leaf_encoded ::
  "'v json_ops \<Rightarrow> 'v \<Rightarrow> 'v \<Rightarrow> string \<Rightarrow> string \<Rightarrow> nat \<Rightarrow> nat \<Rightarrow> nat \<Rightarrow> string result" where
  "leaf_encoded J null v sid path page_count page_index expected_count =
    (if js_get J v ''leaf_base64'' \<noteq> None \<or> js_get J v ''page_index'' \<noteq> None
     then
       rbind (closed_object J v [''map_id'', ''page_index'', ''leaf_base64'', ''proof'']) (\<lambda>_.
       rbind (parse_count (str_or_empty (js_str J v ''page_index'')) ''page_index'') (\<lambda>i.
       if i \<noteq> page_index then Inl binding_error
       else ok_or (js_str J v ''leaf_base64'') binding_error))
     else
       rbind (closed_object J v [''snapshot_id'', ''path'', ''map_id'', ''page_count'', ''leaf'', ''proof'']) (\<lambda>_.
       if js_str J v ''snapshot_id'' \<noteq> Some sid \<or> js_str J v ''path'' \<noteq> Some path
       then Inl binding_error
       else
         let leaf = (case js_get J v ''leaf'' of Some x \<Rightarrow> x | None \<Rightarrow> null) in
         rbind (closed_object J leaf [''page_index'', ''count'', ''data_base64'']) (\<lambda>_.
         rbind (parse_count (str_or_empty (js_str J v ''page_count'')) ''page_count'') (\<lambda>pc.
         if pc \<noteq> page_count then Inl binding_error
         else rbind (parse_count (str_or_empty (js_str J leaf ''page_index'')) ''page_index'') (\<lambda>pi.
           if pi \<noteq> page_index then Inl binding_error
           else rbind (parse_count (str_or_empty (js_str J leaf ''count'')) ''leaf count'') (\<lambda>n.
             if n \<noteq> expected_count then Inl binding_error
             else ok_or (js_str J leaf ''data_base64'') binding_error))))))"

definition map_leaf ::
  "'v json_ops \<Rightarrow> 'v \<Rightarrow> 'v \<Rightarrow> string \<Rightarrow> string \<Rightarrow> string \<Rightarrow> nat \<Rightarrow> nat \<Rightarrow> nat \<Rightarrow> (string \<times> 'v list) result" where
  "map_leaf J null v sid path map_id page_count page_index expected_count =
    (if js_str J v ''map_id'' \<noteq> Some map_id then Inl binding_error
     else
       rbind (leaf_encoded J null v sid path page_count page_index expected_count) (\<lambda>encoded.
       if div_ceil (16 + 32 * expected_count) 3 * 4 < length encoded
       then Inl (SnapshotError_new LimitExceeded
                   ''chunk leaf exceeds the expected fixed page encoding budget'')
       else
         rbind (ok_or (Option.bind (js_get J v ''proof'') (js_as_array J)) binding_error) (\<lambda>proof_steps.
         if 32 < length proof_steps
         then Inl (SnapshotError_new LimitExceeded ''chunk proof exceeds 32 steps'')
         else rbind (try_fold (\<lambda>_ step. closed_object J step [''side'', ''sibling_pages'', ''digest'']) ()
                       proof_steps) (\<lambda>_. Inr (encoded, proof_steps)))))"

section \<open>Lemmas\<close>

lemma canonical_names_bound: "list_all (\<lambda>(c, k). expected_status c \<noteq> None) canonical_names"
  by code_simp

lemma from_wire_status: "from_wire c = Some k \<Longrightarrow> \<exists>st. expected_status c = Some st"
  using canonical_names_bound unfolding from_wire_def list_all_iff by (fastforce dest: map_of_SomeD)

lemma lease_segment_simps [simp]:
  "lease_segment [] = []"
  "lease_segment (c # s) =
    (if segment_plain c then [c]
     else [CHR ''%'', upper_hex_digit (of_char c div 16), upper_hex_digit (of_char c mod 16)]) @ lease_segment s"
  by (simp_all add: lease_segment_def)

lemma segment_plain_not_special: "segment_plain c \<Longrightarrow> c \<noteq> CHR ''%'' \<and> c \<noteq> CHR ''/''"
  by (auto simp: segment_plain_def Let_def)

lemma urldecode_lease_segment [simp]: "urldecode (lease_segment s) = s"
proof (induction s)
  case (Cons c s)
  have "(of_char c :: nat) div 16 < 16"
    using of_char_less_256[of c] by linarith
  with Cons show ?case
    by (simp add: segment_plain_not_special)
qed simp

lemma upper_hex_table: "\<forall>n\<in>set [0..<16]. upper_hex_digit n \<noteq> CHR ''/''"
  by code_simp

lemma upper_hex_no_slash: "n < 16 \<Longrightarrow> upper_hex_digit n \<noteq> CHR ''/''"
  using upper_hex_table by (simp add: atLeast0LessThan)

lemma lease_segment_no_slash: "CHR ''/'' \<notin> set (lease_segment s)"
proof (induction s)
  case (Cons c s)
  have "(of_char c :: nat) div 16 < 16" "(of_char c :: nat) mod 16 < 16"
    using of_char_less_256[of c] by linarith+
  with Cons show ?case
    using segment_plain_not_special[of c] upper_hex_no_slash by (auto dest: sym)
qed simp

lemma lease_path_inject:
  assumes "lease_segment a @ (if r then ''/renew'' else []) = lease_segment b @ (if s then ''/renew'' else [])"
  shows "a = b \<and> r = s"
proof -
  have no: "lease_segment x \<noteq> lease_segment y @ ''/renew''" for x y
  proof
    assume "lease_segment x = lease_segment y @ ''/renew''"
    then have "CHR ''/'' \<in> set (lease_segment x)" by simp
    then show False using lease_segment_no_slash by blast
  qed
  have "r = s"
    using assms no[of a b] no[of b a] by (cases r; cases s) auto
  moreover from this have "lease_segment a = lease_segment b"
    using assms by (cases s) auto
  ultimately show ?thesis
    by (metis urldecode_lease_segment)
qed

lemma check_counters_Inr: "check_counters cs = Inr u \<longleftrightarrow> (\<forall>c\<in>set cs. is_ok (counter c))"
  unfolding check_counters_def by (induction cs) (auto simp: is_ok_iff split: sum.splits)

lemma counter_decimal: "is_ok (counter c) \<Longrightarrow> \<exists>n. decimal c f = Inr n"
  by (auto simp: counter_ok_iff decimal_Inr_iff)

lemma chars_count_Nil [simp]: "chars_count [] = 0"
  by (simp add: chars_count_def)

lemma parse_request_Inr:
  assumes "parse_request env rfc J fc fl v request require = Inr resp"
    and "js_get J v key \<noteq> None" "key \<in> set [''writer_epoch'', ''resolved_at'', ''delivery'', ''offline_grant'']"
  obtains wire a b where "fc v = Some wire" "rr_descriptor resp = cr_descriptor wire"
    "validate_descriptor env (cr_descriptor wire) = Inr ()" "scope (cr_descriptor wire) = rq_scope request"
    "\<And>w. rq_target request = View w \<Longrightarrow> namespace_view_id (cr_descriptor wire) = w"
    "cr_delivery wire = (case rq_delivery request of Full \<Rightarrow> ''full'' | Lazy \<Rightarrow> ''lazy'')"
    "opaque (rr_lease_id resp)"
    "is_ok (counter (rr_publication_sequence resp))" "is_ok (counter (rr_authorization_epoch resp))"
    "timestamp rfc (cr_resolved_at wire) = Inr a" "timestamp rfc (rr_lease_expires_at resp) = Inr b" "a < b"
    "check_grant rfc (rr_offline_grant resp) (cr_descriptor wire) = Inr ()"
proof -
  have can: "list_ex (\<lambda>key. js_get J v key \<noteq> None) [''writer_epoch'', ''resolved_at'', ''delivery'', ''offline_grant'']"
    using assms(2,3) by (auto simp: list_ex_iff)
  obtain wire a b where w: "fc v = Some wire" "validate_descriptor env (cr_descriptor wire) = Inr ()"
      "\<not> (scope (cr_descriptor wire) \<noteq> rq_scope request
          \<or> cr_delivery wire \<noteq> (case rq_delivery request of Full \<Rightarrow> ''full'' | Lazy \<Rightarrow> ''lazy'')
          \<or> (case rq_target request of View view_id \<Rightarrow> namespace_view_id (cr_descriptor wire) \<noteq> view_id | Latest \<Rightarrow> False)
          \<or> \<not> opaque (cr_lease_id wire))"
      "check_counters [cr_publication_sequence wire, cr_writer_epoch wire, cr_authorization_epoch wire] = Inr ()"
      "timestamp rfc (cr_resolved_at wire) = Inr a" "timestamp rfc (cr_lease_expires_at wire) = Inr b" "a < b"
      "check_grant rfc (cr_offline_grant wire) (cr_descriptor wire) = Inr ()"
      "resp = \<lparr>rr_descriptor = cr_descriptor wire, rr_lease_id = cr_lease_id wire,
         rr_lease_expires_at = cr_lease_expires_at wire, rr_publication_sequence = cr_publication_sequence wire,
         rr_authorization_epoch = cr_authorization_epoch wire, rr_offline_grant = cr_offline_grant wire\<rparr>"
    using assms(1) can unfolding parse_request_def Let_def by (simp add: result_simps not_le split: if_split_asm) blast
  show ?thesis
    by (rule that[of wire a b]) (use w in \<open>auto simp: check_counters_Inr split: resolve_target.splits\<close>)
qed

section \<open>Properties\<close>

text \<open>The two error decoders agree: the closed one accepts a response exactly when the general one
  accepts the same value as canonical and the code is in the canonical set, with the same message and
  status.  Every canonical code is tied to one HTTP status.\<close>

theorem error_decoders_agree:
  assumes "parse_json bytes = fc v" "length bytes \<le> MAX_JSON_RESPONSE_BYTES"
    and "\<And>e. fc v = Some e \<Longrightarrow> \<exists>detail. js_get J v ''error'' = Some detail \<and> js_get J detail ''request_id'' \<noteq> None"
  shows "(is_ok (parse_response parse_json bytes st) \<longleftrightarrow>
      (\<exists>e. fc v = Some e \<and> from_wire (ce_code e) \<noteq> None
        \<and> error_parse J fc fl v st = Some \<lparr>code = from_server (ce_code e), message = ce_message e, http_status = st\<rparr>))
    \<and> (from_wire c = Some k \<longrightarrow> (\<exists>!status. expected_status c = Some status))"
proof (intro conjI impI)
  show "\<exists>!status. expected_status c = Some status" if "from_wire c = Some k"
    using from_wire_status[OF that] by auto
  show "is_ok (parse_response parse_json bytes st) \<longleftrightarrow>
      (\<exists>e. fc v = Some e \<and> from_wire (ce_code e) \<noteq> None
        \<and> error_parse J fc fl v st = Some \<lparr>code = from_server (ce_code e), message = ce_message e, http_status = st\<rparr>)"
  proof (cases "fc v")
    case None
    then show ?thesis
      using assms(1,2) by (simp add: parse_response_def)
  next
    case (Some e)
    from assms(3)[OF Some] obtain detail where "js_get J v ''error'' = Some detail" "js_get J detail ''request_id'' \<noteq> None"
      by blast
    then have "error_parse J fc fl v st = (if canonical_shape_bad e st then None
        else Some \<lparr>code = from_server (ce_code e), message = ce_message e, http_status = st\<rparr>)"
      using Some by (auto simp: error_parse_def)
    moreover have "is_ok (parse_response parse_json bytes st) \<longleftrightarrow> \<not> canonical_shape_bad e st \<and> from_wire (ce_code e) \<noteq> None"
      using Some assms(1,2) by (cases "from_wire (ce_code e)") (auto simp: parse_response_def)
    ultimately show ?thesis
      using Some by auto
  qed
qed

definition demo_ops :: "string json_ops" where
  "demo_ops = \<lparr>js_get = (\<lambda>v k. if v = ''top'' \<and> k = ''error'' then Some ''detail''
      else if v = ''detail'' \<and> k \<in> set [''code'', ''message'', ''request_id'', ''retryable''] then Some k
      else if v = ''resolve'' \<and> k = ''delivery'' then Some ''full'' else None),
     js_as_str = Some, js_as_array = (\<lambda>_. None), js_keys = (\<lambda>_. None)\<rparr>"

definition demo_error :: canonical_error where
  "demo_error = \<lparr>ce_code = ''RATE_LIMITED'', ce_message = ''slow down'', ce_request_id = ''r1'', ce_retryable = True\<rparr>"

theorem error_decoders_agree_witness:
  "is_ok (parse_response (\<lambda>_. Some demo_error) [0] 429)
    \<and> \<not> is_ok (parse_response (\<lambda>_. Some demo_error) [0] 503)"
proof -
  have len: "length [0 :: byte] \<le> MAX_JSON_RESPONSE_BYTES"
    by (simp add: MAX_JSON_RESPONSE_BYTES_def)
  have get: "\<And>e. (\<lambda>_ :: string. Some demo_error) ''top'' = Some e \<Longrightarrow>
      \<exists>detail. js_get demo_ops ''top'' ''error'' = Some detail \<and> js_get demo_ops detail ''request_id'' \<noteq> None"
    by (simp add: demo_ops_def)
  have parse: "error_parse demo_ops (\<lambda>_. Some demo_error) (\<lambda>_. None) ''top'' 429
      = Some \<lparr>code = from_server ''RATE_LIMITED'', message = ''slow down'', http_status = 429\<rparr>"
    "error_parse demo_ops (\<lambda>_. Some demo_error) (\<lambda>_. None) ''top'' 503 = None"
    "from_wire ''RATE_LIMITED'' \<noteq> None"
    by code_simp+
  show ?thesis
    using error_decoders_agree[where parse_json = "\<lambda>_. Some demo_error" and fc = "\<lambda>_. Some demo_error"
        and bytes = "[0]" and v = "''top''" and J = demo_ops and fl = "\<lambda>_. None", OF refl len get]
      parse by (simp add: demo_error_def)
qed

text \<open>Different leases are renewed and released at different URLs, and the two actions at different
  paths: an opaque lease id, whatever bytes it contains, is one path segment that can be decoded.\<close>

theorem lease_urls_differ:
  assumes "lease_url env nobase base a r = Inr u" "lease_url env nobase base b s = Inr w" "url_path u = url_path w"
  shows "a = b \<and> r = s"
proof -
  obtain url where "ae_url_parse env (base @ ''/api/v2/snapshots/leases'') = Some url"
      "url_path u = url_path url @ ''/'' @ lease_segment a @ (if r then ''/renew'' else [])"
    using assms(1) by (auto simp: lease_url_def result_simps split: if_splits)
  moreover have "url_path w = url_path url' @ ''/'' @ lease_segment b @ (if s then ''/renew'' else [])"
      if "ae_url_parse env (base @ ''/api/v2/snapshots/leases'') = Some url'" for url'
    using assms(2) that by (auto simp: lease_url_def result_simps split: if_splits)
  ultimately have "lease_segment a @ (if r then ''/renew'' else []) = lease_segment b @ (if s then ''/renew'' else [])"
    using assms(3) by (metis append_same_eq same_append_eq)
  then show ?thesis by (rule lease_path_inject)
qed

theorem lease_urls_differ_witness:
  "map_sum id url_path (lease_url demo_auth (\<lambda>_. False) ''https://mega'' ''a/renew'' False) = Inr ''//a%2Frenew''
    \<and> map_sum id url_path (lease_url demo_auth (\<lambda>_. False) ''https://mega'' ''a'' True) \<noteq> Inr ''//a%2Frenew''"
proof -
  have one: "map_sum id url_path (lease_url demo_auth (\<lambda>_. False) ''https://mega'' ''a/renew'' False) = Inr ''//a%2Frenew''"
    by code_simp
  moreover have "map_sum id url_path (lease_url demo_auth (\<lambda>_. False) ''https://mega'' ''a'' True) \<noteq> Inr ''//a%2Frenew''"
  proof
    assume "map_sum id url_path (lease_url demo_auth (\<lambda>_. False) ''https://mega'' ''a'' True) = Inr ''//a%2Frenew''"
    with one obtain u w where "lease_url demo_auth (\<lambda>_. False) ''https://mega'' ''a/renew'' False = Inr u"
        "lease_url demo_auth (\<lambda>_. False) ''https://mega'' ''a'' True = Inr w" "url_path u = url_path w"
      by (cases "lease_url demo_auth (\<lambda>_. False) ''https://mega'' ''a/renew'' False";
          cases "lease_url demo_auth (\<lambda>_. False) ''https://mega'' ''a'' True") auto
    from lease_urls_differ[OF this] show False by simp
  qed
  ultimately show ?thesis ..
qed


definition demo_resolve :: canonical_resolve where
  "demo_resolve = \<lparr>cr_descriptor = demo_descriptor, cr_publication_sequence = ''7'', cr_writer_epoch = ''1'',
     cr_lease_id = ''lease'', cr_lease_expires_at = ''2026-01-01T01:00:00Z'', cr_authorization_epoch = ''1'',
     cr_resolved_at = ''2026-01-01T00:00:00Z'', cr_delivery = ''full'', cr_offline_grant = None\<rparr>"

definition demo_clock :: "string \<Rightarrow> int option" where
  "demo_clock s = Some (if s = ''2026-01-01T00:00:00Z'' then 0 else 3600)"

lemma demo_counters: "is_ok (counter ''7'')" "is_ok (counter ''1'')"
proof -
  have "''7'' = show_nat 7" "''1'' = show_nat 1"
    by code_simp+
  then show "is_ok (counter ''7'')" "is_ok (counter ''1'')"
    unfolding counter_ok_iff by (auto simp: i64_MAX_def)
qed

lemma demo_parse_request:
  "\<exists>resp. parse_request demo_auth demo_clock demo_ops (\<lambda>_. Some demo_resolve) (\<lambda>_. None) ''resolve''
     (ResolveRequest_latest ''/p'' 60) True = Inr resp \<and> rr_descriptor resp = demo_descriptor
     \<and> rr_authorization_epoch resp = ''1'' \<and> rr_publication_sequence resp = ''7''"
proof -
  have "check_counters [''7'', ''1'', ''1''] = Inr ()"
    using demo_counters by (simp add: check_counters_Inr)
  moreover have "js_get demo_ops ''resolve'' ''delivery'' \<noteq> None" "scope demo_descriptor = ''/p''"
    by (simp_all add: demo_ops_def demo_descriptor_def)
  moreover have "opaque ''lease''" by code_simp
  moreover have "timestamp demo_clock ''2026-01-01T00:00:00Z'' = Inr 0" "timestamp demo_clock ''2026-01-01T01:00:00Z'' = Inr 3600"
    by (simp_all add: timestamp_def demo_clock_def)
  ultimately show ?thesis
    using demo_descriptor_valid
    by (simp add: parse_request_def demo_resolve_def ResolveRequest_latest_def check_grant_def Let_def)
qed


definition run_attempts :: "resolve_trace_receipt \<Rightarrow> nat list \<Rightarrow> resolve_trace_receipt result" where
  "run_attempts r attempts = try_fold (\<lambda>r n. map_sum id fst (receipt_attempt r n)) r attempts"

lemma receipt_attempt_Inr:
  "map_sum id fst (receipt_attempt r n) = Inr r' \<longleftrightarrow>
    n = Suc (length (attempt_ids r)) \<and> n \<le> ATTEMPT_LIMIT
    \<and> r' = r\<lparr>attempt_ids := attempt_ids r @ [logical_request_id r @ '':a'' @ show_nat n]\<rparr>"
  by (cases n) (auto simp: receipt_attempt_def Let_def)

lemma run_attempts_Inr:
  "run_attempts r ns = Inr r' \<longleftrightarrow>
    ns = [Suc (length (attempt_ids r))..<Suc (length (attempt_ids r) + length ns)]
    \<and> (ns = [] \<or> length (attempt_ids r) + length ns \<le> ATTEMPT_LIMIT)
    \<and> r' = r\<lparr>attempt_ids := attempt_ids r @ map (\<lambda>n. logical_request_id r @ '':a'' @ show_nat n) ns\<rparr>"
proof (induction ns arbitrary: r)
  case Nil
  show ?case by (auto simp: run_attempts_def)
next
  case (Cons n ns)
  have "run_attempts r (n # ns) = Inr r' \<longleftrightarrow>
      (\<exists>s. map_sum id fst (receipt_attempt r n) = Inr s \<and> run_attempts s ns = Inr r')"
    by (auto simp: run_attempts_def split: sum.splits)
  then show ?case
    by (auto simp: receipt_attempt_Inr Cons.IH upt_conv_Cons)
qed

text \<open>A resolve makes at most four attempts, numbered from one without gaps; the receipt lists one
  distinct bounded id per attempt, its final id is the last of them and its retry count is one less
  than their number.\<close>

theorem resolve_receipt_attempts:
  assumes "receipt_new i = Inr r0" "run_attempts r0 ns = Inr r1" "receipt_finish r1 = Inr r"
  shows "ns = [1..<Suc (length ns)] \<and> length ns \<in> {1..4}
    \<and> attempt_ids r = map (\<lambda>n. i @ '':a'' @ show_nat n) ns \<and> distinct (attempt_ids r)
    \<and> (\<forall>a\<in>set (attempt_ids r). length a \<le> 128)
    \<and> final_attempt_id r = last (attempt_ids r) \<and> retry_count r = length ns - 1"
proof -
  have r0: "r0 = \<lparr>logical_request_id = i, attempt_ids = [], final_attempt_id = [], retry_count = 0\<rparr>"
    and len: "length i \<le> 125"
    using assms(1) by (auto simp: receipt_new_def validate_logical_id_def split: if_splits)
  have ns: "ns = [1..<Suc (length ns)]" "ns = [] \<or> length ns \<le> 4"
    and r1: "r1 = r0\<lparr>attempt_ids := map (\<lambda>n. i @ '':a'' @ show_nat n) ns\<rparr>"
    using assms(2) unfolding run_attempts_Inr by (simp_all add: r0 ATTEMPT_LIMIT_def)
  have fin: "ns \<noteq> []" "r = r1\<lparr>final_attempt_id := last (attempt_ids r1), retry_count := length ns - 1\<rparr>"
    using assms(3) by (auto simp: receipt_finish_def r1 split: if_splits)
  have short: "length (show_nat n) = 1" if "n \<in> set ns" for n
  proof -
    have "n \<in> set [1..<Suc (length ns)]"
      using that ns(1) by simp
    with ns(2) fin(1) have "n < 10" by auto
    then show ?thesis by (simp add: show_nat.simps)
  qed
  have "distinct ns"
    using ns(1) by (metis distinct_upt)
  then have "distinct (map (\<lambda>n. i @ '':a'' @ show_nat n) ns)"
    by (auto simp: distinct_map inj_on_def show_nat_inject)
  then show ?thesis
    using ns fin r1 r0 len short by (auto simp: Suc_le_eq)
qed

theorem resolve_receipt_attempts_witness:
  "\<exists>r0 r1 r. receipt_new ''trace'' = Inr r0 \<and> run_attempts r0 [1, 2] = Inr r1 \<and> receipt_finish r1 = Inr r
    \<and> retry_count r = 1"
proof -
  define r0 where "r0 = \<lparr>logical_request_id = ''trace'', attempt_ids = [], final_attempt_id = [], retry_count = 0\<rparr>"
  have new: "receipt_new ''trace'' = Inr r0"
    unfolding r0_def by code_simp
  obtain r1 where run: "run_attempts r0 [1, 2] = Inr r1" "attempt_ids r1 \<noteq> []"
    unfolding run_attempts_Inr by (simp add: r0_def ATTEMPT_LIMIT_def upt_conv_Cons)
  then obtain r where fin: "receipt_finish r1 = Inr r"
    by (simp add: receipt_finish_def)
  from resolve_receipt_attempts[OF new run(1) fin] new run(1) fin show ?thesis by auto
qed

end
