(* ===== verification/Frames.thy ===== *)
theory Frames
  imports Wire_Contracts Directory "HOL-Library.AList"
begin

text \<open>
  Frame transport (\<^verbatim>\<open>snapshot/frames.rs\<close>): splitting a request into batches, the byte budget of a
  response, the scan of the frame headers before anything is decoded, and the collectors that accept a
  response only when it carries exactly the requested units.  The byte codec (\<^verbatim>\<open>mst2_codec\<close>), the JSON
  writer, SHA-256 and the HTTP exchange are arguments.  A computation yields None where the code would
  panic (an unreachable branch) or not return, so that returning is a claim of its own.
\<close>

section \<open>The codec\<close>

record end_frame =
  request_item_count :: nat
  unique_unit_count :: nat
  end_logical_bytes :: nat
  request_body_sha256 :: bytes

record chunk_unit =
  cu_map_id :: bytes
  cu_file_content_id :: bytes
  cu_chunk_index :: nat
  cu_bytes :: bytes

datatype frame =
    Meta_Frame "(bytes \<times> bytes) list"
  | Object_Frame "(bytes \<times> bytes) list"
  | Chunk_Frame chunk_unit
  | End_Frame end_frame
  | Error_Frame string string

record treeframe_codec =
  HEADER_LEN :: nat
  KIND_META :: byte
  KIND_OBJECT :: byte
  KIND_CHUNK :: byte
  KIND_END :: byte
  KIND_ERROR :: byte
  META_MAX_RAW :: nat
  OBJECT_MAX_RAW :: nat
  OBJECT_MAX_LEN :: nat
  CHUNK_MAX_LEN :: nat
  ERROR_MAX_BYTES :: nat
  MAX_DEPTH :: nat
  PAGE_MAX_BYTES :: nat
  parse_stream :: "bytes \<Rightarrow> string + frame list"
  page_children :: "bytes \<Rightarrow> string + (byte \<times> bytes) list option"
  tf_sha256 :: "bytes \<Rightarrow> bytes"
  tf_hex_decode :: "string \<Rightarrow> bytes option"

definition limit_err :: "string \<Rightarrow> snapshot_error" where
  "limit_err m = SnapshotError_new LimitExceeded m"

definition digest_err :: "string \<Rightarrow> snapshot_error" where
  "digest_err m = SnapshotError_new DigestMismatch m"

definition frame_err :: "string \<Rightarrow> string \<Rightarrow> snapshot_error" where
  "frame_err context e = SnapshotError_new DigestMismatch (context @ '': '' @ e)"

section \<open>Request batches\<close>

definition MAX_CHUNK_BATCH :: nat where "MAX_CHUNK_BATCH = 128"
definition MAX_OBJECT_BATCH :: nat where "MAX_OBJECT_BATCH = 128"
definition MAX_METADATA_BATCH :: nat where "MAX_METADATA_BATCH = 64"
definition MAX_OBJECT_BATCH_BYTES :: nat where "MAX_OBJECT_BATCH_BYTES = 8 * 1024 * 1024"

text \<open>The JSON writer: the empty envelope, one item, and the whole request body.\<close>

record 'i request_json =
  rj_envelope :: "string option \<Rightarrow> bytes"
  rj_item :: "'i \<Rightarrow> bytes"
  rj_body :: "'i list \<Rightarrow> string option \<Rightarrow> string + bytes"

definition batch_step ::
  "('i \<Rightarrow> nat) \<Rightarrow> nat \<Rightarrow> nat \<Rightarrow> nat \<Rightarrow> 'i list \<Rightarrow> 'i list list \<times> nat \<times> nat \<Rightarrow> nat \<times> 'i
    \<Rightarrow> ('i list list \<times> nat \<times> nat) result" where
  "batch_step item_size overhead limit max_items items state indexed =
    (case (state, indexed) of ((batches, start, bytes), (index, item)) \<Rightarrow>
       let item_bytes = item_size item in
       if limit < overhead + item_bytes
       then Inl (limit_err ''one TreeFrame item exceeds the JSON request byte limit'')
       else
         let comma = (if start < index then 1 else 0);
             full = (limit < bytes + comma + item_bytes \<or> max_items \<le> index - start);
             batches = (if full then batches @ [slice start (index - start) items] else batches);
             bytes = (if full then overhead else bytes);
             start = (if full then index else start)
         in Inr (batches, start, bytes + (if start < index then 1 else 0) + item_bytes))"

definition request_batches ::
  "'i request_json \<Rightarrow> 'i list \<Rightarrow> string option \<Rightarrow> nat \<Rightarrow> nat \<Rightarrow> 'i list list result" where
  "request_batches J items encoding limit max_items =
    (let overhead = length (rj_envelope J encoding) in
     rbind (try_fold (batch_step (\<lambda>i. length (rj_item J i)) overhead limit max_items items)
              ([], 0, overhead) (enumerate 0 items)) (\<lambda>(batches, start, _).
     Inr (if start < length items then batches @ [drop start items] else batches)))"

section \<open>The response budget and the header scan\<close>

record response_budget =
  rb_units :: nat
  rb_raw_bytes :: nat
  rb_wire_bytes :: nat

definition ResponseBudget_new :: "treeframe_codec \<Rightarrow> nat \<Rightarrow> nat \<Rightarrow> nat \<Rightarrow> response_budget result" where
  "ResponseBudget_new K units logical_bytes unit_overhead =
    (let overflow = limit_err ''TreeFrame response byte budget overflow'' in
     rbind (ok_or (Option.bind (Option.bind (checked_mul units unit_overhead) (\<lambda>overhead.
                checked_add overhead logical_bytes)) (\<lambda>bytes. checked_add bytes (ERROR_MAX_BYTES K))) overflow)
       (\<lambda>raw_bytes.
     rbind (ok_or (Option.bind (Option.bind (checked_add units 1) (\<lambda>frames. checked_mul frames (HEADER_LEN K)))
                (\<lambda>headers. Option.bind (checked_mul raw_bytes 2) (\<lambda>b. checked_add b headers))) overflow)
       (\<lambda>wire_bytes. Inr \<lparr>rb_units = units, rb_raw_bytes = raw_bytes, rb_wire_bytes = wire_bytes\<rparr>)))"

definition from_le_bytes :: "bytes \<Rightarrow> nat" where
  "from_le_bytes b = foldr (\<lambda>x n. unat x + 256 * n) b 0"

definition header_wire_len :: "bytes \<Rightarrow> nat" where
  "header_wire_len header = from_le_bytes (slice 12 4 header)"

definition header_raw_len :: "bytes \<Rightarrow> nat" where
  "header_raw_len header = from_le_bytes (slice 16 4 header)"

definition max_raw :: "treeframe_codec \<Rightarrow> byte \<Rightarrow> nat option" where
  "max_raw K kind =
    (if kind = KIND_META K then Some (META_MAX_RAW K)
     else if kind = KIND_OBJECT K then Some (OBJECT_MAX_RAW K)
     else if kind = KIND_CHUNK K then Some (76 + CHUNK_MAX_LEN K)
     else if kind = KIND_END K then Some 48
     else if kind = KIND_ERROR K then Some (ERROR_MAX_BYTES K)
     else None)"

text \<open>One round of the scan: the next offset, the frame count and the announced raw bytes.\<close>

definition scan_lengths ::
  "treeframe_codec \<Rightarrow> mst2_client \<Rightarrow> bytes \<Rightarrow> response_budget \<Rightarrow> bytes \<Rightarrow> nat \<Rightarrow> nat \<times> nat \<times> nat
    \<Rightarrow> (nat \<times> nat \<times> nat) result" where
  "scan_lengths K client raw budget header most state =
    (case state of (offset, frames, raw_total) \<Rightarrow>
       let wire_len = header_wire_len header; raw_len = header_raw_len header in
       rbind (ensure (\<not> (most < raw_len \<or> frame_wire_limit client < wire_len))
                (limit_err ''TreeFrame payload exceeds its frame byte limit'')) (\<lambda>_.
       rbind (ensure (\<not> (is_canonical client \<and> header ! 7 \<noteq> 0))
                (limit_err ''reader selected identity TreeFrames'')) (\<lambda>_.
       rbind (ok_or (checked_add raw_total raw_len)
                (limit_err ''TreeFrame raw response byte count overflow'')) (\<lambda>raw_total.
       rbind (ensure (\<not> (rb_units budget + 2 < frames + 1 \<or> rb_raw_bytes budget < raw_total))
                (limit_err ''TreeFrame response exceeds its request's frame or raw byte budget'')) (\<lambda>_.
       rbind (ok_or (Option.bind (Option.bind (checked_add offset (HEADER_LEN K)) (\<lambda>start. checked_add start wire_len))
                  (\<lambda>finish. if finish \<le> length raw then Some finish else None))
                (digest_err ''truncated TreeFrame payload'')) (\<lambda>finish.
       Inr (finish, frames + 1, raw_total)))))))"

definition scan_frame ::
  "treeframe_codec \<Rightarrow> mst2_client \<Rightarrow> bytes \<Rightarrow> string \<Rightarrow> byte \<Rightarrow> string \<Rightarrow> response_budget
    \<Rightarrow> nat \<times> nat \<times> nat \<Rightarrow> (nat \<times> nat \<times> nat) run" where
  "scan_frame K client raw context data_kind data_name budget state =
    (let offset = fst state; header = slice offset (HEADER_LEN K) raw; kind = header ! 6 in
     run_bind (Some (ensure (HEADER_LEN K \<le> length raw - offset) (digest_err ''truncated TreeFrame header''))) (\<lambda>_.
     run_bind (Some (ensure (\<not> (kind \<noteq> KIND_END K \<and> kind \<noteq> KIND_ERROR K \<and> kind \<noteq> data_kind))
         (digest_err (context @ '' contains a non-'' @ data_name @ '' data frame'')))) (\<lambda>_.
     map_option (\<lambda>most. scan_lengths K client raw budget header most state) (max_raw K kind))))"

partial_function (option) scan_frames ::
  "treeframe_codec \<Rightarrow> mst2_client \<Rightarrow> bytes \<Rightarrow> string \<Rightarrow> byte \<Rightarrow> string \<Rightarrow> response_budget
    \<Rightarrow> nat \<times> nat \<times> nat \<Rightarrow> unit run" where
  [code]: "scan_frames K client raw context data_kind data_name budget state =
    (if \<not> fst state < length raw then Some (Inr ())
     else (case scan_frame K client raw context data_kind data_name budget state of
             None \<Rightarrow> None
           | Some (Inl e) \<Rightarrow> Some (Inl e)
           | Some (Inr state) \<Rightarrow> scan_frames K client raw context data_kind data_name budget state))"

definition response_frames ::
  "treeframe_codec \<Rightarrow> mst2_client \<Rightarrow> bytes \<Rightarrow> string \<Rightarrow> byte \<Rightarrow> string \<Rightarrow> response_budget \<Rightarrow> frame list run" where
  "response_frames K client raw context data_kind data_name budget =
    run_bind (scan_frames K client raw context data_kind data_name budget (0, 0, 0)) (\<lambda>_.
    Some (map_err (frame_err context) (parse_stream K raw)))"

section \<open>Response contracts\<close>

definition check_end :: "treeframe_codec \<Rightarrow> frame list \<Rightarrow> bytes \<Rightarrow> nat \<Rightarrow> (nat \<times> nat) result" where
  "check_end K frames request_body expect_items =
    (case (if frames = [] then None else Some (last frames)) of
       Some (Error_Frame c request_id) \<Rightarrow>
         Inl (SnapshotError_new Internal
           (''server rejected TreeFrame request: '' @ c @ '' (request_id '' @ request_id @ '')''))
     | Some (End_Frame e) \<Rightarrow>
         if request_item_count e \<noteq> expect_items
         then Inl (digest_err (''END item count '' @ show_nat (request_item_count e) @ '' != request ''
                    @ show_nat expect_items))
         else if request_body_sha256 e \<noteq> tf_sha256 K request_body
         then Inl (digest_err ''END request_body_sha256 does not match the body sent'')
         else Inr (unique_unit_count e, end_logical_bytes e)
     | _ \<Rightarrow> Inl (digest_err ''missing END frame''))"

record metadata_page_item =
  mi_directory_path :: string
  mi_route :: bytes
  mi_expected_digest :: "string option"

text \<open>
  The parents of a page: one pair per child reference of a branch page, in page order.  \<^verbatim>\<open>ancestors\<close>
  follows one label of the route upwards from a frontier of pages.
\<close>

definition parent_edges ::
  "treeframe_codec \<Rightarrow> (bytes \<times> bytes) list \<Rightarrow> ((byte \<times> bytes) \<times> bytes) list result" where
  "parent_edges K pages =
    rbind (try_map (\<lambda>(page_id, body).
        rbind (map_err (frame_err ''metadata witness page'') (page_children K body)) (\<lambda>children.
        Inr (case children of None \<Rightarrow> [] | Some cs \<Rightarrow> map (\<lambda>child. (child, page_id)) cs))) pages)
      (\<lambda>edges. Inr (concat edges))"

definition ancestors :: "((byte \<times> bytes) \<times> bytes) list \<Rightarrow> byte \<Rightarrow> bytes set \<Rightarrow> bytes set" where
  "ancestors parents label frontier =
    set (map snd (filter (\<lambda>((l, child), _). l = label \<and> child \<in> frontier) parents))"

definition route_step ::
  "((byte \<times> bytes) \<times> bytes) list \<Rightarrow> bytes set \<times> bytes set \<Rightarrow> byte \<Rightarrow> (bytes set \<times> bytes set) result" where
  "route_step parents state label =
    (case state of (expected, frontier) \<Rightarrow>
       let up = ancestors parents label frontier in
       if up = {}
       then Inl (digest_err ''metadata/pages response is missing a requested route witness'')
       else Inr (expected \<union> up, up))"

definition item_witnesses ::
  "treeframe_codec \<Rightarrow> ((byte \<times> bytes) \<times> bytes) list \<Rightarrow> bytes set \<Rightarrow> metadata_page_item \<Rightarrow> bytes set result" where
  "item_witnesses K parents expected item =
    rbind (parse_digest (tf_hex_decode K) (the (mi_expected_digest item))) (\<lambda>terminal.
    rbind (try_fold (route_step parents) (insert terminal expected, {terminal}) (rev (mi_route item)))
      (\<lambda>(expected, _). Inr expected))"

definition check_terminals ::
  "treeframe_codec \<Rightarrow> metadata_page_item list \<Rightarrow> bytes set \<Rightarrow> unit result" where
  "check_terminals K items page_ids =
    try_fold (\<lambda>_ item. case mi_expected_digest item of
        None \<Rightarrow> Inr ()
      | Some expected \<Rightarrow>
          rbind (parse_digest (tf_hex_decode K) expected) (\<lambda>page_id.
          if page_id \<notin> page_ids
          then Inl (digest_err ''metadata/pages response is missing a requested terminal page'')
          else Inr ())) () items"

definition check_metadata_members ::
  "treeframe_codec \<Rightarrow> metadata_page_item list \<Rightarrow> (bytes \<times> bytes) list \<Rightarrow> unit result" where
  "check_metadata_members K items pages =
    (let page_ids = set (map fst pages) in
     rbind (check_terminals K items page_ids) (\<lambda>_.
     if list_all (\<lambda>item. mi_expected_digest item \<noteq> None) items
     then
       rbind (parent_edges K pages) (\<lambda>parents.
       rbind (try_fold (item_witnesses K parents) {} items) (\<lambda>expected.
       if expected \<noteq> page_ids
       then Inl (digest_err ''metadata/pages response contains an unrequested page'')
       else Inr ()))
     else Inr ()))"

section \<open>Metadata pages\<close>

text \<open>The units a batch may return: every page of every route, after the checks of the items.\<close>

definition metadata_units :: "treeframe_codec \<Rightarrow> metadata_page_item list \<Rightarrow> nat result" where
  "metadata_units K items =
    try_fold (\<lambda>max_units item.
        if MAX_DEPTH K < length (mi_route item)
        then Inl (limit_err ''metadata radix depth exceeds 255'')
        else rbind (case mi_expected_digest item of
                      None \<Rightarrow> Inr ()
                    | Some expected \<Rightarrow> rbind (parse_digest (tf_hex_decode K) expected) (\<lambda>_. Inr ()))
               (\<lambda>_. Inr (max_units + (length (mi_route item) + 1)))) 0 items"

text \<open>The pages collected so far with their count and bytes; a page seen before is refused.\<close>

definition collect_page ::
  "(bytes \<times> bytes) list \<times> nat \<times> nat \<Rightarrow> bytes \<times> bytes \<Rightarrow> ((bytes \<times> bytes) list \<times> nat \<times> nat) result" where
  "collect_page state page =
    (case state of (out, unique_units, logical_bytes) \<Rightarrow>
       if fst page \<in> set (map fst out)
       then Inl (digest_err ''metadata/pages repeated a page across frames'')
       else if u32_MAX < unique_units + 1 then Inl (limit_err ''metadata page count overflow'')
       else if u64_MAX < logical_bytes + length (snd page) then Inl (limit_err ''metadata page byte count overflow'')
       else Inr (out @ [page], unique_units + 1, logical_bytes + length (snd page)))"

definition collect_meta_frame ::
  "(bytes \<times> bytes) list \<times> nat \<times> nat \<Rightarrow> frame \<Rightarrow> ((bytes \<times> bytes) list \<times> nat \<times> nat) result" where
  "collect_meta_frame state f =
    (case f of
       Meta_Frame pages \<Rightarrow> try_fold collect_page state pages
     | End_Frame _ \<Rightarrow> Inr state
     | _ \<Rightarrow> Inl (digest_err ''metadata/pages stream contains a non-META data frame''))"

definition metadata_end :: "treeframe_codec \<Rightarrow> frame list \<Rightarrow> bytes \<Rightarrow> nat \<Rightarrow> (nat \<times> nat) result" where
  "metadata_end K frames body request_items =
    (case (if frames = [] then None else Some (last frames)) of
       Some (End_Frame e) \<Rightarrow>
         rbind (check_end K frames body request_items) (\<lambda>_. Inr (unique_unit_count e, end_logical_bytes e))
     | Some (Error_Frame c request_id) \<Rightarrow>
         Inl (SnapshotError_new Internal
           (''server rejected metadata/pages: '' @ c @ '' (request_id '' @ request_id @ '')''))
     | _ \<Rightarrow> Inl (digest_err ''metadata/pages stream missing END frame''))"

definition accept_metadata ::
  "treeframe_codec \<Rightarrow> metadata_page_item list \<Rightarrow> bytes \<Rightarrow> frame list \<Rightarrow> (bytes \<times> bytes) list result" where
  "accept_metadata K items body frames =
    rbind (metadata_end K frames body (length items)) (\<lambda>(expected_units, expected_bytes).
    rbind (try_fold collect_meta_frame ([], 0, 0) frames) (\<lambda>(out, unique_units, logical_bytes).
    if unique_units \<noteq> expected_units \<or> logical_bytes \<noteq> expected_bytes
    then Inl (digest_err ''metadata/pages END page count or logical bytes do not match the stream'')
    else rbind (check_metadata_members K items out) (\<lambda>_. Inr out)))"

text \<open>\<^verbatim>\<open>post\<close> is the HTTP exchange: URL, body, snapshot id and response byte limit.\<close>

type_synonym post_frames = "string \<Rightarrow> bytes \<Rightarrow> string \<Rightarrow> nat \<Rightarrow> bytes result"

definition body_error :: "string \<Rightarrow> snapshot_error" where
  "body_error e = SnapshotError_new Internal e"

definition metadata_pages_batch ::
  "treeframe_codec \<Rightarrow> mst2_client \<Rightarrow> string \<Rightarrow> metadata_page_item request_json \<Rightarrow> post_frames \<Rightarrow> string
    \<Rightarrow> metadata_page_item list \<Rightarrow> string option \<Rightarrow> (bytes \<times> bytes) list run" where
  "metadata_pages_batch K client base J post sid items encoding =
    (if items = [] \<or> MAX_METADATA_BATCH < length items
     then Some (Inl (limit_err ''metadata batch must hold 1..64 items''))
     else
       run_bind (Some (metadata_units K items)) (\<lambda>max_units.
       run_bind (Some (ResponseBudget_new K max_units (max_units * PAGE_MAX_BYTES K) (36 + 4))) (\<lambda>budget.
       run_bind (Some (map_err body_error (rj_body J items encoding))) (\<lambda>body.
       run_bind (if u32_MAX < length items then Some (Inl (limit_err ''metadata request item count overflow''))
                 else Some (Inr ())) (\<lambda>_.
       run_bind (Some (post (snapshots_url base (''/'' @ sid @ ''/metadata/pages'')) body sid (rb_wire_bytes budget)))
         (\<lambda>raw.
       run_bind (response_frames K client raw ''metadata/pages stream'' (KIND_META K) ''META'' budget) (\<lambda>frames.
       Some (accept_metadata K items body frames))))))))"

definition append_new :: "('a \<Rightarrow> 'k) \<Rightarrow> 'a list \<Rightarrow> 'a list \<Rightarrow> 'a list" where
  "append_new key = foldl (\<lambda>out x. if key x \<in> set (map key out) then out else out @ [x])"

definition metadata_pages ::
  "treeframe_codec \<Rightarrow> mst2_client \<Rightarrow> string \<Rightarrow> metadata_page_item request_json \<Rightarrow> post_frames \<Rightarrow> string
    \<Rightarrow> metadata_page_item list \<Rightarrow> string option \<Rightarrow> (bytes \<times> bytes) list run" where
  "metadata_pages K client base J post sid items encoding =
    run_bind (Some (require_feature client ''metadata/pages'')) (\<lambda>_.
    run_bind (Some (validate_encoding client encoding)) (\<lambda>_.
    run_bind (Some (try_fold (\<lambda>_ item. validate_path client (mi_directory_path item)) () items)) (\<lambda>_.
    if items = [] \<or> MAX_METADATA_BATCH < length items
    then Some (Inl (limit_err ''metadata batch must hold 1..64 items''))
    else
      run_bind (Some (request_batches J items encoding (request_byte_limit client) (metadata_item_limit client)))
        (\<lambda>batches.
      run_fold (\<lambda>out batch.
        run_bind (metadata_pages_batch K client base J post sid batch encoding) (\<lambda>pages.
        Some (Inr (append_new fst out pages)))) [] batches))))"

section \<open>Objects and chunks\<close>

text \<open>A count cast to \<^verbatim>\<open>u32\<close>.\<close>

definition as_u32 :: "nat \<Rightarrow> nat" where
  "as_u32 n = n mod 2 ^ 32"

definition collect_object ::
  "mst2_client \<Rightarrow> bytes list \<Rightarrow> (bytes \<times> bytes) list \<times> nat \<Rightarrow> bytes \<times> bytes \<Rightarrow> ((bytes \<times> bytes) list \<times> nat) run" where
  "collect_object client requested state obj =
    (case (state, obj) of ((out, logical_bytes), (cid, data)) \<Rightarrow>
       if cid \<notin> set requested \<or> cid \<in> set (map fst out)
       then Some (Inl (digest_err ''objects response contains an unrequested or duplicate content_id''))
       else if object_byte_limit client < logical_bytes + length data
       then Some (Inl (limit_err ''objects response exceeds the unique raw byte limit''))
       else Some (Inr (out @ [(cid, data)], logical_bytes + length data)))"

definition collect_object_frame ::
  "mst2_client \<Rightarrow> bytes list \<Rightarrow> (bytes \<times> bytes) list \<times> nat \<Rightarrow> frame \<Rightarrow> ((bytes \<times> bytes) list \<times> nat) run" where
  "collect_object_frame client requested state f =
    (case f of
       Object_Frame objects \<Rightarrow> run_fold (collect_object client requested) state objects
     | End_Frame _ \<Rightarrow> Some (Inr state)
     | _ \<Rightarrow> None)"

definition accept_objects ::
  "treeframe_codec \<Rightarrow> mst2_client \<Rightarrow> bytes list \<Rightarrow> nat \<Rightarrow> bytes \<Rightarrow> frame list \<Rightarrow> (bytes \<times> bytes) list run" where
  "accept_objects K client requested items body frames =
    run_bind (Some (check_end K frames body (as_u32 items))) (\<lambda>(expected_units, expected_bytes).
    run_bind (run_fold (collect_object_frame client requested) ([], 0) frames) (\<lambda>(out, logical_bytes).
    if length out \<noteq> length requested \<or> as_u32 (length out) \<noteq> expected_units \<or> logical_bytes \<noteq> expected_bytes
    then Some (Inl (digest_err ''objects response unit set or END counts do not match the request''))
    else Some (Inr out)))"

definition objects_batch ::
  "treeframe_codec \<Rightarrow> mst2_client \<Rightarrow> string \<Rightarrow> (string \<times> string) request_json \<Rightarrow> post_frames \<Rightarrow> string
    \<Rightarrow> (string \<times> string) list \<Rightarrow> string option \<Rightarrow> (bytes \<times> bytes) list run" where
  "objects_batch K client base J post sid items encoding =
    (if items = [] \<or> MAX_OBJECT_BATCH < length items
     then Some (Inl (SnapshotError_new ScopeInvalid ''objects batch must hold 1..128 items''))
     else
       run_bind (Some (try_map (\<lambda>(_, digest). parse_digest (tf_hex_decode K) digest) items)) (\<lambda>ids.
       let requested = remdups ids in
       run_bind (Some (ResponseBudget_new K (length requested)
           (min (length requested * OBJECT_MAX_LEN K) (object_byte_limit client)) (40 + 4))) (\<lambda>budget.
       run_bind (Some (map_err body_error (rj_body J items encoding))) (\<lambda>body.
       run_bind (Some (post (snapshots_url base (''/'' @ sid @ ''/objects'')) body sid (rb_wire_bytes budget))) (\<lambda>raw.
       run_bind (response_frames K client raw ''objects stream'' (KIND_OBJECT K) ''OBJECT'' budget) (\<lambda>frames.
       accept_objects K client requested (length items) body frames))))))"

definition merge_objects ::
  "(bytes \<times> bytes) list \<times> nat \<Rightarrow> (bytes \<times> bytes) list \<Rightarrow> ((bytes \<times> bytes) list \<times> nat) result" where
  "merge_objects state objects =
    (case state of (out, bytes) \<Rightarrow>
       let bytes = bytes + sum_list (map (\<lambda>(_, data). length data)
                     (filter (\<lambda>(cid, _). cid \<notin> set (map fst out)) objects)) in
       if MAX_OBJECT_BATCH_BYTES < bytes
       then Inl (limit_err ''objects response exceeds the unique raw byte limit'')
       else Inr (foldl (\<lambda>m (cid, data). AList.update cid data m) out objects, bytes))"

definition objects ::
  "treeframe_codec \<Rightarrow> mst2_client \<Rightarrow> string \<Rightarrow> (string \<times> string) request_json \<Rightarrow> post_frames \<Rightarrow> string
    \<Rightarrow> (string \<times> string) list \<Rightarrow> string option \<Rightarrow> (bytes \<times> bytes) list run" where
  "objects K client base J post sid items encoding =
    run_bind (Some (require_feature client ''objects'')) (\<lambda>_.
    run_bind (Some (validate_encoding client encoding)) (\<lambda>_.
    run_bind (Some (try_fold (\<lambda>_ (path, _). validate_path client path) () items)) (\<lambda>_.
    if items = [] \<or> MAX_OBJECT_BATCH < length items
    then Some (Inl (SnapshotError_new ScopeInvalid ''objects batch must hold 1..128 items''))
    else
      run_bind (Some (request_batches J items encoding (request_byte_limit client)
          (min (request_item_limit client) (max (object_byte_limit client div OBJECT_MAX_LEN K) 1)))) (\<lambda>batches.
      run_bind (run_fold (\<lambda>state batch.
          run_bind (objects_batch K client base J post sid batch encoding) (\<lambda>objects.
          Some (merge_objects state objects))) ([], 0) batches) (\<lambda>(out, _).
      Some (Inr out))))))"

record chunk_request =
  cq_path :: string
  cq_expected_digest :: string
  cq_map_id :: string
  cq_chunk_index :: nat

text \<open>The requested units: map and chunk index, each with the one file content id that was named.\<close>

definition chunk_request_step ::
  "treeframe_codec \<Rightarrow> ((bytes \<times> nat) \<times> bytes) list \<Rightarrow> chunk_request \<Rightarrow> ((bytes \<times> nat) \<times> bytes) list result" where
  "chunk_request_step K requested item =
    rbind (parse_digest (tf_hex_decode K) (cq_map_id item)) (\<lambda>map_id.
    rbind (parse_digest (tf_hex_decode K) (cq_expected_digest item)) (\<lambda>file_id.
    let key = (map_id, cq_chunk_index item) in
    if (case map_of requested key of None \<Rightarrow> False | Some previous \<Rightarrow> previous \<noteq> file_id)
    then Inl (SnapshotError_new ScopeInvalid ''a chunk unit cannot name different file content ids'')
    else Inr (AList.update key file_id requested)))"

definition requested_chunks ::
  "treeframe_codec \<Rightarrow> chunk_request list \<Rightarrow> ((bytes \<times> nat) \<times> bytes) list result" where
  "requested_chunks K items = try_fold (chunk_request_step K) [] items"

definition chunk_key :: "chunk_unit \<Rightarrow> bytes \<times> nat" where
  "chunk_key c = (cu_map_id c, cu_chunk_index c)"

definition collect_chunk_frame ::
  "((bytes \<times> nat) \<times> bytes) list \<Rightarrow> chunk_unit list \<times> nat \<Rightarrow> frame \<Rightarrow> (chunk_unit list \<times> nat) run" where
  "collect_chunk_frame requested state f =
    (case state of (out, logical_bytes) \<Rightarrow>
      (case f of
         Chunk_Frame c \<Rightarrow>
           if map_of requested (chunk_key c) \<noteq> Some (cu_file_content_id c) \<or> chunk_key c \<in> set (map chunk_key out)
           then Some (Inl (digest_err ''chunks response contains an unrequested or duplicate chunk unit''))
           else Some (Inr (out @ [c], logical_bytes + length (cu_bytes c)))
       | End_Frame _ \<Rightarrow> Some (Inr state)
       | _ \<Rightarrow> None))"

definition accept_chunks ::
  "treeframe_codec \<Rightarrow> ((bytes \<times> nat) \<times> bytes) list \<Rightarrow> nat \<Rightarrow> bytes \<Rightarrow> frame list \<Rightarrow> chunk_unit list run" where
  "accept_chunks K requested items body frames =
    run_bind (Some (check_end K frames body (as_u32 items))) (\<lambda>(expected_units, expected_bytes).
    run_bind (run_fold (collect_chunk_frame requested) ([], 0) frames) (\<lambda>(out, logical_bytes).
    if length out \<noteq> length requested \<or> as_u32 (length out) \<noteq> expected_units \<or> logical_bytes \<noteq> expected_bytes
    then Some (Inl (digest_err ''chunks response unit set or END counts do not match the request''))
    else Some (Inr out)))"

definition chunks_batch ::
  "treeframe_codec \<Rightarrow> mst2_client \<Rightarrow> string \<Rightarrow> chunk_request request_json \<Rightarrow> post_frames \<Rightarrow> string
    \<Rightarrow> chunk_request list \<Rightarrow> string option \<Rightarrow> chunk_unit list run" where
  "chunks_batch K client base J post sid items encoding =
    (if items = [] \<or> MAX_CHUNK_BATCH < length items
     then Some (Inl (SnapshotError_new ScopeInvalid ''chunks batch must hold 1..128 items''))
     else
       run_bind (Some (requested_chunks K items)) (\<lambda>requested.
       run_bind (Some (ResponseBudget_new K (length requested)
           (min (length requested * CHUNK_MAX_LEN K) (chunk_byte_limit client)) 76)) (\<lambda>budget.
       run_bind (Some (map_err body_error (rj_body J items encoding))) (\<lambda>body.
       run_bind (Some (post (snapshots_url base (''/'' @ sid @ ''/chunks'')) body sid (rb_wire_bytes budget))) (\<lambda>raw.
       run_bind (response_frames K client raw ''chunks stream'' (KIND_CHUNK K) ''CHUNK'' budget) (\<lambda>frames.
       accept_chunks K requested (length items) body frames))))))"

definition chunks ::
  "treeframe_codec \<Rightarrow> mst2_client \<Rightarrow> string \<Rightarrow> chunk_request request_json \<Rightarrow> post_frames \<Rightarrow> string
    \<Rightarrow> chunk_request list \<Rightarrow> string option \<Rightarrow> chunk_unit list run" where
  "chunks K client base J post sid items encoding =
    run_bind (Some (require_feature client ''chunks'')) (\<lambda>_.
    run_bind (Some (validate_encoding client encoding)) (\<lambda>_.
    run_bind (Some (try_fold (\<lambda>_ item. validate_path client (cq_path item)) () items)) (\<lambda>_.
    if items = [] \<or> MAX_CHUNK_BATCH < length items
    then Some (Inl (SnapshotError_new ScopeInvalid ''chunks batch must hold 1..128 items''))
    else
      run_bind (Some (requested_chunks K items)) (\<lambda>_.
      run_bind (Some (request_batches J items encoding (request_byte_limit client)
          (min (request_item_limit client) (max (chunk_byte_limit client div CHUNK_MAX_LEN K) 1)))) (\<lambda>batches.
      run_fold (\<lambda>out batch.
        run_bind (chunks_batch K client base J post sid batch encoding) (\<lambda>units.
        Some (Inr (append_new chunk_key out units)))) [] batches)))))"

section \<open>Batches\<close>

text \<open>The bytes of a request with the given items.\<close>

definition batch_bytes :: "nat \<Rightarrow> ('i \<Rightarrow> nat) \<Rightarrow> 'i list \<Rightarrow> nat" where
  "batch_bytes overhead item_size batch = overhead + sum_list (map item_size batch) + (length batch - 1)"

definition batch_inv ::
  "('i \<Rightarrow> nat) \<Rightarrow> nat \<Rightarrow> nat \<Rightarrow> nat \<Rightarrow> 'i list \<Rightarrow> nat \<Rightarrow> 'i list list \<times> nat \<times> nat \<Rightarrow> bool" where
  "batch_inv item_size overhead limit max_items items n state \<longleftrightarrow>
    (case state of (batches, start, bytes) \<Rightarrow>
       start \<le> n \<and> n \<le> length items \<and> (0 < n \<longrightarrow> start < n) \<and> concat batches = take start items
       \<and> bytes = batch_bytes overhead item_size (slice start (n - start) items)
       \<and> (0 < n \<longrightarrow> bytes \<le> limit) \<and> (1 \<le> max_items \<longrightarrow> n - start \<le> max_items)
       \<and> (1 \<le> max_items \<longrightarrow> (\<forall>b\<in>set batches. b \<noteq> [] \<and> length b \<le> max_items
            \<and> batch_bytes overhead item_size b \<le> limit)))"

lemma slice_snoc:
  assumes "start \<le> n" "n < length xs"
  shows "slice start (Suc n - start) xs = slice start (n - start) xs @ [xs ! n]"
  using assms by (simp add: slice_def Suc_diff_le take_Suc_conv_app_nth)

lemma length_slice_within: "start \<le> n \<Longrightarrow> n \<le> length xs \<Longrightarrow> length (slice start (n - start) xs) = n - start"
  by (simp add: slice_def)

lemma take_slice: "start \<le> n \<Longrightarrow> take start xs @ slice start (n - start) xs = take n xs"
  by (metis le_add_diff_inverse slice_def take_add)

lemma batch_bytes_snoc:
  "batch_bytes overhead f (xs @ [x]) = batch_bytes overhead f xs + (if xs = [] then 0 else 1) + f x"
  by (cases xs) (simp_all add: batch_bytes_def)

lemma batch_step_inv:
  assumes inv: "batch_inv f overhead limit m items n (batches, start, bytes)" and n: "n < length items"
    and step: "batch_step f overhead limit m items (batches, start, bytes) (n, items ! n) = Inr s"
  shows "batch_inv f overhead limit m items (Suc n) s"
proof -
  have i: "start \<le> n" "0 < n \<longrightarrow> start < n" "concat batches = take start items"
    "bytes = batch_bytes overhead f (slice start (n - start) items)" "0 < n \<longrightarrow> bytes \<le> limit"
    "1 \<le> m \<longrightarrow> n - start \<le> m"
    "1 \<le> m \<longrightarrow> (\<forall>b\<in>set batches. b \<noteq> [] \<and> length b \<le> m \<and> batch_bytes overhead f b \<le> limit)"
    using inv by (auto simp: batch_inv_def)
  have fits: "overhead + f (items ! n) \<le> limit"
    using step by (auto simp: batch_step_def Let_def split: if_splits)
  have len: "length (slice start (n - start) items) = n - start"
    using i(1) n by (simp add: length_slice_within)
  have one: "slice n (Suc 0) items = [items ! n]" using n by (simp add: slice_def take_Suc_conv_app_nth)
  let ?full = "limit < bytes + (if start < n then 1 else 0) + f (items ! n) \<or> m \<le> n - start"
  show ?thesis
  proof (cases ?full)
    case True
    then have s: "s = (batches @ [slice start (n - start) items], n, overhead + f (items ! n))"
      using step fits by (auto simp: batch_step_def Let_def)
    have "start < n" if "1 \<le> m"
    proof (rule ccontr)
      assume "\<not> start < n"
      with i(1,2) have "start = 0" "n = 0" by auto
      with True fits i(4) that show False by (simp add: batch_bytes_def slice_def)
    qed
    then show ?thesis
      using i n fits len one take_slice[OF i(1), of items]
      by (auto simp: s batch_inv_def batch_bytes_def simp flip: length_greater_0_conv)
  next
    case False
    then have s: "s = (batches, start, bytes + (if start < n then 1 else 0) + f (items ! n))"
      using step fits by (auto simp: batch_step_def Let_def)
    have nil: "slice start (n - start) items = [] \<longleftrightarrow> \<not> start < n"
      using len by (metis length_0_conv not_less diff_is_0_eq)
    show ?thesis
      using i n fits False nil slice_snoc[OF i(1) n]
      by (auto simp: s batch_inv_def batch_bytes_snoc)
  qed
qed

lemma batch_fold_inv:
  assumes "try_fold (batch_step f overhead limit m items) ([], 0, overhead) (enumerate 0 (take n items)) = Inr s"
    "n \<le> length items"
  shows "batch_inv f overhead limit m items n s"
  using assms
proof (induction n arbitrary: s)
  case 0
  then have "s = ([], 0, overhead)" by simp
  then show ?case by (simp add: batch_inv_def batch_bytes_def slice_def)
next
  case (Suc n)
  from Suc.prems obtain t where t:
    "try_fold (batch_step f overhead limit m items) ([], 0, overhead) (enumerate 0 (take n items)) = Inr t"
    "batch_step f overhead limit m items t (n, items ! n) = Inr s"
    by (auto simp: take_Suc_conv_app_nth enumerate_append_eq try_fold_append try_fold_single result_simps
        simp del: try_fold.simps)
  obtain batches start bytes where tt: "t = (batches, start, bytes)" by (cases t)
  from Suc.IH[OF t(1)] Suc.prems(2) have "batch_inv f overhead limit m items n (batches, start, bytes)"
    by (simp add: tt)
  from batch_step_inv[OF this _ t(2)[unfolded tt]] Suc.prems(2) show ?case by simp
qed

lemma batch_fold_ok:
  assumes "\<forall>i\<in>set items. overhead + f i \<le> limit" "set xs \<subseteq> set items"
  shows "is_ok (try_fold (batch_step f overhead limit m all) s (enumerate k xs))"
  using assms(2)
proof (induction xs arbitrary: s k)
  case (Cons x xs)
  obtain batches start bytes where s: "s = (batches, start, bytes)" by (cases s)
  from Cons.prems assms(1) have "\<not> limit < overhead + f x" by auto
  then have "\<exists>t. batch_step f overhead limit m all s (k, x) = Inr t"
    by (auto simp: s batch_step_def Let_def)
  with Cons show ?case by auto
qed simp

lemma request_batches_Inr:
  assumes "request_batches J items encoding limit m = Inr batches"
  shows "concat batches = items"
    "1 \<le> m \<Longrightarrow> b \<in> set batches \<Longrightarrow> b \<noteq> [] \<and> length b \<le> m
      \<and> batch_bytes (length (rj_envelope J encoding)) (\<lambda>i. length (rj_item J i)) b \<le> limit"
proof -
  let ?o = "length (rj_envelope J encoding)" and ?f = "\<lambda>i. length (rj_item J i)"
  obtain bs start bytes where t: "try_fold (batch_step ?f ?o limit m items) ([], 0, ?o) (enumerate 0 items) = Inr (bs, start, bytes)"
    and b: "batches = (if start < length items then bs @ [drop start items] else bs)"
    using assms by (auto simp: request_batches_def Let_def result_simps)
  have inv: "batch_inv ?f ?o limit m items (length items) (bs, start, bytes)"
    using batch_fold_inv[of ?f ?o limit m items "length items"] t by simp
  then have d: "slice start (length items - start) items = drop start items"
    by (simp add: slice_def)
  show "concat batches = items" using inv b by (auto simp: batch_inv_def)
  have rest: "length items - start \<le> m \<and> batch_bytes ?o ?f (drop start items) \<le> limit" if "1 \<le> m" "start < length items"
    using inv that d by (auto simp: batch_inv_def)
  have old: "b \<noteq> [] \<and> length b \<le> m \<and> batch_bytes ?o ?f b \<le> limit" if "1 \<le> m" "b \<in> set bs" for b
    using inv that by (simp add: batch_inv_def)
  show "b \<noteq> [] \<and> length b \<le> m \<and> batch_bytes ?o ?f b \<le> limit" if "1 \<le> m" "b \<in> set batches"
  proof (cases "b \<in> set bs")
    case False
    with that(2) b have "start < length items" "b = drop start items" by (auto split: if_splits)
    with rest[OF that(1)] show ?thesis by simp
  qed (use old[OF that(1)] in blast)
qed

section \<open>The header scan\<close>

text \<open>What the scan demands of one frame.\<close>

definition frame_segment ::
  "treeframe_codec \<Rightarrow> mst2_client \<Rightarrow> byte \<Rightarrow> bytes \<Rightarrow> bool" where
  "frame_segment K client data_kind seg \<longleftrightarrow>
    length seg = HEADER_LEN K + header_wire_len seg
    \<and> header_wire_len seg \<le> frame_wire_limit client
    \<and> (seg ! 6 = KIND_END K \<or> seg ! 6 = KIND_ERROR K \<or> seg ! 6 = data_kind)
    \<and> (\<exists>most. max_raw K (seg ! 6) = Some most \<and> header_raw_len seg \<le> most)
    \<and> (is_canonical client \<longrightarrow> seg ! 7 = 0)"

definition endpoint_kind :: "treeframe_codec \<Rightarrow> byte \<Rightarrow> bool" where
  "endpoint_kind K kind \<longleftrightarrow> kind = KIND_META K \<or> kind = KIND_OBJECT K \<or> kind = KIND_CHUNK K"

lemma slice_header:
  assumes "a + n \<le> h" "h \<le> length xs"
  shows "slice a n (take h xs) = slice a n xs"
  using assms by (simp add: slice_def drop_take)

lemma header_fields:
  assumes "20 \<le> h" "h \<le> w"
  shows "header_wire_len (slice off h raw) = header_wire_len (slice off w raw)"
    "header_raw_len (slice off h raw) = header_raw_len (slice off w raw)"
  using assms by (simp_all add: header_wire_len_def header_raw_len_def slice_def drop_take)

lemma scan_frame_returns:
  assumes "endpoint_kind K data_kind"
  shows "scan_frame K client raw context data_kind data_name budget state \<noteq> None"
proof -
  let ?kind = "slice (fst state) (HEADER_LEN K) raw ! 6"
  have "max_raw K ?kind \<noteq> None" if "?kind = KIND_END K \<or> ?kind = KIND_ERROR K \<or> ?kind = data_kind"
    using that assms by (auto simp: max_raw_def endpoint_kind_def)
  then show ?thesis
    by (auto simp: scan_frame_def Let_def ensure_def)
qed

lemma scan_lengths_Inr:
  assumes "scan_lengths K client raw budget header most (offset, frames, tot) = Inr s"
  shows "header_raw_len header \<le> most" "header_wire_len header \<le> frame_wire_limit client"
    "is_canonical client \<longrightarrow> header ! 7 = 0" "frames + 1 \<le> rb_units budget + 2"
    "tot + header_raw_len header \<le> rb_raw_bytes budget"
    "offset + (HEADER_LEN K + header_wire_len header) \<le> length raw"
    "s = (offset + (HEADER_LEN K + header_wire_len header), frames + 1, tot + header_raw_len header)"
proof -
  obtain t f where "checked_add tot (header_raw_len header) = Some t"
    and f: "checked_add offset (HEADER_LEN K) = Some f" "f + header_wire_len header \<le> length raw"
    and s: "s = (f + header_wire_len header, frames + 1, t)"
    and rest: "\<not> (most < header_raw_len header \<or> frame_wire_limit client < header_wire_len header)"
      "\<not> (is_canonical client \<and> header ! 7 \<noteq> 0)"
      "\<not> (rb_units budget + 2 < frames + 1 \<or> rb_raw_bytes budget < t)"
    using assms unfolding scan_lengths_def Let_def prod.case rbind_eq_Inr ensure_simps ok_or_eq_Inr
    by (fastforce simp: Option.bind_eq_Some_conv checked_add_Some split: if_splits)
  then have "t = tot + header_raw_len header" "f = offset + HEADER_LEN K" by (simp_all add: checked_add_Some)
  with s f rest show "header_raw_len header \<le> most" "header_wire_len header \<le> frame_wire_limit client"
    "is_canonical client \<longrightarrow> header ! 7 = 0" "frames + 1 \<le> rb_units budget + 2"
    "tot + header_raw_len header \<le> rb_raw_bytes budget"
    "offset + (HEADER_LEN K + header_wire_len header) \<le> length raw"
    "s = (offset + (HEADER_LEN K + header_wire_len header), frames + 1, tot + header_raw_len header)"
    by simp_all
qed

lemma scan_frame_Inr:
  assumes "scan_frame K client raw context data_kind data_name budget (offset, frames, tot) = Some (Inr s)"
    and h: "20 \<le> HEADER_LEN K" and off: "offset < length raw"
  obtains seg where "s = (offset + length seg, frames + 1, tot + header_raw_len seg)"
    "seg = slice offset (length seg) raw" "offset + length seg \<le> length raw" "0 < length seg"
    "frame_segment K client data_kind seg"
    "frames + 1 \<le> rb_units budget + 2" "tot + header_raw_len seg \<le> rb_raw_bytes budget"
proof -
  let ?h = "slice offset (HEADER_LEN K) raw"
  define w where "w = HEADER_LEN K + header_wire_len ?h"
  obtain most where m: "HEADER_LEN K \<le> length raw - offset"
    "?h ! 6 = KIND_END K \<or> ?h ! 6 = KIND_ERROR K \<or> ?h ! 6 = data_kind"
    "max_raw K (?h ! 6) = Some most" "scan_lengths K client raw budget ?h most (offset, frames, tot) = Inr s"
    using assms(1) unfolding scan_frame_def Let_def fst_conv run_bind_Inr
    by (auto simp: ensure_simps)
  note a = scan_lengths_Inr[OF m(4), folded w_def]
  have hw: "HEADER_LEN K \<le> w" by (simp add: w_def)
  have lw: "length (slice offset w raw) = w" using a(6) by (simp add: slice_def)
  have n: "slice offset w raw ! i = ?h ! i" if "i < 20" for i
    using that h hw m(1) a(6) by (simp add: slice_def)
  define seg where "seg = slice offset w raw"
  have f: "header_wire_len ?h = header_wire_len seg" "header_raw_len ?h = header_raw_len seg"
    using header_fields[OF h hw, of offset raw] by (simp_all add: seg_def)
  have k: "seg ! 6 = ?h ! 6" "seg ! 7 = ?h ! 7" "length seg = w" using n lw by (simp_all add: seg_def)
  show thesis
  proof (rule that[of seg])
    show "frame_segment K client data_kind seg"
      unfolding frame_segment_def k f(1)[symmetric] f(2)[symmetric]
      using a(1-3) m(2,3) w_def by auto
    show "s = (offset + length seg, frames + 1, tot + header_raw_len seg)" using a(7) by (simp add: k f)
    show "offset + length seg \<le> length raw" using a(6) by (simp add: k)
    show "tot + header_raw_len seg \<le> rb_raw_bytes budget" using a(5) by (simp add: f)
    show "0 < length seg" using h hw by (simp add: k)
    show "seg = slice offset (length seg) raw" using k(3) by (simp add: seg_def)
  qed (rule a(4))
qed

lemma scan_frames_returns:
  assumes h: "20 \<le> HEADER_LEN K" and k: "endpoint_kind K data_kind"
  shows "scan_frames K client raw context data_kind data_name budget (offset, frames, tot) \<noteq> None"
proof (induction "length raw - offset" arbitrary: offset frames tot rule: less_induct)
  case less
  show ?case
  proof (cases "offset < length raw")
    case True
    let ?one = "scan_frame K client raw context data_kind data_name budget (offset, frames, tot)"
    consider e where "?one = Some (Inl e)" | s where "?one = Some (Inr s)"
      using scan_frame_returns[OF k] by (metis not_None_eq sum.exhaust)
    then show ?thesis
    proof cases
      case 1
      with True show ?thesis by (subst scan_frames.simps) simp
    next
      case 2
      from scan_frame_Inr[OF 2 h True] obtain seg where s: "s = (offset + length seg, frames + 1, tot + header_raw_len seg)"
        "0 < length seg" by metis
      have "length raw - (offset + length seg) < length raw - offset" using s(2) True by linarith
      from less[OF this] 2 True s(1) show ?thesis by (subst scan_frames.simps) simp
    qed
  qed (subst scan_frames.simps, simp)
qed

lemma scan_frames_Inr:
  assumes "scan_frames K client raw context data_kind data_name budget (offset, frames, tot) = Some (Inr u)"
    and h: "20 \<le> HEADER_LEN K" and off: "offset \<le> length raw"
  shows "\<exists>segs. concat segs = drop offset raw \<and> list_all (frame_segment K client data_kind) segs
    \<and> (segs \<noteq> [] \<longrightarrow> frames + length segs \<le> rb_units budget + 2
         \<and> tot + sum_list (map header_raw_len segs) \<le> rb_raw_bytes budget)"
  using assms(1,3)
proof (induction "length raw - offset" arbitrary: offset frames tot rule: less_induct)
  case less
  show ?case
  proof (cases "offset < length raw")
    case False
    then show ?thesis by (intro exI[of _ "[]"]) simp
  next
    case True
    from less.prems(1) True obtain s where s:
      "scan_frame K client raw context data_kind data_name budget (offset, frames, tot) = Some (Inr s)"
      "scan_frames K client raw context data_kind data_name budget s = Some (Inr u)"
      by (subst (asm) scan_frames.simps) (auto split: option.splits sum.splits)
    from scan_frame_Inr[OF s(1) h True] obtain seg where seg:
      "s = (offset + length seg, frames + 1, tot + header_raw_len seg)"
      "seg = slice offset (length seg) raw" "offset + length seg \<le> length raw" "0 < length seg"
      "frame_segment K client data_kind seg"
      "frames + 1 \<le> rb_units budget + 2" "tot + header_raw_len seg \<le> rb_raw_bytes budget" by metis
    have "length raw - (offset + length seg) < length raw - offset" using seg(4) True by linarith
    from less.hyps[OF this s(2)[unfolded seg(1)] seg(3)] obtain segs where segs:
      "concat segs = drop (offset + length seg) raw" "list_all (frame_segment K client data_kind) segs"
      "segs \<noteq> [] \<longrightarrow> frames + 1 + length segs \<le> rb_units budget + 2
         \<and> tot + header_raw_len seg + sum_list (map header_raw_len segs) \<le> rb_raw_bytes budget" by blast
    have "drop offset raw = slice offset (length seg) raw @ drop (offset + length seg) raw"
      by (metis append_take_drop_id drop_drop slice_def add.commute)
    then have "concat (seg # segs) = drop offset raw" using segs(1) seg(2) by simp
    then show ?thesis
      using segs(2,3) seg(5-7) by (intro exI[of _ "seg # segs"]) (cases "segs = []"; simp)
  qed
qed

section \<open>Route witnesses\<close>

definition page_edge :: "treeframe_codec \<Rightarrow> (bytes \<times> bytes) list \<Rightarrow> bytes \<Rightarrow> byte \<Rightarrow> bytes \<Rightarrow> bool" where
  "page_edge K pages p label child \<longleftrightarrow>
    (\<exists>body cs. (p, body) \<in> set pages \<and> page_children K body = Inr (Some cs) \<and> (label, child) \<in> set cs)"

text \<open>A chain of branch pages of the response that spells the labels from one page down to another.\<close>

fun route_chain :: "(bytes \<Rightarrow> byte \<Rightarrow> bytes \<Rightarrow> bool) \<Rightarrow> bytes \<Rightarrow> bytes \<Rightarrow> bytes \<Rightarrow> bool" where
  "route_chain edge [] p t = (p = t)"
| "route_chain edge (l # ls) p t = (\<exists>c. edge p l c \<and> route_chain edge ls c t)"

definition item_terminal :: "treeframe_codec \<Rightarrow> metadata_page_item \<Rightarrow> bytes result" where
  "item_terminal K item = parse_digest (tf_hex_decode K) (the (mi_expected_digest item))"

definition item_pages :: "treeframe_codec \<Rightarrow> (bytes \<times> bytes) list \<Rightarrow> metadata_page_item \<Rightarrow> bytes set" where
  "item_pages K pages item =
    {p. \<exists>t above below. item_terminal K item = Inr t \<and> mi_route item = above @ below
          \<and> route_chain (page_edge K pages) below p t}"

lemma route_chain_append:
  "route_chain E (a @ b) p t \<longleftrightarrow> (\<exists>q. route_chain E a p q \<and> route_chain E b q t)"
  by (induction a arbitrary: p) auto

lemma parent_edges_Inr:
  "(\<exists>parents. parent_edges K pages = Inr parents) \<longleftrightarrow> (\<forall>(p, body) \<in> set pages. is_ok (page_children K body))"
proof -
  have "(\<exists>edges. try_map f pages = Inr edges) \<longleftrightarrow> (\<forall>page \<in> set pages. is_ok (f page))"
    for f :: "bytes \<times> bytes \<Rightarrow> ((byte \<times> bytes) \<times> bytes) list result"
    by (induction pages) (auto simp: is_ok_iff split: sum.splits)
  then show ?thesis
    unfolding parent_edges_def rbind_eq_Inr by (auto simp: is_ok_iff result_simps split: prod.splits)
qed

lemma parent_edges_set:
  assumes "parent_edges K pages = Inr parents"
  shows "((l, c), p) \<in> set parents \<longleftrightarrow> page_edge K pages p l c"
proof -
  let ?f = "\<lambda>(page_id, body). rbind (map_err (frame_err ''metadata witness page'') (page_children K body))
     (\<lambda>children. Inr (case children of None \<Rightarrow> [] | Some cs \<Rightarrow> map (\<lambda>child. (child, page_id)) cs))"
  obtain edges where e: "try_map ?f pages = Inr edges" "parents = concat edges"
    using assms by (auto simp: parent_edges_def result_simps)
  have "((l, c), p) \<in> set (concat edges) \<longleftrightarrow> page_edge K pages p l c"
    using e(1)
  proof (induction pages arbitrary: edges)
    case (Cons page pages)
    obtain q body where q: "page = (q, body)" by (cases page)
    from Cons.prems obtain x xs where x: "?f (q, body) = Inr x" "try_map ?f pages = Inr xs" "edges = x # xs"
      by (auto simp: q split: sum.splits)
    then obtain ch where ch: "page_children K body = Inr ch"
      "x = (case ch of None \<Rightarrow> [] | Some cs \<Rightarrow> map (\<lambda>child. (child, q)) cs)"
      by (auto simp: result_simps)
    have "((l, c), p) \<in> set x \<longleftrightarrow> p = q \<and> (\<exists>cs. page_children K body = Inr (Some cs) \<and> (l, c) \<in> set cs)"
      using ch by (auto split: option.splits)
    with Cons.IH[OF x(2)] show ?case by (auto simp: x(3) q page_edge_def)
  qed (simp add: page_edge_def)
  with e(2) show ?thesis by simp
qed

lemma ancestors_eq:
  assumes "\<And>l c p. ((l, c), p) \<in> set parents \<longleftrightarrow> E p l c"
  shows "ancestors parents l {c. route_chain E ls c t} = {p. route_chain E (l # ls) p t}"
  using assms by (force simp: ancestors_def)

lemma route_fold:
  assumes E: "\<And>l c p. ((l, c), p) \<in> set parents \<longleftrightarrow> E p l c"
  shows "try_fold (route_step parents) (ex, {p. route_chain E suf p t}) (rev pre) = Inr (ex', fr)
    \<longleftrightarrow> (pre \<noteq> [] \<longrightarrow> (\<exists>p. route_chain E (pre @ suf) p t))
      \<and> ex' = ex \<union> {p. \<exists>a b. pre = a @ b \<and> b \<noteq> [] \<and> route_chain E (b @ suf) p t}
      \<and> fr = {p. route_chain E (pre @ suf) p t}"
proof (induction pre arbitrary: ex suf rule: rev_induct)
  case (snoc l pre)
  let ?up = "{p. route_chain E (l # suf) p t}"
  have split: "{p. \<exists>a b. pre @ [l] = a @ b \<and> b \<noteq> [] \<and> route_chain E (b @ suf) p t}
      = ?up \<union> {p. \<exists>a b. pre = a @ b \<and> b \<noteq> [] \<and> route_chain E (b @ l # suf) p t}"
  proof -
    have "pre @ [l] = a @ b \<and> b \<noteq> [] \<longleftrightarrow> (\<exists>b'. b = b' @ [l] \<and> pre = a @ b')" for a b
      by (cases b rule: rev_cases) auto
    then have "{p. \<exists>a b. pre @ [l] = a @ b \<and> b \<noteq> [] \<and> route_chain E (b @ suf) p t}
      = {p. \<exists>a b'. pre = a @ b' \<and> route_chain E (b' @ l # suf) p t}"
      by (auto simp del: route_chain.simps) (metis append.assoc append_Cons append_Nil)+
    also have "\<dots> = ?up \<union> {p. \<exists>a b. pre = a @ b \<and> b \<noteq> [] \<and> route_chain E (b @ l # suf) p t}"
      by (auto simp del: route_chain.simps) (metis append_Nil append_Nil2)+
    finally show ?thesis .
  qed
  have need: "(\<exists>p. route_chain E ((pre @ [l]) @ suf) p t) \<Longrightarrow> ?up \<noteq> {}"
    by (auto simp: route_chain_append)
  show ?case
  proof (cases "?up = {}")
    case True
    with need show ?thesis by (auto simp: route_step_def Let_def ancestors_eq[OF E])
  next
    case False
    then have "try_fold (route_step parents) (ex, {p. route_chain E suf p t}) (rev (pre @ [l]))
      = try_fold (route_step parents) (ex \<union> ?up, ?up) (rev pre)"
      by (auto simp add: route_step_def Let_def ancestors_eq[OF E] simp del: route_chain.simps)
    moreover have "pre = [] \<Longrightarrow> \<exists>p. route_chain E ((pre @ [l]) @ suf) p t" using False by auto
    ultimately show ?thesis
      unfolding split using snoc.IH[of "ex \<union> ?up" "l # suf"] by (auto simp del: route_chain.simps)
  qed
qed auto

lemma item_witnesses_Inr:
  assumes "parent_edges K pages = Inr parents"
  shows "item_witnesses K parents ex item = Inr ex' \<longleftrightarrow>
    (\<exists>t root. item_terminal K item = Inr t \<and> route_chain (page_edge K pages) (mi_route item) root t)
    \<and> ex' = ex \<union> item_pages K pages item"
proof (cases "item_terminal K item")
  case (Inl e)
  then show ?thesis by (simp add: item_witnesses_def item_terminal_def)
next
  case (Inr t)
  let ?E = "page_edge K pages"
  have "{t} = {p. route_chain ?E [] p t}" by auto
  then have "item_witnesses K parents ex item = Inr ex' \<longleftrightarrow>
      (\<exists>fr. try_fold (route_step parents) (insert t ex, {p. route_chain ?E [] p t}) (rev (mi_route item)) = Inr (ex', fr))"
    using Inr by (auto simp: item_witnesses_def item_terminal_def result_simps)
  also have "\<dots> \<longleftrightarrow> (mi_route item \<noteq> [] \<longrightarrow> (\<exists>p. route_chain ?E (mi_route item) p t))
      \<and> ex' = insert t ex \<union> {p. \<exists>a b. mi_route item = a @ b \<and> b \<noteq> [] \<and> route_chain ?E b p t}"
    using route_fold[OF parent_edges_set[OF assms], of "insert t ex" "[]" t] by auto
  also have "insert t ex \<union> {p. \<exists>a b. mi_route item = a @ b \<and> b \<noteq> [] \<and> route_chain ?E b p t} = ex \<union> item_pages K pages item"
    using Inr by (auto simp: item_pages_def) (metis append_Nil2 route_chain.simps(1))+
  finally show ?thesis using Inr by (cases "mi_route item") auto
qed

lemma members_fold:
  assumes "parent_edges K pages = Inr parents"
  shows "try_fold (item_witnesses K parents) ex items = Inr ex' \<longleftrightarrow>
    (\<forall>item \<in> set items. \<exists>t root. item_terminal K item = Inr t
        \<and> route_chain (page_edge K pages) (mi_route item) root t)
    \<and> ex' = ex \<union> (\<Union>item \<in> set items. item_pages K pages item)"
proof (induction items arbitrary: ex)
  case (Cons item items)
  show ?case
  proof (cases "\<exists>t root. item_terminal K item = Inr t \<and> route_chain (page_edge K pages) (mi_route item) root t")
    case True
    then have "item_witnesses K parents ex item = Inr (ex \<union> item_pages K pages item)"
      using item_witnesses_Inr[OF assms] by blast
    with True Cons.IH[of "ex \<union> item_pages K pages item"] show ?thesis by auto
  next
    case False
    then have "\<exists>e. item_witnesses K parents ex item = Inl e"
      using item_witnesses_Inr[OF assms, of ex item] by (cases "item_witnesses K parents ex item") blast+
    with False show ?thesis by auto
  qed
qed auto

lemma check_terminals_Inr:
  assumes "list_all (\<lambda>item. mi_expected_digest item \<noteq> None) items"
  shows "check_terminals K items ids = Inr u \<longleftrightarrow> (\<forall>item \<in> set items. \<exists>t \<in> ids. item_terminal K item = Inr t)"
  unfolding check_terminals_def using assms
  by (induction items) (auto simp: item_terminal_def ensure_def rbind_def split: option.splits sum.splits)


definition demo_codec_page :: "bytes \<Rightarrow> string + (byte \<times> bytes) list option" where
  "demo_codec_page body = Inr (case body of [] \<Rightarrow> None | label # child \<Rightarrow> Some [(label, child)])"

definition demo_frame_codec :: "(bytes \<Rightarrow> string + frame list) \<Rightarrow> treeframe_codec" where
  "demo_frame_codec parse =
    \<lparr>HEADER_LEN = 20, KIND_META = 1, KIND_OBJECT = 2, KIND_CHUNK = 3, KIND_END = 4, KIND_ERROR = 5,
     META_MAX_RAW = 1000, OBJECT_MAX_RAW = 1000, OBJECT_MAX_LEN = 1000, CHUNK_MAX_LEN = 1000,
     ERROR_MAX_BYTES = 100, MAX_DEPTH = 255, PAGE_MAX_BYTES = 1000, parse_stream = parse,
     page_children = demo_codec_page, tf_sha256 = (\<lambda>b. b), tf_hex_decode = (\<lambda>s. Some (hex_pairs s))\<rparr>"

lemma demo_parse_digest:
  "parse_digest (tf_hex_decode (demo_frame_codec parse)) (digest_text (replicate 32 x)) = Inr (replicate 32 x)"
  by (subst parse_digest_Inr_iff) (simp_all add: demo_frame_codec_def hex_decoder_def)

definition demo_item :: metadata_page_item where
  "demo_item = \<lparr>mi_directory_path = ''/'', mi_route = [7], mi_expected_digest = Some (digest_text (replicate 32 2))\<rparr>"

definition demo_pages :: "(bytes \<times> bytes) list" where
  "demo_pages = [(replicate 32 1, 7 # replicate 32 2), (replicate 32 2, [])]"


section \<open>Requests and responses\<close>

text \<open>Compact JSON has no bytes beside the envelope, the items and the commas between them.\<close>

definition compact_json :: "'i request_json \<Rightarrow> bool" where
  "compact_json J \<longleftrightarrow> (\<forall>items encoding body. items \<noteq> [] \<longrightarrow> rj_body J items encoding = Inr body \<longrightarrow>
     length body = length (rj_envelope J encoding) + sum_list (map (\<lambda>i. length (rj_item J i)) items)
       + (length items - 1))"

text \<open>C33: Splitting a request succeeds exactly when every single item fits into a request; the
  batches are the request in order, none is empty or above the item limit, and the JSON body that is
  sent for a batch stays within the byte limit when the writer emits compact JSON.\<close>

theorem request_batches_fit:
  assumes "1 \<le> max_items" "compact_json J"
  shows "(is_ok (request_batches J items encoding limit max_items) \<longleftrightarrow>
      (\<forall>i \<in> set items. length (rj_envelope J encoding) + length (rj_item J i) \<le> limit))
    \<and> (\<forall>batches. request_batches J items encoding limit max_items = Inr batches \<longrightarrow>
      concat batches = items \<and> (\<forall>batch \<in> set batches. batch \<noteq> [] \<and> length batch \<le> max_items
        \<and> (\<forall>body. rj_body J batch encoding = Inr body \<longrightarrow> length body \<le> limit)))"
proof (intro conjI allI impI ballI)
  let ?o = "length (rj_envelope J encoding)" and ?f = "\<lambda>i. length (rj_item J i)"
  show "is_ok (request_batches J items encoding limit max_items) \<longleftrightarrow> (\<forall>i \<in> set items. ?o + ?f i \<le> limit)"
  proof
    assume "is_ok (request_batches J items encoding limit max_items)"
    then obtain batches where b: "request_batches J items encoding limit max_items = Inr batches"
      by (auto simp: is_ok_iff)
    show "\<forall>i \<in> set items. ?o + ?f i \<le> limit"
    proof
      fix i assume "i \<in> set items"
      then obtain batch where "batch \<in> set batches" "i \<in> set batch"
        using request_batches_Inr(1)[OF b] by auto
      with request_batches_Inr(2)[OF b assms(1)] member_le_sum_list[of "?f i" "map ?f batch"]
      show "?o + ?f i \<le> limit" by (fastforce simp: batch_bytes_def)
    qed
  next
    assume "\<forall>i \<in> set items. ?o + ?f i \<le> limit"
    from batch_fold_ok[OF this, of items] show "is_ok (request_batches J items encoding limit max_items)"
      by (fastforce simp: request_batches_def Let_def is_ok_iff result_simps)
  qed
  fix batches assume b: "request_batches J items encoding limit max_items = Inr batches"
  show "concat batches = items" by (rule request_batches_Inr(1)[OF b])
  fix batch assume batch: "batch \<in> set batches"
  note fit = request_batches_Inr(2)[OF b assms(1) batch]
  then show "batch \<noteq> []" "length batch \<le> max_items" by simp_all
  show "length body \<le> limit" if "rj_body J batch encoding = Inr body" for body
    using fit that assms(2) by (auto simp: compact_json_def batch_bytes_def)
qed

definition demo_json :: "'i request_json" where
  "demo_json = \<lparr>rj_envelope = (\<lambda>_. [0, 0]), rj_item = (\<lambda>_. [1, 1, 1]),
     rj_body = (\<lambda>items _. Inr (replicate (2 + 3 * length items + (length items - 1)) 0))\<rparr>"

theorem request_batches_fit_witness:
  "compact_json (demo_json :: nat request_json)
    \<and> request_batches demo_json [10, 20, 30::nat] None 9 5 = Inr [[10, 20], [30]]
    \<and> concat [[10, 20], [30]] = [10, 20, 30::nat] \<and> length [10, 20::nat] \<le> 5"
proof -
  have "request_batches demo_json [10, 20, 30::nat] None 9 5 = Inr [[10, 20], [30]]" by code_simp
  moreover have c: "compact_json (demo_json :: nat request_json)"
    by (auto simp: compact_json_def demo_json_def sum_list_triv)
  ultimately show ?thesis
    using request_batches_fit[OF _ c, of 5 "[10, 20, 30]" None 9] by simp
qed

text \<open>C21: Reading the frames of a response always returns, and a response is decoded only if it is
  a sequence of whole frames of the endpoint's kinds, as many and announcing as many raw bytes as the
  request's budget allows, each within the frame limits and uncompressed for a canonical client.\<close>

theorem response_frames_bounded:
  assumes "20 \<le> HEADER_LEN K" "endpoint_kind K data_kind"
  shows "\<exists>r. response_frames K client raw context data_kind data_name budget = Some r
    \<and> (\<forall>frames. r = Inr frames \<longrightarrow>
       parse_stream K raw = Inr frames
       \<and> (\<exists>segs. concat segs = raw \<and> list_all (frame_segment K client data_kind) segs
            \<and> length segs \<le> rb_units budget + 2
            \<and> sum_list (map header_raw_len segs) \<le> rb_raw_bytes budget))"
proof -
  let ?s = "scan_frames K client raw context data_kind data_name budget (0, 0, 0)"
  consider e where "?s = Some (Inl e)" | u where "?s = Some (Inr u)"
    using scan_frames_returns[OF assms] by (metis not_None_eq sum.exhaust)
  then show ?thesis
  proof cases
    case 1
    then show ?thesis by (simp add: response_frames_def)
  next
    case 2
    from scan_frames_Inr[OF 2 assms(1)] obtain segs where
      "concat segs = raw" "list_all (frame_segment K client data_kind) segs"
      "segs \<noteq> [] \<longrightarrow> length segs \<le> rb_units budget + 2 \<and> sum_list (map header_raw_len segs) \<le> rb_raw_bytes budget"
      by auto
    then have "concat segs = raw \<and> list_all (frame_segment K client data_kind) segs
        \<and> length segs \<le> rb_units budget + 2 \<and> sum_list (map header_raw_len segs) \<le> rb_raw_bytes budget"
      by (cases "segs = []") simp_all
    with 2 show ?thesis by (auto simp: response_frames_def result_simps)
  qed
qed

definition demo_budget :: response_budget where
  "demo_budget = \<lparr>rb_units = 1, rb_raw_bytes = 10, rb_wire_bytes = 100\<rparr>"

definition demo_end :: bytes where
  "demo_end = replicate 6 0 @ [4, 0] @ replicate 4 0 @ [1, 0, 0, 0] @ [5, 0, 0, 0] @ [9]"

theorem response_frames_bounded_witness:
  "response_frames (demo_frame_codec (\<lambda>_. Inr [])) \<lparr>profile = None\<rparr> (demo_end @ demo_end) ''ctx'' 1 ''META'' demo_budget
     = Some (Inr []) \<and> length demo_end = 21"
proof -
  let ?K = "demo_frame_codec (\<lambda>_. Inr [])" and ?c = "\<lparr>profile = None\<rparr>"
  have "\<exists>r. response_frames ?K ?c (demo_end @ demo_end) ''ctx'' 1 ''META'' demo_budget = Some r"
    using response_frames_bounded[of ?K 1 ?c "demo_end @ demo_end" "''ctx''" "''META''" demo_budget]
    by (auto simp: demo_frame_codec_def endpoint_kind_def)
  moreover have "response_frames ?K ?c (demo_end @ demo_end) ''ctx'' 1 ''META'' demo_budget = Some (Inr [])"
    "length demo_end = 21" by code_simp+
  ultimately show ?thesis by simp
qed

section \<open>Exact unit sets\<close>

text \<open>The unit that a chunk request names.\<close>

definition chunk_unit_of :: "treeframe_codec \<Rightarrow> chunk_request \<Rightarrow> ((bytes \<times> nat) \<times> bytes) result" where
  "chunk_unit_of K item =
    rbind (parse_digest (tf_hex_decode K) (cq_map_id item)) (\<lambda>map_id.
    rbind (parse_digest (tf_hex_decode K) (cq_expected_digest item)) (\<lambda>file_id.
    Inr ((map_id, cq_chunk_index item), file_id)))"

lemma chunk_request_step_unit:
  "chunk_request_step K requested item =
    rbind (chunk_unit_of K item) (\<lambda>(key, file_id).
      if (case map_of requested key of None \<Rightarrow> False | Some previous \<Rightarrow> previous \<noteq> file_id)
      then Inl (SnapshotError_new ScopeInvalid ''a chunk unit cannot name different file content ids'')
      else Inr (AList.update key file_id requested))"
  by (auto simp: chunk_request_step_def chunk_unit_of_def Let_def rbind_def split: sum.splits)

lemma requested_chunks_Inr:
  assumes "requested_chunks K items = Inr requested"
  shows "distinct (map fst requested)"
    "map_of requested key = Some file_id \<longleftrightarrow> (\<exists>item \<in> set items. chunk_unit_of K item = Inr (key, file_id))"
proof -
  have "distinct (map fst requested) \<and> (\<forall>k i. map_of requested k = Some i
      \<longleftrightarrow> (\<exists>item \<in> set items. chunk_unit_of K item = Inr (k, i)))"
    using assms unfolding requested_chunks_def
  proof (rule try_fold_invariant)
    fix req ys item req'
    assume inv: "distinct (map fst req) \<and> (\<forall>k i. map_of req k = Some i
        \<longleftrightarrow> (\<exists>item \<in> set ys. chunk_unit_of K item = Inr (k, i)))"
      and step: "chunk_request_step K req item = Inr req'"
    from step obtain k i where u: "chunk_unit_of K item = Inr (k, i)"
      "\<not> (case map_of req k of None \<Rightarrow> False | Some previous \<Rightarrow> previous \<noteq> i)" "req' = AList.update k i req"
      by (auto simp: chunk_request_step_unit result_simps split: if_splits)
    have m: "map_of req' = (map_of req)(k \<mapsto> i)" by (simp add: u(3) update_conv')
    have same: "map_of req k = Some j \<Longrightarrow> j = i" for j using u(2) by (auto split: option.splits)
    have old: "map_of req k' = Some i' \<longleftrightarrow> (\<exists>item \<in> set ys. chunk_unit_of K item = Inr (k', i'))" for k' i'
      using inv by blast
    have "map_of req' k' = Some i' \<longleftrightarrow> (\<exists>item \<in> set (ys @ [item]). chunk_unit_of K item = Inr (k', i'))" for k' i'
    proof (cases "k' = k")
      case True
      with same[of i'] old[of k i'] u(1) show ?thesis unfolding m by auto
    next
      case False
      with old[of k' i'] u(1) show ?thesis unfolding m by auto
    qed
    moreover have "distinct (map fst req')" using inv u(3) by (simp add: distinct_update)
    ultimately show "distinct (map fst req') \<and> (\<forall>k i. map_of req' k = Some i
        \<longleftrightarrow> (\<exists>item \<in> set (ys @ [item]). chunk_unit_of K item = Inr (k, i)))" by blast
  qed simp
  then show "distinct (map fst requested)"
    "map_of requested key = Some file_id \<longleftrightarrow> (\<exists>item \<in> set items. chunk_unit_of K item = Inr (key, file_id))" by blast+
qed

lemma collect_chunks_inv:
  assumes "run_fold (collect_chunk_frame requested) ([], 0) frames = Some (Inr (out, n))"
  shows "distinct (map chunk_key out)" "u \<in> set out \<Longrightarrow> map_of requested (chunk_key u) = Some (cu_file_content_id u)"
proof -
  have "(\<lambda>(out, n) (_ :: frame list). distinct (map chunk_key out)
      \<and> (\<forall>u \<in> set out. map_of requested (chunk_key u) = Some (cu_file_content_id u))) (out, n) frames"
    using assms by (rule run_fold_invariant)
      (auto simp: collect_chunk_frame_def split: frame.splits if_splits)
  then show "distinct (map chunk_key out)"
    "u \<in> set out \<Longrightarrow> map_of requested (chunk_key u) = Some (cu_file_content_id u)" by auto
qed

lemma distinct_full:
  assumes "distinct xs" "set xs \<subseteq> set ys" "distinct ys" "length xs = length ys"
  shows "set xs = set ys"
  using assms by (metis List.finite_set card_subset_eq distinct_card)

lemma chunks_batch_exact:
  assumes "chunks_batch K client base J post sid items encoding = Some (Inr units)"
  shows "set (map (\<lambda>u. (chunk_key u, cu_file_content_id u)) units) = {x. \<exists>item \<in> set items. chunk_unit_of K item = Inr x}"
proof -
  obtain requested body frames where r: "requested_chunks K items = Inr requested"
    "accept_chunks K requested (length items) body frames = Some (Inr units)"
    using assms by (auto simp: chunks_batch_def result_simps split: if_splits)
  then obtain n where c: "run_fold (collect_chunk_frame requested) ([], 0) frames = Some (Inr (units, n))"
    "length units = length requested"
    by (auto simp: accept_chunks_def result_simps split: if_splits)
  note req = requested_chunks_Inr[OF r(1)] and out = collect_chunks_inv[OF c(1)]
  have keys: "set (map chunk_key units) = set (map fst requested)"
  proof (rule distinct_full)
    show "set (map chunk_key units) \<subseteq> set (map fst requested)"
    proof
      fix key assume "key \<in> set (map chunk_key units)"
      then obtain u where "u \<in> set units" "key = chunk_key u" by auto
      then have "map_of requested key = Some (cu_file_content_id u)" using out(2) by simp
      then show "key \<in> set (map fst requested)" by (force dest: map_of_SomeD)
    qed
  qed (use c(2) req(1) out(1) in simp_all)
  have pairs: "(\<exists>u \<in> set units. (key, i) = (chunk_key u, cu_file_content_id u)) \<longleftrightarrow> map_of requested key = Some i" for key i
  proof
    assume "map_of requested key = Some i"
    then have "key \<in> set (map fst requested)" by (force dest: map_of_SomeD)
    with keys obtain u where "u \<in> set units" "key = chunk_key u" by (auto simp flip: keys)
    with out(2) \<open>map_of requested key = Some i\<close> show "\<exists>u \<in> set units. (key, i) = (chunk_key u, cu_file_content_id u)" by auto
  qed (use out(2) in auto)
  show ?thesis
  proof (rule set_eqI)
    fix x :: "(bytes \<times> nat) \<times> bytes"
    obtain key i where x: "x = (key, i)" by (cases x)
    show "x \<in> set (map (\<lambda>u. (chunk_key u, cu_file_content_id u)) units)
      \<longleftrightarrow> x \<in> {x. \<exists>item \<in> set items. chunk_unit_of K item = Inr x}"
      using pairs[of key i] unfolding req(2) x by (simp add: image_iff)
  qed
qed

lemma append_new_simps:
  "append_new key out [] = out"
  "append_new key out (x # xs) = append_new key (if key x \<in> set (map key out) then out else out @ [x]) xs"
  by (simp_all add: append_new_def)

lemma append_new_keys: "set (map key (append_new key out xs)) = set (map key out) \<union> set (map key xs)"
proof (induction xs arbitrary: out)
  case (Cons x xs)
  show ?case unfolding append_new_simps Cons.IH by auto
qed (simp add: append_new_simps)

lemma append_new_elems: "set (append_new key out xs) \<subseteq> set out \<union> set xs"
proof (induction xs arbitrary: out)
  case (Cons x xs)
  show ?case
    unfolding append_new_simps using Cons.IH[of "if key x \<in> set (map key out) then out else out @ [x]"]
    by (auto split: if_splits)
qed (simp add: append_new_simps)

lemma append_new_distinct: "distinct (map key out) \<Longrightarrow> distinct (map key (append_new key out xs))"
proof (induction xs arbitrary: out)
  case (Cons x xs)
  show ?case unfolding append_new_simps by (rule Cons.IH) (use Cons.prems in auto)
qed (simp add: append_new_simps)

text \<open>C23: A chunk request that succeeds returns every requested unit exactly once, in as many batches
  as it takes: the pairs of unit and file content id delivered are those named by the items.\<close>

theorem chunks_exact:
  assumes "chunks K client base J post sid items encoding = Some (Inr units)"
  shows "distinct (map chunk_key units)
    \<and> set (map (\<lambda>u. (chunk_key u, cu_file_content_id u)) units) = {x. \<exists>item \<in> set items. chunk_unit_of K item = Inr x}"
proof -
  let ?pair = "\<lambda>u. (chunk_key u, cu_file_content_id u)"
  let ?named = "\<lambda>items. {x. \<exists>item \<in> set items. chunk_unit_of K item = Inr x}"
  obtain requested batches where r: "requested_chunks K items = Inr requested"
    "request_batches J items encoding (request_byte_limit client)
       (min (request_item_limit client) (max (chunk_byte_limit client div CHUNK_MAX_LEN K) 1)) = Inr batches"
    and f: "run_fold (\<lambda>out batch. run_bind (chunks_batch K client base J post sid batch encoding) (\<lambda>units.
        Some (Inr (append_new chunk_key out units)))) [] batches = Some (Inr units)"
    using assms by (auto simp: chunks_def result_simps split: if_splits)
  have f2: "distinct (map chunk_key units) \<and> set (map ?pair units) \<subseteq> ?named (concat batches)
      \<and> chunk_key ` set units = fst ` ?named (concat batches)"
    using f
  proof (rule run_fold_invariant)
    fix out bs batch out'
    assume inv: "distinct (map chunk_key out) \<and> set (map ?pair out) \<subseteq> ?named (concat bs)
        \<and> chunk_key ` set out = fst ` ?named (concat bs)"
      and "run_bind (chunks_batch K client base J post sid batch encoding) (\<lambda>units.
        Some (Inr (append_new chunk_key out units))) = Some (Inr out')"
    then obtain us where us: "chunks_batch K client base J post sid batch encoding = Some (Inr us)"
      "out' = append_new chunk_key out us" by (auto simp: result_simps)
    note exact = chunks_batch_exact[OF us(1)]
    have cat: "?named (concat (bs @ [batch])) = ?named (concat bs) \<union> ?named batch" by auto
    have keys: "chunk_key ` set us = fst ` ?named batch" unfolding exact[symmetric] by (simp add: image_image)
    have "distinct (map chunk_key out')" using inv append_new_distinct[of chunk_key out us] us(2) by simp
    moreover have "set (map ?pair out') \<subseteq> set (map ?pair out) \<union> set (map ?pair us)"
      using append_new_elems[of chunk_key out us] us(2) by auto
    then have "set (map ?pair out') \<subseteq> ?named (concat (bs @ [batch]))"
      unfolding cat exact using inv by (meson Un_mono order.trans order_refl)
    moreover have "chunk_key ` set out' = chunk_key ` set out \<union> chunk_key ` set us"
      using append_new_keys[of chunk_key out us] us(2) by simp
    then have "chunk_key ` set out' = fst ` ?named (concat (bs @ [batch]))"
      unfolding cat keys image_Un using inv by argo
    ultimately show "distinct (map chunk_key out') \<and> set (map ?pair out') \<subseteq> ?named (concat (bs @ [batch]))
        \<and> chunk_key ` set out' = fst ` ?named (concat (bs @ [batch]))" by argo
  qed simp
  have cat: "concat batches = items" by (rule request_batches_Inr(1)[OF r(2)])
  have "?named items \<subseteq> set (map ?pair units)"
  proof
    fix x assume x: "x \<in> ?named items"
    then have "fst x \<in> chunk_key ` set units" using f2 unfolding cat by blast
    then obtain u where u: "u \<in> set units" "fst x = chunk_key u" by auto
    then have "?pair u \<in> ?named items" using f2 unfolding cat by auto
    then have m: "map_of requested (chunk_key u) = Some (cu_file_content_id u)"
      unfolding requested_chunks_Inr(2)[OF r(1)] by simp
    have "map_of requested (chunk_key u) = Some (snd x)"
      unfolding requested_chunks_Inr(2)[OF r(1)] u(2)[symmetric] using x by simp
    with m have "x = ?pair u" using u(2) by (simp add: prod_eq_iff)
    with u(1) show "x \<in> set (map ?pair units)" by simp
  qed
  with f2 show ?thesis unfolding cat by blast
qed

definition demo_chunk_request :: "nat \<Rightarrow> chunk_request" where
  "demo_chunk_request i = \<lparr>cq_path = ''/f'', cq_expected_digest = digest_text (replicate 32 2),
     cq_map_id = digest_text (replicate 32 3), cq_chunk_index = i\<rparr>"

definition demo_chunk :: "nat \<Rightarrow> chunk_unit" where
  "demo_chunk i = \<lparr>cu_map_id = replicate 32 3, cu_file_content_id = replicate 32 2, cu_chunk_index = i, cu_bytes = [5]\<rparr>"

definition demo_chunk_codec :: treeframe_codec where
  "demo_chunk_codec = demo_frame_codec (\<lambda>_. Inr [Chunk_Frame (demo_chunk 5), Chunk_Frame (demo_chunk 4),
     End_Frame \<lparr>request_item_count = 2, unique_unit_count = 2, end_logical_bytes = 2,
       request_body_sha256 = replicate 9 0\<rparr>])"

definition demo_client :: mst2_client where
  "demo_client = \<lparr>profile = None\<rparr>"

lemma demo_two_items:
  assumes "1 < limit" "9 \<le> bytes"
  shows "request_batches demo_json [a, b] None bytes limit = Inr [[a, b]]"
  using assms by (simp add: request_batches_def batch_step_def demo_json_def Let_def)

lemma demo_scan:
  "response_frames demo_chunk_codec demo_client demo_end ''chunks stream'' 3 ''CHUNK''
     \<lparr>rb_units = 2, rb_raw_bytes = 2252, rb_wire_bytes = 4564\<rparr>
   = Some (Inr [Chunk_Frame (demo_chunk 5), Chunk_Frame (demo_chunk 4),
       End_Frame \<lparr>request_item_count = 2, unique_unit_count = 2, end_logical_bytes = 2,
         request_body_sha256 = replicate 9 0\<rparr>])"
  by code_simp

lemma demo_chunks_run:
  "chunks demo_chunk_codec demo_client [] demo_json (\<lambda>_ _ _ _. Inr demo_end) ''sid''
     [demo_chunk_request 4, demo_chunk_request 5] None = Some (Inr [demo_chunk 5, demo_chunk 4])"
proof -
  let ?items = "[demo_chunk_request 4, demo_chunk_request 5]"
  let ?req = "[((replicate 32 3, 4), replicate 32 2), ((replicate 32 3, 5), replicate 32 2)] :: ((bytes \<times> nat) \<times> bytes) list"
  have req: "requested_chunks demo_chunk_codec ?items = Inr ?req"
    by (simp add: requested_chunks_def chunk_request_step_def demo_chunk_request_def demo_chunk_codec_def
        demo_parse_digest Let_def)
  have budget: "ResponseBudget_new demo_chunk_codec 2 2000 76 = Inr \<lparr>rb_units = 2, rb_raw_bytes = 2252, rb_wire_bytes = 4564\<rparr>"
    by code_simp
  have limits: "min (2 * CHUNK_MAX_LEN demo_chunk_codec) (chunk_byte_limit demo_client) = 2000"
    "request_byte_limit demo_client = 131072" "1 < min (request_item_limit demo_client)
       (max (chunk_byte_limit demo_client div CHUNK_MAX_LEN demo_chunk_codec) 1)"
    "KIND_CHUNK demo_chunk_codec = 3" by code_simp+
  have body: "rj_body demo_json ?items None = Inr (replicate 9 0)"
    by (simp add: demo_json_def eval_nat_numeral)
  have len: "length ?items = 2" "length ?req = 2" by simp_all
  have accept: "accept_chunks demo_chunk_codec ?req 2 (replicate 9 0)
      [Chunk_Frame (demo_chunk 5), Chunk_Frame (demo_chunk 4),
       End_Frame \<lparr>request_item_count = 2, unique_unit_count = 2, end_logical_bytes = 2,
         request_body_sha256 = replicate 9 0\<rparr>] = Some (Inr [demo_chunk 5, demo_chunk 4])"
    by (simp add: accept_chunks_def check_end_def as_u32_def collect_chunk_frame_def chunk_key_def demo_chunk_def
        demo_chunk_codec_def demo_frame_codec_def)
  have "chunks_batch demo_chunk_codec demo_client [] demo_json (\<lambda>_ _ _ _. Inr demo_end) ''sid'' ?items None
      = Some (Inr [demo_chunk 5, demo_chunk 4])"
    unfolding chunks_batch_def req run_bind_simps len(1,2) limits(1,4) budget body map_err_simps demo_scan accept
    by (simp add: MAX_CHUNK_BATCH_def)
  with req demo_two_items[OF limits(3), of 131072 "demo_chunk_request 4" "demo_chunk_request 5"] show ?thesis
    by (simp add: chunks_def demo_client_def require_feature_def validate_encoding_def validate_path_def is_canonical_def
        MAX_CHUNK_BATCH_def limits(2)[unfolded demo_client_def] append_new_simps chunk_key_def demo_chunk_def)
qed

theorem chunks_exact_witness:
  "distinct (map chunk_key [demo_chunk 5, demo_chunk 4])
    \<and> (\<exists>item \<in> set [demo_chunk_request 4, demo_chunk_request 5].
         chunk_unit_of demo_chunk_codec item = Inr ((replicate 32 3, 4), replicate 32 2))"
  using chunks_exact[OF demo_chunks_run] by (auto simp: chunk_key_def demo_chunk_def)

lemma collect_objects_inv:
  assumes "run_fold (collect_object_frame client requested) ([], 0) frames = Some (Inr (out, n))"
  shows "distinct (map fst out)" "set (map fst out) \<subseteq> set requested"
proof -
  have one: "distinct (map fst o2) \<and> set (map fst o2) \<subseteq> set requested"
    if "run_fold (collect_object client requested) (o1, n1) objs = Some (Inr (o2, n2))"
      "distinct (map fst o1) \<and> set (map fst o1) \<subseteq> set requested" for o1 n1 o2 n2 objs
  proof -
    have "(\<lambda>(out, n) _. distinct (map fst out) \<and> set (map fst out) \<subseteq> set requested) (o2, n2) objs"
      using that(1)
    proof (rule run_fold_invariant)
      fix u x v and ys :: "(bytes \<times> bytes) list"
      assume u: "(\<lambda>(out, n) _. distinct (map fst out) \<and> set (map fst out) \<subseteq> set requested) u ys"
        and s: "collect_object client requested u x = Some (Inr v)"
      obtain a b cid data where e: "u = (a, b)" "x = (cid, data)" by (cases u; cases x)
      from s have "cid \<in> set requested" "cid \<notin> set (map fst a)" "v = (a @ [(cid, data)], b + length data)"
        unfolding collect_object_def e prod.case by (auto split: if_splits)
      with u show "(\<lambda>(out, n) _. distinct (map fst out) \<and> set (map fst out) \<subseteq> set requested) v (ys @ [x])"
        by (simp add: e)
    qed (use that(2) in simp)
    then show ?thesis by simp
  qed
  have "(\<lambda>(out, n) _. distinct (map fst out) \<and> set (map fst out) \<subseteq> set requested) (out, n) frames"
    using assms
  proof (rule run_fold_invariant)
    fix u f v and ys :: "frame list"
    assume u: "(\<lambda>(out, n) _. distinct (map fst out) \<and> set (map fst out) \<subseteq> set requested) u ys"
      and s: "collect_object_frame client requested u f = Some (Inr v)"
    obtain o1 n1 o2 n2 where uv: "u = (o1, n1)" "v = (o2, n2)" by (cases u; cases v)
    show "(\<lambda>(out, n) _. distinct (map fst out) \<and> set (map fst out) \<subseteq> set requested) v (ys @ [f])"
      using u s one[of o1 n1 _ o2 n2] by (cases f) (auto simp: collect_object_frame_def uv)
  qed simp
  then show "distinct (map fst out)" "set (map fst out) \<subseteq> set requested" by auto
qed

lemma objects_batch_exact:
  assumes "objects_batch K client base J post sid items encoding = Some (Inr out)"
  shows "set (map fst out) = {cid. \<exists>item \<in> set items. parse_digest (tf_hex_decode K) (snd item) = Inr cid}"
proof -
  obtain ids body frames where r: "try_map (\<lambda>(_, digest). parse_digest (tf_hex_decode K) digest) items = Inr ids"
    "accept_objects K client (remdups ids) (length items) body frames = Some (Inr out)"
    using assms by (auto simp: objects_batch_def result_simps Let_def split: if_splits)
  then obtain n where c: "run_fold (collect_object_frame client (remdups ids)) ([], 0) frames = Some (Inr (out, n))"
    "length out = length (remdups ids)"
    by (auto simp: accept_objects_def result_simps split: if_splits)
  have "set (map fst out) = set (remdups ids)"
    by (rule distinct_full) (use collect_objects_inv[OF c(1)] c(2) in simp_all)
  moreover have "set ids = {cid. \<exists>item \<in> set items. parse_digest (tf_hex_decode K) (snd item) = Inr cid}"
    using r(1) unfolding try_map_Inr_iff by (induction rule: list_all2_induct) (auto split: prod.splits)
  ultimately show ?thesis by simp
qed

lemma merge_objects_keys:
  assumes "merge_objects (out, n) objs = Inr (out', n')"
  shows "set (map fst out') = set (map fst out) \<union> set (map fst objs)" "distinct (map fst out) \<Longrightarrow> distinct (map fst out')"
proof -
  have o: "out' = foldl (\<lambda>m (cid, data). AList.update cid data m) out objs"
    using assms by (auto simp: merge_objects_def Let_def split: if_splits)
  have "set (map fst (foldl (\<lambda>m (cid, data). AList.update cid data m) out objs)) = set (map fst out) \<union> set (map fst objs)"
  proof (induction objs arbitrary: out)
    case (Cons x objs)
    have "set (map fst (AList.update (fst x) (snd x) out)) = insert (fst x) (set (map fst out))"
      by (simp add: dom_update)
    with Cons[of "AList.update (fst x) (snd x) out"] show ?case by (simp add: case_prod_beta)
  qed simp
  then show "set (map fst out') = set (map fst out) \<union> set (map fst objs)" by (simp add: o)
  have "distinct (map fst out) \<Longrightarrow> distinct (map fst (foldl (\<lambda>m (cid, data). AList.update cid data m) out objs))"
    by (induction objs arbitrary: out) (auto simp: distinct_update)
  then show "distinct (map fst out) \<Longrightarrow> distinct (map fst out')" by (simp add: o)
qed

text \<open>C32: An object request that succeeds returns each requested content id exactly once and nothing
  else, whatever the batching and the order of the responses.\<close>

theorem objects_exact:
  assumes "objects K client base J post sid items encoding = Some (Inr out)"
  shows "distinct (map fst out)
    \<and> set (map fst out) = {cid. \<exists>item \<in> set items. parse_digest (tf_hex_decode K) (snd item) = Inr cid}"
proof -
  let ?named = "\<lambda>items :: (string \<times> string) list. {cid. \<exists>item \<in> set items. parse_digest (tf_hex_decode K) (snd item) = Inr cid}"
  obtain batches n where r: "request_batches J items encoding (request_byte_limit client)
       (min (request_item_limit client) (max (object_byte_limit client div OBJECT_MAX_LEN K) 1)) = Inr batches"
    and f: "run_fold (\<lambda>state batch. run_bind (objects_batch K client base J post sid batch encoding) (\<lambda>objects.
        Some (merge_objects state objects))) ([], 0) batches = Some (Inr (out, n))"
    using assms by (auto simp: objects_def result_simps split: if_splits)
  have "(\<lambda>(out, n) bs. distinct (map fst out) \<and> set (map fst out) = ?named (concat bs)) (out, n) batches"
    using f
  proof (rule run_fold_invariant)
    fix u bs batch v
    assume u: "(\<lambda>(out, n) bs. distinct (map fst out) \<and> set (map fst out) = ?named (concat bs)) u bs"
      and s: "run_bind (objects_batch K client base J post sid batch encoding) (\<lambda>objects.
        Some (merge_objects u objects)) = Some (Inr v)"
    obtain o1 n1 o2 n2 where uv: "u = (o1, n1)" "v = (o2, n2)" by (cases u; cases v)
    from s obtain objs where objs: "objects_batch K client base J post sid batch encoding = Some (Inr objs)"
      "merge_objects (o1, n1) objs = Inr (o2, n2)" by (auto simp: result_simps uv)
    have cat: "?named (concat (bs @ [batch])) = ?named (concat bs) \<union> ?named batch" by auto
    from u have "distinct (map fst o1)" "set (map fst o1) = ?named (concat bs)" by (simp_all add: uv)
    then have "distinct (map fst o2)" "set (map fst o2) = ?named (concat bs) \<union> ?named batch"
      using merge_objects_keys[OF objs(2)] objects_batch_exact[OF objs(1)] by simp_all
    then show "(\<lambda>(out, n) bs. distinct (map fst out) \<and> set (map fst out) = ?named (concat bs)) v (bs @ [batch])"
      unfolding uv prod.case cat by (rule conjI)
  qed simp
  then show ?thesis unfolding prod.case request_batches_Inr(1)[OF r] .
qed

definition demo_object_codec :: treeframe_codec where
  "demo_object_codec = demo_frame_codec (\<lambda>_. Inr [Object_Frame [(replicate 32 2, [5])],
     End_Frame \<lparr>request_item_count = 2, unique_unit_count = 1, end_logical_bytes = 1,
       request_body_sha256 = replicate 9 0\<rparr>])"

lemma demo_objects_scan:
  "response_frames demo_object_codec demo_client demo_end ''objects stream'' 2 ''OBJECT''
     \<lparr>rb_units = 1, rb_raw_bytes = 1144, rb_wire_bytes = 2328\<rparr>
   = Some (Inr [Object_Frame [(replicate 32 2, [5])],
     End_Frame \<lparr>request_item_count = 2, unique_unit_count = 1, end_logical_bytes = 1,
       request_body_sha256 = replicate 9 0\<rparr>])"
  by code_simp

lemma demo_objects_run:
  "objects demo_object_codec demo_client [] demo_json (\<lambda>_ _ _ _. Inr demo_end) ''sid''
     [(''/a'', digest_text (replicate 32 2)), (''/b'', digest_text (replicate 32 2))] None
   = Some (Inr [(replicate 32 2, [5])])"
proof -
  let ?items = "[(''/a'', digest_text (replicate 32 2)), (''/b'', digest_text (replicate 32 2))]"
  let ?id = "replicate 32 2 :: bytes"
  have ids: "try_map (\<lambda>(_, digest). parse_digest (tf_hex_decode demo_object_codec) digest) ?items = Inr [?id, ?id]"
    by (simp add: demo_object_codec_def demo_parse_digest)
  have req: "remdups [?id, ?id] = [?id]" "length [?id] = 1" by simp_all
  have budget: "ResponseBudget_new demo_object_codec 1 1000 (40 + 4) = Inr \<lparr>rb_units = 1, rb_raw_bytes = 1144, rb_wire_bytes = 2328\<rparr>"
    by code_simp
  have limits: "min (1 * OBJECT_MAX_LEN demo_object_codec) (object_byte_limit demo_client) = 1000"
    "request_byte_limit demo_client = 131072" "1 < min (request_item_limit demo_client)
       (max (object_byte_limit demo_client div OBJECT_MAX_LEN demo_object_codec) 1)"
    "KIND_OBJECT demo_object_codec = 2" "\<not> object_byte_limit demo_client < 0 + length [5 :: byte]"
    "\<not> MAX_OBJECT_BATCH_BYTES < 1" by code_simp+
  have body: "rj_body demo_json ?items None = Inr (replicate 9 0)"
    by (simp add: demo_json_def eval_nat_numeral)
  have len: "length ?items = 2" by simp
  have accept: "accept_objects demo_object_codec demo_client [?id] 2 (replicate 9 0)
      [Object_Frame [(?id, [5])], End_Frame \<lparr>request_item_count = 2, unique_unit_count = 1, end_logical_bytes = 1,
       request_body_sha256 = replicate 9 0\<rparr>] = Some (Inr [(?id, [5])])"
    using limits(5)
    by (simp add: accept_objects_def check_end_def as_u32_def collect_object_frame_def collect_object_def
        demo_object_codec_def demo_frame_codec_def)
  have "objects_batch demo_object_codec demo_client [] demo_json (\<lambda>_ _ _ _. Inr demo_end) ''sid'' ?items None
      = Some (Inr [(?id, [5])])"
    unfolding objects_batch_def ids run_bind_simps Let_def req len limits(1,4) budget body map_err_simps
      demo_objects_scan accept
    by (simp add: MAX_OBJECT_BATCH_def)
  with demo_two_items[OF limits(3), of 131072 "?items ! 0" "?items ! 1"] limits(6) show ?thesis
    by (simp add: objects_def demo_client_def require_feature_def validate_encoding_def validate_path_def is_canonical_def
        MAX_OBJECT_BATCH_def limits(2)[unfolded demo_client_def] merge_objects_def)
qed

theorem objects_exact_witness:
  "\<exists>item \<in> set [(''/a'', digest_text (replicate 32 2)), (''/b'', digest_text (replicate 32 2))].
     parse_digest (tf_hex_decode demo_object_codec) (snd item) = Inr (replicate 32 2)"
proof -
  have "replicate 32 2 \<in> set (map fst [(replicate 32 2 :: bytes, [5 :: byte])])" by simp
  then show ?thesis using objects_exact[OF demo_objects_run] by blast
qed

end
