(* ===== verification/Chunk_Maps.thy ===== *)
theory Chunk_Maps
  imports Frames
begin

text \<open>
  The remaining client calls of \<^verbatim>\<open>snapshot/frames.rs\<close>: descriptors, lease renewal and release, blob
  heads, chunk maps and their proof pages.  The chunk-map codec with its Merkle proofs is an argument;
  what is modelled is how the client binds what the server returned to what the view named.
\<close>

section \<open>The chunk-map codec\<close>

record chunk_map_desc =
  cm_chunk_count :: nat
  cm_page_count :: nat
  cm_map_id :: bytes
  cm_chunk_len :: "nat \<Rightarrow> string + nat"

record chunk_leaf =
  lf_page_index :: nat
  lf_chunk_sha256 :: "bytes list"

datatype proof_side = LeftSide | RightSide

record proof_step =
  ps_side :: proof_side
  ps_sibling_pages :: nat
  ps_digest :: bytes

record chunkmap_codec =
  cd_chunk_size :: nat
  ChunkMap_new :: "bytes \<Rightarrow> nat \<Rightarrow> bytes \<Rightarrow> string + chunk_map_desc"
  leaf_decode :: "bytes \<Rightarrow> string + chunk_leaf"
  leaf_hash :: "chunk_leaf \<Rightarrow> string + bytes"
  expected_count :: "nat \<Rightarrow> nat \<Rightarrow> nat"
  verify_leaf :: "nat \<Rightarrow> nat \<Rightarrow> bytes \<Rightarrow> proof_step list \<Rightarrow> bytes \<Rightarrow> string + unit"
  merkle_root :: "bytes list \<Rightarrow> string + bytes"
  cd_hex_decode :: "string \<Rightarrow> bytes option"

text \<open>JSON numbers, beside the accessors of the theory \<^verbatim>\<open>Wire_Contracts\<close>.\<close>

record 'v json_num_ops = "'v json_ops" +
  js_as_u64 :: "'v \<Rightarrow> nat option"

definition js_u64 :: "'v json_num_ops \<Rightarrow> 'v \<Rightarrow> string \<Rightarrow> nat option" where
  "js_u64 J v key = Option.bind (js_get J v key) (js_as_u64 J)"

definition js_text :: "('v, 'm) json_ops_scheme \<Rightarrow> 'v \<Rightarrow> string \<Rightarrow> string" where
  "js_text J v key = (case Option.bind (js_get J v key) (js_as_str J) of None \<Rightarrow> [] | Some s \<Rightarrow> s)"

section \<open>Verified chunk maps\<close>

record verified_chunk_map =
  vm_file_content_id :: string
  vm_map_id :: string
  vm_file_size :: nat
  vm_chunk_count :: nat
  vm_page_count :: nat
  vm_pages_root :: bytes

definition chunk_codec_error :: "string \<Rightarrow> snapshot_error" where
  "chunk_codec_error e = SnapshotError_new Internal (''chunk codec: '' @ e)"

definition chunk_len :: "chunkmap_codec \<Rightarrow> verified_chunk_map \<Rightarrow> nat \<Rightarrow> nat result" where
  "chunk_len M self index =
    rbind (parse_digest (cd_hex_decode M) (vm_file_content_id self)) (\<lambda>content_id.
    rbind (map_err chunk_codec_error (ChunkMap_new M content_id (vm_file_size self) (vm_pages_root self))) (\<lambda>m.
    map_err chunk_codec_error (cm_chunk_len m index)))"

definition chunk_binding_error :: snapshot_error where
  "chunk_binding_error = SnapshotError_new IntegrityError
     ''chunk-map response does not bind to the requested fixed snapshot, path and map''"

definition MAX_CHUNK_MAP_FILE_BYTES :: nat where
  "MAX_CHUNK_MAP_FILE_BYTES = 8 * 1024 * 1024 * 1024 * 1024"

text \<open>The checks on a decoded map descriptor \<^verbatim>\<open>v\<close> for the content id that the view named.\<close>

definition verify_chunk_map ::
  "chunkmap_codec \<Rightarrow> mst2_client \<Rightarrow> 'v json_num_ops \<Rightarrow> bytes \<Rightarrow> 'v \<Rightarrow> verified_chunk_map result" where
  "verify_chunk_map M client J want v =
    rbind (ensure (js_u64 J v ''schema_version'' = Some 2) chunk_binding_error) (\<lambda>_.
    rbind (parse_digest (cd_hex_decode M) (js_text J v ''file_content_id'')) (\<lambda>file_content_id.
    rbind (ensure (file_content_id = want)
             (digest_err (''chunk map binds content '' @ hex32 file_content_id @ '', the view named '' @ hex32 want))) (\<lambda>_.
    rbind (parse_digest (cd_hex_decode M) (js_text J v ''pages_root'')) (\<lambda>pages_root.
    rbind (parse_digest (cd_hex_decode M) (js_text J v ''map_id'')) (\<lambda>map_id_want.
    rbind (parse_count (js_text J v ''file_size'') ''file_size'') (\<lambda>file_size.
    rbind (validate_file_size client file_size) (\<lambda>_.
    rbind (ensure (\<not> MAX_CHUNK_MAP_FILE_BYTES < file_size)
             (limit_err ''chunk-map file size exceeds the 8 TiB protocol limit'')) (\<lambda>_.
    rbind (parse_count (js_text J v ''chunk_count'') ''chunk_count'') (\<lambda>chunk_count.
    rbind (parse_count (js_text J v ''page_count'') ''page_count'') (\<lambda>page_count.
    let chunk_size = (case js_u64 J v ''chunk_size'' of None \<Rightarrow> 0 | Some n \<Rightarrow> n) in
    rbind (ensure (chunk_size = cd_chunk_size M)
             (digest_err (''chunk_size '' @ show_nat chunk_size @ '' is not the fixed 1MiB profile''))) (\<lambda>_.
    rbind (map_err (frame_err ''chunk-map descriptor'') (ChunkMap_new M file_content_id file_size pages_root)) (\<lambda>m.
    rbind (ensure (\<not> (cm_chunk_count m \<noteq> chunk_count \<or> cm_page_count m \<noteq> page_count \<or> cm_map_id m \<noteq> map_id_want))
             (digest_err ''chunk-map descriptor fields are internally inconsistent'')) (\<lambda>_.
    Inr \<lparr>vm_file_content_id = ''sha256:'' @ hex32 file_content_id, vm_map_id = ''sha256:'' @ hex32 map_id_want,
         vm_file_size = file_size, vm_chunk_count = chunk_count, vm_page_count = page_count,
         vm_pages_root = pages_root\<rparr>)))))))))))))"

definition chunk_map ::
  "chunkmap_codec \<Rightarrow> mst2_client \<Rightarrow> 'v json_num_ops \<Rightarrow> 'v \<Rightarrow> (string \<Rightarrow> 'v result) \<Rightarrow> string
    \<Rightarrow> string \<Rightarrow> string \<Rightarrow> string \<Rightarrow> verified_chunk_map result" where
  "chunk_map M client J null get base sid path expected_digest =
    rbind (require_feature client ''chunk-map'') (\<lambda>_.
    rbind (validate_path client path) (\<lambda>_.
    rbind (parse_digest (cd_hex_decode M) expected_digest) (\<lambda>want.
    rbind (get (snapshots_url base (''/'' @ sid @ ''/chunk-map?path='' @ urlencode path
                 @ ''&expected_digest='' @ urlencode expected_digest))) (\<lambda>response.
    rbind (ensure (\<not> (is_canonical client \<and> js_get J response ''map'' = None)) chunk_binding_error) (\<lambda>_.
    rbind (map_descriptor (json_ops.truncate J) null response sid path) (\<lambda>v.
    verify_chunk_map M client J want v))))))"

section \<open>Proof pages\<close>

definition read_proof_step :: "chunkmap_codec \<Rightarrow> 'v json_num_ops \<Rightarrow> 'v \<Rightarrow> proof_step result" where
  "read_proof_step M J step =
    rbind (parse_digest (cd_hex_decode M) (js_text J step ''digest'')) (\<lambda>digest.
    rbind (parse_count (js_text J step ''sibling_pages'') ''sibling_pages'') (\<lambda>sibling_pages.
    case Option.bind (js_get J step ''side'') (js_as_str J) of
      None \<Rightarrow> Inl (digest_err ''chunk proof side must be left|right'')
    | Some text \<Rightarrow>
        if text = ''left'' then Inr \<lparr>ps_side = LeftSide, ps_sibling_pages = sibling_pages, ps_digest = digest\<rparr>
        else if text = ''right'' then Inr \<lparr>ps_side = RightSide, ps_sibling_pages = sibling_pages, ps_digest = digest\<rparr>
        else Inl (digest_err ''chunk proof side must be left|right'')))"

definition page_query :: "verified_chunk_map \<Rightarrow> string \<Rightarrow> string \<Rightarrow> nat \<Rightarrow> bool \<Rightarrow> string" where
  "page_query vm path expected_digest page_index canonical_query =
    (if canonical_query
     then ''path='' @ urlencode path @ ''&map_id='' @ urlencode (vm_map_id vm) @ ''&page_index='' @ show_nat page_index
     else ''path='' @ urlencode path @ ''&expected_digest='' @ urlencode expected_digest @ ''&page=''
            @ show_nat page_index)"

text \<open>The leaf of one page, after its shape and its proof against the pages root were checked.\<close>

definition verify_leaf_page ::
  "chunkmap_codec \<Rightarrow> 'v json_num_ops \<Rightarrow> verified_chunk_map \<Rightarrow> nat \<Rightarrow> nat \<Rightarrow> string \<Rightarrow> 'v list \<Rightarrow> chunk_leaf result" where
  "verify_leaf_page M J vm page_index expect_count encoded_leaf steps =
    rbind (b64_decode encoded_leaf) (\<lambda>leaf_bytes.
    rbind (map_err (frame_err ''chunk-map leaf'') (leaf_decode M leaf_bytes)) (\<lambda>leaf.
    rbind (ensure (lf_page_index leaf = page_index) (digest_err ''chunk leaf page_index mismatch'')) (\<lambda>_.
    rbind (ensure (length (lf_chunk_sha256 leaf) = expect_count)
             (digest_err (''chunk leaf count '' @ show_nat (length (lf_chunk_sha256 leaf)) @ '' != ''
                @ show_nat expect_count))) (\<lambda>_.
    rbind (try_map (read_proof_step M J) steps) (\<lambda>steps.
    rbind (map_err (frame_err ''leaf hash'') (leaf_hash M leaf)) (\<lambda>h.
    rbind (map_err (frame_err ''chunk proof'') (verify_leaf M (vm_page_count vm) page_index h steps (vm_pages_root vm))) (\<lambda>_.
    Inr leaf)))))))"

definition chunk_map_page_contract ::
  "chunkmap_codec \<Rightarrow> mst2_client \<Rightarrow> 'v json_num_ops \<Rightarrow> 'v \<Rightarrow> (string \<Rightarrow> 'v result) \<Rightarrow> string
    \<Rightarrow> string \<Rightarrow> string \<Rightarrow> string \<Rightarrow> verified_chunk_map \<Rightarrow> nat \<Rightarrow> bool \<Rightarrow> chunk_leaf result" where
  "chunk_map_page_contract M client J null get base sid path expected_digest vm page_index canonical_query =
    rbind (require_feature client ''chunk-map'') (\<lambda>_.
    rbind (validate_path client path) (\<lambda>_.
    rbind (validate_file_size client (vm_file_size vm)) (\<lambda>_.
    rbind (parse_digest (cd_hex_decode M) expected_digest) (\<lambda>content_id.
    rbind (map_err (frame_err ''chunk-map descriptor'') (ChunkMap_new M content_id (vm_file_size vm) (vm_pages_root vm)))
      (\<lambda>canonical.
    rbind (parse_digest (cd_hex_decode M) (vm_file_content_id vm)) (\<lambda>own_content.
    rbind (ensure (own_content = content_id) chunk_binding_error) (\<lambda>_.
    rbind (parse_digest (cd_hex_decode M) (vm_map_id vm)) (\<lambda>own_map.
    rbind (ensure (\<not> (own_map \<noteq> cm_map_id canonical \<or> vm_chunk_count vm \<noteq> cm_chunk_count canonical
             \<or> vm_page_count vm \<noteq> cm_page_count canonical)) chunk_binding_error) (\<lambda>_.
    rbind (ensure (\<not> vm_page_count vm \<le> page_index)
             (SnapshotError_new ScopeInvalid ''chunk-map page index is outside the fixed map'')) (\<lambda>_.
    rbind (get (snapshots_url base (''/'' @ sid @ ''/chunk-map/pages?''
             @ page_query vm path expected_digest page_index canonical_query))) (\<lambda>v.
    let expect_count = expected_count M (vm_chunk_count vm) page_index in
    rbind (ensure (\<not> (canonical_query \<and> \<not> (js_get J v ''leaf_base64'' \<noteq> None \<or> js_get J v ''page_index'' \<noteq> None)))
             chunk_binding_error) (\<lambda>_.
    rbind (map_leaf (json_ops.truncate J) null v sid path (vm_map_id vm) (vm_page_count vm) page_index expect_count)
      (\<lambda>(encoded_leaf, steps).
    verify_leaf_page M J vm page_index expect_count encoded_leaf steps)))))))))))))"

definition chunk_map_page ::
  "chunkmap_codec \<Rightarrow> mst2_client \<Rightarrow> 'v json_num_ops \<Rightarrow> 'v \<Rightarrow> (string \<Rightarrow> 'v result) \<Rightarrow> string
    \<Rightarrow> string \<Rightarrow> string \<Rightarrow> string \<Rightarrow> verified_chunk_map \<Rightarrow> nat \<Rightarrow> chunk_leaf result" where
  "chunk_map_page M client J null get base sid path expected_digest vm page_index =
    chunk_map_page_contract M client J null get base sid path expected_digest vm page_index (is_canonical client)"

definition chunk_map_page_canonical ::
  "chunkmap_codec \<Rightarrow> mst2_client \<Rightarrow> 'v json_num_ops \<Rightarrow> 'v \<Rightarrow> (string \<Rightarrow> 'v result) \<Rightarrow> string
    \<Rightarrow> string \<Rightarrow> string \<Rightarrow> string \<Rightarrow> verified_chunk_map \<Rightarrow> nat \<Rightarrow> chunk_leaf result" where
  "chunk_map_page_canonical M client J null get base sid path expected_digest vm page_index =
    chunk_map_page_contract M client J null get base sid path expected_digest vm page_index True"

definition check_merkle_root :: "chunkmap_codec \<Rightarrow> bytes list \<Rightarrow> bytes \<Rightarrow> unit result" where
  "check_merkle_root M leaves root =
    rbind (map_err (frame_err ''merkle root'') (merkle_root M leaves)) (\<lambda>computed.
    ensure (computed = root) (digest_err ''pages_root does not match the delivered leaves''))"

section \<open>Descriptors, leases and blob heads\<close>

definition descriptor_call ::
  "auth_env \<Rightarrow> mst2_client \<Rightarrow> 'v json_ops \<Rightarrow> ('v \<Rightarrow> legacy_descriptor_wire option) \<Rightarrow> ('v \<Rightarrow> descriptor option)
    \<Rightarrow> (string \<Rightarrow> 'v result) \<Rightarrow> string \<Rightarrow> string \<Rightarrow> 'v result" where
  "descriptor_call env client J from_wrapper from_bare get base sid =
    rbind (get (snapshots_url base (''/'' @ sid @ ''/descriptor''))) (\<lambda>v.
    rbind (descriptor_validate env J from_wrapper from_bare v sid) (\<lambda>_.
    rbind (ensure (\<not> (is_canonical client \<and> js_get J v ''descriptor'' \<noteq> None)) chunk_binding_error) (\<lambda>_. Inr v)))"

definition verified_descriptor ::
  "auth_env \<Rightarrow> mst2_client \<Rightarrow> 'v json_ops \<Rightarrow> ('v \<Rightarrow> legacy_descriptor_wire option) \<Rightarrow> ('v \<Rightarrow> descriptor option)
    \<Rightarrow> (string \<Rightarrow> 'v result) \<Rightarrow> string \<Rightarrow> string \<Rightarrow> descriptor result" where
  "verified_descriptor env client J from_wrapper from_bare get base sid =
    rbind (get (snapshots_url base (''/'' @ sid @ ''/descriptor''))) (\<lambda>v.
    rbind (ensure (\<not> (is_canonical client \<and> js_get J v ''descriptor'' \<noteq> None)) chunk_binding_error) (\<lambda>_.
    descriptor_validate env J from_wrapper from_bare v sid))"

definition renew_lease ::
  "auth_env \<Rightarrow> mst2_client \<Rightarrow> (string \<Rightarrow> int option) \<Rightarrow> 'v json_ops \<Rightarrow> ('v \<Rightarrow> canonical_lease option)
    \<Rightarrow> ('v \<Rightarrow> legacy_lease option) \<Rightarrow> (parsed_url \<Rightarrow> bool) \<Rightarrow> (parsed_url \<Rightarrow> nat \<Rightarrow> 'v result)
    \<Rightarrow> string \<Rightarrow> string \<Rightarrow> nat \<Rightarrow> 'v result" where
  "renew_lease env client rfc3339 J from_canonical from_legacy cannot_be_a_base post base lease_id lease_seconds =
    rbind (ensure (60 \<le> lease_seconds \<and> lease_seconds \<le> 3600)
             (SnapshotError_new InvalidRequest ''renewal lease suggestion must be between 60 and 3600 seconds'')) (\<lambda>_.
    rbind (lease_url env cannot_be_a_base base lease_id True) (\<lambda>url.
    rbind (post url lease_seconds) (\<lambda>v.
    rbind (lease_validate env rfc3339 J from_canonical from_legacy v lease_id) (\<lambda>_.
    rbind (ensure (\<not> (is_canonical client \<and> js_get J v ''authorization_epoch'' = None)) chunk_binding_error) (\<lambda>_.
    Inr v)))))"

datatype lease_release_outcome = Acknowledged | Removed | AlreadyReleased

record release_receipt =
  rl_lease_id :: string
  rl_released :: bool

definition release_lease_outcome ::
  "auth_env \<Rightarrow> (parsed_url \<Rightarrow> bool) \<Rightarrow> (parsed_url \<Rightarrow> 'v option result) \<Rightarrow> ('v \<Rightarrow> release_receipt option)
    \<Rightarrow> string \<Rightarrow> string \<Rightarrow> lease_release_outcome result" where
  "release_lease_outcome env cannot_be_a_base delete from_value base lease_id =
    rbind (lease_url env cannot_be_a_base base lease_id False) (\<lambda>url.
    rbind (delete url) (\<lambda>body.
    case body of
      None \<Rightarrow> Inr Acknowledged
    | Some v \<Rightarrow>
        let invalid = SnapshotError_new IntegrityError ''lease release receipt does not bind to the requested lease'' in
        rbind (ok_or (from_value v) invalid) (\<lambda>receipt.
        if rl_lease_id receipt \<noteq> lease_id then Inl invalid
        else Inr (if rl_released receipt then Removed else AlreadyReleased))))"

definition release_lease ::
  "auth_env \<Rightarrow> (parsed_url \<Rightarrow> bool) \<Rightarrow> (parsed_url \<Rightarrow> 'v option result) \<Rightarrow> ('v \<Rightarrow> release_receipt option)
    \<Rightarrow> string \<Rightarrow> string \<Rightarrow> bool result" where
  "release_lease env cannot_be_a_base delete from_value base lease_id =
    rbind (release_lease_outcome env cannot_be_a_base delete from_value base lease_id) (\<lambda>outcome.
    Inr (outcome \<noteq> AlreadyReleased))"

definition blob_head_url :: "string \<Rightarrow> string \<Rightarrow> string \<Rightarrow> string option \<Rightarrow> string" where
  "blob_head_url base sid path expected_digest =
    snapshots_url base (''/'' @ sid @ ''/blob?path='' @ urlencode path)
    @ (case expected_digest of None \<Rightarrow> [] | Some d \<Rightarrow> ''&expected_digest='' @ urlencode d)"

definition blob_head ::
  "mst2_client \<Rightarrow> (string \<Rightarrow> 'h result) \<Rightarrow> string \<Rightarrow> string \<Rightarrow> string \<Rightarrow> string option \<Rightarrow> 'h result" where
  "blob_head client head_blob base sid path expected_digest =
    rbind (require_feature client ''blob'') (\<lambda>_.
    rbind (validate_path client path) (\<lambda>_.
    head_blob (blob_head_url base sid path expected_digest)))"

section \<open>Properties\<close>

lemma verify_chunk_map_Inr:
  assumes "verify_chunk_map M client J want v = Inr vm"
  obtains root map_id m where "vm_file_content_id vm = digest_text want" "vm_map_id vm = digest_text map_id"
    "parse_digest (cd_hex_decode M) (js_text J v ''map_id'') = Inr map_id" "vm_pages_root vm = root"
    "ChunkMap_new M want (vm_file_size vm) root = Inr m" "cm_map_id m = map_id"
    "cm_chunk_count m = vm_chunk_count vm" "cm_page_count m = vm_page_count vm"
    "validate_file_size client (vm_file_size vm) = Inr ()" "vm_file_size vm \<le> MAX_CHUNK_MAP_FILE_BYTES"
  using assms unfolding verify_chunk_map_def rbind_eq_Inr ensure_simps Let_def map_err_eq_Inr
  by (auto simp: digest_text_def)

lemma chunk_map_Inr:
  assumes "chunk_map M client J null get base sid path dig = Inr vm"
  obtains want v where "require_feature client ''chunk-map'' = Inr ()" "validate_path client path = Inr ()"
    "parse_digest (cd_hex_decode M) dig = Inr want" "verify_chunk_map M client J want v = Inr vm"
  using assms unfolding chunk_map_def rbind_eq_Inr by auto

lemma verify_leaf_page_Inr:
  assumes "verify_leaf_page M J vm i n encoded steps = Inr leaf"
  shows "lf_page_index leaf = i \<and> length (lf_chunk_sha256 leaf) = n
    \<and> (\<exists>h proof_steps. leaf_hash M leaf = Inr h
         \<and> verify_leaf M (vm_page_count vm) i h proof_steps (vm_pages_root vm) = Inr ())"
  using assms unfolding verify_leaf_page_def rbind_eq_Inr ensure_simps map_err_eq_Inr by auto

text \<open>C31: A chunk map is accepted only for the content id the view named, with the counts and the map
  id of the descriptor rebuilt from its size and pages root; it then passes every local check of the
  page call, so that a page request with an index inside the map reaches the server; and a page is
  accepted only with the expected number of chunk digests and a proof that verifies against that root.\<close>

theorem chunk_map_pages_bound:
  assumes "hex_decoder (cd_hex_decode M)" "chunk_map M client J null get base sid path dig = Inr vm"
  shows "vm_file_content_id vm = dig \<and> vm_file_size vm \<le> MAX_CHUNK_MAP_FILE_BYTES
    \<and> (\<exists>content m. parse_digest (cd_hex_decode M) dig = Inr content
        \<and> ChunkMap_new M content (vm_file_size vm) (vm_pages_root vm) = Inr m
        \<and> vm_chunk_count vm = cm_chunk_count m \<and> vm_page_count vm = cm_page_count m \<and> vm_map_id vm = digest_text (cm_map_id m))
    \<and> (\<forall>i cq. i < vm_page_count vm \<longrightarrow> (\<exists>k. \<forall>get'.
        chunk_map_page_contract M client J null get' base sid path dig vm i cq =
          rbind (get' (snapshots_url base (''/'' @ sid @ ''/chunk-map/pages?'' @ page_query vm path dig i cq))) k))
    \<and> (\<forall>get' i cq leaf. chunk_map_page_contract M client J null get' base sid path dig vm i cq = Inr leaf \<longrightarrow>
        i < vm_page_count vm \<and> lf_page_index leaf = i
        \<and> length (lf_chunk_sha256 leaf) = expected_count M (vm_chunk_count vm) i
        \<and> (\<exists>h proof_steps. leaf_hash M leaf = Inr h
             \<and> verify_leaf M (vm_page_count vm) i h proof_steps (vm_pages_root vm) = Inr ()))"
proof -
  from assms(2) obtain want v where c: "require_feature client ''chunk-map'' = Inr ()" "validate_path client path = Inr ()"
    "parse_digest (cd_hex_decode M) dig = Inr want" "verify_chunk_map M client J want v = Inr vm"
    by (rule chunk_map_Inr)
  from c(4) obtain root map_id m where d: "vm_file_content_id vm = digest_text want" "vm_map_id vm = digest_text map_id"
    "parse_digest (cd_hex_decode M) (js_text J v ''map_id'') = Inr map_id" "vm_pages_root vm = root"
    "ChunkMap_new M want (vm_file_size vm) root = Inr m" "cm_map_id m = map_id"
    "cm_chunk_count m = vm_chunk_count vm" "cm_page_count m = vm_page_count vm"
    "validate_file_size client (vm_file_size vm) = Inr ()" "vm_file_size vm \<le> MAX_CHUNK_MAP_FILE_BYTES"
    by (rule verify_chunk_map_Inr)
  have dig: "dig = digest_text want" and map_id: "parse_digest (cd_hex_decode M) (digest_text map_id) = Inr map_id"
    using c(3) d(3) parse_digest_Inr_iff[OF assms(1)] by auto
  have pass: "\<exists>k. \<forall>get'. chunk_map_page_contract M client J null get' base sid path dig vm i cq =
      rbind (get' (snapshots_url base (''/'' @ sid @ ''/chunk-map/pages?'' @ page_query vm path dig i cq))) k"
    if "i < vm_page_count vm" for i cq
    unfolding chunk_map_page_contract_def c(1-3) d(9,4) rbind_Inr d(5) map_err_simps
    using that c(3) map_id d(1,2,6-8) dig by (auto simp: ensure_def)
  have page: "i < vm_page_count vm \<and> (\<exists>encoded steps.
      verify_leaf_page M J vm i (expected_count M (vm_chunk_count vm) i) encoded steps = Inr leaf)"
    if "chunk_map_page_contract M client J null get' base sid path dig vm i cq = Inr leaf" for get' i cq leaf
    using that unfolding chunk_map_page_contract_def rbind_eq_Inr ensure_simps Let_def by auto
  show ?thesis
  proof (intro conjI allI impI)
    show "vm_file_content_id vm = dig" "vm_file_size vm \<le> MAX_CHUNK_MAP_FILE_BYTES" using d(1,10) dig by simp_all
    show "\<exists>content m. parse_digest (cd_hex_decode M) dig = Inr content
        \<and> ChunkMap_new M content (vm_file_size vm) (vm_pages_root vm) = Inr m
        \<and> vm_chunk_count vm = cm_chunk_count m \<and> vm_page_count vm = cm_page_count m \<and> vm_map_id vm = digest_text (cm_map_id m)"
      using c(3) d(2,4-8) by auto
  next
    fix get' i cq leaf
    assume a: "chunk_map_page_contract M client J null get' base sid path dig vm i cq = Inr leaf"
    from page[OF a] obtain encoded steps where p: "i < vm_page_count vm"
      "verify_leaf_page M J vm i (expected_count M (vm_chunk_count vm) i) encoded steps = Inr leaf" by blast
    show "i < vm_page_count vm" by (rule p(1))
    show "lf_page_index leaf = i" "length (lf_chunk_sha256 leaf) = expected_count M (vm_chunk_count vm) i"
      "\<exists>h proof_steps. leaf_hash M leaf = Inr h
         \<and> verify_leaf M (vm_page_count vm) i h proof_steps (vm_pages_root vm) = Inr ()"
      using verify_leaf_page_Inr[OF p(2)] by blast+
  qed (rule pass)
qed

datatype demo_value = DObj "(string \<times> demo_value) list" | DStr string | DNum nat

definition demo_value_ops :: "demo_value json_num_ops" where
  "demo_value_ops =
    \<lparr>js_get = (\<lambda>v key. case v of DObj ms \<Rightarrow> map_of ms key | _ \<Rightarrow> None),
     js_as_str = (\<lambda>v. case v of DStr s \<Rightarrow> Some s | _ \<Rightarrow> None), js_as_array = (\<lambda>_. None),
     js_keys = (\<lambda>v. case v of DObj ms \<Rightarrow> Some (map fst ms) | _ \<Rightarrow> None),
     js_as_u64 = (\<lambda>v. case v of DNum n \<Rightarrow> Some n | _ \<Rightarrow> None)\<rparr>"

definition demo_map_value :: demo_value where
  "demo_map_value = DObj
    [(''snapshot_id'', DStr ''sid''), (''path'', DStr ''/f''), (''schema_version'', DNum 2),
     (''file_content_id'', DStr (digest_text (replicate 32 2))), (''file_size'', DStr ''7''), (''chunk_size'', DNum 1024),
     (''chunk_count'', DStr ''1''), (''page_count'', DStr ''1''), (''pages_root'', DStr (digest_text (replicate 32 4))),
     (''map_id'', DStr (digest_text (replicate 32 3)))]"

definition demo_chunkmap_codec :: chunkmap_codec where
  "demo_chunkmap_codec =
    \<lparr>cd_chunk_size = 1024, ChunkMap_new = (\<lambda>_ n _. Inr \<lparr>cm_chunk_count = 1, cm_page_count = 1,
       cm_map_id = replicate 32 3, cm_chunk_len = (\<lambda>_. Inr n)\<rparr>),
     leaf_decode = (\<lambda>_. Inl ''leaf''), leaf_hash = (\<lambda>_. Inl ''leaf''), expected_count = (\<lambda>_ _. 1),
     verify_leaf = (\<lambda>_ _ _ _ _. Inl ''leaf''), merkle_root = (\<lambda>_. Inl ''leaves''),
     cd_hex_decode = (\<lambda>s. Some (hex_pairs s))\<rparr>"

definition demo_verified_map :: verified_chunk_map where
  "demo_verified_map = \<lparr>vm_file_content_id = digest_text (replicate 32 2), vm_map_id = digest_text (replicate 32 3),
     vm_file_size = 7, vm_chunk_count = 1, vm_page_count = 1, vm_pages_root = replicate 32 4\<rparr>"

lemma demo_chunk_map:
  "chunk_map demo_chunkmap_codec demo_client demo_value_ops (DNum 0) (\<lambda>_. Inr demo_map_value) [] ''sid'' ''/f''
     (digest_text (replicate 32 2)) = Inr demo_verified_map"
proof -
  have d: "parse_digest (cd_hex_decode demo_chunkmap_codec) (digest_text (replicate 32 x)) = Inr (replicate 32 x)" for x
    by (subst parse_digest_Inr_iff) (simp_all add: demo_chunkmap_codec_def hex_decoder_def)
  have n: "parse_count ''7'' ''file_size'' = Inr 7" "parse_count ''1'' ''chunk_count'' = Inr 1"
    "parse_count ''1'' ''page_count'' = Inr 1" "validate_file_size demo_client 7 = Inr ()" by code_simp+
  have j: "js_text demo_value_ops demo_map_value ''file_content_id'' = digest_text (replicate 32 2)"
    "js_text demo_value_ops demo_map_value ''pages_root'' = digest_text (replicate 32 4)"
    "js_text demo_value_ops demo_map_value ''map_id'' = digest_text (replicate 32 3)"
    "js_text demo_value_ops demo_map_value ''file_size'' = ''7''" "js_text demo_value_ops demo_map_value ''chunk_count'' = ''1''"
    "js_text demo_value_ops demo_map_value ''page_count'' = ''1''"
    "js_u64 demo_value_ops demo_map_value ''schema_version'' = Some 2"
    "js_u64 demo_value_ops demo_map_value ''chunk_size'' = Some 1024"
    by (simp_all add: js_text_def js_u64_def demo_value_ops_def demo_map_value_def)
  have "verify_chunk_map demo_chunkmap_codec demo_client demo_value_ops (replicate 32 2) demo_map_value
      = Inr demo_verified_map"
    unfolding verify_chunk_map_def j d n rbind_Inr
    by (simp add: ensure_def demo_chunkmap_codec_def demo_verified_map_def MAX_CHUNK_MAP_FILE_BYTES_def digest_text_def)
  moreover have "map_descriptor (json_ops.truncate demo_value_ops) (DNum 0) demo_map_value ''sid'' ''/f'' = Inr demo_map_value"
    by (simp add: map_descriptor_def js_str_def demo_value_ops_def json_ops.truncate_def demo_map_value_def
        closed_object_def MAP_FIELDS_def)
  ultimately show ?thesis
    by (simp add: chunk_map_def d demo_client_def require_feature_def validate_path_def is_canonical_def ensure_def)
qed

theorem chunk_map_pages_bound_witness:
  "vm_file_content_id demo_verified_map = digest_text (replicate 32 2) \<and> vm_file_size demo_verified_map \<le> MAX_CHUNK_MAP_FILE_BYTES"
proof -
  have "hex_decoder (cd_hex_decode demo_chunkmap_codec)" by (simp add: demo_chunkmap_codec_def hex_decoder_def)
  from chunk_map_pages_bound[OF this demo_chunk_map] show ?thesis by blast
qed

end
