(* ===== verification/Closure.thy ===== *)
theory Closure
  imports Authority Capabilities
begin

text \<open>
  The validated metadata closure (\<^verbatim>\<open>snapshot/closure.rs\<close>): a set of metadata pages is accepted for a
  descriptor only after every page was hashed and decoded, the radix pages of every logical directory
  were walked from the committed root and rebuilt canonically, and no page was left unvisited.  The page
  codec is an argument.  The constant part of the validator (pages, decoded pages, limits) is the record
  \<^verbatim>\<open>proof_env\<close>, the changing part the record \<^verbatim>\<open>proof_state\<close>; the work counters (meters) are left out.
  The set of active ids is passed down: a call that succeeds removes what it inserted.  The clock is an
  argument that says for each reading whether the deadline has passed.  The walk over the logical
  directories takes fuel; one unit more than the number of pages is always enough.
\<close>

section \<open>Text of entry names\<close>

text \<open>\<^verbatim>\<open>std::str::from_utf8\<close>: well-formed UTF-8 as the Unicode standard tabulates it.\<close>

definition utf8_tail :: "byte \<Rightarrow> bool" where
  "utf8_tail b = (0x80 \<le> b \<and> b \<le> 0xBF)"

fun utf8_valid :: "bytes \<Rightarrow> bool" where
  "utf8_valid [] = True"
| "utf8_valid (a # bs) =
    (if a < 0x80 then utf8_valid bs
     else (case bs of
       [] \<Rightarrow> False
     | b # cs \<Rightarrow>
        if 0xC2 \<le> a \<and> a \<le> 0xDF then utf8_tail b \<and> utf8_valid cs
        else (case cs of
          [] \<Rightarrow> False
        | c # ds \<Rightarrow>
           if 0xE0 \<le> a \<and> a \<le> 0xEF
           then utf8_tail b \<and> utf8_tail c \<and> (a = 0xE0 \<longrightarrow> 0xA0 \<le> b) \<and> (a = 0xED \<longrightarrow> b \<le> 0x9F) \<and> utf8_valid ds
           else (case ds of
             [] \<Rightarrow> False
           | d # es \<Rightarrow>
              0xF0 \<le> a \<and> a \<le> 0xF4 \<and> utf8_tail b \<and> utf8_tail c \<and> utf8_tail d
              \<and> (a = 0xF0 \<longrightarrow> 0x90 \<le> b) \<and> (a = 0xF4 \<longrightarrow> b \<le> 0x8F) \<and> utf8_valid es))))"

definition from_utf8 :: "bytes \<Rightarrow> string option" where
  "from_utf8 b = (if utf8_valid b then Some (map (\<lambda>x. char_of (unat x)) b) else None)"

section \<open>The page codec\<close>

datatype entry_kind = Regular | Executable | Symlink | Directory_Kind

record entry =
  en_name :: bytes
  en_kind :: entry_kind
  en_size :: nat
  en_content_id :: bytes
  en_child_root :: bytes

record child_ref =
  ch_label :: byte
  ch_page_id :: bytes
  ch_subtree_entries :: nat

datatype page = Leaf "entry list" | Branch "entry option" "child_ref list"

record metapage_codec =
  RADIX_MAX_DEPTH :: nat
  page_id :: "bytes \<Rightarrow> bytes"
  Page_decode :: "bytes \<Rightarrow> string + page"
  Page_build :: "entry list \<Rightarrow> string + bytes"
  Entry_decode :: "bytes \<Rightarrow> nat \<Rightarrow> string + nat"
  Serving_decode :: "bytes \<Rightarrow> string + serving_descriptor"
  Serving_encode :: "serving_descriptor \<Rightarrow> string + bytes"

section \<open>Files and directories\<close>

record snapshot_file =
  sf_rel_path :: string
  sf_fs_kind :: string
  sf_size :: nat
  sf_content_digest :: string

record snapshot_directory =
  sdir_rel_path :: string
  sdir_directory_root :: string

definition closure_digest :: "auth_env \<Rightarrow> bytes \<Rightarrow> string" where
  "closure_digest A b = ''sha256:'' @ ae_hex_encode A b"

definition kind_text :: "entry_kind \<Rightarrow> string" where
  "kind_text k = (case k of Regular \<Rightarrow> ''regular'' | Executable \<Rightarrow> ''executable'' | Symlink \<Rightarrow> ''symlink''
     | Directory_Kind \<Rightarrow> ''directory'')"

section \<open>Decoding a page\<close>

definition read_u16 :: "bytes \<Rightarrow> nat \<Rightarrow> nat result" where
  "read_u16 b offset =
    (if length b < offset + 2 then Inl (closure_integrity ''truncated metadata page'')
     else Inr (unat (b ! offset) + 256 * unat (b ! (offset + 1))))"

definition u64_le :: "bytes \<Rightarrow> nat" where
  "u64_le b = foldr (\<lambda>x n. unat x + 256 * n) b 0"

definition branch_count_step :: "bytes \<Rightarrow> nat \<times> nat \<Rightarrow> nat \<Rightarrow> (nat \<times> nat) result" where
  "branch_count_step payload state _ =
    (case state of (offset, total_count) \<Rightarrow>
       if length payload < offset + 9 then Inl (closure_integrity ''truncated branch child count'')
       else
         rbind (ok_or (Option.bind (checked_add total_count (u64_le (slice (offset + 1) 8 payload)))
                         (\<lambda>n. if n \<le> i64_MAX then Some n else None))
                  (closure_integrity ''branch entry count overflow'')) (\<lambda>n.
         Inr (offset + 41, n)))"

definition branch_preflight :: "metapage_codec \<Rightarrow> bytes \<Rightarrow> unit result" where
  "branch_preflight C b =
    (let payload = drop 20 b in
     rbind (read_u16 payload 0) (\<lambda>prefix_len.
     let offset = 2 + prefix_len in
     rbind (ok_or (if offset < length payload then Some (payload ! offset) else None)
              (closure_integrity ''truncated branch terminal flag'')) (\<lambda>terminal.
     rbind (if terminal = 1 then map_err closure_integrity (Entry_decode C payload (offset + 1))
            else Inr (offset + 1)) (\<lambda>offset.
     rbind (read_u16 b 6) (\<lambda>count.
     if 256 < count then Inl (closure_integrity ''branch has more than 256 children'')
     else rbind (try_fold (branch_count_step payload) (offset, unat terminal) [0..<count]) (\<lambda>_. Inr ()))))))"

definition decode_page :: "metapage_codec \<Rightarrow> bytes \<Rightarrow> page result" where
  "decode_page C b =
    rbind (if 20 \<le> length b \<and> b ! 4 = 1 then branch_preflight C b else Inr ()) (\<lambda>_.
    map_err (\<lambda>e. closure_integrity (''invalid metadata page: '' @ e)) (Page_decode C b))"

section \<open>The validator\<close>

record proof_env =
  pe_auth :: auth_env
  pe_codec :: metapage_codec
  pe_bytes :: "(string \<times> bytes) list"
  pe_decoded :: "string \<Rightarrow> page option"
  pe_max_radix_entries :: nat
  pe_max_logical_entries :: nat
  pe_max_logical_bytes :: nat
  pe_expired :: "nat \<Rightarrow> bool"

record proof_state =
  vs_entries :: "string \<Rightarrow> entry list option"
  vs_reached :: "string set"
  vs_paths :: "string set"
  vs_content_sizes :: "string \<Rightarrow> nat option"
  vs_directories :: "snapshot_directory list"
  vs_files :: "snapshot_file list"
  vs_logical_bytes :: nat
  vs_readings :: nat

definition proof_state_new :: proof_state where
  "proof_state_new = \<lparr>vs_entries = (\<lambda>_. None), vs_reached = {}, vs_paths = {}, vs_content_sizes = (\<lambda>_. None),
     vs_directories = [], vs_files = [], vs_logical_bytes = 0, vs_readings = 0\<rparr>"

definition check_deadline :: "proof_env \<Rightarrow> proof_state \<Rightarrow> proof_state result" where
  "check_deadline E v =
    (if pe_expired E (vs_readings v) then Inl (closure_limit ''metadata root proof deadline exceeded'')
     else Inr (v\<lparr>vs_readings := vs_readings v + 1\<rparr>))"

definition admit_allocation :: "proof_env \<Rightarrow> proof_state \<Rightarrow> nat \<Rightarrow> proof_state result" where
  "admit_allocation E v n =
    rbind (check_deadline E v) (\<lambda>v.
    rbind (ok_or (checked_add (vs_logical_bytes v) n)
             (closure_limit ''metadata logical allocation overflow'')) (\<lambda>b.
    if pe_max_logical_bytes E < b then Inl (closure_limit ''metadata logical allocation budget exceeded'')
    else Inr (v\<lparr>vs_logical_bytes := b\<rparr>)))"

definition admit_logical_path :: "proof_env \<Rightarrow> proof_state \<Rightarrow> string \<Rightarrow> proof_state result" where
  "admit_logical_path E v path =
    rbind (check_deadline E v) (\<lambda>v.
    if pe_max_logical_entries E \<le> card (vs_paths v)
    then Inl (closure_limit ''metadata logical entry budget exceeded'')
    else admit_allocation E v (saturating_add (saturating_mul (length path) 4) 512))"

text \<open>\<^verbatim>\<open>ClosureValidator::new_bounded\<close>: every page is hashed and decoded before any is used.\<close>

definition load_page ::
  "proof_env \<Rightarrow> proof_state \<times> (string \<Rightarrow> page option) \<Rightarrow> string \<times> bytes
    \<Rightarrow> (proof_state \<times> (string \<Rightarrow> page option)) result" where
  "load_page E state item =
    (case (state, item) of ((v, decoded), (pid, b)) \<Rightarrow>
       rbind (admit_allocation E v (saturating_add (saturating_mul (length b) 16) 512)) (\<lambda>v.
       rbind (parse_digest (ae_hex_decode (pe_auth E)) pid) (\<lambda>want.
       if page_id (pe_codec E) b \<noteq> want
       then Inl (closure_integrity (''metadata page bytes do not match '' @ pid))
       else rbind (decode_page (pe_codec E) b) (\<lambda>p. Inr (v, decoded(pid \<mapsto> p))))))"

definition new_bounded :: "proof_env \<Rightarrow> (proof_env \<times> proof_state) result" where
  "new_bounded E =
    rbind (try_fold (load_page E) (proof_state_new, \<lambda>_. None) (pe_bytes E)) (\<lambda>(v, decoded).
    Inr (E\<lparr>pe_decoded := decoded\<rparr>, v))"

section \<open>Radix pages\<close>

definition entries_allocation :: "string \<Rightarrow> entry list \<Rightarrow> nat result" where
  "entries_allocation overflow es =
    try_fold (\<lambda>n e. ok_or (checked_add n (saturating_mul (saturating_add (length (en_name e)) 256) 4))
                       (closure_limit overflow)) 0 es"

definition branch_child ::
  "proof_env \<Rightarrow> proof_state \<Rightarrow> entry list \<Rightarrow> child_ref \<Rightarrow> entry list \<Rightarrow> (proof_state \<times> entry list) result" where
  "branch_child E v es child child_entries =
    (if length child_entries \<noteq> ch_subtree_entries child
     then Inl (closure_integrity ''branch child subtree_entries does not match its entries'')
     else if (case checked_add (length es) (length child_entries) of None \<Rightarrow> True
              | Some len \<Rightarrow> pe_max_radix_entries E < len)
     then Inl (closure_limit ''directory entry proof budget exceeded'')
     else
       rbind (entries_allocation ''radix proof allocation overflow'' child_entries) (\<lambda>allocation.
       rbind (admit_allocation E v allocation) (\<lambda>v. Inr (v, es @ child_entries))))"

text \<open>The end of \<^verbatim>\<open>radix_entries\<close>: the page must be the canonical partition of its entries.\<close>

definition finish_radix ::
  "proof_env \<Rightarrow> string \<Rightarrow> proof_state \<times> entry list \<Rightarrow> (proof_state \<times> entry list) result" where
  "finish_radix E pid state =
    (case state of (v, es) \<Rightarrow>
       if pe_max_radix_entries E < length es then Inl (closure_limit ''directory entry proof budget exceeded'')
       else
         let es = sort_key en_name es in
         rbind (entries_allocation ''canonical rebuild allocation overflow'' es) (\<lambda>allocation.
         rbind (admit_allocation E v allocation) (\<lambda>v.
         rbind (map_err (\<lambda>e. closure_integrity (''invalid metadata entry partition: '' @ e))
                  (Page_build (pe_codec E) es)) (\<lambda>rebuilt.
         if map_of (pe_bytes E) pid \<noteq> Some rebuilt
         then Inl (closure_integrity ''metadata page is not the canonical partition of its entries'')
         else Inr (v\<lparr>vs_entries := (vs_entries v)(pid \<mapsto> es)\<rparr>, es)))))"

definition enter_radix ::
  "proof_env \<Rightarrow> proof_state \<Rightarrow> string \<Rightarrow> (proof_state \<times> page) result" where
  "enter_radix E v pid =
    rbind (admit_allocation E v (case map_of (pe_bytes E) pid of
             None \<Rightarrow> 0 | Some b \<Rightarrow> saturating_add (saturating_mul (length b) 4) 256)) (\<lambda>v.
    rbind (ok_or (pe_decoded E pid) (closure_integrity (''missing committed metadata page '' @ pid))) (\<lambda>p.
    Inr (v\<lparr>vs_reached := insert pid (vs_reached v)\<rparr>, p)))"

function radix_entries ::
  "proof_env \<Rightarrow> proof_state \<Rightarrow> string \<Rightarrow> nat \<Rightarrow> string set \<Rightarrow> (proof_state \<times> entry list) result" where
  "radix_entries E v pid depth active =
    rbind (check_deadline E v) (\<lambda>v.
    if RADIX_MAX_DEPTH (pe_codec E) < depth then Inl (closure_limit ''metadata radix depth exceeds 255'')
    else (case vs_entries v pid of
       Some es \<Rightarrow> Inr (v, es)
     | None \<Rightarrow>
        if pid \<in> active then Inl (closure_integrity ''cycle in metadata radix pages'')
        else rbind (enter_radix E v pid) (\<lambda>(v, p).
        rbind (case p of
            Leaf es \<Rightarrow> Inr (v, es)
          | Branch terminal children \<Rightarrow>
              try_fold (\<lambda>(v, es) child.
                rbind (radix_entries E v (closure_digest (pe_auth E) (ch_page_id child)) (depth + 1) (insert pid active))
                  (\<lambda>(v, child_entries). branch_child E v es child child_entries))
                (v, case terminal of None \<Rightarrow> [] | Some e \<Rightarrow> [e]) children)
          (finish_radix E pid))))"
  by pat_completeness auto

termination
  by (relation "measure (\<lambda>(E, v, pid, depth, active). Suc (RADIX_MAX_DEPTH (pe_codec E)) - depth)") auto

declare radix_entries.simps [simp del]

section \<open>Logical directories\<close>

definition join_path :: "string \<Rightarrow> string \<Rightarrow> string" where
  "join_path rel_path name = (if rel_path = [] then name else rel_path @ ''/'' @ name)"

text \<open>The head of \<^verbatim>\<open>walk_directory\<close>: admit the directory, record it and prove its entries.\<close>

definition open_directory ::
  "proof_env \<Rightarrow> string \<Rightarrow> proof_state \<Rightarrow> string \<Rightarrow> string \<Rightarrow> string set \<Rightarrow> (proof_state \<times> entry list) result" where
  "open_directory E sc v rel_path root active =
    rbind (admit_logical_path E v rel_path) (\<lambda>v.
    rbind (validate_composed_path (ae_grammar (pe_auth E)) sc rel_path) (\<lambda>_.
    if root \<in> active then Inl (closure_integrity ''cycle in logical directory graph'')
    else if rel_path \<in> vs_paths v then Inl (closure_integrity ''duplicate logical path in metadata closure'')
    else
      radix_entries E
        (v\<lparr>vs_paths := insert rel_path (vs_paths v),
           vs_directories := vs_directories v @ [\<lparr>sdir_rel_path = rel_path, sdir_directory_root = root\<rparr>]\<rparr>)
        root 0 {}))"

definition entry_path :: "proof_env \<Rightarrow> string \<Rightarrow> string \<Rightarrow> entry \<Rightarrow> string result" where
  "entry_path E sc rel_path e =
    rbind (ok_or (from_utf8 (en_name e)) (closure_integrity ''non-UTF-8 entry name'')) (\<lambda>name.
    let child_path = join_path rel_path name in
    rbind (validate_composed_path (ae_grammar (pe_auth E)) sc child_path) (\<lambda>_. Inr child_path))"

definition entry_file :: "auth_env \<Rightarrow> string \<Rightarrow> entry \<Rightarrow> snapshot_file" where
  "entry_file A path e =
    \<lparr>sf_rel_path = path, sf_fs_kind = kind_text (en_kind e), sf_size = en_size e,
     sf_content_digest = closure_digest A (en_content_id e)\<rparr>"

definition add_file :: "proof_env \<Rightarrow> proof_state \<Rightarrow> string \<Rightarrow> entry \<Rightarrow> proof_state result" where
  "add_file E v path e =
    rbind (admit_logical_path E v path) (\<lambda>v.
    if MAX_FILE_SIZE < en_size e \<or> (en_kind e = Symlink \<and> \<not> (1 \<le> en_size e \<and> en_size e \<le> 4095))
    then Inl (closure_limit ''file or symlink size exceeds serving profile'')
    else if path \<in> vs_paths v then Inl (closure_integrity ''duplicate logical path in metadata closure'')
    else
      let content_digest = closure_digest (pe_auth E) (en_content_id e) in
      if (case vs_content_sizes v content_digest of None \<Rightarrow> False | Some n \<Rightarrow> n \<noteq> en_size e)
      then Inl (closure_integrity ''one content digest has conflicting sizes'')
      else Inr (v\<lparr>vs_paths := insert path (vs_paths v),
                  vs_content_sizes := (vs_content_sizes v)(content_digest \<mapsto> en_size e),
                  vs_files := vs_files v @ [entry_file (pe_auth E) path e]\<rparr>))"

fun walk_directory ::
  "nat \<Rightarrow> proof_env \<Rightarrow> string \<Rightarrow> proof_state \<Rightarrow> string \<Rightarrow> string \<Rightarrow> string set \<Rightarrow> proof_state run" where
  "walk_directory 0 E sc v rel_path root active = None"
| "walk_directory (Suc fuel) E sc v rel_path root active =
    run_bind (Some (open_directory E sc v rel_path root active)) (\<lambda>(v, es).
    run_fold (\<lambda>v e.
      run_bind (Some (entry_path E sc rel_path e)) (\<lambda>child_path.
      if en_kind e = Directory_Kind
      then walk_directory fuel E sc v child_path (closure_digest (pe_auth E) (en_child_root e)) (insert root active)
      else Some (add_file E v child_path e))) v es)"

section \<open>Facts about subtrees\<close>

record verified_subtree_facts =
  vf_root_page_id :: string
  vf_page_ids :: "string list"
  vf_files :: "snapshot_file list"
  vf_total_entries :: nat

fun radix_page_ids :: "nat \<Rightarrow> proof_env \<Rightarrow> string \<Rightarrow> string set \<Rightarrow> string set option" where
  "radix_page_ids 0 E pid ids = None"
| "radix_page_ids (Suc fuel) E pid ids =
    (if pid \<in> ids then Some ids
     else (case pe_decoded E pid of
       None \<Rightarrow> None
     | Some (Leaf _) \<Rightarrow> Some (insert pid ids)
     | Some (Branch _ children) \<Rightarrow>
         foldl (\<lambda>acc child. Option.bind acc (\<lambda>ids.
             radix_page_ids fuel E (closure_digest (pe_auth E) (ch_page_id child)) ids))
           (Some (insert pid ids)) children))"

definition count_entries :: "nat \<Rightarrow> nat \<Rightarrow> nat result" where
  "count_entries a b = ok_or (checked_add a b) (closure_limit ''subtree entry count overflow'')"

text \<open>One entry of a summary: the ids, files and entry count so far, and the memo table.\<close>

type_synonym summary = "string set \<times> snapshot_file list \<times> nat"

definition add_leaf_fact :: "auth_env \<Rightarrow> string \<Rightarrow> entry \<Rightarrow> summary \<Rightarrow> summary" where
  "add_leaf_fact A name e s = (case s of (ids, files, n) \<Rightarrow> (ids, files @ [entry_file A name e], n))"

definition add_child_facts :: "string \<Rightarrow> verified_subtree_facts \<Rightarrow> summary \<Rightarrow> summary result" where
  "add_child_facts name child s =
    (case s of (ids, files, n) \<Rightarrow>
       rbind (count_entries n (vf_total_entries child)) (\<lambda>n.
       Inr (ids \<union> set (vf_page_ids child),
            files @ map (\<lambda>f. f\<lparr>sf_rel_path := name @ ''/'' @ sf_rel_path f\<rparr>) (vf_files child), n)))"

definition seal_facts :: "string \<Rightarrow> summary \<Rightarrow> verified_subtree_facts" where
  "seal_facts root s =
    (case s of (ids, files, n) \<Rightarrow>
       \<lparr>vf_root_page_id = root, vf_page_ids = sorted_list_of_set ids, vf_files = sort_key sf_rel_path files,
        vf_total_entries = n\<rparr>)"

type_synonym fact_memo = "(string \<times> verified_subtree_facts) list"

fun subtree_facts ::
  "nat \<Rightarrow> proof_env \<Rightarrow> proof_state \<Rightarrow> string \<Rightarrow> fact_memo \<Rightarrow> (fact_memo \<times> verified_subtree_facts) run" where
  "subtree_facts 0 E v root memo = None"
| "subtree_facts (Suc fuel) E v root memo =
    (case map_of memo root of
       Some facts \<Rightarrow> Some (Inr (memo, facts))
     | None \<Rightarrow>
        (case (radix_page_ids (Suc (length (pe_bytes E))) E root {}, vs_entries v root) of
           (Some ids, Some es) \<Rightarrow>
             run_bind (run_fold (\<lambda>(memo, ids, files, n) e.
                 run_bind (Some (count_entries n 1)) (\<lambda>n.
                 run_bind (Some (ok_or (from_utf8 (en_name e)) (closure_integrity ''non-UTF-8 entry''))) (\<lambda>name.
                 if en_kind e = Directory_Kind
                 then run_bind (subtree_facts fuel E v (closure_digest (pe_auth E) (en_child_root e)) memo)
                        (\<lambda>(memo, child).
                      run_bind (Some (add_child_facts name child (ids, files, n))) (\<lambda>s. Some (Inr (memo, s))))
                 else Some (Inr (memo, add_leaf_fact (pe_auth E) name e (ids, files, n))))))
               (memo, ids, [], 0) es) (\<lambda>(memo, s).
             let facts = seal_facts root s in Some (Inr (filter (\<lambda>(key, _). key \<noteq> root) memo @ [(root, facts)], facts)))
         | _ \<Rightarrow> None))"

section \<open>Validated closures\<close>

record validated_closure =
  cl_descriptor :: descriptor
  cl_descriptor_bytes :: bytes
  cl_pages :: "(string \<times> bytes) list"
  cl_directories :: "snapshot_directory list"
  cl_files :: "snapshot_file list"

definition canonical_descriptor :: "auth_env \<Rightarrow> metapage_codec \<Rightarrow> descriptor \<Rightarrow> bytes result" where
  "canonical_descriptor A C d =
    (if schema_version d \<noteq> SCHEMA_VERSION A \<or> metadata_codec d \<noteq> METADATA_CODEC A
        \<or> materialization_policy d \<noteq> MATERIALIZATION_POLICY_GIT_RAW_V1 A
        \<or> fs_semantics d \<noteq> FS_SEMANTICS_LINUX_CODE_V1 A
        \<or> access_projection d \<noteq> ACCESS_PROJECTION_EXACT_FULL A
     then Inl (closure_integrity ''unsupported serving descriptor profile'')
     else
       rbind (validate_absolute_path (ae_grammar A) (scope d)) (\<lambda>_.
       rbind (ok_or (ae_uuid_parse A (instance_id d)) (closure_integrity ''invalid descriptor instance UUID'')) (\<lambda>inst.
       if ae_uuid_is_nil A inst \<or> ae_uuid_text A inst \<noteq> instance_id d
       then Inl (closure_integrity ''instance UUID must be non-nil and canonical'')
       else
         rbind (parse_digest (ae_hex_decode A) (namespace_view_id d)) (\<lambda>view.
         rbind (parse_digest (ae_hex_decode A) (metadata_root d)) (\<lambda>root.
         let serving = \<lparr>instance_uuid = inst, sd_namespace_view_id = view, sd_scope = scope d, sd_metadata_root = root\<rparr> in
         rbind (map_err closure_integrity (ae_serving_snapshot_id A serving)) (\<lambda>sid.
         if snapshot_id d \<noteq> closure_digest A sid
         then Inl (closure_integrity ''snapshot_id does not match canonical descriptor'')
         else map_err closure_integrity (Serving_encode C serving)))))))"

definition collect_facts ::
  "proof_env \<Rightarrow> proof_state \<Rightarrow> string list \<Rightarrow> verified_subtree_facts list run" where
  "collect_facts E v roots =
    run_bind (run_fold (\<lambda>memo root.
        run_bind (subtree_facts (Suc (length (pe_bytes E))) E v root memo) (\<lambda>(memo, _). Some (Inr memo))) [] roots)
      (\<lambda>memo. Some (Inr (sort_key vf_root_page_id (map snd memo))))"

definition proof_env_of ::
  "auth_env \<Rightarrow> metapage_codec \<Rightarrow> (string \<times> bytes) list \<Rightarrow> nat \<Rightarrow> nat \<Rightarrow> (nat \<Rightarrow> bool) \<Rightarrow> proof_env" where
  "proof_env_of A C pages max_nodes max_logical_bytes expired =
    \<lparr>pe_auth = A, pe_codec = C, pe_bytes = pages, pe_decoded = (\<lambda>_. None), pe_max_radix_entries = max_nodes,
     pe_max_logical_entries = max_nodes, pe_max_logical_bytes = max_logical_bytes, pe_expired = expired\<rparr>"

definition finish_closure ::
  "proof_env \<Rightarrow> descriptor \<Rightarrow> bytes \<Rightarrow> bool \<Rightarrow> proof_state \<Rightarrow> (validated_closure \<times> verified_subtree_facts list) run" where
  "finish_closure E d descriptor_bytes include_facts v =
    (if card (vs_reached v) \<noteq> length (pe_bytes E)
     then Some (Inl (closure_integrity ''metadata closure contains unreachable pages''))
     else
       let directories = sort_key sdir_rel_path (vs_directories v);
           files = sort_key sf_rel_path (vs_files v) in
       run_bind (if include_facts
                 then collect_facts E v (sorted_list_of_set (set (map sdir_directory_root directories)))
                 else Some (Inr [])) (\<lambda>facts.
       Some (Inr (\<lparr>cl_descriptor = d, cl_descriptor_bytes = descriptor_bytes, cl_pages = pe_bytes E,
                   cl_directories = directories, cl_files = files\<rparr>, facts))))"

definition validate_pages_bounded ::
  "auth_env \<Rightarrow> metapage_codec \<Rightarrow> descriptor \<Rightarrow> (string \<times> bytes) list \<Rightarrow> bool \<Rightarrow> nat \<Rightarrow> nat \<Rightarrow> (nat \<Rightarrow> bool)
    \<Rightarrow> (validated_closure \<times> verified_subtree_facts list) run" where
  "validate_pages_bounded A C d pages include_facts max_nodes max_logical_bytes expired =
    run_bind (Some (canonical_descriptor A C d)) (\<lambda>descriptor_bytes.
    run_bind (Some (new_bounded (proof_env_of A C pages max_nodes max_logical_bytes expired))) (\<lambda>(E, v).
    run_bind (walk_directory (Suc (length pages)) E (scope d) v [] (metadata_root d) {}) (\<lambda>v.
    finish_closure E d descriptor_bytes include_facts v)))"

definition from_pages ::
  "auth_env \<Rightarrow> metapage_codec \<Rightarrow> descriptor \<Rightarrow> (string \<times> bytes) list \<Rightarrow> validated_closure run" where
  "from_pages A C d pages =
    run_bind (validate_pages_bounded A C d pages False u64_MAX u64_MAX (\<lambda>_. False)) (\<lambda>(closure, _). Some (Inr closure))"

definition with_subtree_facts ::
  "auth_env \<Rightarrow> metapage_codec \<Rightarrow> descriptor \<Rightarrow> (string \<times> bytes) list
    \<Rightarrow> (validated_closure \<times> verified_subtree_facts list) run" where
  "with_subtree_facts A C d pages = validate_pages_bounded A C d pages True u64_MAX u64_MAX (\<lambda>_. False)"

definition from_canonical_pages_bounded ::
  "auth_env \<Rightarrow> metapage_codec \<Rightarrow> bytes \<Rightarrow> (string \<times> bytes) list \<Rightarrow> nat \<Rightarrow> nat \<Rightarrow> (nat \<Rightarrow> bool) \<Rightarrow> validated_closure run" where
  "from_canonical_pages_bounded A C descriptor_bytes pages max_nodes max_logical_bytes expired =
    run_bind (Some (map_err (\<lambda>e. closure_integrity (''invalid serving descriptor: '' @ e))
                      (Serving_decode C descriptor_bytes))) (\<lambda>serving.
    run_bind (Some (map_err closure_integrity (ae_serving_snapshot_id A serving))) (\<lambda>sid.
    let d = \<lparr>schema_version = SCHEMA_VERSION A, metadata_codec = METADATA_CODEC A,
             instance_id = ae_uuid_text A (instance_uuid serving),
             namespace_view_id = closure_digest A (sd_namespace_view_id serving), scope = sd_scope serving,
             materialization_policy = MATERIALIZATION_POLICY_GIT_RAW_V1 A,
             fs_semantics = FS_SEMANTICS_LINUX_CODE_V1 A, access_projection = ACCESS_PROJECTION_EXACT_FULL A,
             metadata_root = closure_digest A (sd_metadata_root serving), snapshot_id = closure_digest A sid\<rparr> in
    run_bind (validate_pages_bounded A C d pages False max_nodes max_logical_bytes expired) (\<lambda>(closure, _).
    if cl_descriptor_bytes closure \<noteq> descriptor_bytes
    then Some (Inl (closure_integrity ''serving descriptor bytes are not canonical''))
    else Some (Inr closure))))"

definition from_canonical_pages ::
  "auth_env \<Rightarrow> metapage_codec \<Rightarrow> bytes \<Rightarrow> (string \<times> bytes) list \<Rightarrow> validated_closure run" where
  "from_canonical_pages A C descriptor_bytes pages =
    from_canonical_pages_bounded A C descriptor_bytes pages u64_MAX u64_MAX (\<lambda>_. False)"

definition matches_descriptor :: "auth_env \<Rightarrow> metapage_codec \<Rightarrow> validated_closure \<Rightarrow> descriptor \<Rightarrow> unit result" where
  "matches_descriptor A C closure d =
    rbind (canonical_descriptor A C d) (\<lambda>b.
    ensure (b = cl_descriptor_bytes closure)
      (SnapshotError_new ScopeForbidden ''closure differs from the fixed authorized serving descriptor''))"

definition verify_directory_pages ::
  "auth_env \<Rightarrow> metapage_codec \<Rightarrow> string \<Rightarrow> (string \<times> bytes) list \<Rightarrow> nat \<Rightarrow> entry list result" where
  "verify_directory_pages A C root pages max_entries =
    rbind (new_bounded (proof_env_of A C pages max_entries u64_MAX (\<lambda>_. False))) (\<lambda>(E, v).
    rbind (radix_entries E v root 0 {}) (\<lambda>(v, es).
    if card (vs_reached v) \<noteq> length pages
    then Inl (closure_integrity ''directory proof contains unreachable radix pages'')
    else Inr es))"

section \<open>What pages denote\<close>

text \<open>
  The reference reading of a page graph, with no state: the entries a radix page stands for, the pages
  below it, and the directories and files of the logical tree.
\<close>

definition option_list :: "'a option \<Rightarrow> 'a list" where
  "option_list x = (case x of None \<Rightarrow> [] | Some e \<Rightarrow> [e])"

inductive radix_denotes :: "auth_env \<Rightarrow> (string \<Rightarrow> page option) \<Rightarrow> string \<Rightarrow> entry list \<Rightarrow> bool"
  for A D where
  denotes_leaf: "D pid = Some (Leaf es) \<Longrightarrow> radix_denotes A D pid (sort_key en_name es)"
| denotes_branch:
    "D pid = Some (Branch terminal children)
     \<Longrightarrow> list_all2 (\<lambda>c es. radix_denotes A D (closure_digest A (ch_page_id c)) es \<and> length es = ch_subtree_entries c)
           children ess
     \<Longrightarrow> radix_denotes A D pid (sort_key en_name (option_list terminal @ concat ess))"

inductive radix_edge :: "auth_env \<Rightarrow> (string \<Rightarrow> page option) \<Rightarrow> string \<Rightarrow> string \<Rightarrow> bool"
  for A D where
  "D pid = Some (Branch terminal children) \<Longrightarrow> c \<in> set children
   \<Longrightarrow> radix_edge A D pid (closure_digest A (ch_page_id c))"

abbreviation radix_pages :: "auth_env \<Rightarrow> (string \<Rightarrow> page option) \<Rightarrow> string \<Rightarrow> string set" where
  "radix_pages A D pid \<equiv> {q. (radix_edge A D)\<^sup>*\<^sup>* pid q}"

inductive dir_edge ::
  "auth_env \<Rightarrow> (string \<Rightarrow> page option) \<Rightarrow> string \<times> string \<Rightarrow> string \<times> string \<Rightarrow> bool"
  for A D where
  "radix_denotes A D root es \<Longrightarrow> e \<in> set es \<Longrightarrow> en_kind e = Directory_Kind \<Longrightarrow> from_utf8 (en_name e) = Some name
   \<Longrightarrow> dir_edge A D (path, root) (join_path path name, closure_digest A (en_child_root e))"

inductive file_edge ::
  "auth_env \<Rightarrow> (string \<Rightarrow> page option) \<Rightarrow> string \<times> string \<Rightarrow> snapshot_file \<Rightarrow> bool"
  for A D where
  "radix_denotes A D root es \<Longrightarrow> e \<in> set es \<Longrightarrow> en_kind e \<noteq> Directory_Kind \<Longrightarrow> from_utf8 (en_name e) = Some name
   \<Longrightarrow> file_edge A D (path, root) (entry_file A (join_path path name) e)"

definition tree_dirs :: "auth_env \<Rightarrow> (string \<Rightarrow> page option) \<Rightarrow> string \<times> string \<Rightarrow> snapshot_directory set" where
  "tree_dirs A D pr =
    {\<lparr>sdir_rel_path = p, sdir_directory_root = r\<rparr> | p r. (dir_edge A D)\<^sup>*\<^sup>* pr (p, r)}"

definition tree_files :: "auth_env \<Rightarrow> (string \<Rightarrow> page option) \<Rightarrow> string \<times> string \<Rightarrow> snapshot_file set" where
  "tree_files A D pr = {f. \<exists>d. (dir_edge A D)\<^sup>*\<^sup>* pr d \<and> file_edge A D d f}"

definition tree_pages :: "auth_env \<Rightarrow> (string \<Rightarrow> page option) \<Rightarrow> string \<times> string \<Rightarrow> string set" where
  "tree_pages A D pr = {q. \<exists>p r. (dir_edge A D)\<^sup>*\<^sup>* pr (p, r) \<and> q \<in> radix_pages A D r}"

section \<open>Lemmas on radix pages\<close>

lemma list_all2_determined:
  assumes "list_all2 P xs ys" "list_all2 Q xs zs" "\<And>x y z. P x y \<Longrightarrow> Q x z \<Longrightarrow> y = z"
  shows "ys = zs"
  using assms(1,2)
proof (induction arbitrary: zs rule: list_all2_induct)
  case (Cons x xs y ys)
  then obtain z zs' where "zs = z # zs'" "Q x z" "list_all2 Q xs zs'"
    by (auto simp: list_all2_Cons1)
  with Cons assms(3) show ?case by blast
qed simp

lemma radix_denotes_unique:
  "radix_denotes A D pid es \<Longrightarrow> radix_denotes A D pid es' \<Longrightarrow> es = es'"
proof (induction arbitrary: es' rule: radix_denotes.induct)
  case (denotes_leaf pid es)
  from denotes_leaf(2,1) show ?case by (cases) auto
next
  case (denotes_branch pid terminal children ess)
  from denotes_branch(3,1) obtain ess' where ess':
    "list_all2 (\<lambda>c es. radix_denotes A D (closure_digest A (ch_page_id c)) es \<and> length es = ch_subtree_entries c)
       children ess'"
    "es' = sort_key en_name (option_list terminal @ concat ess')"
    by (cases) auto
  have "ess = ess'"
    by (rule list_all2_determined[OF denotes_branch(2) ess'(1)]) blast
  with ess'(2) show ?case by simp
qed

definition memo_ok :: "proof_env \<Rightarrow> proof_state \<Rightarrow> bool" where
  "memo_ok E v \<longleftrightarrow>
    (\<forall>pid es. vs_entries v pid = Some es \<longrightarrow>
       radix_denotes (pe_auth E) (pe_decoded E) pid es
       \<and> radix_pages (pe_auth E) (pe_decoded E) pid \<subseteq> vs_reached v
       \<and> (\<exists>b. map_of (pe_bytes E) pid = Some b \<and> Page_build (pe_codec E) es = Inr b)
       \<and> pid \<in> dom (pe_decoded E))"

text \<open>What a step over radix pages below one of \<^term>\<open>R\<close> may change.\<close>

definition radix_frame :: "proof_state \<Rightarrow> string set \<Rightarrow> proof_state \<Rightarrow> bool" where
  "radix_frame v R v' \<longleftrightarrow>
    vs_paths v' = vs_paths v \<and> vs_content_sizes v' = vs_content_sizes v \<and> vs_directories v' = vs_directories v
    \<and> vs_files v' = vs_files v \<and> vs_reached v \<subseteq> vs_reached v' \<and> vs_reached v' \<subseteq> vs_reached v \<union> R
    \<and> dom (vs_entries v) \<subseteq> dom (vs_entries v')"

lemma radix_frame_refl: "radix_frame v R v"
  by (simp add: radix_frame_def)

lemma radix_frame_trans: "radix_frame v R w \<Longrightarrow> radix_frame w R x \<Longrightarrow> radix_frame v R x"
  by (simp add: radix_frame_def) blast

lemma radix_frame_mono: "radix_frame v R w \<Longrightarrow> R \<subseteq> S \<Longrightarrow> radix_frame v S w"
  by (auto simp: radix_frame_def)

text \<open>A step that only charges time and bytes.\<close>

definition charged :: "proof_state \<Rightarrow> proof_state \<Rightarrow> bool" where
  "charged v v' \<longleftrightarrow>
    (\<exists>n k. v' = v\<lparr>vs_logical_bytes := n, vs_readings := k\<rparr>)"

lemma charged_fields:
  assumes "charged v v'"
  shows "vs_entries v' = vs_entries v" "vs_reached v' = vs_reached v" "vs_paths v' = vs_paths v"
    "vs_content_sizes v' = vs_content_sizes v" "vs_directories v' = vs_directories v" "vs_files v' = vs_files v"
  using assms by (auto simp: charged_def)

lemma check_deadline_charged: "check_deadline E v = Inr v' \<Longrightarrow> charged v v'"
  by (cases v) (auto simp: check_deadline_def charged_def split: if_splits)

lemma admit_allocation_charged: "admit_allocation E v n = Inr v' \<Longrightarrow> charged v v'"
  by (cases v) (auto simp: admit_allocation_def check_deadline_def charged_def result_simps split: if_splits)

lemma admit_logical_path_charged: "admit_logical_path E v p = Inr v' \<Longrightarrow> charged v v'"
  by (cases v) (auto simp: admit_logical_path_def admit_allocation_def check_deadline_def charged_def result_simps
      split: if_splits)

lemma charged_memo: "charged v v' \<Longrightarrow> memo_ok E v' = memo_ok E v"
  by (simp add: memo_ok_def charged_fields)

lemma charged_frame: "charged v v' \<Longrightarrow> radix_frame v R v'"
  by (simp add: radix_frame_def charged_fields)

text \<open>A radix proof that succeeded: the frame, the memo, and what the entries denote.\<close>

definition radix_proved :: "proof_env \<Rightarrow> proof_state \<Rightarrow> string \<Rightarrow> proof_state \<times> entry list \<Rightarrow> bool" where
  "radix_proved E v pid r \<longleftrightarrow>
    (case r of (v', es) \<Rightarrow>
      radix_frame v (radix_pages (pe_auth E) (pe_decoded E) pid) v' \<and> memo_ok E v' \<and> vs_entries v' pid = Some es)"

lemma memo_frame:
  assumes "memo_ok E v" "vs_entries v' = vs_entries v" "vs_reached v \<subseteq> vs_reached v'"
  shows "memo_ok E v'"
  using assms unfolding memo_ok_def by (simp add: subset_trans[OF _ assms(3)] subset_iff)

lemma enter_radix_Inr:
  assumes "enter_radix E v pid = Inr (v', p)" "memo_ok E v"
  shows "pe_decoded E pid = Some p" "radix_frame v {pid} v'" "memo_ok E v'" "pid \<in> vs_reached v'"
proof -
  obtain w n where w: "admit_allocation E v n = Inr w" "pe_decoded E pid = Some p"
    and v': "v' = w\<lparr>vs_reached := insert pid (vs_reached w)\<rparr>"
    using assms(1) by (auto simp: enter_radix_def result_simps)
  note ch = charged_fields[OF admit_allocation_charged[OF w(1)]]
  show "pe_decoded E pid = Some p" by (rule w(2))
  show "radix_frame v {pid} v'" "pid \<in> vs_reached v'"
    using ch by (auto simp: v' radix_frame_def)
  have "memo_ok E w"
    using assms(2) charged_memo[OF admit_allocation_charged[OF w(1)]] by simp
  then show "memo_ok E v'"
    by (rule memo_frame) (auto simp: v')
qed

lemma branch_child_Inr:
  assumes "branch_child E v es c ces = Inr (v', es')"
  shows "charged v v'" "es' = es @ ces" "length ces = ch_subtree_entries c"
  using assms admit_allocation_charged by (auto simp: branch_child_def result_simps split: if_splits)

lemma finish_radix_Inr:
  assumes "finish_radix E pid (v, es) = Inr (v', es')"
  obtains w b where "charged v w" "es' = sort_key en_name es" "v' = w\<lparr>vs_entries := (vs_entries w)(pid \<mapsto> es')\<rparr>"
    "map_of (pe_bytes E) pid = Some b" "Page_build (pe_codec E) es' = Inr b"
proof -
  obtain w b n where "admit_allocation E v n = Inr w" "es' = sort_key en_name es"
    "v' = w\<lparr>vs_entries := (vs_entries w)(pid \<mapsto> es')\<rparr>" "map_of (pe_bytes E) pid = Some b"
    "Page_build (pe_codec E) es' = Inr b"
    using assms by (auto simp: finish_radix_def Let_def result_simps split: if_splits)
  with that admit_allocation_charged show thesis by blast
qed

lemma finish_radix_proved:
  assumes "finish_radix E pid (w, es) = Inr r" and v: "memo_ok E w" "radix_frame v (radix_pages A D pid) w"
    and sub: "radix_pages A D pid \<subseteq> vs_reached w" and den: "radix_denotes A D pid (sort_key en_name es)"
    and AD: "A = pe_auth E" "D = pe_decoded E" and dom: "pid \<in> dom D"
  shows "radix_proved E v pid r"
proof -
  obtain v' es' where r: "r = (v', es')" by (cases r)
  obtain x b where x: "charged w x" "es' = sort_key en_name es"
    "v' = x\<lparr>vs_entries := (vs_entries x)(pid \<mapsto> es')\<rparr>"
    "map_of (pe_bytes E) pid = Some b" "Page_build (pe_codec E) es' = Inr b"
    using finish_radix_Inr[OF assms(1)[unfolded r]] by metis
  note ch = charged_fields[OF x(1)]
  have mx: "memo_ok E x"
    using v(1) charged_memo[OF x(1)] by simp
  have "memo_ok E v'"
    using mx sub den x(2,4,5) dom
    by (auto simp: memo_ok_def x(3) ch AD)
  moreover have "radix_frame w (radix_pages A D pid) v'"
    by (auto simp: radix_frame_def x(3) ch)
  ultimately show ?thesis
    using radix_frame_trans[OF v(2)] by (simp add: radix_proved_def r x(3) AD)
qed

lemma radix_pages_child:
  "D pid = Some (Branch t cs) \<Longrightarrow> c \<in> set cs \<Longrightarrow> radix_pages A D (closure_digest A (ch_page_id c)) \<subseteq> radix_pages A D pid"
  by (auto intro: converse_rtranclp_into_rtranclp radix_edge.intros)

lemma radix_pages_step: "radix_pages A D pid = insert pid (\<Union>q\<in>{q. radix_edge A D pid q}. radix_pages A D q)"
proof (intro equalityI subsetI)
  fix q assume "q \<in> radix_pages A D pid"
  then have "(radix_edge A D)\<^sup>*\<^sup>* pid q" by simp
  then show "q \<in> insert pid (\<Union>q\<in>{q. radix_edge A D pid q}. radix_pages A D q)"
    by (cases rule: converse_rtranclpE) auto
qed (auto intro: converse_rtranclp_into_rtranclp)

lemma radix_pages_unfold:
  assumes "D pid = Some (Branch t cs)"
  shows "radix_pages A D pid = insert pid (\<Union>c\<in>set cs. radix_pages A D (closure_digest A (ch_page_id c)))"
proof -
  have "{q. radix_edge A D pid q} = (\<lambda>c. closure_digest A (ch_page_id c)) ` set cs"
    using assms by (auto elim: radix_edge.cases intro: radix_edge.intros)
  then show ?thesis by (subst radix_pages_step) simp
qed

lemma radix_pages_leaf: "D pid = Some (Leaf es) \<Longrightarrow> radix_pages A D pid = {pid}"
proof -
  assume "D pid = Some (Leaf es)"
  then have "{q. radix_edge A D pid q} = {}" by (auto elim: radix_edge.cases)
  then show ?thesis by (subst radix_pages_step) (simp only: UN_empty)
qed

lemma radix_children_proved:
  assumes run: "try_fold (\<lambda>(v, es) child.
      rbind (radix_entries E v (closure_digest (pe_auth E) (ch_page_id child)) k act)
        (\<lambda>(v, ces). branch_child E v es child ces)) (v, es0) children = Inr (v', es)"
    and IH: "\<And>u pid r. radix_entries E u pid k act = Inr r \<Longrightarrow> memo_ok E u \<Longrightarrow> radix_proved E u pid r"
    and memo: "memo_ok E v" and A: "A = pe_auth E" and D: "D = pe_decoded E"
  shows "\<exists>ess. memo_ok E v' \<and> es = es0 @ concat ess
    \<and> list_all2 (\<lambda>c es. radix_denotes A D (closure_digest A (ch_page_id c)) es \<and> length es = ch_subtree_entries c) children ess
    \<and> radix_frame v (\<Union>c\<in>set children. radix_pages A D (closure_digest A (ch_page_id c))) v'
    \<and> (\<Union>c\<in>set children. radix_pages A D (closure_digest A (ch_page_id c))) \<subseteq> vs_reached v'"
proof -
  define P where "P = (\<lambda>u (ys :: child_ref list). \<exists>ess. memo_ok E (fst u) \<and> snd u = es0 @ concat ess
    \<and> list_all2 (\<lambda>c es. radix_denotes A D (closure_digest A (ch_page_id c)) es \<and> length es = ch_subtree_entries c) ys ess
    \<and> radix_frame v (\<Union>c\<in>set ys. radix_pages A D (closure_digest A (ch_page_id c))) (fst u)
    \<and> (\<Union>c\<in>set ys. radix_pages A D (closure_digest A (ch_page_id c))) \<subseteq> vs_reached (fst u))"
  have "P (v', es) children"
  proof (rule try_fold_invariant[OF run])
    show "P (v, es0) []"
      unfolding P_def using memo by (intro exI[of _ "[]"]) (simp add: radix_frame_refl)
  next
    fix u ys c w
    assume P: "P u ys" and step: "(case u of (v, es) \<Rightarrow> \<lambda>child.
      rbind (radix_entries E v (closure_digest (pe_auth E) (ch_page_id child)) k act)
        (\<lambda>(v, ces). branch_child E v es child ces)) c = Inr w"
    let ?p = "closure_digest A (ch_page_id c)"
    obtain ess where ess: "memo_ok E (fst u)" "snd u = es0 @ concat ess"
      "list_all2 (\<lambda>c es. radix_denotes A D (closure_digest A (ch_page_id c)) es \<and> length es = ch_subtree_entries c) ys ess"
      "radix_frame v (\<Union>c\<in>set ys. radix_pages A D (closure_digest A (ch_page_id c))) (fst u)"
      "(\<Union>c\<in>set ys. radix_pages A D (closure_digest A (ch_page_id c))) \<subseteq> vs_reached (fst u)"
      using P unfolding P_def by blast
    obtain x ces where x: "radix_entries E (fst u) ?p k act = Inr (x, ces)" "branch_child E x (snd u) c ces = Inr w"
      using step by (cases u) (auto simp: result_simps A)
    have px: "radix_frame (fst u) (radix_pages A D ?p) x" "memo_ok E x" "vs_entries x ?p = Some ces"
      using IH[OF x(1) ess(1)] by (auto simp: radix_proved_def A D)
    have den: "radix_denotes A D ?p ces" "radix_pages A D ?p \<subseteq> vs_reached x"
      using px(2,3) by (auto simp: memo_ok_def A D)
    have "branch_child E x (snd u) c ces = Inr (fst w, snd w)"
      using x(2) by simp
    note w = branch_child_Inr[OF this]
    have fr: "radix_frame v (\<Union>c\<in>set (ys @ [c]). radix_pages A D (closure_digest A (ch_page_id c))) (fst w)"
      by (rule radix_frame_trans[OF radix_frame_mono[OF ess(4)] radix_frame_trans[OF radix_frame_mono[OF px(1)]
            charged_frame[OF w(1)]]]) auto
    have re: "vs_reached (fst u) \<subseteq> vs_reached x" "vs_reached (fst w) = vs_reached x"
      using px(1) charged_fields[OF w(1)] by (auto simp: radix_frame_def)
    show "P w (ys @ [c])"
      unfolding P_def
    proof (intro exI[of _ "ess @ [ces]"] conjI)
      show "memo_ok E (fst w)" using px(2) charged_memo[OF w(1)] by simp
      show "snd w = es0 @ concat (ess @ [ces])" using w(2) ess(2) by simp
      show "radix_frame v (\<Union>c\<in>set (ys @ [c]). radix_pages A D (closure_digest A (ch_page_id c))) (fst w)" by (rule fr)
      show "(\<Union>c\<in>set (ys @ [c]). radix_pages A D (closure_digest A (ch_page_id c))) \<subseteq> vs_reached (fst w)"
        using ess(5) den(2) re by auto
    qed (use ess(3) den(1) w(3) in \<open>auto intro: list_all2_appendI\<close>)
  qed
  then show ?thesis unfolding P_def by simp
qed

lemma radix_entries_proved:
  "radix_entries E v pid depth active = Inr r \<Longrightarrow> memo_ok E v \<Longrightarrow> radix_proved E v pid r"
proof (induction "Suc (RADIX_MAX_DEPTH (pe_codec E)) - depth" arbitrary: v pid depth active r rule: less_induct)
  case less
  let ?A = "pe_auth E" and ?D = "pe_decoded E"
  obtain v0 where v0: "check_deadline E v = Inr v0" "\<not> RADIX_MAX_DEPTH (pe_codec E) < depth"
    using less.prems(1) by (subst (asm) radix_entries.simps) (auto simp: result_simps split: if_splits)
  have memo0: "memo_ok E v0" and fr0: "radix_frame v R v0" for R
    using charged_memo charged_frame check_deadline_charged[OF v0(1)] less.prems(2) by auto
  show ?case
  proof (cases "vs_entries v0 pid")
    case (Some es)
    then have "r = (v0, es)"
      using less.prems(1) v0 by (subst (asm) radix_entries.simps) auto
    then show ?thesis
      using Some memo0 fr0 by (simp add: radix_proved_def)
  next
    case None
    let ?body = "\<lambda>v1 p. case p of Leaf es \<Rightarrow> Inr (v1, es) | Branch terminal children \<Rightarrow>
              try_fold (\<lambda>(v, es) child.
                rbind (radix_entries E v (closure_digest (pe_auth E) (ch_page_id child)) (depth + 1) (insert pid active))
                  (\<lambda>(v, ces). branch_child E v es child ces))
                (v1, option_list terminal) children"
    obtain v1 p v2 es where v1: "enter_radix E v0 pid = Inr (v1, p)"
      and body: "?body v1 p = Inr (v2, es)" and fin: "finish_radix E pid (v2, es) = Inr r"
      using less.prems(1) v0 None unfolding option_list_def
      by (subst (asm) radix_entries.simps) (auto simp: result_simps split: if_splits)
    note e = enter_radix_Inr[OF v1 memo0]
    have "pid \<in> radix_pages ?A ?D pid" by simp
    then have fr1: "radix_frame v (radix_pages ?A ?D pid) v1"
      using radix_frame_trans[OF fr0 radix_frame_mono[OF e(2)]] by blast
    show ?thesis
    proof (cases p)
      case (Leaf ls)
      then have *: "v2 = v1" "es = ls" using body by auto
      show ?thesis
        using finish_radix_proved[OF fin[unfolded *] e(3) fr1 _ denotes_leaf refl refl] Leaf e(1,4)
          radix_pages_leaf[of ?D pid ls ?A] by auto
    next
      case (Branch t cs)
      have dp: "?D pid = Some (Branch t cs)" using e(1) Branch by simp
      have "\<exists>ess. memo_ok E v2 \<and> es = option_list t @ concat ess
        \<and> list_all2 (\<lambda>c es. radix_denotes ?A ?D (closure_digest ?A (ch_page_id c)) es \<and> length es = ch_subtree_entries c) cs ess
        \<and> radix_frame v1 (\<Union>c\<in>set cs. radix_pages ?A ?D (closure_digest ?A (ch_page_id c))) v2
        \<and> (\<Union>c\<in>set cs. radix_pages ?A ?D (closure_digest ?A (ch_page_id c))) \<subseteq> vs_reached v2"
        by (rule radix_children_proved[OF _ less.hyps e(3) refl refl]) (use body Branch v0(2) in auto)
      then obtain ess where ess: "memo_ok E v2" "es = option_list t @ concat ess"
        "list_all2 (\<lambda>c es. radix_denotes ?A ?D (closure_digest ?A (ch_page_id c)) es \<and> length es = ch_subtree_entries c) cs ess"
        "radix_frame v1 (\<Union>c\<in>set cs. radix_pages ?A ?D (closure_digest ?A (ch_page_id c))) v2"
        "(\<Union>c\<in>set cs. radix_pages ?A ?D (closure_digest ?A (ch_page_id c))) \<subseteq> vs_reached v2"
        by blast
      have fr2: "radix_frame v (radix_pages ?A ?D pid) v2"
        by (rule radix_frame_trans[OF fr1 radix_frame_mono[OF ess(4)]]) (auto simp: radix_pages_unfold[where D = ?D, OF dp])
      have "radix_pages ?A ?D pid \<subseteq> vs_reached v2"
        unfolding radix_pages_unfold[where D = ?D, OF dp] using ess(4,5) e(4) by (auto simp: radix_frame_def)
      then show ?thesis
        using finish_radix_proved[OF fin ess(1) fr2] denotes_branch[OF dp ess(3)] ess(2) dp by blast
    qed
  qed
qed

section \<open>Lemmas on the logical tree\<close>

definition child_of :: "auth_env \<Rightarrow> string \<Rightarrow> entry \<Rightarrow> string \<times> string" where
  "child_of A path e = (join_path path (the (from_utf8 (en_name e))), closure_digest A (en_child_root e))"

lemma rtranclp_set_step:
  "{y. R\<^sup>*\<^sup>* x y} = insert x (\<Union>z\<in>{z. R x z}. {y. R\<^sup>*\<^sup>* z y})"
proof (intro equalityI subsetI)
  fix y assume "y \<in> {y. R\<^sup>*\<^sup>* x y}"
  then have "R\<^sup>*\<^sup>* x y" by simp
  then show "y \<in> insert x (\<Union>z\<in>{z. R x z}. {y. R\<^sup>*\<^sup>* z y})"
    by (cases rule: converse_rtranclpE) auto
qed (auto intro: converse_rtranclp_into_rtranclp)

lemma dir_edges:
  assumes den: "radix_denotes A D root es" and utf8: "\<forall>e\<in>set es. from_utf8 (en_name e) \<noteq> None"
  shows "{d. dir_edge A D (path, root) d} = child_of A path ` {e \<in> set es. en_kind e = Directory_Kind}"
    and "{f. file_edge A D (path, root) f}
      = (\<lambda>e. entry_file A (join_path path (the (from_utf8 (en_name e)))) e) ` {e \<in> set es. en_kind e \<noteq> Directory_Kind}"
proof -
  have u: "radix_denotes A D root es' \<Longrightarrow> es' = es" for es'
    using den radix_denotes_unique by blast
  show "{d. dir_edge A D (path, root) d} = child_of A path ` {e \<in> set es. en_kind e = Directory_Kind}" (is "?l = ?r")
  proof (intro equalityI subsetI)
    fix d assume "d \<in> ?l"
    then obtain e name where "e \<in> set es" "en_kind e = Directory_Kind" "from_utf8 (en_name e) = Some name"
      "d = (join_path path name, closure_digest A (en_child_root e))"
      by (auto elim!: dir_edge.cases dest!: u)
    then show "d \<in> ?r" by (intro image_eqI[of _ _ e]) (auto simp: child_of_def)
  qed (use utf8 dir_edge.intros[OF den, of _ _ path] in \<open>auto simp: child_of_def\<close>)
  show "{f. file_edge A D (path, root) f}
      = (\<lambda>e. entry_file A (join_path path (the (from_utf8 (en_name e)))) e) ` {e \<in> set es. en_kind e \<noteq> Directory_Kind}"
    (is "?l = ?r")
  proof (intro equalityI subsetI)
    fix f assume "f \<in> ?l"
    then obtain e name where "e \<in> set es" "en_kind e \<noteq> Directory_Kind" "from_utf8 (en_name e) = Some name"
      "f = entry_file A (join_path path name) e"
      by (auto elim!: file_edge.cases dest!: u)
    then show "f \<in> ?r" by (intro image_eqI[of _ _ e]) auto
  qed (use utf8 file_edge.intros[OF den, of _ _ path] in auto)
qed

definition entry_dirs :: "auth_env \<Rightarrow> (string \<Rightarrow> page option) \<Rightarrow> string \<Rightarrow> entry \<Rightarrow> snapshot_directory set" where
  "entry_dirs A D path e = (if en_kind e = Directory_Kind then tree_dirs A D (child_of A path e) else {})"

definition entry_files :: "auth_env \<Rightarrow> (string \<Rightarrow> page option) \<Rightarrow> string \<Rightarrow> entry \<Rightarrow> snapshot_file set" where
  "entry_files A D path e =
    (if en_kind e = Directory_Kind then tree_files A D (child_of A path e)
     else {entry_file A (join_path path (the (from_utf8 (en_name e)))) e})"

definition entry_pages :: "auth_env \<Rightarrow> (string \<Rightarrow> page option) \<Rightarrow> string \<Rightarrow> entry \<Rightarrow> string set" where
  "entry_pages A D path e = (if en_kind e = Directory_Kind then tree_pages A D (child_of A path e) else {})"

lemma tree_step:
  assumes "radix_denotes A D root es" "\<forall>e\<in>set es. from_utf8 (en_name e) \<noteq> None"
  shows "tree_dirs A D (path, root)
      = insert \<lparr>sdir_rel_path = path, sdir_directory_root = root\<rparr> (\<Union>e\<in>set es. entry_dirs A D path e)" (is ?dirs)
    and "tree_files A D (path, root) = (\<Union>e\<in>set es. entry_files A D path e)" (is ?files)
    and "tree_pages A D (path, root) = radix_pages A D root \<union> (\<Union>e\<in>set es. entry_pages A D path e)" (is ?pages)
proof -
  let ?S = "\<lambda>d. {y. (dir_edge A D)\<^sup>*\<^sup>* d y}"
  have S: "?S (path, root)
      = insert (path, root) (\<Union>e\<in>{e \<in> set es. en_kind e = Directory_Kind}. ?S (child_of A path e))"
    by (subst rtranclp_set_step) (simp add: dir_edges(1)[OF assms])
  have d: "tree_dirs A D pr = (\<lambda>(p, r). \<lparr>sdir_rel_path = p, sdir_directory_root = r\<rparr>) ` ?S pr" for pr
    by (auto simp: tree_dirs_def)
  have f: "tree_files A D pr = (\<Union>d\<in>?S pr. {f. file_edge A D d f})" for pr
    by (auto simp: tree_files_def)
  have g: "tree_pages A D pr = (\<Union>d\<in>?S pr. radix_pages A D (snd d))" for pr
    by (auto simp: tree_pages_def) blast
  show ?dirs
    by (simp only: d S) (auto simp: entry_dirs_def d)
  show ?files
    by (simp only: f S UN_insert dir_edges(2)[OF assms]) (auto simp: entry_files_def f)
  show ?pages
    by (simp only: g S UN_insert) (auto simp: entry_pages_def g)
qed

section \<open>The walk\<close>

text \<open>What holds of the validator between two directories or files.\<close>

definition tally_ok :: "proof_env \<Rightarrow> string \<Rightarrow> proof_state \<Rightarrow> bool" where
  "tally_ok E sc v \<longleftrightarrow>
    memo_ok E v
    \<and> vs_paths v = sdir_rel_path ` set (vs_directories v) \<union> sf_rel_path ` set (vs_files v)
    \<and> distinct (map sdir_rel_path (vs_directories v) @ map sf_rel_path (vs_files v))
    \<and> (\<forall>f\<in>set (vs_files v). vs_content_sizes v (sf_content_digest f) = Some (sf_size f) \<and> sf_size f \<le> MAX_FILE_SIZE)
    \<and> (\<forall>p\<in>vs_paths v. is_ok (validate_composed_path (ae_grammar (pe_auth E)) sc p))"

definition grown ::
  "proof_state \<Rightarrow> snapshot_directory set \<Rightarrow> snapshot_file set \<Rightarrow> string set \<Rightarrow> proof_state \<Rightarrow> bool" where
  "grown v ds fs ps v' \<longleftrightarrow>
    set (vs_directories v') = set (vs_directories v) \<union> ds \<and> set (vs_files v') = set (vs_files v) \<union> fs
    \<and> vs_reached v' = vs_reached v \<union> ps
    \<and> dom (vs_entries v) \<union> sdir_directory_root ` ds \<subseteq> dom (vs_entries v')"

lemma grown_trans:
  assumes "grown v ds fs ps w" "grown w ds' fs' ps' x"
  shows "grown v (ds \<union> ds') (fs \<union> fs') (ps \<union> ps') x"
proof -
  have sub: "dom (vs_entries v) \<subseteq> dom (vs_entries w)" "sdir_directory_root ` ds \<subseteq> dom (vs_entries w)"
    "dom (vs_entries w) \<subseteq> dom (vs_entries x)" "sdir_directory_root ` ds' \<subseteq> dom (vs_entries x)"
    using assms by (simp_all add: grown_def)
  show ?thesis
    unfolding grown_def image_Un
  proof (intro conjI)
  show "dom (vs_entries v) \<union> (sdir_directory_root ` ds \<union> sdir_directory_root ` ds') \<subseteq> dom (vs_entries x)"
    using sub by blast
  qed (use assms in \<open>simp_all add: grown_def Un_assoc\<close>)
qed

lemma tally_memo: "tally_ok E sc v \<Longrightarrow> memo_ok E v"
  by (simp add: tally_ok_def)

lemma open_directory_grown:
  assumes run: "open_directory E sc v path root active = Inr (v', es)" and ok: "tally_ok E sc v"
  shows "tally_ok E sc v'" "radix_denotes (pe_auth E) (pe_decoded E) root es" "root \<notin> active"
    "root \<in> dom (pe_decoded E)" "vs_entries v' root = Some es"
    "grown v {\<lparr>sdir_rel_path = path, sdir_directory_root = root\<rparr>} {} (radix_pages (pe_auth E) (pe_decoded E) root) v'"
proof -
  let ?d = "\<lparr>sdir_rel_path = path, sdir_directory_root = root\<rparr>"
  obtain w where w: "admit_logical_path E v path = Inr w"
    and valid: "is_ok (validate_composed_path (ae_grammar (pe_auth E)) sc path)"
    and fresh: "root \<notin> active" "path \<notin> vs_paths w"
    and r: "radix_entries E (w\<lparr>vs_paths := insert path (vs_paths w), vs_directories := vs_directories w @ [?d]\<rparr>) root 0 {}
      = Inr (v', es)"
    using run by (auto simp: open_directory_def result_simps is_ok_def split: if_splits)
  let ?w = "w\<lparr>vs_paths := insert path (vs_paths w), vs_directories := vs_directories w @ [?d]\<rparr>"
  note ch = charged_fields[OF admit_logical_path_charged[OF w]]
  have mw: "memo_ok E ?w"
    using tally_memo[OF ok] by (simp add: memo_ok_def ch)
  have p: "radix_frame ?w (radix_pages (pe_auth E) (pe_decoded E) root) v'" "memo_ok E v'" "vs_entries v' root = Some es"
    using radix_entries_proved[OF r mw] by (auto simp: radix_proved_def)
  show "root \<notin> active" "vs_entries v' root = Some es" by (fact fresh p)+
  have den: "radix_denotes (pe_auth E) (pe_decoded E) root es" "root \<in> dom (pe_decoded E)"
    "radix_pages (pe_auth E) (pe_decoded E) root \<subseteq> vs_reached v'"
    using p(2,3) by (auto simp: memo_ok_def)
  then show "radix_denotes (pe_auth E) (pe_decoded E) root es" "root \<in> dom (pe_decoded E)" by auto
  have f: "vs_paths v' = insert path (vs_paths v)" "vs_directories v' = vs_directories v @ [?d]" "vs_files v' = vs_files v"
    "vs_content_sizes v' = vs_content_sizes v" "vs_reached v \<subseteq> vs_reached v'"
    "vs_reached v' \<subseteq> vs_reached v \<union> radix_pages (pe_auth E) (pe_decoded E) root"
    "dom (vs_entries v) \<subseteq> dom (vs_entries v')"
    using p(1) ch by (auto simp: radix_frame_def)
  show "tally_ok E sc v'"
    using ok p(2) fresh(2) valid unfolding tally_ok_def f ch by (auto simp: image_iff)
  show "grown v {?d} {} (radix_pages (pe_auth E) (pe_decoded E) root) v'"
    unfolding grown_def using f den(3) p(3) by auto
qed

lemma add_file_grown:
  assumes run: "add_file E v path e = Inr v'" and ok: "tally_ok E sc v"
    and valid: "is_ok (validate_composed_path (ae_grammar (pe_auth E)) sc path)"
  shows "tally_ok E sc v'" "grown v {} {entry_file (pe_auth E) path e} {} v'"
proof -
  let ?f = "entry_file (pe_auth E) path e"
  let ?w' = "\<lambda>w. w\<lparr>vs_paths := insert path (vs_paths w),
        vs_content_sizes := (vs_content_sizes w)(sf_content_digest ?f \<mapsto> en_size e), vs_files := vs_files w @ [?f]\<rparr>"
  obtain w where w: "admit_logical_path E v path = Inr w" and w': "v' = ?w' w \<and> en_size e \<le> MAX_FILE_SIZE
      \<and> path \<notin> vs_paths w \<and> (\<forall>n. vs_content_sizes w (sf_content_digest ?f) = Some n \<longrightarrow> n = en_size e)"
  proof -
    obtain w where w: "admit_logical_path E v path = Inr w" using run by (auto simp: add_file_def result_simps)
    then show thesis
      using run by (intro that[OF w])
        (auto simp: add_file_def Let_def entry_file_def split: if_splits option.splits)
  qed
  then have size: "en_size e \<le> MAX_FILE_SIZE" and fresh: "path \<notin> vs_paths w" and v': "v' = ?w' w"
    and agree: "\<And>n. vs_content_sizes w (sf_content_digest ?f) = Some n \<Longrightarrow> n = en_size e"
    by blast+
  note ch = charged_fields[OF admit_logical_path_charged[OF w]]
  have memo: "memo_ok E v'"
    using tally_memo[OF ok] by (simp add: memo_ok_def v' ch)
  have f: "sf_rel_path ?f = path" "sf_size ?f = en_size e" by (simp_all add: entry_file_def)
  show "tally_ok E sc v'"
    unfolding tally_ok_def
  proof (intro conjI)
    show "memo_ok E v'" by (fact memo)
    show "vs_paths v' = sdir_rel_path ` set (vs_directories v') \<union> sf_rel_path ` set (vs_files v')"
      using ok f by (auto simp: v' ch tally_ok_def)
    show "distinct (map sdir_rel_path (vs_directories v') @ map sf_rel_path (vs_files v'))"
      using ok f fresh by (auto simp: v' ch tally_ok_def)
    show "\<forall>p\<in>vs_paths v'. is_ok (validate_composed_path (ae_grammar (pe_auth E)) sc p)"
      using ok valid by (auto simp: v' ch tally_ok_def)
    show "\<forall>g\<in>set (vs_files v'). vs_content_sizes v' (sf_content_digest g) = Some (sf_size g) \<and> sf_size g \<le> MAX_FILE_SIZE"
      using ok f size agree by (auto simp: v' ch tally_ok_def)
  qed
  show "grown v {} {?f} {} v'"
    by (auto simp: grown_def v' ch)
qed

lemma entry_path_Inr:
  assumes "entry_path E sc path e = Inr p"
  shows "from_utf8 (en_name e) \<noteq> None" "p = join_path path (the (from_utf8 (en_name e)))"
    "is_ok (validate_composed_path (ae_grammar (pe_auth E)) sc p)"
  using assms by (auto simp: entry_path_def result_simps Let_def)

abbreviation walk_entry where
  "walk_entry fuel E sc path root active \<equiv> (\<lambda>v e.
      run_bind (Some (entry_path E sc path e)) (\<lambda>child_path.
      if en_kind e = Directory_Kind
      then walk_directory fuel E sc v child_path (closure_digest (pe_auth E) (en_child_root e)) (insert root active)
      else Some (add_file E v child_path e)))"

lemma walk_entry_grown:
  assumes step: "walk_entry fuel E sc path root active u e = Some (Inr w)" and ok: "tally_ok E sc u"
    and IH: "\<And>p r act v v'. walk_directory fuel E sc v p r act = Some (Inr v') \<Longrightarrow> tally_ok E sc v
      \<Longrightarrow> tally_ok E sc v' \<and> grown v (tree_dirs A D (p, r)) (tree_files A D (p, r)) (tree_pages A D (p, r)) v'"
    and A: "A = pe_auth E"
  shows "tally_ok E sc w \<and> from_utf8 (en_name e) \<noteq> None
    \<and> grown u (entry_dirs A D path e) (entry_files A D path e) (entry_pages A D path e) w"
proof -
  obtain p where p: "entry_path E sc path e = Inr p" and
    rest: "(if en_kind e = Directory_Kind
      then walk_directory fuel E sc u p (closure_digest (pe_auth E) (en_child_root e)) (insert root active)
      else Some (add_file E u p e)) = Some (Inr w)"
    using step by (auto simp: result_simps)
  note ep = entry_path_Inr[OF p]
  show ?thesis
  proof (cases "en_kind e = Directory_Kind")
    case True
    then show ?thesis
      using IH[of u p "closure_digest A (en_child_root e)"] rest ok ep
      by (simp add: entry_dirs_def entry_files_def entry_pages_def child_of_def A)
  next
    case False
    then show ?thesis
      using add_file_grown[OF _ ok ep(3), of e w] rest ep(1,2)
      by (simp add: entry_dirs_def entry_files_def entry_pages_def A)
  qed
qed

lemma grown_refl: "grown v {} {} {} v"
  by (simp add: grown_def)

lemma walk_directory_grown:
  assumes "walk_directory fuel E sc v path root active = Some (Inr v')" "tally_ok E sc v"
    "A = pe_auth E" "D = pe_decoded E"
  shows "tally_ok E sc v'
    \<and> grown v (tree_dirs A D (path, root)) (tree_files A D (path, root)) (tree_pages A D (path, root)) v'"
  using assms
proof (induction fuel arbitrary: v path root active v')
  case (Suc fuel)
  note A = Suc.prems(3) and D = Suc.prems(4)
  obtain w es where o: "open_directory E sc v path root active = Inr (w, es)"
    and loop: "run_fold (walk_entry fuel E sc path root active) w es = Some (Inr v')"
    using Suc.prems(1) by (auto simp: result_simps)
  note og = open_directory_grown[OF o Suc.prems(2)]
  define P where "P = (\<lambda>u (ys :: entry list). tally_ok E sc u \<and> (\<forall>e\<in>set ys. from_utf8 (en_name e) \<noteq> None)
    \<and> grown w (\<Union>e\<in>set ys. entry_dirs A D path e) (\<Union>e\<in>set ys. entry_files A D path e)
        (\<Union>e\<in>set ys. entry_pages A D path e) u)"
  have "P v' es"
  proof (rule run_fold_invariant[OF loop])
    show "P w []" using og(1) grown_refl by (simp add: P_def)
  next
    fix u ys e x
    assume P: "P u ys" and step: "walk_entry fuel E sc path root active u e = Some (Inr x)"
    have g: "tally_ok E sc x \<and> from_utf8 (en_name e) \<noteq> None
        \<and> grown u (entry_dirs A D path e) (entry_files A D path e) (entry_pages A D path e) x"
      by (rule walk_entry_grown[OF step _ _ A]) (use P Suc.IH[OF _ _ A D] in \<open>auto simp: P_def\<close>)
    have "grown w (\<Union>e\<in>set (ys @ [e]). entry_dirs A D path e) (\<Union>e\<in>set (ys @ [e]). entry_files A D path e)
        (\<Union>e\<in>set (ys @ [e]). entry_pages A D path e) x"
      using grown_trans[OF conjunct2[OF conjunct2[OF P[unfolded P_def]]] conjunct2[OF conjunct2[OF g]]]
      by (simp add: Un_commute)
    then show "P x (ys @ [e])" using P g by (simp add: P_def)
  qed
  then have fin: "tally_ok E sc v'" "\<forall>e\<in>set es. from_utf8 (en_name e) \<noteq> None"
    "grown w (\<Union>e\<in>set es. entry_dirs A D path e) (\<Union>e\<in>set es. entry_files A D path e)
        (\<Union>e\<in>set es. entry_pages A D path e) v'"
    unfolding P_def by blast+
  from grown_trans[OF og(6) fin(3)] fin(1) show ?case
    using tree_step[OF og(2) fin(2)] by (simp add: A D)
qed simp

section \<open>The walk returns\<close>

lemma run_fold_returns:
  assumes "P s" "\<And>u x. P u \<Longrightarrow> x \<in> set xs \<Longrightarrow> f u x \<noteq> None"
    "\<And>u x v. P u \<Longrightarrow> x \<in> set xs \<Longrightarrow> f u x = Some (Inr v) \<Longrightarrow> P v"
  shows "run_fold f s xs \<noteq> None"
  using assms
proof (induction xs arbitrary: s)
  case (Cons x xs)
  show ?case
  proof (cases "f s x")
    case None
    then show ?thesis using Cons.prems(1,2) by simp
  next
    case (Some r)
    show ?thesis
    proof (cases r)
      case (Inr v)
      then have "P v" using Cons.prems(1) Cons.prems(3)[of s x v] Some by simp
      then have "run_fold f v xs \<noteq> None"
      proof (rule Cons.IH)
        show "f u y \<noteq> None" if "P u" "y \<in> set xs" for u y
          by (rule Cons.prems(2)) (use that in auto)
        show "P w" if "P u" "y \<in> set xs" "f u y = Some (Inr w)" for u y w
          by (rule Cons.prems(3)[OF that(1) _ that(3)]) (use that(2) in simp)
      qed
      with Some Inr show ?thesis by simp
    qed (simp add: Some)
  qed
qed simp

lemma walk_directory_returns:
  assumes "card (dom (pe_decoded E) - active) < fuel" "finite (dom (pe_decoded E))" "tally_ok E sc v"
  shows "walk_directory fuel E sc v path root active \<noteq> None"
  using assms
proof (induction fuel arbitrary: v path root active)
  case (Suc fuel)
  show ?case
  proof (cases "open_directory E sc v path root active")
    case (Inr a)
    then obtain w es where o: "open_directory E sc v path root active = Inr (w, es)" by (cases a) auto
    note og = open_directory_grown[OF o Suc.prems(3)]
    have "card (dom (pe_decoded E) - insert root active) < card (dom (pe_decoded E) - active)"
      using Suc.prems(2) og(3,4) by (intro psubset_card_mono) auto
    then have less: "card (dom (pe_decoded E) - insert root active) < fuel"
      using Suc.prems(1) by simp
    have "run_fold (walk_entry fuel E sc path root active) w es \<noteq> None"
    proof (rule run_fold_returns[where P = "tally_ok E sc"])
      show "tally_ok E sc w" by (fact og(1))
    next
      fix u e assume "tally_ok E sc u"
      then show "walk_entry fuel E sc path root active u e \<noteq> None"
        using Suc.IH[OF less Suc.prems(2)] by (cases "entry_path E sc path e") auto
    next
      fix u e x assume ux: "tally_ok E sc u" "walk_entry fuel E sc path root active u e = Some (Inr x)"
      have "tally_ok E sc x \<and> from_utf8 (en_name e) \<noteq> None
        \<and> grown u (entry_dirs (pe_auth E) (pe_decoded E) path e) (entry_files (pe_auth E) (pe_decoded E) path e)
            (entry_pages (pe_auth E) (pe_decoded E) path e) x"
        by (rule walk_entry_grown[OF ux(2,1) _ refl]) (rule walk_directory_grown[OF _ _ refl refl])
      then show "tally_ok E sc x" by simp
    qed
    then show ?thesis using o by simp
  qed simp
qed simp

section \<open>Loading pages\<close>

definition closure_table :: "metapage_codec \<Rightarrow> (string \<times> bytes) list \<Rightarrow> string \<Rightarrow> page option" where
  "closure_table C pages pid =
    Option.bind (map_of pages pid) (\<lambda>b. case decode_page C b of Inl _ \<Rightarrow> None | Inr p \<Rightarrow> Some p)"

lemma charged_trans: "charged u v \<Longrightarrow> charged v w \<Longrightarrow> charged u w"
  by (cases u) (auto simp: charged_def)

lemma load_page_Inr:
  assumes "load_page E (v, D) (pid, b) = Inr (v', D')"
  shows "charged v v'" "parse_digest (ae_hex_decode (pe_auth E)) pid = Inr (page_id (pe_codec E) b)"
    "\<exists>p. decode_page (pe_codec E) b = Inr p \<and> D' = D(pid \<mapsto> p)"
  using assms admit_allocation_charged by (auto simp: load_page_def result_simps split: if_splits)

lemma new_bounded_Inr:
  assumes run: "new_bounded E = Inr (E', v)" and keys: "distinct (map fst (pe_bytes E))"
  shows "E' = E\<lparr>pe_decoded := closure_table (pe_codec E) (pe_bytes E)\<rparr>" "charged proof_state_new v"
    "dom (closure_table (pe_codec E) (pe_bytes E)) = fst ` set (pe_bytes E)"
    "\<forall>(pid, b)\<in>set (pe_bytes E). parse_digest (ae_hex_decode (pe_auth E)) pid = Inr (page_id (pe_codec E) b)"
proof -
  let ?C = "pe_codec E"
  obtain D where f: "try_fold (load_page E) (proof_state_new, \<lambda>_. None) (pe_bytes E) = Inr (v, D)"
    and E': "E' = E\<lparr>pe_decoded := D\<rparr>"
    using run by (auto simp: new_bounded_def result_simps)
  define P where "P = (\<lambda>u (ys :: (string \<times> bytes) list). charged proof_state_new (fst u) \<and> dom (snd u) = fst ` set ys
    \<and> (\<forall>(pid, b)\<in>set ys. parse_digest (ae_hex_decode (pe_auth E)) pid = Inr (page_id ?C b))
    \<and> (\<forall>pid p. snd u pid = Some p \<longrightarrow> (\<exists>b. (pid, b) \<in> set ys \<and> decode_page ?C b = Inr p)))"
  have "P (v, D) (pe_bytes E)"
  proof (rule try_fold_invariant[OF f])
    show "P (proof_state_new, \<lambda>_. None) []" by (auto simp: P_def charged_def proof_state_new_def)
  next
    fix u ys x w assume P: "P u ys" and step: "load_page E u x = Inr w"
    obtain pid b where x: "x = (pid, b)" by (cases x)
    have "load_page E (fst u, snd u) (pid, b) = Inr (fst w, snd w)" using step x by simp
    note l = load_page_Inr[OF this]
    obtain p where p: "decode_page ?C b = Inr p" "snd w = (snd u)(pid \<mapsto> p)" using l(3) by blast
    show "P w (ys @ [x])"
      using P l(2) p charged_trans[OF _ l(1)] unfolding P_def x by auto
  qed
  then have P: "charged proof_state_new v" "dom D = fst ` set (pe_bytes E)"
    "\<forall>(pid, b)\<in>set (pe_bytes E). parse_digest (ae_hex_decode (pe_auth E)) pid = Inr (page_id ?C b)"
    "\<And>pid p. D pid = Some p \<Longrightarrow> \<exists>b. (pid, b) \<in> set (pe_bytes E) \<and> decode_page ?C b = Inr p"
    unfolding P_def by auto
  have D: "D = closure_table ?C (pe_bytes E)"
  proof
    fix pid
    show "D pid = closure_table ?C (pe_bytes E) pid"
    proof (cases "D pid")
      case None
      then have "map_of (pe_bytes E) pid = None" using P(2) by (simp add: map_of_eq_None_iff domIff flip: P(2))
      then show ?thesis using None by (simp add: closure_table_def)
    next
      case (Some p)
      with P(4) obtain b where "(pid, b) \<in> set (pe_bytes E)" "decode_page ?C b = Inr p" by blast
      then show ?thesis using Some keys by (simp add: closure_table_def)
    qed
  qed
  show "E' = E\<lparr>pe_decoded := closure_table ?C (pe_bytes E)\<rparr>" "charged proof_state_new v"
    "dom (closure_table ?C (pe_bytes E)) = fst ` set (pe_bytes E)"
    "\<forall>(pid, b)\<in>set (pe_bytes E). parse_digest (ae_hex_decode (pe_auth E)) pid = Inr (page_id ?C b)"
    using E' P(1,2,3) D by simp_all
qed

section \<open>A validated closure\<close>

text \<open>What a closure holds when validation accepted it for the table of its decoded pages.\<close>

definition closure_exact :: "auth_env \<Rightarrow> metapage_codec \<Rightarrow> descriptor \<Rightarrow> (string \<times> bytes) list \<Rightarrow> validated_closure \<Rightarrow> bool" where
  "closure_exact A C d pages cl \<longleftrightarrow>
    (let D = closure_table C pages; start = ([], metadata_root d) in
     cl_descriptor cl = d \<and> cl_pages cl = pages
     \<and> set (cl_directories cl) = tree_dirs A D start \<and> sorted (map sdir_rel_path (cl_directories cl))
     \<and> set (cl_files cl) = tree_files A D start \<and> sorted (map sf_rel_path (cl_files cl))
     \<and> distinct (map sdir_rel_path (cl_directories cl) @ map sf_rel_path (cl_files cl))
     \<and> fst ` set pages = tree_pages A D start
     \<and> (\<forall>(pid, b)\<in>set pages. parse_digest (ae_hex_decode A) pid = Inr (page_id C b)))"

lemma tally_new: "charged proof_state_new v \<Longrightarrow> tally_ok E sc v"
  by (auto simp: tally_ok_def memo_ok_def charged_def proof_state_new_def)

lemma radix_denotes_dom: "radix_denotes A D pid es \<Longrightarrow> radix_pages A D pid \<subseteq> dom D"
proof (induction rule: radix_denotes.induct)
  case (denotes_leaf pid es)
  then show ?case using radix_pages_leaf[of D pid es A] by auto
next
  case (denotes_branch pid t cs ess)
  have "radix_pages A D (closure_digest A (ch_page_id c)) \<subseteq> dom D" if "c \<in> set cs" for c
    using denotes_branch(2) that by (auto simp: list_all2_conv_all_nth in_set_conv_nth)
  then show ?case
    unfolding radix_pages_unfold[where D = D, OF denotes_branch(1)] using denotes_branch(1) by auto
qed

text \<open>The end of a successful walk from the committed root.\<close>

lemma walk_exact:
  assumes new: "new_bounded (proof_env_of A C pages mn mb ex) = Inr (E, v)" and keys: "distinct (map fst pages)"
    and walk: "walk_directory (Suc (length pages)) E sc v [] root {} = Some (Inr v')"
  shows "pe_auth E = A" "pe_codec E = C" "pe_decoded E = closure_table C pages" "pe_bytes E = pages"
    "set (vs_directories v') = tree_dirs A (closure_table C pages) ([], root)"
    "set (vs_files v') = tree_files A (closure_table C pages) ([], root)"
    "vs_reached v' = tree_pages A (closure_table C pages) ([], root)"
    "distinct (map sdir_rel_path (vs_directories v') @ map sf_rel_path (vs_files v'))"
    "tally_ok E sc v'" "sdir_directory_root ` tree_dirs A (closure_table C pages) ([], root) \<subseteq> dom (vs_entries v')"
proof -
  let ?E = "proof_env_of A C pages mn mb ex"
  have k: "distinct (map fst (pe_bytes ?E))" using keys by (simp add: proof_env_of_def)
  note nb = new_bounded_Inr[OF new k]
  show E: "pe_auth E = A" "pe_codec E = C" "pe_decoded E = closure_table C pages" "pe_bytes E = pages"
    using nb(1) by (simp_all add: proof_env_of_def)
  note w = walk_directory_grown[OF walk tally_new[OF nb(2)] refl refl, unfolded E]
  show "tally_ok E sc v'" using w by simp
  then show "distinct (map sdir_rel_path (vs_directories v') @ map sf_rel_path (vs_files v'))"
    by (simp add: tally_ok_def)
  note ch = charged_fields[OF nb(2)]
  show "set (vs_directories v') = tree_dirs A (closure_table C pages) ([], root)"
    "set (vs_files v') = tree_files A (closure_table C pages) ([], root)"
    "vs_reached v' = tree_pages A (closure_table C pages) ([], root)"
    "sdir_directory_root ` tree_dirs A (closure_table C pages) ([], root) \<subseteq> dom (vs_entries v')"
    using w ch by (simp_all add: grown_def proof_state_new_def)
qed

lemma reached_all:
  assumes "R \<subseteq> fst ` set pages" "distinct (map fst pages)" "card R = length pages"
  shows "R = fst ` set pages"
proof (rule card_subset_eq[OF _ assms(1)])
  show "card R = card (fst ` set pages)"
    using assms(2,3) distinct_card[of "map fst pages"] by simp
qed simp

end
