(* ===== verification/Coordinator.thy ===== *)
theory Coordinator
  imports Closure Admission
begin

text \<open>
  Single-flight fetching (\<^verbatim>\<open>snapshot/coordinator.rs\<close>).  The state holds the in-flight table that one
  mutex protects, the semaphores, and what the running futures own: admitted callers, registered
  waiters, job guards and the results sent to waiters.  Each operation is one critical section or one
  drop, so that the step relation covers every interleaving and cancellation of callers and jobs.
  Reading the file itself is the reader's work; a job ends with an arbitrary result, or with none.
  Semaphores are the argument of the theory \<^verbatim>\<open>Admission\<close>; the process-wide ones may change at any
  time by the work of other coordinators.
\<close>

section \<open>Limits and requests\<close>

definition MAX_PROCESS_PENDING_JOBS :: nat where "MAX_PROCESS_PENDING_JOBS = 256"
definition MAX_PROCESS_ACTIVE_CALLERS :: nat where "MAX_PROCESS_ACTIVE_CALLERS = 1024"
definition MAX_COORDINATOR_PENDING_JOBS :: nat where "MAX_COORDINATOR_PENDING_JOBS = 64"
definition MAX_COORDINATOR_ACTIVE_CALLERS :: nat where "MAX_COORDINATOR_ACTIVE_CALLERS = 256"

record fetch_limits =
  max_pending_jobs :: nat
  max_active_callers :: nat

definition FetchCoordinatorLimits_new :: "nat \<Rightarrow> nat \<Rightarrow> fetch_limits result" where
  "FetchCoordinatorLimits_new jobs callers =
    (if \<not> (1 \<le> jobs \<and> jobs \<le> MAX_COORDINATOR_PENDING_JOBS)
        \<or> \<not> (1 \<le> callers \<and> callers \<le> MAX_COORDINATOR_ACTIVE_CALLERS)
     then Inl (SnapshotError_new InvalidRequest
                 ''fetch count limits must be positive and within coordinator hard caps'')
     else Inr \<lparr>max_pending_jobs = jobs, max_active_callers = callers\<rparr>)"

definition FetchCoordinatorLimits_default :: fetch_limits where
  "FetchCoordinatorLimits_default =
    \<lparr>max_pending_jobs = MAX_COORDINATOR_PENDING_JOBS,
     max_active_callers = MAX_COORDINATOR_ACTIVE_CALLERS\<rparr>"

definition membership_index :: "snapshot_file list \<Rightarrow> string \<Rightarrow> snapshot_file option" where
  "membership_index files = map_of (rev (map (\<lambda>file. (sf_rel_path file, file)) files))"

definition validate_membership :: "(string \<Rightarrow> snapshot_file option) \<Rightarrow> snapshot_file \<Rightarrow> unit result" where
  "validate_membership files file =
    (let path = (case strip_prefix ''/'' (sf_rel_path file) of Some p \<Rightarrow> p | None \<Rightarrow> sf_rel_path file) in
     rbind (ok_or (files path)
              (SnapshotError_new PathNotFound
                 (sf_rel_path file @ '' is not a file in the fixed snapshot''))) (\<lambda>expected.
     let same_kind = (sf_fs_kind file = sf_fs_kind expected
           \<or> (sf_fs_kind file = ''file'' \<and> sf_fs_kind expected = ''regular'')) in
     if sf_content_digest file \<noteq> sf_content_digest expected
        \<or> sf_size file \<noteq> sf_size expected
        \<or> \<not> same_kind
     then Inl (SnapshotError_new DigestMismatch
                 (sf_rel_path file @ '' differs from its committed file metadata''))
     else Inr ()))"

text \<open>The checks of \<^verbatim>\<open>fetch_owned\<close> before admission, and the key under which callers are merged.\<close>

definition fetch_precheck :: "scope_grammar \<Rightarrow> string \<Rightarrow> snapshot_file \<Rightarrow> unit result" where
  "fetch_precheck grammar sc file =
    rbind (validate_relative_path grammar sc (sf_rel_path file)) (\<lambda>_.
    if MAX_BUFFERED_FILE_BYTES < sf_size file
    then Inl (SnapshotError_new LimitExceeded
                ''whole-file buffered read exceeds the local 64 MiB budget; use range reads'')
    else Inr ())"

definition fetch_key :: "snapshot_file \<Rightarrow> string" where
  "fetch_key file = sf_content_digest file @ '':'' @ show_nat (sf_size file)"

text \<open>The check that \<^verbatim>\<open>lead\<close> makes of the bytes the reader returned.\<close>

definition lead_check :: "snapshot_file \<Rightarrow> bytes \<Rightarrow> bytes result" where
  "lead_check file body =
    (if length body \<noteq> sf_size file
     then Inl (SnapshotError_new DigestMismatch
                 (sf_rel_path file @ '': fetched size '' @ show_nat (length body) @ '' != view size ''
                    @ show_nat (sf_size file)))
     else Inr body)"

section \<open>The coordinator\<close>

record pending_flight =
  pf_generation :: nat
  pf_waiters :: "nat list"

record waiter_registration =
  wr_key :: string
  wr_generation :: nat
  wr_id :: nat

record ('s, 'r) coordinator =
  co_limits :: fetch_limits
  co_entries :: "string \<Rightarrow> pending_flight option"
  co_next_id :: nat
  co_semaphore :: 's
  co_jobs :: 's
  co_callers :: 's
  process_jobs :: 's
  process_callers :: 's
  co_cancelled :: "nat list"
  co_admitted :: nat
  co_online :: nat
  co_registrations :: "waiter_registration list"
  co_flights :: "(string \<times> nat) list"
  co_leading :: "(string \<times> nat) list"
  co_delivered :: "(nat \<times> (snapshot_error + 'r)) list"

definition coordinator_new ::
  "'s semaphore_ops \<Rightarrow> fetch_limits \<Rightarrow> nat \<Rightarrow> 's \<Rightarrow> 's \<Rightarrow> ('s, 'r) coordinator" where
  "coordinator_new S limits max_concurrent pjobs pcallers =
    \<lparr>co_limits = limits, co_entries = (\<lambda>_. None), co_next_id = 0,
     co_semaphore = sem_new S (min (max max_concurrent 1) (max_pending_jobs limits)),
     co_jobs = sem_new S (max_pending_jobs limits), co_callers = sem_new S (max_active_callers limits),
     process_jobs = pjobs, process_callers = pcallers, co_cancelled = [], co_admitted = 0, co_online = 0,
     co_registrations = [], co_flights = [], co_leading = [], co_delivered = []\<rparr>"

record fetch_counts =
  pending_jobs :: nat
  active_callers :: nat

definition counts :: "'s semaphore_ops \<Rightarrow> ('s, 'r) coordinator \<Rightarrow> fetch_counts" where
  "counts S c =
    \<lparr>pending_jobs = max_pending_jobs (co_limits c) - available_permits S (co_jobs c),
     active_callers = max_active_callers (co_limits c) - available_permits S (co_callers c)\<rparr>"

definition process_counts :: "'s semaphore_ops \<Rightarrow> ('s, 'r) coordinator \<Rightarrow> fetch_counts" where
  "process_counts S c =
    \<lparr>pending_jobs = MAX_PROCESS_PENDING_JOBS - available_permits S (process_jobs c),
     active_callers = MAX_PROCESS_ACTIVE_CALLERS - available_permits S (process_callers c)\<rparr>"

text \<open>\<^verbatim>\<open>Inflight::id\<close>.\<close>

definition fresh_id :: "('s, 'r) coordinator \<Rightarrow> ('s, 'r) coordinator \<times> nat result" where
  "fresh_id c =
    (case checked_add (co_next_id c) 1 of
       None \<Rightarrow> (c, Inl (SnapshotError_new Internal ''fetch identity space exhausted''))
     | Some n \<Rightarrow> (c\<lparr>co_next_id := n\<rparr>, Inr n))"

text \<open>Admissions and their drops.\<close>

definition acquire_caller ::
  "'s semaphore_ops \<Rightarrow> ('s, 'r) coordinator \<Rightarrow> ('s, 'r) coordinator \<times> unit result" where
  "acquire_caller S c =
    (case CountAdmission_acquire S (co_callers c) (process_callers c) of
       (local, global, r) \<Rightarrow>
         (c\<lparr>co_callers := local, process_callers := global,
            co_admitted := co_admitted c + (if is_ok r then 1 else 0)\<rparr>, map_sum id (\<lambda>_. ()) r))"

definition release_caller :: "'s semaphore_ops \<Rightarrow> ('s, 'r) coordinator \<Rightarrow> ('s, 'r) coordinator" where
  "release_caller S c =
    c\<lparr>co_callers := add_permits S (co_callers c) 1, process_callers := add_permits S (process_callers c) 1\<rparr>"

definition acquire_job ::
  "'s semaphore_ops \<Rightarrow> ('s, 'r) coordinator \<Rightarrow> ('s, 'r) coordinator \<times> unit result" where
  "acquire_job S c =
    (case CountAdmission_acquire S (co_jobs c) (process_jobs c) of
       (local, global, r) \<Rightarrow> (c\<lparr>co_jobs := local, process_jobs := global\<rparr>, map_sum id (\<lambda>_. ()) r))"

definition release_job :: "'s semaphore_ops \<Rightarrow> ('s, 'r) coordinator \<Rightarrow> ('s, 'r) coordinator" where
  "release_job S c =
    c\<lparr>co_jobs := add_permits S (co_jobs c) 1, process_jobs := add_permits S (process_jobs c) 1\<rparr>"

text \<open>An admitted caller returns early: a failed check, an expired lease or a dropped future.\<close>

definition leave_admitted :: "'s semaphore_ops \<Rightarrow> ('s, 'r) coordinator \<Rightarrow> ('s, 'r) coordinator" where
  "leave_admitted S c = release_caller S (c\<lparr>co_admitted := co_admitted c - 1\<rparr>)"

text \<open>Without metadata pages each caller runs its own job, from admission to result.\<close>

definition online_enter ::
  "'s semaphore_ops \<Rightarrow> ('s, 'r) coordinator \<Rightarrow> ('s, 'r) coordinator \<times> unit result" where
  "online_enter S c =
    (case acquire_job S c of
       (c, Inl e) \<Rightarrow> (leave_admitted S c, Inl e)
     | (c, Inr _) \<Rightarrow> (c\<lparr>co_admitted := co_admitted c - 1, co_online := co_online c + 1\<rparr>, Inr ()))"

definition online_leave :: "'s semaphore_ops \<Rightarrow> ('s, 'r) coordinator \<Rightarrow> ('s, 'r) coordinator" where
  "online_leave S c = release_caller S (release_job S (c\<lparr>co_online := co_online c - 1\<rparr>))"

text \<open>The critical section of \<^verbatim>\<open>fetch_owned\<close>: join the flight of the key, or start one.\<close>

definition start_flight ::
  "'s semaphore_ops \<Rightarrow> ('s, 'r) coordinator \<Rightarrow> string \<Rightarrow> nat \<Rightarrow> ('s, 'r) coordinator \<times> waiter_registration result" where
  "start_flight S c key i =
    (case acquire_job S c of
       (c, Inl e) \<Rightarrow> (leave_admitted S c, Inl e)
     | (c, Inr _) \<Rightarrow>
        (case fresh_id c of
           (c, Inl e) \<Rightarrow> (leave_admitted S (release_job S c), Inl e)
         | (c, Inr generation) \<Rightarrow>
             let reg = \<lparr>wr_key = key, wr_generation = generation, wr_id = i\<rparr> in
             (c\<lparr>co_entries := (co_entries c)(key \<mapsto> \<lparr>pf_generation = generation, pf_waiters = [i]\<rparr>),
                co_admitted := co_admitted c - 1,
                co_registrations := reg # co_registrations c,
                co_flights := (key, generation) # co_flights c\<rparr>, Inr reg)))"

definition register ::
  "'s semaphore_ops \<Rightarrow> ('s, 'r) coordinator \<Rightarrow> string \<Rightarrow> ('s, 'r) coordinator \<times> waiter_registration result" where
  "register S c key =
    (case fresh_id c of
       (c, Inl e) \<Rightarrow> (leave_admitted S c, Inl e)
     | (c, Inr i) \<Rightarrow>
        (case co_entries c key of
           Some pending \<Rightarrow>
             let reg = \<lparr>wr_key = key, wr_generation = pf_generation pending, wr_id = i\<rparr> in
             (c\<lparr>co_entries := (co_entries c)(key \<mapsto> pending\<lparr>pf_waiters := i # pf_waiters pending\<rparr>),
                co_admitted := co_admitted c - 1,
                co_registrations := reg # co_registrations c\<rparr>, Inr reg)
         | None \<Rightarrow> start_flight S c key i))"

text \<open>\<^verbatim>\<open>WaiterRegistration::drop\<close>, with the caller admission that the registration owns.\<close>

definition detach_waiter :: "('s, 'r) coordinator \<Rightarrow> waiter_registration \<Rightarrow> ('s, 'r) coordinator" where
  "detach_waiter c reg =
    (case co_entries c (wr_key reg) of
       None \<Rightarrow> c
     | Some pending \<Rightarrow>
         if pf_generation pending = wr_generation reg
         then let waiters = filter (\<lambda>i. i \<noteq> wr_id reg) (pf_waiters pending) in
           if waiters = []
           then c\<lparr>co_entries := (co_entries c)(wr_key reg := None),
                  co_cancelled := wr_generation reg # co_cancelled c\<rparr>
           else c\<lparr>co_entries := (co_entries c)(wr_key reg \<mapsto> pending\<lparr>pf_waiters := waiters\<rparr>)\<rparr>
         else c)"

definition drop_registration ::
  "'s semaphore_ops \<Rightarrow> ('s, 'r) coordinator \<Rightarrow> waiter_registration \<Rightarrow> ('s, 'r) coordinator" where
  "drop_registration S c reg =
    release_caller S ((detach_waiter c reg)\<lparr>co_registrations := remove1 reg (co_registrations c)\<rparr>)"

definition take_waiters :: "('s, 'r) coordinator \<Rightarrow> string \<Rightarrow> nat \<Rightarrow> ('s, 'r) coordinator \<times> nat list" where
  "take_waiters c key generation =
    (case co_entries c key of
       Some pending \<Rightarrow>
         if pf_generation pending = generation
         then (c\<lparr>co_entries := (co_entries c)(key := None)\<rparr>, pf_waiters pending)
         else (c, [])
     | None \<Rightarrow> (c, []))"

text \<open>\<^verbatim>\<open>JobGuard::complete\<close>, and the drop of a guard that was not completed.\<close>

definition job_complete ::
  "'s semaphore_ops \<Rightarrow> ('s, 'r) coordinator \<Rightarrow> string \<times> nat \<Rightarrow> snapshot_error + 'r \<Rightarrow> ('s, 'r) coordinator" where
  "job_complete S c flight r =
    (case take_waiters c (fst flight) (snd flight) of
       (c, waiters) \<Rightarrow>
         release_job S (c\<lparr>co_delivered := map (\<lambda>i. (i, r)) waiters @ co_delivered c,
                          co_flights := remove1 flight (co_flights c)\<rparr>))"

definition job_drop ::
  "'s semaphore_ops \<Rightarrow> ('s, 'r) coordinator \<Rightarrow> string \<times> nat \<Rightarrow> ('s, 'r) coordinator" where
  "job_drop S c flight =
    job_complete S c flight (Inl (SnapshotError_new Internal ''fetch task ended without a result''))"

text \<open>The permit that \<^verbatim>\<open>lead\<close> holds while it reads.\<close>

definition lead_enter ::
  "'s semaphore_ops \<Rightarrow> ('s, 'r) coordinator \<Rightarrow> string \<times> nat \<Rightarrow> ('s, 'r) coordinator option" where
  "lead_enter S c flight =
    map_option (\<lambda>s. c\<lparr>co_semaphore := s, co_leading := flight # co_leading c\<rparr>)
      (try_acquire_many S (co_semaphore c) 1)"

definition lead_leave ::
  "'s semaphore_ops \<Rightarrow> ('s, 'r) coordinator \<Rightarrow> string \<times> nat \<Rightarrow> ('s, 'r) coordinator" where
  "lead_leave S c flight =
    c\<lparr>co_semaphore := add_permits S (co_semaphore c) 1, co_leading := remove1 flight (co_leading c)\<rparr>"

inductive co_step :: "'s semaphore_ops \<Rightarrow> ('s, 'r) coordinator \<Rightarrow> ('s, 'r) coordinator \<Rightarrow> bool" for S where
  admit: "acquire_caller S c = (c', r) \<Longrightarrow> co_step S c c'"
| leave: "0 < co_admitted c \<Longrightarrow> co_step S c (leave_admitted S c)"
| online: "0 < co_admitted c \<Longrightarrow> online_enter S c = (c', r) \<Longrightarrow> co_step S c c'"
| online_end: "0 < co_online c \<Longrightarrow> co_step S c (online_leave S c)"
| join: "0 < co_admitted c \<Longrightarrow> register S c key = (c', r) \<Longrightarrow> co_step S c c'"
| drop: "reg \<in> set (co_registrations c) \<Longrightarrow> co_step S c (drop_registration S c reg)"
| complete: "flight \<in> set (co_flights c) \<Longrightarrow> co_step S c (job_complete S c flight result)"
| lead: "lead_enter S c flight = Some c' \<Longrightarrow> co_step S c c'"
| lead_end: "flight \<in> set (co_leading c) \<Longrightarrow> co_step S c (lead_leave S c flight)"
| others: "co_step S c (c\<lparr>process_jobs := j, process_callers := k\<rparr>)"

inductive co_reachable ::
  "'s semaphore_ops \<Rightarrow> ('s, 'r) coordinator \<Rightarrow> ('s, 'r) coordinator \<Rightarrow> bool" for S start where
  init: "co_reachable S start start"
| step: "co_reachable S start c \<Longrightarrow> co_step S c c' \<Longrightarrow> co_reachable S start c'"

text \<open>\<^verbatim>\<open>lead\<close> under its permit: the latched cancellation is looked at once, before the reader is called.\<close>

definition lead ::
  "('s, 'r) coordinator \<Rightarrow> nat option \<Rightarrow> snapshot_file \<Rightarrow> (snapshot_file \<Rightarrow> bytes result) \<Rightarrow> bytes result" where
  "lead c cancellation file read =
    (if (case cancellation of Some generation \<Rightarrow> generation \<in> set (co_cancelled c) | None \<Rightarrow> False)
     then Inl (SnapshotError_new Internal ''fetch has no live waiters'')
     else rbind (read file) (lead_check file))"

text \<open>
  \<^verbatim>\<open>fetch_owned\<close> up to the point where the caller waits, with the awaited results as arguments: the
  membership table (or the failure to build it) and the outcome of the lease check.
\<close>

datatype fetch_entry = OnlineJob | Waiting waiter_registration

definition fetch_owned_entry ::
  "'s semaphore_ops \<Rightarrow> scope_grammar \<Rightarrow> string \<Rightarrow> bool \<Rightarrow> (string \<Rightarrow> snapshot_file option) result \<Rightarrow> unit result
    \<Rightarrow> ('s, 'r) coordinator \<Rightarrow> snapshot_file \<Rightarrow> ('s, 'r) coordinator \<times> fetch_entry result" where
  "fetch_owned_entry S grammar sc metadata_pages members lease c file =
    (case fetch_precheck grammar sc file of
       Inl e \<Rightarrow> (c, Inl e)
     | Inr _ \<Rightarrow>
        (case acquire_caller S c of
           (c, Inl e) \<Rightarrow> (c, Inl e)
         | (c, Inr _) \<Rightarrow>
             if \<not> metadata_pages
             then (case lease of
                     Inl e \<Rightarrow> (leave_admitted S c, Inl e)
                   | Inr _ \<Rightarrow> map_prod id (map_sum id (\<lambda>_. OnlineJob)) (online_enter S c))
             else (case rbind members (\<lambda>files. rbind (validate_membership files file) (\<lambda>_. lease)) of
                     Inl e \<Rightarrow> (leave_admitted S c, Inl e)
                   | Inr _ \<Rightarrow> map_prod id (map_sum id Waiting) (register S c (fetch_key file)))))"

section \<open>The in-flight table\<close>

text \<open>
  An entry has at least one waiter and a live, uncancelled job; a live job that is not cancelled is the
  entry of its key; a registration is answered or waits on its own flight; no waiter is answered twice.
\<close>

definition answered :: "('s, 'r) coordinator \<Rightarrow> nat set" where
  "answered c = fst ` set (co_delivered c)"

definition entry_ok :: "('s, 'r) coordinator \<Rightarrow> string \<Rightarrow> pending_flight \<Rightarrow> bool" where
  "entry_ok c key pf \<longleftrightarrow>
    pf_waiters pf \<noteq> [] \<and> distinct (pf_waiters pf) \<and> (key, pf_generation pf) \<in> set (co_flights c)
    \<and> pf_generation pf \<notin> set (co_cancelled c)
    \<and> (\<forall>i \<in> set (pf_waiters pf). i \<notin> answered c
         \<and> \<lparr>wr_key = key, wr_generation = pf_generation pf, wr_id = i\<rparr> \<in> set (co_registrations c))"

definition waiting :: "('s, 'r) coordinator \<Rightarrow> waiter_registration \<Rightarrow> bool" where
  "waiting c reg \<longleftrightarrow>
    (case co_entries c (wr_key reg) of
       None \<Rightarrow> False
     | Some pf \<Rightarrow> pf_generation pf = wr_generation reg \<and> wr_id reg \<in> set (pf_waiters pf))"

definition flight_open :: "('s, 'r) coordinator \<Rightarrow> string \<times> nat \<Rightarrow> bool" where
  "flight_open c flight \<longleftrightarrow>
    (case co_entries c (fst flight) of None \<Rightarrow> False | Some pf \<Rightarrow> pf_generation pf = snd flight)"

definition table_inv :: "('s, 'r) coordinator \<Rightarrow> bool" where
  "table_inv c \<longleftrightarrow>
    (\<forall>key pf. co_entries c key = Some pf \<longrightarrow> entry_ok c key pf)
    \<and> distinct (map snd (co_flights c))
    \<and> (\<forall>flight \<in> set (co_flights c). snd flight \<le> co_next_id c
         \<and> (snd flight \<in> set (co_cancelled c) \<or> flight_open c flight))
    \<and> distinct (map wr_id (co_registrations c))
    \<and> (\<forall>reg \<in> set (co_registrations c). wr_id reg \<le> co_next_id c
         \<and> (wr_id reg \<in> answered c \<or> waiting c reg))
    \<and> distinct (map fst (co_delivered c))
    \<and> (\<forall>i \<in> answered c. i \<le> co_next_id c)
    \<and> (\<forall>g \<in> set (co_cancelled c). g \<le> co_next_id c)"

lemma table_inv_fields:
  assumes "table_inv c" "co_entries c' = co_entries c" "co_next_id c \<le> co_next_id c'"
    "co_cancelled c' = co_cancelled c" "co_registrations c' = co_registrations c"
    "co_flights c' = co_flights c" "co_delivered c' = co_delivered c"
  shows "table_inv c'"
proof -
  have "answered c' = answered c" "entry_ok c' = entry_ok c" "waiting c' = waiting c"
    "flight_open c' = flight_open c"
    using assms(2-) by (auto simp: answered_def entry_ok_def waiting_def flight_open_def fun_eq_iff)
  then show ?thesis
    using assms by (auto simp: table_inv_def dest: order_trans)
qed

lemma table_inv_entry:
  assumes "table_inv c" "co_entries c key = Some pf"
  shows "entry_ok c key pf"
  using assms by (simp add: table_inv_def)

lemma table_inv_flight:
  assumes "table_inv c" "f \<in> set (co_flights c)"
  shows "snd f \<in> set (co_cancelled c) \<or> flight_open c f"
  using assms by (simp add: table_inv_def)

lemma table_inv_registration:
  assumes "table_inv c" "reg \<in> set (co_registrations c)"
  shows "wr_id reg \<in> answered c \<or> waiting c reg"
  using assms by (simp add: table_inv_def)

lemma registration_unique:
  assumes "table_inv c" "a \<in> set (co_registrations c)" "b \<in> set (co_registrations c)" "wr_id a = wr_id b"
  shows "a = b"
  using assms by (auto simp: table_inv_def distinct_map inj_on_def)

lemma flight_unique:
  assumes "table_inv c" "(k, g) \<in> set (co_flights c)" "(k', g) \<in> set (co_flights c)"
  shows "k = k'"
  using assms by (simp add: table_inv_def distinct_map inj_on_def) (metis prod.inject snd_conv)

lemma table_inv_join:
  assumes inv: "table_inv c" and pf: "co_entries c key = Some pf" and n: "co_next_id c < i"
    and reg: "reg = \<lparr>wr_key = key, wr_generation = pf_generation pf, wr_id = i\<rparr>"
    and c': "co_entries c' = (co_entries c)(key \<mapsto> pf\<lparr>pf_waiters := i # pf_waiters pf\<rparr>)"
      "co_next_id c' = i" "co_cancelled c' = co_cancelled c" "co_registrations c' = reg # co_registrations c"
      "co_flights c' = co_flights c" "co_delivered c' = co_delivered c"
  shows "table_inv c'"
proof -
  have ans: "answered c' = answered c" using c' by (simp add: answered_def)
  have fresh: "i \<notin> answered c" "i \<notin> wr_id ` set (co_registrations c)"
    using inv n by (auto simp: table_inv_def)
  have own: "i \<notin> set (pf_waiters pf)"
    using table_inv_entry[OF inv pf] fresh(2) by (force simp: entry_ok_def)
  have entries: "entry_ok c' k p" if "co_entries c' k = Some p" for k p
  proof (cases "k = key")
    case True
    with that c'(1) have "p = pf\<lparr>pf_waiters := i # pf_waiters pf\<rparr>" by simp
    with True table_inv_entry[OF inv pf] fresh(1) own show ?thesis
      by (simp add: entry_ok_def ans c' reg)
  next
    case False
    with that c'(1) table_inv_entry[OF inv, of k p] show ?thesis
      by (simp add: entry_ok_def ans c')
  qed
  have open_kept: "flight_open c' f = flight_open c f" for f
    using pf c'(1) by (simp add: flight_open_def)
  have wait_kept: "waiting c r \<Longrightarrow> waiting c' r" for r
    using pf c'(1) by (auto simp: waiting_def split: option.splits)
  have "waiting c' reg" using c'(1) reg by (simp add: waiting_def)
  with entries fresh(2) inv n wait_kept show ?thesis
    by (fastforce simp: table_inv_def ans open_kept c' reg)
qed

lemma table_inv_start:
  assumes inv: "table_inv c" and free: "co_entries c key = None" and n: "co_next_id c < i" "i < g"
    and reg: "reg = \<lparr>wr_key = key, wr_generation = g, wr_id = i\<rparr>"
    and c': "co_entries c' = (co_entries c)(key \<mapsto> \<lparr>pf_generation = g, pf_waiters = [i]\<rparr>)"
      "co_next_id c' = g" "co_cancelled c' = co_cancelled c" "co_registrations c' = reg # co_registrations c"
      "co_flights c' = (key, g) # co_flights c" "co_delivered c' = co_delivered c"
  shows "table_inv c'"
proof -
  have ans: "answered c' = answered c" using c' by (simp add: answered_def)
  have fresh: "i \<notin> answered c" "i \<notin> wr_id ` set (co_registrations c)"
    "g \<notin> set (co_cancelled c)" "g \<notin> snd ` set (co_flights c)"
    using inv n by (auto simp: table_inv_def)
  have entries: "entry_ok c' k p" if "co_entries c' k = Some p" for k p
  proof (cases "k = key")
    case True
    with that c'(1) have "p = \<lparr>pf_generation = g, pf_waiters = [i]\<rparr>" by simp
    with True fresh show ?thesis by (simp add: entry_ok_def ans c' reg)
  next
    case False
    with that c'(1) table_inv_entry[OF inv, of k p] show ?thesis
      by (simp add: entry_ok_def ans c')
  qed
  have open_kept: "flight_open c f \<Longrightarrow> flight_open c' f" for f
    using free c'(1) by (auto simp: flight_open_def split: option.splits)
  have wait_kept: "waiting c r \<Longrightarrow> waiting c' r" for r
    using free c'(1) by (auto simp: waiting_def split: option.splits)
  have "waiting c' reg" "flight_open c' (key, g)"
    using c'(1) reg by (simp_all add: waiting_def flight_open_def)
  with entries fresh(2,4) inv n wait_kept open_kept show ?thesis
    by (fastforce simp: table_inv_def ans c' reg)
qed

lemma drop_last_waiter:
  assumes "table_inv c" "reg \<in> set (co_registrations c)" "r \<in> set (co_registrations c)" "r \<noteq> reg"
  shows "wr_id r \<noteq> wr_id reg"
  using registration_unique[OF assms(1,2,3)] assms(4) by auto

lemma set_remove1_ids:
  assumes "distinct (map wr_id regs)"
  shows "set (remove1 reg regs) = set regs - {reg}" "distinct (map wr_id (remove1 reg regs))"
  using assms by (simp_all add: distinct_map inj_on_def)

lemma detach_waiter_simps [simp]:
  "co_next_id (detach_waiter c reg) = co_next_id c" "co_registrations (detach_waiter c reg) = co_registrations c"
  "co_flights (detach_waiter c reg) = co_flights c" "co_delivered (detach_waiter c reg) = co_delivered c"
  "co_limits (detach_waiter c reg) = co_limits c" "co_jobs (detach_waiter c reg) = co_jobs c"
  "co_callers (detach_waiter c reg) = co_callers c" "co_admitted (detach_waiter c reg) = co_admitted c"
  "co_online (detach_waiter c reg) = co_online c" "co_leading (detach_waiter c reg) = co_leading c"
  "co_semaphore (detach_waiter c reg) = co_semaphore c"
  by (simp_all add: detach_waiter_def Let_def split: option.splits)

text \<open>A registration that no longer waits detaches nothing, whatever flight its key has now.\<close>

lemma detach_waiter_stale:
  assumes "table_inv c" "\<not> waiting c reg"
  shows "co_entries (detach_waiter c reg) = co_entries c" "co_cancelled (detach_waiter c reg) = co_cancelled c"
proof -
  have "filter (\<lambda>i. i \<noteq> wr_id reg) (pf_waiters pf) = pf_waiters pf" "pf_waiters pf \<noteq> []"
    if "co_entries c (wr_key reg) = Some pf" "pf_generation pf = wr_generation reg" for pf
    using that assms(2) table_inv_entry[OF assms(1) that(1)]
    by (auto simp: waiting_def entry_ok_def filter_id_conv)
  then show "co_entries (detach_waiter c reg) = co_entries c" "co_cancelled (detach_waiter c reg) = co_cancelled c"
    by (auto simp: detach_waiter_def Let_def split: option.splits)
qed

lemma table_inv_forget:
  assumes inv: "table_inv c" and reg: "reg \<in> set (co_registrations c)" and stale: "\<not> waiting c reg"
    and c': "co_entries c' = co_entries c" "co_next_id c' = co_next_id c" "co_cancelled c' = co_cancelled c"
      "co_registrations c' = remove1 reg (co_registrations c)" "co_flights c' = co_flights c"
      "co_delivered c' = co_delivered c"
  shows "table_inv c'"
proof -
  have regs: "set (co_registrations c') = set (co_registrations c) - {reg}" "distinct (map wr_id (co_registrations c'))"
    using inv set_remove1_ids[of "co_registrations c" reg] by (simp_all add: c' table_inv_def)
  have same: "answered c' = answered c" "waiting c' = waiting c" "flight_open c' = flight_open c"
    using c' by (auto simp: answered_def waiting_def flight_open_def fun_eq_iff)
  have "entry_ok c' k p" if "co_entries c k = Some p" for k p
    using table_inv_entry[OF inv that] stale that
    by (auto simp: entry_ok_def same c'(3,5) regs waiting_def)
  then show ?thesis
    using inv regs by (simp add: table_inv_def same c'(1-3,5,6))
qed

lemma table_inv_detach:
  assumes inv: "table_inv c" and reg: "reg \<in> set (co_registrations c)"
    and pf: "co_entries c (wr_key reg) = Some pf" "pf_generation pf = wr_generation reg"
    and ws: "ws = filter (\<lambda>i. i \<noteq> wr_id reg) (pf_waiters pf)"
    and c': "co_entries c' = (co_entries c)(wr_key reg := (if ws = [] then None else Some (pf\<lparr>pf_waiters := ws\<rparr>)))"
      "co_cancelled c' = (if ws = [] then wr_generation reg # co_cancelled c else co_cancelled c)"
      "co_next_id c' = co_next_id c" "co_registrations c' = remove1 reg (co_registrations c)"
      "co_flights c' = co_flights c" "co_delivered c' = co_delivered c"
  shows "table_inv c'"
proof -
  have regs: "set (co_registrations c') = set (co_registrations c) - {reg}" "distinct (map wr_id (co_registrations c'))"
    using inv set_remove1_ids[of "co_registrations c" reg] by (simp_all add: c' table_inv_def)
  have ans: "answered c' = answered c" by (simp add: answered_def c')
  have ok: "entry_ok c (wr_key reg) pf" by (rule table_inv_entry[OF inv pf(1)])
  have live: "(wr_key reg, wr_generation reg) \<in> set (co_flights c)"
    using ok pf(2) by (simp add: entry_ok_def)
  have entries: "entry_ok c' k p" if "co_entries c' k = Some p" for k p
  proof (cases "k = wr_key reg")
    case True
    with that c'(1) have "p = pf\<lparr>pf_waiters := ws\<rparr>" "ws \<noteq> []" by (auto split: if_splits)
    with True ok show ?thesis
      by (cases reg) (auto simp: entry_ok_def ans c'(2,5) regs ws)
  next
    case False
    with that c'(1) have p: "co_entries c k = Some p" by simp
    have "pf_generation p \<noteq> wr_generation reg"
      using table_inv_entry[OF inv p] live flight_unique[OF inv, of k _ "wr_key reg"] False
      by (auto simp: entry_ok_def)
    with table_inv_entry[OF inv p] False show ?thesis
      by (auto simp: entry_ok_def ans c'(2,5) regs)
  qed
  have flights: "snd f \<in> set (co_cancelled c') \<or> flight_open c' f" if "f \<in> set (co_flights c)" for f
  proof -
    from table_inv_flight[OF inv that] show ?thesis using pf by (auto simp: flight_open_def c'(1,2))
  qed
  have waits: "waiting c' r" if "r \<in> set (co_registrations c')" "waiting c r" for r
  proof (cases "wr_key r = wr_key reg")
    case True
    with that(2) pf have r: "pf_generation pf = wr_generation r" "wr_id r \<in> set (pf_waiters pf)"
      by (simp_all add: waiting_def)
    have "wr_id r \<noteq> wr_id reg" using that(1) drop_last_waiter[OF inv reg] regs(1) by blast
    with r(2) have "wr_id r \<in> set ws" by (simp add: ws)
    then have "ws \<noteq> []" by auto
    with True r(1) \<open>wr_id r \<in> set ws\<close> show ?thesis by (simp add: waiting_def c'(1))
  qed (use that(2) in \<open>simp add: waiting_def c'(1)\<close>)
  show ?thesis
    using inv entries flights waits regs live
    by (auto simp: table_inv_def ans c'(2,3,5,6))
qed

lemma table_inv_drop:
  assumes "table_inv c" "reg \<in> set (co_registrations c)"
  shows "table_inv (drop_registration S c reg)"
proof (cases "\<exists>pf. co_entries c (wr_key reg) = Some pf \<and> pf_generation pf = wr_generation reg")
  case True
  then obtain pf where pf: "co_entries c (wr_key reg) = Some pf" "pf_generation pf = wr_generation reg" by blast
  show ?thesis
    by (rule table_inv_detach[OF assms pf refl])
      (simp_all add: drop_registration_def release_caller_def detach_waiter_def pf Let_def)
next
  case False
  then have stale: "\<not> waiting c reg" by (auto simp: waiting_def split: option.splits)
  show ?thesis
    by (rule table_inv_forget[OF assms stale])
      (simp_all add: drop_registration_def release_caller_def detach_waiter_stale[OF assms(1) stale])
qed

text \<open>The end of a job, whatever its result.\<close>

lemma take_waiters_cases:
  assumes "take_waiters c key g = (c', ws)"
  obtains (owned) pf where "co_entries c key = Some pf" "pf_generation pf = g" "ws = pf_waiters pf"
      "c' = c\<lparr>co_entries := (co_entries c)(key := None)\<rparr>"
    | (detached) "\<not> flight_open c (key, g)" "ws = []" "c' = c"
  using assms by (auto simp: take_waiters_def flight_open_def split: option.splits if_splits)

lemma set_remove1_flights:
  assumes "distinct (map snd fs)"
  shows "set (remove1 f fs) = set fs - {f}" "distinct (map snd (remove1 f fs))"
  using assms by (simp_all add: distinct_map inj_on_def)

lemma table_inv_end_detached:
  assumes inv: "table_inv c" and free: "\<not> flight_open c f"
    and c': "co_entries c' = co_entries c" "co_cancelled c' = co_cancelled c"
      "co_next_id c' = co_next_id c" "co_registrations c' = co_registrations c"
      "co_flights c' = remove1 f (co_flights c)" "co_delivered c' = co_delivered c"
  shows "table_inv c'"
proof -
  have fs: "set (co_flights c') = set (co_flights c) - {f}" "distinct (map snd (co_flights c'))"
    using inv set_remove1_flights[of "co_flights c" f] by (simp_all add: c' table_inv_def)
  have same: "answered c' = answered c" "waiting c' = waiting c" "flight_open c' = flight_open c"
    using c' by (auto simp: answered_def waiting_def flight_open_def fun_eq_iff)
  have "entry_ok c' k p" if "co_entries c k = Some p" for k p
    using table_inv_entry[OF inv that] free that
    by (auto simp: entry_ok_def same c'(2,4) fs flight_open_def)
  then show ?thesis
    using inv fs by (simp add: table_inv_def same c'(1-4,6))
qed

lemma table_inv_end_owned:
  assumes inv: "table_inv c" and pf: "co_entries c key = Some pf" "pf_generation pf = g"
    and c': "co_entries c' = (co_entries c)(key := None)" "co_cancelled c' = co_cancelled c"
      "co_next_id c' = co_next_id c" "co_registrations c' = co_registrations c"
      "co_flights c' = remove1 (key, g) (co_flights c)"
      "co_delivered c' = map (\<lambda>i. (i, r)) (pf_waiters pf) @ co_delivered c"
  shows "table_inv c'"
proof -
  have fs: "set (co_flights c') = set (co_flights c) - {(key, g)}" "distinct (map snd (co_flights c'))"
    using inv set_remove1_flights[of "co_flights c" "(key, g)"] by (simp_all add: c' table_inv_def)
  have ans: "answered c' = answered c \<union> set (pf_waiters pf)" by (force simp: answered_def c'(6))
  have ok: "entry_ok c key pf" by (rule table_inv_entry[OF inv pf(1)])
  have entries: "entry_ok c' k p" if "co_entries c' k = Some p" for k p
  proof -
    from that c'(1) have k: "k \<noteq> key" "co_entries c k = Some p" by (auto split: if_splits)
    note p = table_inv_entry[OF inv k(2)]
    have "i \<notin> set (pf_waiters pf)" if "i \<in> set (pf_waiters p)" for i
      using that p ok k(1) registration_unique[OF inv] by (fastforce simp: entry_ok_def)
    with p k(1) show ?thesis
      by (auto simp: entry_ok_def ans c'(2,4) fs)
  qed
  have flights: "snd f \<in> set (co_cancelled c) \<or> flight_open c' f" if "f \<in> set (co_flights c')" for f
  proof (cases "fst f = key")
    case True
    have "f \<noteq> (key, g)" "f \<in> set (co_flights c)" using that fs(1) by simp_all
    then have "snd f \<noteq> g" using True by (metis prod.collapse)
    with True pf have "\<not> flight_open c f" by (simp add: flight_open_def)
    with table_inv_flight[OF inv \<open>f \<in> set (co_flights c)\<close>] show ?thesis by simp
  next
    case False
    then have "flight_open c' f = flight_open c f" by (simp add: flight_open_def c'(1))
    with table_inv_flight[OF inv, of f] that fs(1) show ?thesis by simp
  qed
  have waits: "wr_id reg \<in> answered c' \<or> waiting c' reg" if "reg \<in> set (co_registrations c)" for reg
  proof (cases "wr_key reg = key")
    case True
    then have "waiting c reg \<Longrightarrow> wr_id reg \<in> answered c'" using pf by (simp add: waiting_def ans)
    with table_inv_registration[OF inv that] ans show ?thesis by auto
  next
    case False
    then have "waiting c' reg = waiting c reg" by (simp add: waiting_def c'(1))
    with table_inv_registration[OF inv that] ans show ?thesis by auto
  qed
  have ids: "i \<le> co_next_id c" if "i \<in> set (pf_waiters pf)" for i
    using that ok inv by (fastforce simp: entry_ok_def table_inv_def)
  have "distinct (map fst (co_delivered c'))"
    using ok inv by (auto simp: c'(6) comp_def entry_ok_def answered_def table_inv_def)
  with inv entries flights waits fs ids show ?thesis
    by (simp add: table_inv_def ans c'(2-4)) blast
qed

lemma table_inv_complete:
  assumes "table_inv c" "f \<in> set (co_flights c)"
  shows "table_inv (job_complete S c f r)"
proof -
  obtain c1 ws where t: "take_waiters c (fst f) (snd f) = (c1, ws)" by (rule prod.exhaust)
  then show ?thesis
  proof (cases rule: take_waiters_cases)
    case (owned pf)
    show ?thesis
      by (rule table_inv_end_owned[OF assms(1) owned(1,2), where r = r])
        (use owned in \<open>simp_all add: job_complete_def t release_job_def\<close>)
  next
    case detached
    show ?thesis
      by (rule table_inv_end_detached[OF assms(1), of f])
        (use detached in \<open>simp_all add: job_complete_def t release_job_def\<close>)
  qed
qed

section \<open>Permits\<close>

definition permits_inv :: "'s semaphore_ops \<Rightarrow> nat \<Rightarrow> ('s, 'r) coordinator \<Rightarrow> bool" where
  "permits_inv S conc c \<longleftrightarrow>
    available_permits S (co_jobs c) + length (co_flights c) + co_online c = max_pending_jobs (co_limits c)
    \<and> available_permits S (co_callers c) + co_admitted c + co_online c + length (co_registrations c)
        = max_active_callers (co_limits c)
    \<and> available_permits S (co_semaphore c) + length (co_leading c) = conc"

lemma acquire_job_cases:
  assumes S: "semaphore_laws S" and a: "acquire_job S c = (c', r)"
  obtains (ok) l g where "r = Inr ()" "c' = c\<lparr>co_jobs := l, process_jobs := g\<rparr>"
      "available_permits S (co_jobs c) = available_permits S l + 1"
    | (failed) l g where "r = Inl count_limit" "c' = c\<lparr>co_jobs := l, process_jobs := g\<rparr>"
      "available_permits S l = available_permits S (co_jobs c)"
proof -
  obtain l g q where p: "acquire_pair S count_limit (co_jobs c) (process_jobs c) 1 = (l, g, q)"
    by (metis prod.exhaust)
  from S p show thesis
  proof (cases rule: acquire_pair_cases)
    case ok
    with a p show ?thesis by (intro that(1)[where l = l and g = g]) (auto simp: acquire_job_def CountAdmission_acquire_def)
  next
    case failed
    with a p show ?thesis by (intro that(2)[where l = l and g = g]) (auto simp: acquire_job_def CountAdmission_acquire_def)
  qed
qed

lemma acquire_caller_cases:
  assumes S: "semaphore_laws S" and a: "acquire_caller S c = (c', r)"
  obtains (ok) l g where "r = Inr ()" "c' = c\<lparr>co_callers := l, process_callers := g, co_admitted := co_admitted c + 1\<rparr>"
      "available_permits S (co_callers c) = available_permits S l + 1"
    | (failed) l g where "r = Inl count_limit" "c' = c\<lparr>co_callers := l, process_callers := g\<rparr>"
      "available_permits S l = available_permits S (co_callers c)"
proof -
  obtain l g q where p: "acquire_pair S count_limit (co_callers c) (process_callers c) 1 = (l, g, q)"
    by (metis prod.exhaust)
  from S p show thesis
  proof (cases rule: acquire_pair_cases)
    case ok
    with a p show ?thesis by (intro that(1)[where l = l and g = g]) (auto simp: acquire_caller_def CountAdmission_acquire_def)
  next
    case failed
    with a p show ?thesis by (intro that(2)[where l = l and g = g]) (auto simp: acquire_caller_def CountAdmission_acquire_def)
  qed
qed

lemma fresh_id_cases:
  assumes "fresh_id c = (c', r)"
  obtains (ok) n where "n = co_next_id c + 1" "r = Inr n" "c' = c\<lparr>co_next_id := n\<rparr>"
    | (exhausted) e where "r = Inl e" "c' = c"
proof (cases "co_next_id c + 1 \<le> u64_MAX")
  case True
  with assms show ?thesis by (intro ok[of "co_next_id c + 1"]) (simp_all add: fresh_id_def checked_add_def)
next
  case False
  with assms show ?thesis
    by (intro exhausted[of "SnapshotError_new Internal ''fetch identity space exhausted''"])
      (simp_all add: fresh_id_def checked_add_def)
qed

lemma permits_leave:
  assumes "semaphore_laws S" "permits_inv S conc c" "0 < co_admitted c"
  shows "permits_inv S conc (leave_admitted S c)"
  using assms by (simp add: permits_inv_def leave_admitted_def release_caller_def semaphore_lawsD(5))

lemma table_leave: "table_inv c \<Longrightarrow> table_inv (leave_admitted S c)"
  by (erule table_inv_fields) (simp_all add: leave_admitted_def release_caller_def)

lemma start_flight_inv:
  assumes S: "semaphore_laws S" and inv: "table_inv c0" "permits_inv S conc c0" and a: "0 < co_admitted c0"
    and free: "co_entries c0 key = None" and c: "c = c0\<lparr>co_next_id := i\<rparr>" "co_next_id c0 < i"
    and s: "start_flight S c key i = (c', r)"
  shows "table_inv c' \<and> permits_inv S conc c'"
proof -
  have table: "table_inv c1 \<Longrightarrow> table_inv (c1\<lparr>co_jobs := l, process_jobs := g\<rparr>)" for c1 :: "('a, 'b) coordinator" and l g
    by (erule table_inv_fields) simp_all
  have c_inv: "table_inv c" "permits_inv S conc c" "0 < co_admitted c"
    by (rule table_inv_fields[OF inv(1)]) (use inv(2) a c in \<open>simp_all add: permits_inv_def\<close>)
  obtain c1 q where j: "acquire_job S c = (c1, q)" by (rule prod.exhaust)
  from S j show ?thesis
  proof (cases rule: acquire_job_cases)
    case (failed l g)
    with s j have "c' = leave_admitted S c1" by (simp add: start_flight_def)
    moreover have "permits_inv S conc c1" "0 < co_admitted c1"
      using failed c_inv by (simp_all add: permits_inv_def)
    moreover have "table_inv c1" using table[OF c_inv(1)] failed(2) by simp
    ultimately show ?thesis using table_leave permits_leave[OF S] by blast
  next
    case (ok l g)
    obtain c2 t where f: "fresh_id c1 = (c2, t)" by (rule prod.exhaust)
    then show ?thesis
    proof (cases rule: fresh_id_cases)
      case (exhausted e)
      with s j f ok have c': "c' = leave_admitted S (release_job S c1)" by (simp add: start_flight_def)
      have "permits_inv S conc (release_job S c1)" "0 < co_admitted (release_job S c1)"
        using ok c_inv S by (simp_all add: permits_inv_def release_job_def semaphore_lawsD(5))
      moreover have "table_inv (release_job S c1)"
        using table[OF table[OF c_inv(1)]] ok(2) by (simp add: release_job_def)
      ultimately show ?thesis using c' table_leave permits_leave[OF S] by blast
    next
      case (ok n)
      let ?reg = "\<lparr>wr_key = key, wr_generation = n, wr_id = i\<rparr>"
      have c': "c' = c1\<lparr>co_next_id := n, co_entries := (co_entries c0)(key \<mapsto> \<lparr>pf_generation = n, pf_waiters = [i]\<rparr>),
          co_admitted := co_admitted c0 - 1, co_registrations := ?reg # co_registrations c0,
          co_flights := (key, n) # co_flights c0\<rparr>"
        using s j f ok \<open>q = Inr ()\<close> \<open>c1 = _\<close> c by (simp add: start_flight_def Let_def)
      have "table_inv c'"
        by (rule table_inv_start[OF inv(1) free c(2), of n ?reg])
          (use c' ok(1) \<open>c1 = _\<close> c in simp_all)
      moreover have "permits_inv S conc c'"
        using c' inv(2) a c \<open>c1 = _\<close> \<open>available_permits S (co_jobs c) = _\<close>
        by (simp add: permits_inv_def)
      ultimately show ?thesis ..
    qed
  qed
qed

lemma register_inv:
  assumes S: "semaphore_laws S" and inv: "table_inv c" "permits_inv S conc c" and a: "0 < co_admitted c"
    and r: "register S c key = (c', r)"
  shows "table_inv c' \<and> permits_inv S conc c'"
proof -
  obtain c1 t where f: "fresh_id c = (c1, t)" by (rule prod.exhaust)
  then show ?thesis
  proof (cases rule: fresh_id_cases)
    case (exhausted e)
    with r f have "c' = leave_admitted S c" by (simp add: register_def)
    then show ?thesis using table_leave[OF inv(1)] permits_leave[OF S inv(2) a] by simp
  next
    case (ok i)
    show ?thesis
    proof (cases "co_entries c key")
      case None
      with r f ok have "start_flight S c1 key i = (c', r)" by (simp add: register_def)
      from start_flight_inv[OF S inv a None ok(3) _ this] ok(1) show ?thesis by simp
    next
      case (Some pf)
      let ?reg = "\<lparr>wr_key = key, wr_generation = pf_generation pf, wr_id = i\<rparr>"
      have c': "c' = c\<lparr>co_next_id := i, co_entries := (co_entries c)(key \<mapsto> pf\<lparr>pf_waiters := i # pf_waiters pf\<rparr>),
          co_admitted := co_admitted c - 1, co_registrations := ?reg # co_registrations c\<rparr>"
        using r f ok Some by (simp add: register_def Let_def)
      have "table_inv c'"
        by (rule table_inv_join[OF inv(1) Some, of i ?reg]) (use c' ok(1) in simp_all)
      moreover have "permits_inv S conc c'" using c' inv(2) a by (simp add: permits_inv_def)
      ultimately show ?thesis ..
    qed
  qed
qed

lemma online_enter_inv:
  assumes S: "semaphore_laws S" and inv: "table_inv c" "permits_inv S conc c" and a: "0 < co_admitted c"
    and r: "online_enter S c = (c', r)"
  shows "table_inv c' \<and> permits_inv S conc c'"
proof -
  obtain c1 q where j: "acquire_job S c = (c1, q)" by (rule prod.exhaust)
  from S j show ?thesis
  proof (cases rule: acquire_job_cases)
    case (ok l g)
    with r j have c': "c' = c1\<lparr>co_admitted := co_admitted c - 1, co_online := co_online c + 1\<rparr>"
      by (simp add: online_enter_def)
    have "table_inv c'" by (rule table_inv_fields[OF inv(1)]) (simp_all add: c' ok(2))
    moreover have "permits_inv S conc c'" using c' ok(2,3) inv(2) a by (simp add: permits_inv_def)
    ultimately show ?thesis ..
  next
    case (failed l g)
    with r j have "c' = leave_admitted S c1" by (simp add: online_enter_def)
    moreover have "table_inv c1" by (rule table_inv_fields[OF inv(1)]) (simp_all add: failed(2))
    moreover have "permits_inv S conc c1" "0 < co_admitted c1"
      using failed(2,3) inv(2) a by (simp_all add: permits_inv_def)
    ultimately show ?thesis using table_leave permits_leave[OF S] by blast
  qed
qed

lemma length_remove1_Suc:
  assumes "x \<in> set xs"
  shows "length xs = Suc (length (remove1 x xs))"
proof -
  have "0 < length xs" using assms by auto
  with assms show ?thesis by (simp add: length_remove1)
qed

lemma permits_drop:
  assumes "semaphore_laws S" "permits_inv S conc c" "reg \<in> set (co_registrations c)"
  shows "permits_inv S conc (drop_registration S c reg)"
  using assms(1,2) length_remove1_Suc[OF assms(3)]
  by (simp add: permits_inv_def drop_registration_def release_caller_def semaphore_lawsD(5))

lemma take_waiters_fields:
  assumes "take_waiters c key g = (c', ws)"
  shows "c' = c\<lparr>co_entries := co_entries c'\<rparr>"
  using assms by (auto elim: take_waiters_cases)

lemma permits_complete:
  assumes "semaphore_laws S" "permits_inv S conc c" "f \<in> set (co_flights c)"
  shows "permits_inv S conc (job_complete S c f r)"
proof -
  obtain c1 ws where t: "take_waiters c (fst f) (snd f) = (c1, ws)" by (rule prod.exhaust)
  then obtain m where c1: "c1 = c\<lparr>co_entries := m\<rparr>" using take_waiters_fields by blast
  show ?thesis
    using assms(1,2) length_remove1_Suc[OF assms(3)]
    by (simp add: permits_inv_def job_complete_def t c1 release_job_def semaphore_lawsD(5))
qed

lemma permits_lead:
  assumes S: "semaphore_laws S" and inv: "permits_inv S conc c"
  shows "lead_enter S c f = Some c' \<Longrightarrow> permits_inv S conc c'"
    and "f \<in> set (co_leading c) \<Longrightarrow> permits_inv S conc (lead_leave S c f)"
proof -
  show "permits_inv S conc c'" if "lead_enter S c f = Some c'"
    using that inv semaphore_lawsD(3,4)[OF S, of "co_semaphore c" 1]
    by (auto simp: lead_enter_def permits_inv_def)
  show "permits_inv S conc (lead_leave S c f)" if "f \<in> set (co_leading c)"
    using inv S length_remove1_Suc[OF that]
    by (simp add: lead_leave_def permits_inv_def semaphore_lawsD(5))
qed

lemma co_step_inv:
  assumes "co_step S c c'" and S: "semaphore_laws S" and inv: "table_inv c" "permits_inv S conc c"
  shows "table_inv c' \<and> permits_inv S conc c'"
  using assms(1)
proof cases
  case (admit r)
  with S show ?thesis
  proof (cases rule: acquire_caller_cases)
    case (ok l g)
    have "table_inv c'" by (rule table_inv_fields[OF inv(1)]) (simp_all add: ok(2))
    with ok(2,3) inv(2) show ?thesis by (simp add: permits_inv_def)
  next
    case (failed l g)
    have "table_inv c'" by (rule table_inv_fields[OF inv(1)]) (simp_all add: failed(2))
    with failed(2,3) inv(2) show ?thesis by (simp add: permits_inv_def)
  qed
next
  case leave
  then show ?thesis using table_leave[OF inv(1)] permits_leave[OF S inv(2)] by simp
next
  case (online r)
  then show ?thesis using online_enter_inv[OF S inv] by blast
next
  case online_end
  have "table_inv c'"
    by (rule table_inv_fields[OF inv(1)]) (simp_all add: online_end(1) online_leave_def release_caller_def release_job_def)
  with online_end inv(2) S show ?thesis
    by (simp add: permits_inv_def online_leave_def release_caller_def release_job_def semaphore_lawsD(5))
next
  case (join key r)
  then show ?thesis using register_inv[OF S inv] by blast
next
  case (drop reg)
  then show ?thesis using table_inv_drop[OF inv(1)] permits_drop[OF S inv(2)] by simp
next
  case (complete flight result)
  then show ?thesis using table_inv_complete[OF inv(1)] permits_complete[OF S inv(2)] by simp
next
  case (lead flight)
  have "table_inv c'"
    by (rule table_inv_fields[OF inv(1)]) (use lead in \<open>auto simp: lead_enter_def\<close>)
  with permits_lead(1)[OF S inv(2) lead] show ?thesis by blast
next
  case (lead_end flight)
  have "table_inv c'"
    by (rule table_inv_fields[OF inv(1)]) (use lead_end in \<open>auto simp: lead_leave_def\<close>)
  with permits_lead(2)[OF S inv(2) lead_end(2)] lead_end(1) show ?thesis by simp
next
  case (others j k)
  have "table_inv c'" by (rule table_inv_fields[OF inv(1)]) (simp_all add: others)
  with others inv(2) show ?thesis by (simp add: permits_inv_def)
qed

lemma coordinator_new_inv:
  assumes "semaphore_laws S"
  shows "table_inv (coordinator_new S limits mc pj pc)"
    "permits_inv S (min (max mc 1) (max_pending_jobs limits)) (coordinator_new S limits mc pj pc)"
  using assms by (simp_all add: table_inv_def permits_inv_def coordinator_new_def answered_def semaphore_lawsD(1))

lemma co_step_limits: "co_step S c c' \<Longrightarrow> co_limits c' = co_limits c"
  by (erule co_step.cases)
    (auto simp: acquire_caller_def leave_admitted_def release_caller_def online_enter_def acquire_job_def
      online_leave_def release_job_def register_def fresh_id_def start_flight_def Let_def drop_registration_def
      job_complete_def take_waiters_def lead_enter_def lead_leave_def split: prod.splits sum.splits option.splits if_splits)

lemma co_reachable_inv:
  assumes "co_reachable S (coordinator_new S limits mc pj pc) c" "semaphore_laws S"
  shows "table_inv c \<and> permits_inv S (min (max mc 1) (max_pending_jobs limits)) c \<and> co_limits c = limits"
  using assms(1)
proof induction
  case init
  have "co_limits (coordinator_new S limits mc pj pc) = limits" by (simp add: coordinator_new_def)
  then show ?case using coordinator_new_inv[OF assms(2)] by blast
next
  case (step c c')
  then show ?case using co_step_inv[OF step(2) assms(2)] co_step_limits[OF step(2)] by metis
qed

lemma job_complete_cases:
  assumes "c' = job_complete S c (key, g) r"
  obtains (owned) pf where "co_entries c key = Some pf" "pf_generation pf = g"
      "co_entries c' = (co_entries c)(key := None)"
      "co_delivered c' = map (\<lambda>i. (i, r)) (pf_waiters pf) @ co_delivered c"
    | (detached) "\<not> flight_open c (key, g)" "co_entries c' = co_entries c" "co_delivered c' = co_delivered c"
proof -
  obtain c1 ws where t: "take_waiters c key g = (c1, ws)" by (rule prod.exhaust)
  then show thesis
  proof (cases rule: take_waiters_cases)
    case (owned pf)
    then show ?thesis by (intro that(1)) (simp_all add: assms job_complete_def t release_job_def)
  next
    case detached
    then show ?thesis by (intro that(2)) (simp_all add: assms job_complete_def t release_job_def)
  qed
qed

lemma job_complete_flights:
  assumes "table_inv c"
  shows "set (co_flights (job_complete S c f r)) = set (co_flights c) - {f}"
    "set (co_delivered c) \<subseteq> set (co_delivered (job_complete S c f r))"
proof -
  obtain c1 ws where t: "take_waiters c (fst f) (snd f) = (c1, ws)" by (rule prod.exhaust)
  obtain m where c1: "c1 = c\<lparr>co_entries := m\<rparr>" using take_waiters_fields[OF t] by blast
  show "set (co_flights (job_complete S c f r)) = set (co_flights c) - {f}"
    "set (co_delivered c) \<subseteq> set (co_delivered (job_complete S c f r))"
    using assms set_remove1_flights(1)[of "co_flights c" f]
    by (simp_all add: job_complete_def t c1 release_job_def table_inv_def)
qed

lemma waiter_of_entry:
  assumes "table_inv c" "reg \<in> set (co_registrations c)" "co_entries c key = Some pf" "wr_id reg \<in> set (pf_waiters pf)"
  shows "wr_key reg = key \<and> wr_generation reg = pf_generation pf"
proof -
  have "\<lparr>wr_key = key, wr_generation = pf_generation pf, wr_id = wr_id reg\<rparr> \<in> set (co_registrations c)"
    using table_inv_entry[OF assms(1,3)] assms(4) by (simp add: entry_ok_def)
  from registration_unique[OF assms(1) this assms(2)] show ?thesis by (cases reg) simp
qed

lemma job_complete_waiter:
  assumes inv: "table_inv c" and reg: "reg \<in> set (co_registrations c)" "wr_id reg \<notin> answered c"
    and c': "c' = job_complete S c (key, g) r"
  shows "if wr_key reg = key \<and> wr_generation reg = g then (wr_id reg, r) \<in> set (co_delivered c')
         else waiting c' reg \<and> wr_id reg \<notin> answered c'"
proof -
  have w: "waiting c reg" using table_inv_registration[OF inv reg(1)] reg(2) by simp
  from c' show ?thesis
  proof (cases rule: job_complete_cases)
    case (owned pf)
    have ans: "answered c' = answered c \<union> set (pf_waiters pf)" by (force simp: answered_def owned(4))
    show ?thesis
    proof (cases "wr_key reg = key \<and> wr_generation reg = g")
      case True
      with w owned(1) show ?thesis by (auto simp: waiting_def owned(4))
    next
      case False
      with w owned(1,2) have "wr_key reg \<noteq> key" by (auto simp: waiting_def)
      with w waiter_of_entry[OF inv reg(1) owned(1)] reg(2) show ?thesis
        by (auto simp: ans waiting_def owned(3))
    qed
  next
    case detached
    then have "answered c' = answered c" "waiting c' reg" using w by (simp_all add: answered_def waiting_def)
    moreover have "\<not> (wr_key reg = key \<and> wr_generation reg = g)"
      using detached(1) w by (auto simp: waiting_def flight_open_def split: option.splits)
    ultimately show ?thesis using reg(2) by auto
  qed
qed

section \<open>Properties\<close>

text \<open>C5: In every reachable state at most one uncancelled fetch job runs per content key; a
  registered caller that has no result yet has such a job running for its key and generation; and the
  entry of a key always has a caller that waits for it.\<close>

theorem fetch_single_flight:
  assumes "co_reachable S (coordinator_new S limits mc pj pc) c" "semaphore_laws S"
  shows "(\<forall>key g h. (key, g) \<in> set (co_flights c) \<and> (key, h) \<in> set (co_flights c)
        \<and> g \<notin> set (co_cancelled c) \<and> h \<notin> set (co_cancelled c) \<longrightarrow> g = h)
    \<and> (\<forall>reg \<in> set (co_registrations c). wr_id reg \<notin> answered c \<longrightarrow>
        (wr_key reg, wr_generation reg) \<in> set (co_flights c) \<and> wr_generation reg \<notin> set (co_cancelled c))
    \<and> (\<forall>key pf. co_entries c key = Some pf \<longrightarrow>
        (\<exists>reg \<in> set (co_registrations c). wr_key reg = key \<and> wr_id reg \<notin> answered c))"
proof (intro conjI allI ballI impI)
  have inv: "table_inv c" using co_reachable_inv[OF assms] by simp
  show "g = h" if "(key, g) \<in> set (co_flights c) \<and> (key, h) \<in> set (co_flights c)
      \<and> g \<notin> set (co_cancelled c) \<and> h \<notin> set (co_cancelled c)" for key g h
    using that table_inv_flight[OF inv, of "(key, g)"] table_inv_flight[OF inv, of "(key, h)"]
    by (simp add: flight_open_def split: option.splits)
  show "(wr_key reg, wr_generation reg) \<in> set (co_flights c)" "wr_generation reg \<notin> set (co_cancelled c)"
    if "reg \<in> set (co_registrations c)" "wr_id reg \<notin> answered c" for reg
    using table_inv_registration[OF inv that(1)] that(2) table_inv_entry[OF inv, of "wr_key reg"]
    by (auto simp: waiting_def entry_ok_def split: option.splits)
  show "\<exists>reg \<in> set (co_registrations c). wr_key reg = key \<and> wr_id reg \<notin> answered c"
    if "co_entries c key = Some pf" for key pf
    using table_inv_entry[OF inv that]
    by (cases "pf_waiters pf") (force simp: entry_ok_def)+
qed

definition demo_coordinator :: "(nat, nat) coordinator" where
  "demo_coordinator = coordinator_new counting_semaphore FetchCoordinatorLimits_default 4 256 1024"

definition demo_admit :: "(nat, nat) coordinator \<Rightarrow> (nat, nat) coordinator" where
  "demo_admit c = fst (acquire_caller counting_semaphore c)"

definition demo_register :: "(nat, nat) coordinator \<Rightarrow> (nat, nat) coordinator" where
  "demo_register c = fst (register counting_semaphore c ''k'')"

definition demo_joined :: "(nat, nat) coordinator" where
  "demo_joined = demo_register (demo_register (demo_admit (demo_admit demo_coordinator)))"

lemma demo_joined_eq:
  "co_registrations demo_joined =
     [\<lparr>wr_key = ''k'', wr_generation = 2, wr_id = 3\<rparr>, \<lparr>wr_key = ''k'', wr_generation = 2, wr_id = 1\<rparr>]"
  "co_flights demo_joined = [(''k'', 2)]" "co_delivered demo_joined = []"
  "co_entries demo_joined ''k'' = Some \<lparr>pf_generation = 2, pf_waiters = [3, 1]\<rparr>"
  by code_simp+

lemma demo_joined_reachable: "co_reachable counting_semaphore demo_coordinator demo_joined"
proof -
  let ?a = "demo_admit (demo_admit demo_coordinator)"
  have "co_step counting_semaphore c (demo_admit c)" for c
    by (rule co_step.admit[where r = "snd (acquire_caller counting_semaphore c)"]) (simp add: demo_admit_def)
  then have a: "co_reachable counting_semaphore demo_coordinator ?a"
    by (blast intro: co_reachable.intros)
  have r: "co_step counting_semaphore c (demo_register c)" if "0 < co_admitted c" for c
    using that by (rule co_step.join[where r = "snd (register counting_semaphore c ''k'')"]) (simp add: demo_register_def)
  have "0 < co_admitted ?a" "0 < co_admitted (demo_register ?a)" by code_simp+
  then show ?thesis
    unfolding demo_joined_def using a r by (blast intro: co_reachable.intros)
qed

theorem fetch_single_flight_witness:
  "(''k'', 2) \<in> set (co_flights demo_joined) \<and> 2 \<notin> set (co_cancelled demo_joined)"
  using fetch_single_flight[OF demo_joined_reachable[unfolded demo_coordinator_def] counting_semaphore_laws]
  by (simp add: demo_joined_eq answered_def)

text \<open>C22: The end of a job, with any result, gives that result to exactly the registered callers
  that waited for this job, and to each caller only once; the job is then gone, and every other waiting
  caller still waits.  A caller that is dropped never changes the flight of another generation.\<close>

theorem fetch_result_delivery:
  assumes "co_reachable S (coordinator_new S limits mc pj pc) c" "semaphore_laws S"
    and "(key, g) \<in> set (co_flights c)" "c' = job_complete S c (key, g) r"
  shows "(\<forall>reg \<in> set (co_registrations c). wr_id reg \<notin> answered c \<longrightarrow>
        (if wr_key reg = key \<and> wr_generation reg = g then (wr_id reg, r) \<in> set (co_delivered c')
         else waiting c' reg \<and> wr_id reg \<notin> answered c'))
    \<and> distinct (map fst (co_delivered c')) \<and> set (co_delivered c) \<subseteq> set (co_delivered c')
    \<and> (key, g) \<notin> set (co_flights c')
    \<and> (\<forall>reg \<in> set (co_registrations c). \<forall>k pf. co_entries c k = Some pf \<and> pf_generation pf \<noteq> wr_generation reg
        \<longrightarrow> co_entries (drop_registration S c reg) k = Some pf)"
proof (intro conjI ballI impI allI)
  have inv: "table_inv c" using co_reachable_inv[OF assms(1,2)] by simp
  show "distinct (map fst (co_delivered c'))"
    using table_inv_complete[OF inv assms(3)] assms(4) by (simp add: table_inv_def)
  show "set (co_delivered c) \<subseteq> set (co_delivered c')" "(key, g) \<notin> set (co_flights c')"
    using job_complete_flights[OF inv] assms(4) by simp_all
  show "if wr_key reg = key \<and> wr_generation reg = g then (wr_id reg, r) \<in> set (co_delivered c')
         else waiting c' reg \<and> wr_id reg \<notin> answered c'"
    if "reg \<in> set (co_registrations c)" "wr_id reg \<notin> answered c" for reg
    by (rule job_complete_waiter[OF inv that assms(4)])
  show "co_entries (drop_registration S c reg) k = Some pf"
    if "reg \<in> set (co_registrations c)" "co_entries c k = Some pf \<and> pf_generation pf \<noteq> wr_generation reg" for reg k pf
    using that by (auto simp: drop_registration_def release_caller_def detach_waiter_def Let_def split: option.splits)
qed

theorem fetch_result_delivery_witness:
  "(1, Inr 7) \<in> set (co_delivered (job_complete counting_semaphore demo_joined (''k'', 2) (Inr 7)))
    \<and> (3, Inr 7) \<in> set (co_delivered (job_complete counting_semaphore demo_joined (''k'', 2) (Inr 7)))"
  using fetch_result_delivery[OF demo_joined_reachable[unfolded demo_coordinator_def] counting_semaphore_laws _ refl,
      of "''k''" 2 "Inr 7"]
  by (simp add: demo_joined_eq answered_def)



lemma append_colon_digits:
  assumes "a @ '':'' @ show_nat m = b @ '':'' @ show_nat n"
  shows "a = b \<and> m = n"
proof -
  have no: "CHR '':'' \<notin> set (show_nat k)" for k
    using show_nat_digits[of k] by (auto simp: list_all_iff is_ascii_digit_def)
  have tw: "takeWhile (\<lambda>ch. ch \<noteq> CHR '':'') (rev (x @ '':'' @ show_nat k)) = rev (show_nat k)" for x k
    using no[of k] by (simp add: takeWhile_append takeWhile_eq_all_conv)
  have "rev (show_nat m) = rev (show_nat n)"
    using tw[of a m] tw[of b n] unfolding assms by simp
  then have "m = n" by (simp add: show_nat_inject)
  with assms show ?thesis by simp
qed

lemma register_key:
  assumes "register S c key = (c', Inr reg)"
  shows "wr_key reg = key"
  using assms by (auto simp: register_def start_flight_def Let_def split: prod.splits sum.splits option.splits)

lemma validate_membership_Inr:
  assumes "validate_membership files file = Inr u"
  obtains m where "files (case strip_prefix ''/'' (sf_rel_path file) of Some p \<Rightarrow> p | None \<Rightarrow> sf_rel_path file) = Some m"
    "sf_content_digest m = sf_content_digest file" "sf_size m = sf_size file"
  using assms by (auto simp: validate_membership_def Let_def result_simps split: if_splits)

lemma fetch_owned_entry_Waiting:
  assumes "fetch_owned_entry S grammar sc pages members lease c file = (c', Inr (Waiting reg))"
  obtains files where "members = Inr files" "is_ok (validate_membership files file)" "is_ok lease"
    "wr_key reg = fetch_key file" "pages"
proof -
  obtain c1 q where a: "acquire_caller S c = (c1, q)" by (rule prod.exhaust)
  have no: "map_prod id (map_sum id (\<lambda>_. OnlineJob)) p \<noteq> (c', Inr (Waiting reg))"
    for p :: "('a, 'b) coordinator \<times> unit result"
    by (cases p; cases "snd p") auto
  from assms a no have ok: "is_ok q" "pages"
    by (auto simp: fetch_owned_entry_def is_ok_iff split: sum.splits if_splits prod.splits)
  then obtain v where m: "rbind members (\<lambda>files. rbind (validate_membership files file) (\<lambda>_. lease)) = Inr v"
    and r: "map_prod id (map_sum id Waiting) (register S c1 (fetch_key file)) = (c', Inr (Waiting reg))"
    using assms a by (auto simp: fetch_owned_entry_def is_ok_iff split: sum.splits)
  from r have "register S c1 (fetch_key file) = (c', Inr reg)"
    by (cases "register S c1 (fetch_key file)"; cases "snd (register S c1 (fetch_key file))") auto
  from register_key[OF this] m ok show ?thesis by (auto simp: result_simps is_ok_iff intro: that)
qed

text \<open>C29: A caller is merged with another only after its own path has passed its own membership
  check: two callers that wait under the same key named files of their fixed views with the same
  content digest and the same size, and the bytes that one accepts have the size the other's view
  records.\<close>

theorem fetch_merge_membership:
  assumes "fetch_owned_entry S1 g1 sc1 p1 members1 lease1 c1 file1 = (c1', Inr (Waiting reg1))"
    and "fetch_owned_entry S2 g2 sc2 p2 members2 lease2 c2 file2 = (c2', Inr (Waiting reg2))"
    and "wr_key reg1 = wr_key reg2"
  shows "\<exists>files1 files2. members1 = Inr files1 \<and> members2 = Inr files2
      \<and> is_ok (validate_membership files1 file1) \<and> is_ok (validate_membership files2 file2)
      \<and> sf_content_digest file1 = sf_content_digest file2 \<and> sf_size file1 = sf_size file2
      \<and> (\<forall>body. is_ok (lead_check file1 body) \<longleftrightarrow> length body = sf_size file2)"
proof -
  from assms(1) obtain f1 where 1: "members1 = Inr f1" "is_ok (validate_membership f1 file1)" "wr_key reg1 = fetch_key file1"
    by (rule fetch_owned_entry_Waiting)
  from assms(2) obtain f2 where 2: "members2 = Inr f2" "is_ok (validate_membership f2 file2)" "wr_key reg2 = fetch_key file2"
    by (rule fetch_owned_entry_Waiting)
  have "sf_content_digest file1 = sf_content_digest file2 \<and> sf_size file1 = sf_size file2"
    using append_colon_digits 1(3) 2(3) assms(3) unfolding fetch_key_def by metis
  with 1 2 show ?thesis by (simp add: lead_check_def)
qed

definition demo_file :: "string \<Rightarrow> snapshot_file" where
  "demo_file path = \<lparr>sf_rel_path = path, sf_fs_kind = ''file'', sf_size = 3, sf_content_digest = ''d''\<rparr>"

definition demo_members :: "string \<Rightarrow> snapshot_file option" where
  "demo_members = membership_index [(demo_file ''a'')\<lparr>sf_fs_kind := ''regular''\<rparr>, (demo_file ''b'')\<lparr>sf_fs_kind := ''regular''\<rparr>]"

definition demo_fetch :: "(nat, nat) coordinator \<Rightarrow> string \<Rightarrow> (nat, nat) coordinator \<times> fetch_entry result" where
  "demo_fetch c path =
    fetch_owned_entry counting_semaphore (\<lambda>_. Inr ()) ''/p'' True (Inr demo_members) (Inr ()) c (demo_file path)"

theorem fetch_merge_membership_witness:
  "sf_size (demo_file ''a'') = sf_size (demo_file ''/b'') \<and>
    co_flights (fst (demo_fetch (fst (demo_fetch demo_coordinator ''a'')) ''/b'')) = [(''d:3'', 2)]"
proof -
  let ?c = "fst (demo_fetch demo_coordinator ''a'')"
  have "snd (demo_fetch demo_coordinator ''a'') = Inr (Waiting \<lparr>wr_key = ''d:3'', wr_generation = 2, wr_id = 1\<rparr>)"
    "snd (demo_fetch ?c ''/b'') = Inr (Waiting \<lparr>wr_key = ''d:3'', wr_generation = 2, wr_id = 3\<rparr>)"
    "co_flights (fst (demo_fetch ?c ''/b'')) = [(''d:3'', 2)]"
    by code_simp+
  then have e: "demo_fetch demo_coordinator ''a'' = (?c, Inr (Waiting \<lparr>wr_key = ''d:3'', wr_generation = 2, wr_id = 1\<rparr>))"
    "demo_fetch ?c ''/b'' = (fst (demo_fetch ?c ''/b''), Inr (Waiting \<lparr>wr_key = ''d:3'', wr_generation = 2, wr_id = 3\<rparr>))"
    and f: "co_flights (fst (demo_fetch ?c ''/b'')) = [(''d:3'', 2)]"
    by (simp_all add: prod_eq_iff)
  show ?thesis
    using fetch_merge_membership[OF e[unfolded demo_fetch_def]] f by (simp add: demo_fetch_def)
qed

end
