(* ===== verification/Closure_Facts.thy ===== *)
theory Closure_Facts
  imports Closure
begin

text \<open>
  Correctness of the metadata closure: the summaries of subtrees, what an accepted closure holds, that
  validation always returns, that a root identifies its closure, and that a closure can be reopened from
  its own bytes.
\<close>

section \<open>Facts about subtrees\<close>

text \<open>The files below a directory with their paths relative to it, and the number of entries below it.\<close>

inductive below_file :: "auth_env \<Rightarrow> (string \<Rightarrow> page option) \<Rightarrow> string \<Rightarrow> snapshot_file \<Rightarrow> bool"
  for A D where
  below_leaf: "radix_denotes A D root es \<Longrightarrow> e \<in> set es \<Longrightarrow> en_kind e \<noteq> Directory_Kind
     \<Longrightarrow> from_utf8 (en_name e) = Some name \<Longrightarrow> below_file A D root (entry_file A name e)"
| below_dir: "radix_denotes A D root es \<Longrightarrow> e \<in> set es \<Longrightarrow> en_kind e = Directory_Kind
     \<Longrightarrow> from_utf8 (en_name e) = Some name \<Longrightarrow> below_file A D (closure_digest A (en_child_root e)) f
     \<Longrightarrow> below_file A D root (f\<lparr>sf_rel_path := name @ ''/'' @ sf_rel_path f\<rparr>)"

inductive below_count :: "auth_env \<Rightarrow> (string \<Rightarrow> page option) \<Rightarrow> string \<Rightarrow> nat \<Rightarrow> bool"
  for A D where
  "radix_denotes A D root es
   \<Longrightarrow> list_all2 (\<lambda>e k. if en_kind e = Directory_Kind then below_count A D (closure_digest A (en_child_root e)) k else k = 0)
         es ks
   \<Longrightarrow> below_count A D root (length es + sum_list ks)"

definition facts_ok :: "auth_env \<Rightarrow> (string \<Rightarrow> page option) \<Rightarrow> string \<Rightarrow> verified_subtree_facts \<Rightarrow> bool" where
  "facts_ok A D root facts \<longleftrightarrow>
    vf_root_page_id facts = root
    \<and> set (vf_files facts) = {f. below_file A D root f} \<and> sorted (map sf_rel_path (vf_files facts))
    \<and> set (vf_page_ids facts) = tree_pages A D ([], root) \<and> sorted_wrt (<) (vf_page_ids facts)
    \<and> below_count A D root (vf_total_entries facts)"

definition page_scan ::
  "proof_env \<Rightarrow> string set \<Rightarrow> string set \<Rightarrow> string set \<Rightarrow> string set \<Rightarrow> bool" where
  "page_scan E ids must may ids' \<longleftrightarrow>
    ids \<union> must \<subseteq> ids' \<and> ids' \<subseteq> ids \<union> may
    \<and> (\<forall>q\<in>ids' - ids. \<forall>q'. radix_edge (pe_auth E) (pe_decoded E) q q' \<longrightarrow> q' \<in> ids')"

lemma page_scan_trans:
  "page_scan E a m n b \<Longrightarrow> page_scan E b m' n' c \<Longrightarrow> page_scan E a (m \<union> m') (n \<union> n') c"
  unfolding page_scan_def by blast

lemma page_scan_fold:
  assumes "\<And>c ids. c \<in> set cs \<Longrightarrow> J \<subseteq> ids \<Longrightarrow> \<exists>ids'. g ids c = Some ids' \<and> page_scan E ids {k c} (m c) ids'" "J \<subseteq> ids"
  shows "\<exists>ids'. foldl (\<lambda>acc c. Option.bind acc (\<lambda>ids. g ids c)) (Some ids) cs = Some ids'
    \<and> page_scan E ids (k ` set cs) (\<Union>c\<in>set cs. m c) ids'"
  using assms
proof (induction cs arbitrary: ids)
  case Nil
  then show ?case by (simp add: page_scan_def)
next
  case (Cons c cs)
  from Cons.prems(1)[of c ids] Cons.prems(2) obtain i where i: "g ids c = Some i" "page_scan E ids {k c} (m c) i"
    by auto
  have "J \<subseteq> i" using i(2) Cons.prems(2) by (auto simp: page_scan_def)
  moreover have "\<exists>ids'. g ids d = Some ids' \<and> page_scan E ids {k d} (m d) ids'" if "d \<in> set cs" "J \<subseteq> ids" for d ids
    by (rule Cons.prems(1)) (use that in auto)
  ultimately obtain ids' where "foldl (\<lambda>acc c. Option.bind acc (\<lambda>ids. g ids c)) (Some i) cs = Some ids'"
    "page_scan E i (k ` set cs) (\<Union>c\<in>set cs. m c) ids'"
    using Cons.IH[of i] by blast
  then show ?case using i page_scan_trans[OF i(2)] by auto
qed

lemma radix_page_ids_scan:
  assumes "card (dom (pe_decoded E) - ids) < fuel" "finite (dom (pe_decoded E))"
    "radix_pages (pe_auth E) (pe_decoded E) pid \<subseteq> dom (pe_decoded E)"
  shows "\<exists>ids'. radix_page_ids fuel E pid ids = Some ids'
    \<and> page_scan E ids {pid} (radix_pages (pe_auth E) (pe_decoded E) pid) ids'"
  using assms
proof (induction fuel arbitrary: pid ids)
  case (Suc fuel)
  let ?A = "pe_auth E" and ?D = "pe_decoded E"
  obtain p where p: "?D pid = Some p" using Suc.prems(3) by auto
  show ?case
  proof (cases "pid \<in> ids")
    case True
    then show ?thesis by (simp add: page_scan_def insert_absorb)
  next
    case False
    have sub: "card (dom ?D - J) < fuel" if "insert pid ids \<subseteq> J" for J
    proof -
      have "card (dom ?D - J) < card (dom ?D - ids)"
        using Suc.prems(2) p False that by (intro psubset_card_mono) auto
      then show ?thesis using Suc.prems(1) by simp
    qed
    show ?thesis
    proof (cases p)
      case (Leaf es)
      then show ?thesis
        using False p by (auto simp: page_scan_def elim: radix_edge.cases)
    next
      case (Branch t cs)
      have dp: "?D pid = Some (Branch t cs)" using p Branch by simp
      let ?g = "\<lambda>ids c. radix_page_ids fuel E (closure_digest ?A (ch_page_id c)) ids"
      have "\<exists>ids'. ?g J c = Some ids' \<and>
          page_scan E J {closure_digest ?A (ch_page_id c)} (radix_pages ?A ?D (closure_digest ?A (ch_page_id c))) ids'"
        if "c \<in> set cs" "insert pid ids \<subseteq> J" for c J
        by (rule Suc.IH) (use sub[OF that(2)] Suc.prems(2,3) radix_pages_child[of ?D, OF dp that(1), of ?A] in auto)
      from page_scan_fold[of cs "insert pid ids" ?g E _ _ "insert pid ids", OF this]
      obtain ids' where ids': "foldl (\<lambda>acc c. Option.bind acc (\<lambda>ids. ?g ids c)) (Some (insert pid ids)) cs = Some ids'"
        "page_scan E (insert pid ids) ((\<lambda>c. closure_digest ?A (ch_page_id c)) ` set cs)
           (\<Union>c\<in>set cs. radix_pages ?A ?D (closure_digest ?A (ch_page_id c))) ids'"
        by auto
      have "page_scan E ids {pid} (radix_pages ?A ?D pid) ids'"
        unfolding page_scan_def
      proof (intro conjI ballI allI impI)
        show "ids \<union> {pid} \<subseteq> ids'" using ids'(2) by (simp add: page_scan_def)
        show "ids' \<subseteq> ids \<union> radix_pages ?A ?D pid"
          using ids'(2) radix_pages_unfold[of ?D, OF dp, of ?A] by (auto simp: page_scan_def)
        fix q q' assume q: "q \<in> ids' - ids" and e: "radix_edge ?A ?D q q'"
        show "q' \<in> ids'"
        proof (cases "q = pid")
          case True
          from e obtain c where "c \<in> set cs" "q' = closure_digest ?A (ch_page_id c)"
            by cases (use dp True in auto)
          then show ?thesis using ids'(2) unfolding page_scan_def by blast
        next
          case False
          then have "q \<in> ids' - insert pid ids" using q by blast
          then show ?thesis using ids'(2) e unfolding page_scan_def by blast
        qed
      qed
      then show ?thesis using ids'(1) False dp by simp
    qed
  qed
qed simp

lemma radix_page_ids_all:
  assumes "card (dom (pe_decoded E)) < fuel" "finite (dom (pe_decoded E))"
    "radix_pages (pe_auth E) (pe_decoded E) pid \<subseteq> dom (pe_decoded E)"
  shows "radix_page_ids fuel E pid {} = Some (radix_pages (pe_auth E) (pe_decoded E) pid)"
proof -
  let ?A = "pe_auth E" and ?D = "pe_decoded E"
  obtain ids where ids: "radix_page_ids fuel E pid {} = Some ids" "page_scan E {} {pid} (radix_pages ?A ?D pid) ids"
    using radix_page_ids_scan[of E "{}" fuel pid] assms by auto
  have "(radix_edge ?A ?D)\<^sup>*\<^sup>* pid q \<Longrightarrow> q \<in> ids" for q
    by (induction rule: rtranclp_induct) (use ids(2) in \<open>auto simp: page_scan_def\<close>)
  with ids show ?thesis by (auto simp: page_scan_def)
qed

text \<open>Directories below a root nest at most so deep, and each of them has its entries recorded.\<close>

primrec entries_depth :: "auth_env \<Rightarrow> proof_state \<Rightarrow> nat \<Rightarrow> string \<Rightarrow> bool" where
  "entries_depth A v 0 root = False"
| "entries_depth A v (Suc n) root =
    (case vs_entries v root of None \<Rightarrow> False
     | Some es \<Rightarrow> \<forall>e\<in>set es. from_utf8 (en_name e) \<noteq> None
         \<and> (en_kind e = Directory_Kind \<longrightarrow> entries_depth A v n (closure_digest A (en_child_root e))))"

lemma entries_depth_mono: "entries_depth A v n root \<Longrightarrow> n \<le> m \<Longrightarrow> entries_depth A v m root"
proof (induction n arbitrary: m root)
  case (Suc n)
  then obtain k where m: "m = Suc k" "n \<le> k" by (cases m) auto
  show ?case using Suc.prems(1) Suc.IH[OF _ m(2)] by (auto simp: m(1) split: option.splits)
qed simp

lemma entries_persist:
  assumes "memo_ok E v" "memo_ok E v'" "dom (vs_entries v) \<subseteq> dom (vs_entries v')" "vs_entries v r = Some es"
  shows "vs_entries v' r = Some es"
proof -
  obtain es' where es': "vs_entries v' r = Some es'" using assms(3,4) by auto
  have "radix_denotes (pe_auth E) (pe_decoded E) r es" "radix_denotes (pe_auth E) (pe_decoded E) r es'"
    using assms(1,2,4) es' unfolding memo_ok_def by blast+
  then show ?thesis using radix_denotes_unique es' by blast
qed

lemma entries_depth_persist:
  assumes "memo_ok E v" "memo_ok E v'" "dom (vs_entries v) \<subseteq> dom (vs_entries v')"
  shows "entries_depth A v n r \<Longrightarrow> entries_depth A v' n r"
proof (induction n arbitrary: r)
  case (Suc n)
  then obtain es where es: "vs_entries v r = Some es" by (auto split: option.splits)
  show ?case using Suc entries_persist[OF assms es] es by auto
qed simp

lemma walk_entries_depth:
  assumes "walk_directory fuel E sc v path root active = Some (Inr v')" "tally_ok E sc v"
  shows "entries_depth (pe_auth E) v' fuel root"
  using assms
proof (induction fuel arbitrary: v path root active v')
  case (Suc fuel)
  let ?A = "pe_auth E" and ?D = "pe_decoded E"
  obtain w es where o: "open_directory E sc v path root active = Inr (w, es)"
    and loop: "run_fold (walk_entry fuel E sc path root active) w es = Some (Inr v')"
    using Suc.prems(1) by (auto simp: result_simps)
  note og = open_directory_grown[OF o Suc.prems(2)]
  define P where "P = (\<lambda>u (ys :: entry list). tally_ok E sc u \<and> dom (vs_entries w) \<subseteq> dom (vs_entries u)
    \<and> (\<forall>e\<in>set ys. from_utf8 (en_name e) \<noteq> None
         \<and> (en_kind e = Directory_Kind \<longrightarrow> entries_depth ?A u fuel (closure_digest ?A (en_child_root e)))))"
  have "P v' es"
  proof (rule run_fold_invariant[OF loop])
    show "P w []" using og(1) by (simp add: P_def)
  next
    fix u ys e x
    assume P: "P u ys" and step: "walk_entry fuel E sc path root active u e = Some (Inr x)"
    have tu: "tally_ok E sc u" using P by (simp add: P_def)
    have g: "tally_ok E sc x \<and> from_utf8 (en_name e) \<noteq> None
        \<and> grown u (entry_dirs ?A ?D path e) (entry_files ?A ?D path e) (entry_pages ?A ?D path e) x"
      by (rule walk_entry_grown[OF step tu _ refl]) (rule walk_directory_grown[OF _ _ refl refl])
    then have dx: "dom (vs_entries u) \<subseteq> dom (vs_entries x)" by (simp add: grown_def)
    have new: "entries_depth ?A x fuel (closure_digest ?A (en_child_root e))" if dir: "en_kind e = Directory_Kind"
    proof -
      obtain p where "walk_directory fuel E sc u p (closure_digest ?A (en_child_root e)) (insert root active) = Some (Inr x)"
        using step dir by (auto simp: result_simps)
      then show ?thesis by (rule Suc.IH[OF _ tu])
    qed
    have old: "entries_depth ?A u fuel r \<Longrightarrow> entries_depth ?A x fuel r" for r
      using entries_depth_persist[OF tally_memo[OF tu] _ dx] g tally_memo by blast
    have "dom (vs_entries w) \<subseteq> dom (vs_entries x)"
      using P dx unfolding P_def by (elim conjE) (rule order_trans)
    then show "P x (ys @ [e])" using P g new old unfolding P_def by simp
  qed
  then have v': "tally_ok E sc v'" "dom (vs_entries w) \<subseteq> dom (vs_entries v')"
    "\<forall>e\<in>set es. from_utf8 (en_name e) \<noteq> None
         \<and> (en_kind e = Directory_Kind \<longrightarrow> entries_depth ?A v' fuel (closure_digest ?A (en_child_root e)))"
    unfolding P_def by blast+
  have "vs_entries v' root = Some es"
    by (rule entries_persist[OF tally_memo[OF og(1)] tally_memo[OF v'(1)] v'(2) og(5)])
  then show ?case using v'(3) by simp
qed simp

lemma entries_depth_below:
  assumes "(dir_edge A D)\<^sup>*\<^sup>* pr qs" "entries_depth A v n (snd pr)" "memo_ok E v" "A = pe_auth E" "D = pe_decoded E"
  shows "entries_depth A v n (snd qs)"
  using assms(1,2)
proof (induction rule: rtranclp_induct)
  case (step q s)
  from step.hyps(2) obtain es e where e: "radix_denotes A D (snd q) es" "e \<in> set es" "en_kind e = Directory_Kind"
    "snd s = closure_digest A (en_child_root e)"
    by cases auto
  have d: "entries_depth A v n (snd q)" by (rule step.IH[OF step.prems])
  then obtain m es' where n: "n = Suc m" and es': "vs_entries v (snd q) = Some es'"
    by (cases n) (auto split: option.splits)
  have "radix_denotes A D (snd q) es'" using assms(3-5) es' unfolding memo_ok_def by blast
  then have "es' = es" using e(1) radix_denotes_unique by blast
  then have "entries_depth A v m (snd s)" using d es' e n by auto
  then show ?case by (rule entries_depth_mono) (simp add: n)
qed

lemma dir_edge_path:
  assumes "(dir_edge A D)\<^sup>*\<^sup>* (p, r) y"
  shows "\<exists>q'. (dir_edge A D)\<^sup>*\<^sup>* (q, r) (q', snd y)"
  using assms
proof (induction rule: rtranclp_induct)
  case (step y z)
  then obtain q' where q': "(dir_edge A D)\<^sup>*\<^sup>* (q, r) (q', snd y)" by blast
  from step.hyps(2) obtain n where "dir_edge A D (q', snd y) (n, snd z)"
    by cases (auto intro: dir_edge.intros)
  then show ?case using rtranclp.rtrancl_into_rtrancl[OF q'] by blast
qed auto

lemma tree_pages_path: "tree_pages A D (p, r) = tree_pages A D (q, r)"
  using dir_edge_path[of A D p r _ q] dir_edge_path[of A D q r _ p] unfolding tree_pages_def by fastforce

definition entry_below :: "auth_env \<Rightarrow> (string \<Rightarrow> page option) \<Rightarrow> entry \<Rightarrow> snapshot_file set" where
  "entry_below A D e =
    (if en_kind e = Directory_Kind
     then (\<lambda>f. f\<lparr>sf_rel_path := the (from_utf8 (en_name e)) @ ''/'' @ sf_rel_path f\<rparr>)
            ` {f. below_file A D (closure_digest A (en_child_root e)) f}
     else {entry_file A (the (from_utf8 (en_name e))) e})"

lemma below_file_step:
  assumes den: "radix_denotes A D root es" and utf8: "\<forall>e\<in>set es. from_utf8 (en_name e) \<noteq> None"
  shows "{f. below_file A D root f} = (\<Union>e\<in>set es. entry_below A D e)" (is "?l = ?r")
proof (intro equalityI subsetI)
  fix f assume "f \<in> ?l"
  then have "below_file A D root f" by simp
  then show "f \<in> ?r"
  proof cases
    case (below_leaf es' e name)
    then have "f \<in> entry_below A D e" "e \<in> set es"
      using radix_denotes_unique[OF den] by (auto simp: entry_below_def)
    then show ?thesis by blast
  next
    case (below_dir es' e name g)
    then have "f \<in> entry_below A D e" "e \<in> set es"
      using radix_denotes_unique[OF den] by (auto simp: entry_below_def)
    then show ?thesis by blast
  qed
next
  fix f assume "f \<in> ?r"
  then obtain e where e: "e \<in> set es" "f \<in> entry_below A D e" by blast
  obtain name where name: "from_utf8 (en_name e) = Some name" using utf8 e(1) by blast
  show "f \<in> ?l"
    using e(2) name below_leaf[OF den e(1) _ name] below_dir[OF den e(1) _ name]
    by (auto simp: entry_below_def split: if_splits)
qed

lemma tree_pages_step:
  assumes "radix_denotes A D root es" "\<forall>e\<in>set es. from_utf8 (en_name e) \<noteq> None"
  shows "tree_pages A D ([], root) = radix_pages A D root \<union>
    (\<Union>e\<in>{e \<in> set es. en_kind e = Directory_Kind}. tree_pages A D ([], closure_digest A (en_child_root e)))"
proof -
  have "entry_pages A D [] e = (if en_kind e = Directory_Kind then tree_pages A D ([], closure_digest A (en_child_root e)) else {})"
    for e unfolding entry_pages_def child_of_def using tree_pages_path[of A D _ _ "[]"] by simp
  then show ?thesis unfolding tree_step(3)[OF assms] by auto
qed

definition counted :: "auth_env \<Rightarrow> (string \<Rightarrow> page option) \<Rightarrow> entry \<Rightarrow> nat \<Rightarrow> bool" where
  "counted A D e k =
    (if en_kind e = Directory_Kind then below_count A D (closure_digest A (en_child_root e)) k else k = 0)"

lemma below_count_counted:
  "radix_denotes A D root es \<Longrightarrow> list_all2 (counted A D) es ks \<Longrightarrow> below_count A D root (length es + sum_list ks)"
  by (rule below_count.intros) (simp_all add: counted_def[abs_def])

text \<open>One round of the summary loop over the entries of a directory.\<close>

definition summary_ok ::
  "auth_env \<Rightarrow> (string \<Rightarrow> page option) \<Rightarrow> string \<Rightarrow> entry list \<Rightarrow> summary \<Rightarrow> bool" where
  "summary_ok A D root ys s \<longleftrightarrow>
    (case s of (ids, files, n) \<Rightarrow>
       ids = radix_pages A D root \<union>
         (\<Union>e\<in>{e \<in> set ys. en_kind e = Directory_Kind}. tree_pages A D ([], closure_digest A (en_child_root e)))
       \<and> set files = (\<Union>e\<in>set ys. entry_below A D e)
       \<and> (\<exists>ks. list_all2 (counted A D) ys ks
            \<and> n = length ys + sum_list ks))"

lemma count_entries_Inr: "count_entries a b = Inr n \<Longrightarrow> n = a + b"
  by (auto simp: count_entries_def checked_add_def result_simps split: if_splits)

lemma summary_leaf:
  assumes "summary_ok A D root ys (ids, files, n)" "count_entries n 1 = Inr m" "en_kind e \<noteq> Directory_Kind"
    "from_utf8 (en_name e) = Some name"
  shows "summary_ok A D root (ys @ [e]) (add_leaf_fact A name e (ids, files, m))"
proof -
  obtain ks where ks: "list_all2 (counted A D) ys ks" "n = length ys + sum_list ks"
    using assms(1) by (auto simp: summary_ok_def)
  have "m = length (ys @ [e]) + sum_list (ks @ [0])" using ks(2) count_entries_Inr[OF assms(2)] by simp
  moreover have "list_all2 (counted A D) (ys @ [e]) (ks @ [0])"
    using ks(1) assms(3) by (auto intro!: list_all2_appendI simp: counted_def)
  moreover have "{x. (x = e \<or> x \<in> set ys) \<and> en_kind x = Directory_Kind} = {x \<in> set ys. en_kind x = Directory_Kind}"
    using assms(3) by auto
  ultimately show ?thesis
    using assms(1,3,4) unfolding summary_ok_def add_leaf_fact_def prod.case
    by (intro conjI exI[of _ "ks @ [0]"]) (auto simp: entry_below_def)
qed

lemma summary_child:
  assumes "summary_ok A D root ys (ids, files, n)" "count_entries n 1 = Inr m" "en_kind e = Directory_Kind"
    "from_utf8 (en_name e) = Some name" "facts_ok A D (closure_digest A (en_child_root e)) child"
    "add_child_facts name child (ids, files, m) = Inr s"
  shows "summary_ok A D root (ys @ [e]) s"
proof -
  let ?k = "vf_total_entries child"
  obtain ks where ks: "list_all2 (counted A D) ys ks" "n = length ys + sum_list ks"
    using assms(1) by (auto simp: summary_ok_def)
  have s: "s = (ids \<union> set (vf_page_ids child),
      files @ map (\<lambda>f. f\<lparr>sf_rel_path := name @ ''/'' @ sf_rel_path f\<rparr>) (vf_files child), m + ?k)"
    using assms(6) count_entries_Inr by (auto simp: add_child_facts_def result_simps)
  have "m + ?k = length (ys @ [e]) + sum_list (ks @ [?k])" using ks(2) count_entries_Inr[OF assms(2)] by simp
  moreover have "list_all2 (counted A D) (ys @ [e]) (ks @ [?k])"
    using ks(1) assms(3,5) by (auto intro!: list_all2_appendI simp: facts_ok_def counted_def)
  moreover have "{x. (x = e \<or> x \<in> set ys) \<and> en_kind x = Directory_Kind}
      = insert e {x \<in> set ys. en_kind x = Directory_Kind}"
    using assms(3) by auto
  ultimately show ?thesis
    using assms(1,3,4,5) unfolding summary_ok_def s prod.case
    by (intro conjI exI[of _ "ks @ [?k]"]) (auto simp: entry_below_def facts_ok_def)
qed

lemma seal_facts_ok:
  assumes "summary_ok A D root es (ids, files, n)" "radix_denotes A D root es"
    "\<forall>e\<in>set es. from_utf8 (en_name e) \<noteq> None" "finite ids"
  shows "facts_ok A D root (seal_facts root (ids, files, n))"
  using assms(1,4) tree_pages_step[OF assms(2,3)] below_file_step[OF assms(2,3)] below_count_counted[OF assms(2)]
  by (auto simp: facts_ok_def seal_facts_def summary_ok_def strict_sorted_list_of_set)

definition memo_facts :: "auth_env \<Rightarrow> (string \<Rightarrow> page option) \<Rightarrow> fact_memo \<Rightarrow> bool" where
  "memo_facts A D memo \<longleftrightarrow> distinct (map fst memo) \<and> (\<forall>(r, f)\<in>set memo. facts_ok A D r f)"

definition roots_below :: "auth_env \<Rightarrow> (string \<Rightarrow> page option) \<Rightarrow> string \<Rightarrow> string set" where
  "roots_below A D r = {s. \<exists>p q. (dir_edge A D)\<^sup>*\<^sup>* (p, r) (q, s)}"

definition facts_run ::
  "auth_env \<Rightarrow> (string \<Rightarrow> page option) \<Rightarrow> string \<Rightarrow> fact_memo \<Rightarrow> (fact_memo \<times> verified_subtree_facts) run \<Rightarrow> bool" where
  "facts_run A D root memo run \<longleftrightarrow>
    run \<noteq> None
    \<and> (\<forall>memo' f. run = Some (Inr (memo', f)) \<longrightarrow>
         memo_facts A D memo' \<and> facts_ok A D root f \<and> insert root (fst ` set memo) \<subseteq> fst ` set memo'
         \<and> fst ` set memo' \<subseteq> fst ` set memo \<union> roots_below A D root)"

abbreviation fact_entry where
  "fact_entry fuel E v \<equiv> (\<lambda>(memo, ids, files, n) e.
      run_bind (Some (count_entries n 1)) (\<lambda>n.
      run_bind (Some (ok_or (from_utf8 (en_name e)) (closure_integrity ''non-UTF-8 entry''))) (\<lambda>name.
      if en_kind e = Directory_Kind
      then run_bind (subtree_facts fuel E v (closure_digest (pe_auth E) (en_child_root e)) memo) (\<lambda>(memo, child).
           run_bind (Some (add_child_facts name child (ids, files, n))) (\<lambda>s. Some (Inr (memo, s))))
      else Some (Inr (memo, add_leaf_fact (pe_auth E) name e (ids, files, n))))))"

lemma roots_below_child:
  assumes "radix_denotes A D root es" "e \<in> set es" "en_kind e = Directory_Kind" "from_utf8 (en_name e) \<noteq> None"
  shows "roots_below A D (closure_digest A (en_child_root e)) \<subseteq> roots_below A D root"
proof
  fix s assume "s \<in> roots_below A D (closure_digest A (en_child_root e))"
  then obtain p q where "(dir_edge A D)\<^sup>*\<^sup>* (p, closure_digest A (en_child_root e)) (q, s)"
    by (auto simp: roots_below_def)
  moreover obtain name where name: "from_utf8 (en_name e) = Some name" using assms(4) by blast
  ultimately obtain q' where q': "(dir_edge A D)\<^sup>*\<^sup>* (join_path [] name, closure_digest A (en_child_root e)) (q', s)"
    using dir_edge_path[of A D p _ _ "join_path [] name"] by fastforce
  have "dir_edge A D ([], root) (join_path [] name, closure_digest A (en_child_root e))"
    by (rule dir_edge.intros[OF assms(1-3) name])
  then have "(dir_edge A D)\<^sup>*\<^sup>* ([], root) (q', s)"
    using q' by (rule converse_rtranclp_into_rtranclp)
  then show "s \<in> roots_below A D root" by (auto simp: roots_below_def)
qed

text \<open>The state of the summary loop after the entries \<^term>\<open>ys\<close>.\<close>

definition fact_loop ::
  "auth_env \<Rightarrow> (string \<Rightarrow> page option) \<Rightarrow> string \<Rightarrow> fact_memo \<Rightarrow> fact_memo \<times> summary \<Rightarrow> entry list \<Rightarrow> bool" where
  "fact_loop A D root memo s ys \<longleftrightarrow>
    memo_facts A D (fst s) \<and> fst ` set memo \<subseteq> fst ` set (fst s)
    \<and> fst ` set (fst s) \<subseteq> fst ` set memo \<union> roots_below A D root
    \<and> finite (fst (snd s)) \<and> summary_ok A D root ys (snd s)"

lemma fact_entry_step:
  assumes step: "fact_entry fuel E v u e = Some (Inr w)" and P: "fact_loop A D root memo u ys"
    and IH: "\<And>r m. entries_depth A v fuel r \<Longrightarrow> memo_facts A D m \<Longrightarrow> facts_run A D r m (subtree_facts fuel E v r m)"
    and den: "radix_denotes A D root es" "e \<in> set es" and A: "A = pe_auth E"
    and deep: "en_kind e = Directory_Kind \<Longrightarrow> entries_depth A v fuel (closure_digest A (en_child_root e))"
  shows "fact_loop A D root memo w (ys @ [e])"
proof -
  obtain m ids files n where u: "u = (m, ids, files, n)" by (cases u) auto
  obtain k name where k: "count_entries n 1 = Inr k" "from_utf8 (en_name e) = Some name"
    using step by (auto simp: u result_simps)
  have sum: "summary_ok A D root ys (ids, files, n)" and m: "memo_facts A D m" and fin: "finite ids"
    and keys: "fst ` set memo \<subseteq> fst ` set m" "fst ` set m \<subseteq> fst ` set memo \<union> roots_below A D root"
    using P by (simp_all add: fact_loop_def u)
  show ?thesis
  proof (cases "en_kind e = Directory_Kind")
    case True
    let ?r = "closure_digest A (en_child_root e)"
    obtain m' child s where c: "subtree_facts fuel E v ?r m = Some (Inr (m', child))"
      "add_child_facts name child (ids, files, k) = Inr s" "w = (m', s)"
      using step True k by (auto simp: u result_simps A)
    have run: "memo_facts A D m'" "facts_ok A D ?r child" "insert ?r (fst ` set m) \<subseteq> fst ` set m'"
      "fst ` set m' \<subseteq> fst ` set m \<union> roots_below A D ?r"
      using IH[OF deep[OF True] m] c(1) by (simp_all add: facts_run_def)
    have "finite (fst s)" using c(2) fin by (auto simp: add_child_facts_def result_simps)
    moreover have "fst ` set m' \<subseteq> fst ` set memo \<union> roots_below A D root"
      using run(4) keys(2) roots_below_child[OF den True] k(2) by blast
    moreover have "summary_ok A D root (ys @ [e]) s"
      by (rule summary_child[OF sum k(1) True k(2) run(2) c(2)])
    moreover have "fst ` set memo \<subseteq> fst ` set m'"
      using keys(1) run(3) by blast
    ultimately show ?thesis using run(1) by (simp add: fact_loop_def c(3))
  next
    case False
    have w: "w = (m, add_leaf_fact A name e (ids, files, k))"
      using step False k by (simp add: u A ok_or_def)
    have "summary_ok A D root (ys @ [e]) (add_leaf_fact A name e (ids, files, k))"
      by (rule summary_leaf[OF sum k(1) False k(2)])
    moreover have "fst (add_leaf_fact A name e (ids, files, k)) = ids"
      by (simp add: add_leaf_fact_def)
    ultimately show ?thesis using m keys fin by (simp add: fact_loop_def w)
  qed
qed

lemma fact_entry_returns:
  assumes IH: "\<And>r m. entries_depth A v fuel r \<Longrightarrow> memo_facts A D m \<Longrightarrow> facts_run A D r m (subtree_facts fuel E v r m)"
    and "memo_facts A D (fst u)" "A = pe_auth E"
    and "en_kind e = Directory_Kind \<Longrightarrow> entries_depth A v fuel (closure_digest A (en_child_root e))"
  shows "fact_entry fuel E v u e \<noteq> None"
proof -
  obtain m ids files n where u: "u = (m, ids, files, n)" by (cases u) auto
  have ret: "subtree_facts fuel E v (closure_digest A (en_child_root e)) m \<noteq> None" if "en_kind e = Directory_Kind"
    using IH[OF assms(4)[OF that]] assms(2) by (simp add: facts_run_def u)
  then show ?thesis
    using assms(3) by (auto simp: u run_bind_def split: sum.splits option.splits)
qed

lemma facts_insert:
  assumes "memo_facts A D m" "facts_ok A D root f"
  shows "memo_facts A D (filter (\<lambda>(key, _). key \<noteq> root) m @ [(root, f)])"
    "fst ` set (filter (\<lambda>(key, _). key \<noteq> root) m @ [(root, f)]) = insert root (fst ` set m)"
proof -
  have "distinct (map fst (filter (\<lambda>(key, _). key \<noteq> root) m))"
    using assms(1) by (simp add: memo_facts_def distinct_map_filter)
  then show "memo_facts A D (filter (\<lambda>(key, _). key \<noteq> root) m @ [(root, f)])"
    using assms by (auto simp: memo_facts_def)
  show "fst ` set (filter (\<lambda>(key, _). key \<noteq> root) m @ [(root, f)]) = insert root (fst ` set m)"
    by force
qed

lemma subtree_facts_run:
  assumes E: "memo_ok E v" "finite (dom (pe_decoded E))" "card (dom (pe_decoded E)) \<le> length (pe_bytes E)"
    and A: "A = pe_auth E" and D: "D = pe_decoded E"
  shows "entries_depth A v fuel root \<Longrightarrow> memo_facts A D memo
    \<Longrightarrow> facts_run A D root memo (subtree_facts fuel E v root memo)"
proof (induction fuel arbitrary: root memo)
  case (Suc fuel)
  have self: "root \<in> roots_below A D root" by (auto simp: roots_below_def)
  show ?case
  proof (cases "map_of memo root")
    case (Some f)
    then have "(root, f) \<in> set memo" by (rule map_of_SomeD)
    then show ?thesis using Some Suc.prems(2) by (force simp: facts_run_def memo_facts_def)
  next
    case None
    obtain es where es: "vs_entries v root = Some es" and
      deep: "\<forall>e\<in>set es. from_utf8 (en_name e) \<noteq> None
         \<and> (en_kind e = Directory_Kind \<longrightarrow> entries_depth A v fuel (closure_digest A (en_child_root e)))"
      using Suc.prems(1) by (auto split: option.splits)
    have den: "radix_denotes A D root es" using E(1) es A D unfolding memo_ok_def by blast
    have sub: "radix_pages A D root \<subseteq> dom D" by (rule radix_denotes_dom[OF den])
    have ids: "radix_page_ids (Suc (length (pe_bytes E))) E root {} = Some (radix_pages A D root)"
      using radix_page_ids_all[of E "Suc (length (pe_bytes E))" root] E(2,3) sub by (simp add: A D)
    let ?loop = "run_fold (fact_entry fuel E v) (memo, radix_pages A D root, [], 0) es"
    have init: "fact_loop A D root memo (memo, radix_pages A D root, [], 0) []"
      using Suc.prems(2) finite_subset[OF sub] E(2) by (simp add: fact_loop_def summary_ok_def D)
    have step: "fact_loop A D root memo w (ys @ [e])"
      if "fact_loop A D root memo u ys" "e \<in> set es" "fact_entry fuel E v u e = Some (Inr w)" for u ys e w
      by (rule fact_entry_step[OF that(3,1) Suc.IH den that(2) A]) (use deep that(2) in auto)
    have ret: "?loop \<noteq> None"
    proof (rule run_fold_returns[where P = "\<lambda>u. \<exists>ys. fact_loop A D root memo u ys"])
      show "\<exists>ys. fact_loop A D root memo (memo, radix_pages A D root, [], 0) ys" using init by blast
      show "fact_entry fuel E v u e \<noteq> None" if "\<exists>ys. fact_loop A D root memo u ys" "e \<in> set es" for u e
        by (rule fact_entry_returns[OF Suc.IH _ A]) (use that deep in \<open>auto simp: fact_loop_def\<close>)
    qed (use step in blast)
    have eq: "subtree_facts (Suc fuel) E v root memo
        = run_bind ?loop (\<lambda>(m, s). let f = seal_facts root s in
            Some (Inr (filter (\<lambda>(key, _). key \<noteq> root) m @ [(root, f)], f)))"
      using None ids es by simp
    have "memo_facts A D m' \<and> facts_ok A D root f \<and> insert root (fst ` set memo) \<subseteq> fst ` set m'
        \<and> fst ` set m' \<subseteq> fst ` set memo \<union> roots_below A D root"
      if run: "subtree_facts (Suc fuel) E v root memo = Some (Inr (m', f))" for m' f
    proof -
      obtain m i fs k where l: "?loop = Some (Inr (m, i, fs, k))"
        and f: "f = seal_facts root (i, fs, k)" "m' = filter (\<lambda>(key, _). key \<noteq> root) m @ [(root, f)]"
        using run unfolding eq by (auto simp: result_simps Let_def)
      have fl: "fact_loop A D root memo (m, i, fs, k) es"
        by (rule run_fold_invariant[where P = "fact_loop A D root memo", OF l init step])
      have fok: "facts_ok A D root f"
        unfolding f(1) by (rule seal_facts_ok[OF _ den]) (use fl deep in \<open>auto simp: fact_loop_def\<close>)
      have mf: "memo_facts A D m" using fl by (simp add: fact_loop_def)
      have "fst ` set m' = insert root (fst ` set m)" "memo_facts A D m'"
        using facts_insert[OF mf fok] by (simp_all add: f(2))
      then show ?thesis using fl fok self by (auto simp: fact_loop_def)
    qed
    moreover have "subtree_facts (Suc fuel) E v root memo \<noteq> None"
      unfolding eq using ret by (auto simp: run_bind_def Let_def split: option.splits sum.splits)
    ultimately show ?thesis unfolding facts_run_def by blast
  qed
qed simp

lemma distinct_map_sort_key: "distinct (map f (sort_key g xs)) = distinct (map f xs)"
  by (simp add: distinct_map)

lemma collect_facts_run:
  assumes E: "memo_ok E v" "finite (dom (pe_decoded E))" "card (dom (pe_decoded E)) \<le> length (pe_bytes E)"
    and A: "A = pe_auth E" and D: "D = pe_decoded E"
    and deep: "\<And>r. r \<in> set roots \<Longrightarrow> entries_depth A v (Suc (length (pe_bytes E))) r"
    and closed: "\<And>r. r \<in> set roots \<Longrightarrow> roots_below A D r \<subseteq> set roots"
  shows "collect_facts E v roots \<noteq> None"
    and "collect_facts E v roots = Some (Inr facts) \<Longrightarrow>
      set (map vf_root_page_id facts) = set roots \<and> distinct (map vf_root_page_id facts)
      \<and> sorted (map vf_root_page_id facts) \<and> (\<forall>f\<in>set facts. facts_ok A D (vf_root_page_id f) f)"
proof -
  let ?step = "\<lambda>memo root. run_bind (subtree_facts (Suc (length (pe_bytes E))) E v root memo) (\<lambda>(memo, _). Some (Inr memo))"
  define P where "P = (\<lambda>m (ys :: string list). memo_facts A D m \<and> set ys \<subseteq> fst ` set m \<and> fst ` set m \<subseteq> set roots)"
  have run: "facts_run A D r m (subtree_facts (Suc (length (pe_bytes E))) E v r m)"
    if "r \<in> set roots" "memo_facts A D m" for r m
    by (rule subtree_facts_run[OF E A D deep[OF that(1)] that(2)])
  have step: "P m' (ys @ [r])" if "P m ys" "r \<in> set roots" "?step m r = Some (Inr m')" for m ys r m'
  proof -
    obtain f where "subtree_facts (Suc (length (pe_bytes E))) E v r m = Some (Inr (m', f))"
      using \<open>?step m r = Some (Inr m')\<close> by (auto simp: result_simps)
    then have f: "memo_facts A D m'" "insert r (fst ` set m) \<subseteq> fst ` set m'"
      "fst ` set m' \<subseteq> fst ` set m \<union> roots_below A D r"
      using run[of r m] \<open>P m ys\<close> \<open>r \<in> set roots\<close> unfolding P_def facts_run_def by blast+
    have m: "set ys \<subseteq> fst ` set m" "fst ` set m \<subseteq> set roots" using \<open>P m ys\<close> by (simp_all add: P_def)
    have "fst ` set m' \<subseteq> set roots"
      by (rule order_trans[OF f(3)]) (use m(2) closed[OF \<open>r \<in> set roots\<close>] in simp)
    moreover have "set (ys @ [r]) \<subseteq> fst ` set m'"
      using f(2) order_trans[OF m(1)] by simp
    ultimately show ?thesis using f(1) unfolding P_def by simp
  qed
  have init: "P [] []" by (simp add: P_def memo_facts_def)
  have ret: "run_fold ?step [] roots \<noteq> None"
  proof (rule run_fold_returns[where P = "\<lambda>m. \<exists>ys. P m ys"])
    show "\<exists>ys. P [] ys" using init by blast
    show "?step m r \<noteq> None" if "\<exists>ys. P m ys" "r \<in> set roots" for m r
      using run[of r m] that unfolding P_def facts_run_def
      by (auto simp: run_bind_def split: option.splits sum.splits)
  qed (use step in blast)
  then show "collect_facts E v roots \<noteq> None"
    unfolding collect_facts_def by (auto simp: run_bind_def split: option.splits sum.splits)
  assume "collect_facts E v roots = Some (Inr facts)"
  then obtain m where m: "run_fold ?step [] roots = Some (Inr m)" and facts: "facts = sort_key vf_root_page_id (map snd m)"
    unfolding collect_facts_def by (auto simp: result_simps)
  have P: "P m roots" by (rule run_fold_invariant[where P = P, OF m init step])
  have key: "vf_root_page_id (snd x) = fst x" if "x \<in> set m" for x
    using P that by (auto simp: P_def memo_facts_def facts_ok_def)
  then have keys: "map vf_root_page_id (map snd m) = map fst m" by (simp cong: map_cong)
  have "distinct (map vf_root_page_id (map snd m))"
    unfolding keys using P by (simp add: P_def memo_facts_def)
  then have "distinct (map vf_root_page_id facts)"
    unfolding facts distinct_map_sort_key .
  moreover have "set (map vf_root_page_id facts) = set roots"
  proof -
    have "set (map vf_root_page_id facts) = set (map vf_root_page_id (map snd m))" by (simp add: facts image_image)
    also have "\<dots> = fst ` set m" unfolding keys by simp
    finally show ?thesis using P unfolding P_def by blast
  qed
  moreover have "\<forall>f\<in>set facts. facts_ok A D (vf_root_page_id f) f"
    using P key by (fastforce simp: facts P_def memo_facts_def)
  ultimately show "set (map vf_root_page_id facts) = set roots \<and> distinct (map vf_root_page_id facts)
      \<and> sorted (map vf_root_page_id facts) \<and> (\<forall>f\<in>set facts. facts_ok A D (vf_root_page_id f) f)"
    by (simp add: facts)
qed

lemma tree_pages_dom:
  assumes "memo_ok E v" "A = pe_auth E" "D = pe_decoded E"
    "sdir_directory_root ` tree_dirs A D pr \<subseteq> dom (vs_entries v)"
  shows "tree_pages A D pr \<subseteq> dom D"
proof
  fix q assume "q \<in> tree_pages A D pr"
  then obtain p r where r: "(dir_edge A D)\<^sup>*\<^sup>* pr (p, r)" "q \<in> radix_pages A D r"
    by (auto simp: tree_pages_def)
  then have "\<lparr>sdir_rel_path = p, sdir_directory_root = r\<rparr> \<in> tree_dirs A D pr" by (auto simp: tree_dirs_def)
  then have "r \<in> dom (vs_entries v)" using assms(4) by force
  then obtain es where "vs_entries v r = Some es" by blast
  then have "radix_denotes A D r es" using assms(1-3) unfolding memo_ok_def by blast
  then show "q \<in> dom D" using radix_denotes_dom r(2) by blast
qed

text \<open>The parts of an accepted validation.\<close>

lemma validate_pages_Inr:
  assumes run: "validate_pages_bounded A C d pages inc mn mb ex = Some (Inr (cl, facts))"
    and keys: "distinct (map fst pages)"
  obtains E v v' where
    "new_bounded (proof_env_of A C pages mn mb ex) = Inr (E, v)"
    "walk_directory (Suc (length pages)) E (scope d) v [] (metadata_root d) {} = Some (Inr v')"
    "canonical_descriptor A C d = Inr (cl_descriptor_bytes cl)" "card (vs_reached v') = length pages"
    "cl_descriptor cl = d" "cl_pages cl = pages" "cl_directories cl = sort_key sdir_rel_path (vs_directories v')"
    "cl_files cl = sort_key sf_rel_path (vs_files v')"
    "inc \<Longrightarrow> collect_facts E v' (sorted_list_of_set (set (map sdir_directory_root (cl_directories cl)))) = Some (Inr facts)"
proof -
  obtain b E v v' where *: "canonical_descriptor A C d = Inr b"
    "new_bounded (proof_env_of A C pages mn mb ex) = Inr (E, v)"
    "walk_directory (Suc (length pages)) E (scope d) v [] (metadata_root d) {} = Some (Inr v')"
    "finish_closure E d b inc v' = Some (Inr (cl, facts))"
    using run by (auto simp: validate_pages_bounded_def run_bind_Inr)
  have "pe_bytes E = pages" using walk_exact(4)[OF *(2) keys *(3)] .
  then show thesis
    by (intro that[OF *(2,3)])
      (use *(1,4) in \<open>auto simp: finish_closure_def Let_def run_bind_Inr split: if_splits\<close>)
qed

lemma closure_exact_of_walk:
  assumes run: "validate_pages_bounded A C d pages inc mn mb ex = Some (Inr (cl, facts))"
    and keys: "distinct (map fst pages)"
  shows "closure_exact A C d pages cl"
proof -
  let ?D = "closure_table C pages" and ?s = "([], metadata_root d)"
  obtain E v v' where v: "new_bounded (proof_env_of A C pages mn mb ex) = Inr (E, v)"
    "walk_directory (Suc (length pages)) E (scope d) v [] (metadata_root d) {} = Some (Inr v')"
    and cnt: "card (vs_reached v') = length pages" and cl: "cl_descriptor cl = d" "cl_pages cl = pages"
    "cl_directories cl = sort_key sdir_rel_path (vs_directories v')" "cl_files cl = sort_key sf_rel_path (vs_files v')"
    by (rule validate_pages_Inr[OF run keys])
  have k: "distinct (map fst (pe_bytes (proof_env_of A C pages mn mb ex)))" using keys by (simp add: proof_env_of_def)
  note nb = new_bounded_Inr[OF v(1) k] and w = walk_exact[OF v(1) keys v(2)]
  have "tree_pages A ?D ?s \<subseteq> dom ?D"
    by (rule tree_pages_dom[OF tally_memo[OF w(9)]]) (simp_all add: w)
  moreover have "dom ?D = fst ` set pages" using nb(3) by (simp add: proof_env_of_def)
  ultimately have "tree_pages A ?D ?s = fst ` set pages"
    using reached_all[OF _ keys, of "tree_pages A ?D ?s"] cnt w(7) by simp
  moreover have "distinct (map sdir_rel_path (cl_directories cl) @ map sf_rel_path (cl_files cl))"
    using w(8) by (simp add: cl distinct_map_sort_key)
  moreover have "\<forall>(pid, b)\<in>set pages. parse_digest (ae_hex_decode A) pid = Inr (page_id C b)"
    using nb(4) by (simp add: proof_env_of_def)
  ultimately show ?thesis
    unfolding closure_exact_def Let_def using w(5,6) by (simp add: cl)
qed

lemma closure_table_finite: "finite (dom (closure_table C pages))" "card (dom (closure_table C pages)) \<le> length pages"
proof -
  have sub: "dom (closure_table C pages) \<subseteq> set (map fst pages)"
    by (force simp: closure_table_def bind_eq_Some_conv dest: map_of_SomeD)
  then show "finite (dom (closure_table C pages))" by (rule finite_subset) simp
  show "card (dom (closure_table C pages)) \<le> length pages"
    using card_mono[OF _ sub] card_length[of "map fst pages"] by simp
qed

lemma tree_roots:
  assumes dirs: "set (vs_directories v) = tree_dirs A D ([], root)"
    and roots: "roots = sorted_list_of_set (set (map sdir_directory_root (sort_key sdir_rel_path (vs_directories v))))"
  shows "set roots = {r. \<exists>p. (dir_edge A D)\<^sup>*\<^sup>* ([], root) (p, r)}"
    and "r \<in> set roots \<Longrightarrow> roots_below A D r \<subseteq> set roots"
proof -
  show *: "set roots = {r. \<exists>p. (dir_edge A D)\<^sup>*\<^sup>* ([], root) (p, r)}"
  proof -
    have "set roots = sdir_directory_root ` set (vs_directories v)" unfolding roots by simp
    then show ?thesis unfolding dirs by (force simp: tree_dirs_def image_iff)
  qed
  assume "r \<in> set roots"
  then obtain p where p: "(dir_edge A D)\<^sup>*\<^sup>* ([], root) (p, r)" using * by blast
  show "roots_below A D r \<subseteq> set roots"
  proof
    fix s assume "s \<in> roots_below A D r"
    then obtain a b where "(dir_edge A D)\<^sup>*\<^sup>* (a, r) (b, s)" by (auto simp: roots_below_def)
    from dir_edge_path[OF this, of p] p show "s \<in> set roots"
      unfolding * by (auto intro: rtranclp_trans)
  qed
qed

lemma walk_facts:
  assumes new: "new_bounded (proof_env_of A C pages mn mb ex) = Inr (E, v)" and keys: "distinct (map fst pages)"
    and walk: "walk_directory (Suc (length pages)) E sc v [] root {} = Some (Inr v')"
    and D: "D = closure_table C pages"
    and roots: "roots = sorted_list_of_set (set (map sdir_directory_root (sort_key sdir_rel_path (vs_directories v'))))"
  shows "collect_facts E v' roots \<noteq> None"
    and "collect_facts E v' roots = Some (Inr facts) \<Longrightarrow>
      set (map vf_root_page_id facts) = {r. \<exists>p. (dir_edge A D)\<^sup>*\<^sup>* ([], root) (p, r)}
      \<and> distinct (map vf_root_page_id facts) \<and> sorted (map vf_root_page_id facts)
      \<and> (\<forall>f\<in>set facts. facts_ok A D (vf_root_page_id f) f)"
proof -
  note w = walk_exact[OF new keys walk]
  have k: "distinct (map fst (pe_bytes (proof_env_of A C pages mn mb ex)))" using keys by (simp add: proof_env_of_def)
  have tv: "tally_ok E sc v" by (rule tally_new[OF new_bounded_Inr(2)[OF new k]])
  have dep: "entries_depth A v' (Suc (length pages)) root" using walk_entries_depth[OF walk tv] w(1) by simp
  note tr = tree_roots[OF w(5) roots]
  have AD: "A = pe_auth E" "D = pe_decoded E" using w D by simp_all
  have deep: "entries_depth A v' (Suc (length (pe_bytes E))) r" if r: "r \<in> set roots" for r
  proof -
    obtain p where p: "(dir_edge A D)\<^sup>*\<^sup>* ([], root) (p, r)" using r unfolding tr(1) D by blast
    show ?thesis
      using entries_depth_below[OF p _ tally_memo[OF w(9)] AD] dep unfolding snd_conv w(4) .
  qed
  have fin: "finite (dom (pe_decoded E))" "card (dom (pe_decoded E)) \<le> length (pe_bytes E)"
    using closure_table_finite by (simp_all add: w)
  have cl: "roots_below A D r \<subseteq> set roots" if "r \<in> set roots" for r using tr(2)[OF that] D by simp
  note c = collect_facts_run[OF tally_memo[OF w(9)] fin AD, where roots = roots]
  show "collect_facts E v' roots \<noteq> None" by (rule c(1)) (rule deep cl, assumption)+
  assume run: "collect_facts E v' roots = Some (Inr facts)"
  have "set (map vf_root_page_id facts) = set roots \<and> distinct (map vf_root_page_id facts)
      \<and> sorted (map vf_root_page_id facts) \<and> (\<forall>f\<in>set facts. facts_ok A D (vf_root_page_id f) f)"
    by (rule c(2)[OF _ _ run]) (rule deep cl, assumption)+
  then show "set (map vf_root_page_id facts) = {r. \<exists>p. (dir_edge A D)\<^sup>*\<^sup>* ([], root) (p, r)}
      \<and> distinct (map vf_root_page_id facts) \<and> sorted (map vf_root_page_id facts)
      \<and> (\<forall>f\<in>set facts. facts_ok A D (vf_root_page_id f) f)"
    unfolding tr(1) D .
qed

lemma validate_pages_returns:
  assumes keys: "distinct (map fst pages)"
  shows "validate_pages_bounded A C d pages inc mn mb ex \<noteq> None"
proof (cases "canonical_descriptor A C d")
  case (Inr b)
  show ?thesis
  proof (cases "new_bounded (proof_env_of A C pages mn mb ex)")
    case new: (Inr a)
    obtain E v where a: "a = (E, v)" by (cases a)
    have new': "new_bounded (proof_env_of A C pages mn mb ex) = Inr (E, v)" using new a by simp
    have k: "distinct (map fst (pe_bytes (proof_env_of A C pages mn mb ex)))" using keys by (simp add: proof_env_of_def)
    note nb = new_bounded_Inr[OF new' k]
    have D: "pe_decoded E = closure_table C pages" using nb(1) by (simp add: proof_env_of_def)
    have "walk_directory (Suc (length pages)) E (scope d) v [] (metadata_root d) {} \<noteq> None"
      by (rule walk_directory_returns[OF _ _ tally_new[OF nb(2)]])
        (use closure_table_finite[of C pages] in \<open>simp_all add: D less_Suc_eq_le\<close>)
    then obtain r where r: "walk_directory (Suc (length pages)) E (scope d) v [] (metadata_root d) {} = Some r" by blast
    show ?thesis
    proof (cases r)
      case ok: (Inr v')
      have "finish_closure E d b inc v' \<noteq> None"
        using walk_facts(1)[OF new' keys r[unfolded ok] refl refl]
        by (auto simp: finish_closure_def Let_def run_bind_def split: option.splits sum.splits)
      then show ?thesis using Inr new' r ok by (simp add: validate_pages_bounded_def del: walk_directory.simps)
    qed (simp add: validate_pages_bounded_def Inr new' r del: walk_directory.simps)
  qed (simp add: validate_pages_bounded_def Inr)
qed (simp add: validate_pages_bounded_def)

lemma sorted_keys_distinct: "sorted_wrt (<) (map fst pages) \<Longrightarrow> distinct (map fst (pages :: (string \<times> bytes) list))"
  by (simp add: strict_sorted_iff)

section \<open>Properties\<close>


definition demo_file_entry :: "byte \<Rightarrow> entry" where
  "demo_file_entry x = \<lparr>en_name = [x], en_kind = Regular, en_size = 7, en_content_id = replicate 32 x, en_child_root = []\<rparr>"

definition demo_dir_entry :: entry where
  "demo_dir_entry = \<lparr>en_name = [0x64], en_kind = Directory_Kind, en_size = 0, en_content_id = [], en_child_root = replicate 32 0x22\<rparr>"

definition demo_metapage :: metapage_codec where
  "demo_metapage = \<lparr>RADIX_MAX_DEPTH = 255, page_id = (\<lambda>b. replicate 32 (hd b)),
     Page_decode = (\<lambda>b. if b = [0x11] then Inr (Leaf [demo_file_entry 0x61, demo_dir_entry])
        else if b = [0x22] then Inr (Leaf [demo_file_entry 0x62]) else Inl ''unknown page''),
     Page_build = (\<lambda>es. if length es = 2 then Inr [0x11] else Inr [0x22]),
     Entry_decode = (\<lambda>_ n. Inr n),
     Serving_decode = (\<lambda>b. if b = [5] then Inr \<lparr>instance_uuid = [1], sd_namespace_view_id = replicate 32 0x55,
        sd_scope = ''/p'', sd_metadata_root = replicate 32 0x11\<rparr> else Inl ''unknown descriptor''),
     Serving_encode = (\<lambda>s. if s = \<lparr>instance_uuid = [1], sd_namespace_view_id = replicate 32 0x55, sd_scope = ''/p'',
        sd_metadata_root = replicate 32 0x11\<rparr> then Inr [5] else Inl ''other descriptor'')\<rparr>"

definition demo_key :: "byte \<Rightarrow> string" where
  "demo_key x = digest_text (replicate 32 x)"

definition demo_closure_pages :: "(string \<times> bytes) list" where
  "demo_closure_pages = [(demo_key 0x11, [0x11]), (demo_key 0x22, [0x22])]"

definition demo_closure :: validated_closure where
  "demo_closure = \<lparr>cl_descriptor = demo_descriptor, cl_descriptor_bytes = [5], cl_pages = demo_closure_pages,
     cl_directories = [\<lparr>sdir_rel_path = [], sdir_directory_root = demo_key 0x11\<rparr>,
       \<lparr>sdir_rel_path = ''d'', sdir_directory_root = demo_key 0x22\<rparr>],
     cl_files = [\<lparr>sf_rel_path = ''a'', sf_fs_kind = ''regular'', sf_size = 7, sf_content_digest = demo_key 0x61\<rparr>,
       \<lparr>sf_rel_path = ''d/b'', sf_fs_kind = ''regular'', sf_size = 7, sf_content_digest = demo_key 0x62\<rparr>]\<rparr>"

lemma demo_key_simps:
  "parse_digest (ae_hex_decode demo_auth) (demo_key x) = Inr (replicate 32 x)"
  "closure_digest demo_auth (replicate 32 x) = demo_key x" "(demo_key x = demo_key y) = (x = y)"
proof -
  show "parse_digest (ae_hex_decode demo_auth) (demo_key x) = Inr (replicate 32 x)"
    unfolding demo_key_def by (subst parse_digest_Inr_iff) (simp_all add: demo_auth_def hex_decoder_def)
  show "closure_digest demo_auth (replicate 32 x) = demo_key x"
    by (simp add: closure_digest_def demo_key_def digest_text_def demo_auth_def)
  have "replicate 32 x = replicate 32 y \<longleftrightarrow> x = y" by (simp add: replicate_eq_replicate)
  then show "(demo_key x = demo_key y) = (x = y)"
    unfolding demo_key_def digest_text_def by (auto dest: hex32_inject)
qed

lemma demo_descriptor_fields:
  "namespace_view_id demo_descriptor = demo_key 0x55" "metadata_root demo_descriptor = demo_key 0x11"
  "snapshot_id demo_descriptor = demo_key 0x11" "scope demo_descriptor = ''/p''" "instance_id demo_descriptor = ''uuid''"
  by (simp_all add: demo_descriptor_def demo_key_def digest_text_def)

lemma demo_canonical: "canonical_descriptor demo_auth demo_metapage demo_descriptor = Inr [5]"
proof -
  have profile: "schema_version demo_descriptor = SCHEMA_VERSION demo_auth" "metadata_codec demo_descriptor = METADATA_CODEC demo_auth"
    "materialization_policy demo_descriptor = MATERIALIZATION_POLICY_GIT_RAW_V1 demo_auth"
    "fs_semantics demo_descriptor = FS_SEMANTICS_LINUX_CODE_V1 demo_auth"
    "access_projection demo_descriptor = ACCESS_PROJECTION_EXACT_FULL demo_auth"
    by (simp_all add: demo_descriptor_def demo_auth_def)
  have path: "validate_absolute_path (ae_grammar demo_auth) ''/p'' = Inr ()" by code_simp
  have uuid: "ae_uuid_parse demo_auth ''uuid'' = Some [1]" "\<not> ae_uuid_is_nil demo_auth [1]" "ae_uuid_text demo_auth [1] = ''uuid''"
    "ae_serving_snapshot_id demo_auth s = Inr (take 32 (sd_metadata_root s @ replicate 32 0))" for s
    by (simp_all add: demo_auth_def)
  show ?thesis
    unfolding canonical_descriptor_def profile demo_descriptor_fields
    by (simp add: path uuid demo_key_simps Let_def demo_metapage_def ok_or_def)
qed

lemma demo_paths:
  "validate_composed_path (ae_grammar demo_auth) ''/p'' [] = Inr ()"
  "validate_composed_path (ae_grammar demo_auth) ''/p'' ''a'' = Inr ()"
  "validate_composed_path (ae_grammar demo_auth) ''/p'' ''d'' = Inr ()"
  "validate_composed_path (ae_grammar demo_auth) ''/p'' ''d/b'' = Inr ()"
  by code_simp+

lemma demo_new:
  "new_bounded (proof_env_of demo_auth demo_metapage demo_closure_pages u64_MAX u64_MAX (\<lambda>_. False))
    = Inr ((proof_env_of demo_auth demo_metapage demo_closure_pages u64_MAX u64_MAX (\<lambda>_. False))
        \<lparr>pe_decoded := [demo_key 0x11 \<mapsto> Leaf [demo_file_entry 0x61, demo_dir_entry], demo_key 0x22 \<mapsto> Leaf [demo_file_entry 0x62]]\<rparr>,
        proof_state_new\<lparr>vs_logical_bytes := 1056, vs_readings := 2\<rparr>)"
  unfolding new_bounded_def proof_env_of_def demo_closure_pages_def
  by (simp add: load_page_def admit_allocation_def check_deadline_def proof_state_new_def checked_add_def
      saturating_add_def saturating_mul_def u64_MAX_def demo_key_simps demo_metapage_def decode_page_def ok_or_def)

definition demo_proof :: proof_env where
  "demo_proof = (proof_env_of demo_auth demo_metapage demo_closure_pages u64_MAX u64_MAX (\<lambda>_. False))
     \<lparr>pe_decoded := [demo_key 0x11 \<mapsto> Leaf [demo_file_entry 0x61, demo_dir_entry], demo_key 0x22 \<mapsto> Leaf [demo_file_entry 0x62]]\<rparr>"

lemma demo_proof_fields:
  "pe_auth demo_proof = demo_auth" "pe_codec demo_proof = demo_metapage" "pe_bytes demo_proof = demo_closure_pages"
  "pe_decoded demo_proof (demo_key 0x11) = Some (Leaf [demo_file_entry 0x61, demo_dir_entry])"
  "pe_decoded demo_proof (demo_key 0x22) = Some (Leaf [demo_file_entry 0x62])"
  "pe_max_radix_entries demo_proof = u64_MAX" "pe_max_logical_entries demo_proof = u64_MAX"
  "map_of demo_closure_pages (demo_key 0x11) = Some [0x11]" "map_of demo_closure_pages (demo_key 0x22) = Some [0x22]"
  by (simp_all add: demo_proof_def proof_env_of_def demo_closure_pages_def demo_key_simps)

lemma demo_charge:
  "check_deadline demo_proof v = Inr (v\<lparr>vs_readings := Suc (vs_readings v)\<rparr>)"
  "vs_logical_bytes v + n \<le> u64_MAX \<Longrightarrow> admit_allocation demo_proof v n
    = Inr (v\<lparr>vs_logical_bytes := vs_logical_bytes v + n, vs_readings := Suc (vs_readings v)\<rparr>)"
proof -
  show c: "check_deadline demo_proof v = Inr (v\<lparr>vs_readings := Suc (vs_readings v)\<rparr>)" for v
    by (simp add: check_deadline_def demo_proof_def proof_env_of_def)
  assume "vs_logical_bytes v + n \<le> u64_MAX"
  then show "admit_allocation demo_proof v n
    = Inr (v\<lparr>vs_logical_bytes := vs_logical_bytes v + n, vs_readings := Suc (vs_readings v)\<rparr>)"
    unfolding admit_allocation_def c by (simp add: checked_add_def ok_or_def demo_proof_def proof_env_of_def)
qed

lemma demo_entry_fields:
  "en_name (demo_file_entry x) = [x]" "en_kind (demo_file_entry x) = Regular" "en_size (demo_file_entry x) = 7"
  "en_content_id (demo_file_entry x) = replicate 32 x" "en_name demo_dir_entry = [0x64]"
  "en_kind demo_dir_entry = Directory_Kind" "en_child_root demo_dir_entry = replicate 32 0x22"
  by (simp_all add: demo_file_entry_def demo_dir_entry_def)

lemma demo_names: "from_utf8 [0x61] = Some ''a''" "from_utf8 [0x62] = Some ''b''" "from_utf8 [0x64] = Some ''d''"
  by code_simp+

lemma demo_sort: "sort_key en_name [demo_file_entry 0x61, demo_dir_entry] = [demo_file_entry 0x61, demo_dir_entry]"
  "sort_key en_name [demo_file_entry 0x62] = [demo_file_entry 0x62]"
  by (simp_all add: demo_entry_fields)

lemma demo_build:
  "Page_build demo_metapage [a, b] = Inr [0x11]" "Page_build demo_metapage [a] = Inr [0x22]" "RADIX_MAX_DEPTH demo_metapage = 255"
  by (simp_all add: demo_metapage_def)

lemma demo_radix:
  assumes "vs_logical_bytes v \<le> 10000"
  shows "vs_entries v (demo_key 0x22) = None \<Longrightarrow> radix_entries demo_proof v (demo_key 0x22) 0 {}
    = Inr (v\<lparr>vs_entries := (vs_entries v)(demo_key 0x22 \<mapsto> [demo_file_entry 0x62]), vs_reached := insert (demo_key 0x22) (vs_reached v),
        vs_logical_bytes := vs_logical_bytes v + 1288, vs_readings := vs_readings v + 3\<rparr>, [demo_file_entry 0x62])"
    and "vs_entries v (demo_key 0x11) = None \<Longrightarrow> radix_entries demo_proof v (demo_key 0x11) 0 {}
    = Inr (v\<lparr>vs_entries := (vs_entries v)(demo_key 0x11 \<mapsto> [demo_file_entry 0x61, demo_dir_entry]),
        vs_reached := insert (demo_key 0x11) (vs_reached v),
        vs_logical_bytes := vs_logical_bytes v + 2316, vs_readings := vs_readings v + 3\<rparr>, [demo_file_entry 0x61, demo_dir_entry])"
proof -
  have big: "n \<le> 50000 \<Longrightarrow> n \<le> u64_MAX" for n by (simp add: u64_MAX_def)
  have alloc: "entries_allocation s [demo_file_entry 0x62] = Inr 1028"
    "entries_allocation s [demo_file_entry 0x61, demo_dir_entry] = Inr 2056" for s
    by (simp_all add: entries_allocation_def demo_entry_fields saturating_add_def saturating_mul_def u64_MAX_def checked_add_def ok_or_def)
  have pos: "0 < u64_MAX" "\<not> u64_MAX < Suc (Suc 0)" by (simp_all add: u64_MAX_def)
  have small: "saturating_add (saturating_mul (Suc 0) 4) 256 = 260" by code_simp
  note defs = demo_charge enter_radix_def finish_radix_def Let_def demo_proof_fields alloc demo_build demo_sort big small pos ok_or_def
  show "vs_entries v (demo_key 0x22) = None \<Longrightarrow> radix_entries demo_proof v (demo_key 0x22) 0 {}
    = Inr (v\<lparr>vs_entries := (vs_entries v)(demo_key 0x22 \<mapsto> [demo_file_entry 0x62]), vs_reached := insert (demo_key 0x22) (vs_reached v),
        vs_logical_bytes := vs_logical_bytes v + 1288, vs_readings := vs_readings v + 3\<rparr>, [demo_file_entry 0x62])"
    using assms by (subst radix_entries.simps) (simp add: defs del: sort_key_simps)
  show "vs_entries v (demo_key 0x11) = None \<Longrightarrow> radix_entries demo_proof v (demo_key 0x11) 0 {}
    = Inr (v\<lparr>vs_entries := (vs_entries v)(demo_key 0x11 \<mapsto> [demo_file_entry 0x61, demo_dir_entry]),
        vs_reached := insert (demo_key 0x11) (vs_reached v),
        vs_logical_bytes := vs_logical_bytes v + 2316, vs_readings := vs_readings v + 3\<rparr>, [demo_file_entry 0x61, demo_dir_entry])"
    using assms by (subst radix_entries.simps) (simp add: defs del: sort_key_simps)
qed

lemma demo_admit_path:
  assumes "vs_logical_bytes v \<le> 10000" "card (vs_paths v) \<le> 100" "length p \<le> 100"
  shows "admit_logical_path demo_proof v p
    = Inr (v\<lparr>vs_logical_bytes := vs_logical_bytes v + (4 * length p + 512), vs_readings := vs_readings v + 2\<rparr>)"
proof -
  have "saturating_add (saturating_mul (length p) 4) 512 = 4 * length p + 512" "4 * length p + (vs_logical_bytes v + 512) \<le> u64_MAX"
    "\<not> u64_MAX \<le> card (vs_paths v)"
    using assms by (simp_all add: saturating_add_def saturating_mul_def u64_MAX_def)
  then show ?thesis
    by (simp add: admit_logical_path_def demo_charge demo_proof_fields add.commute add.left_commute)
qed

definition demo_final :: proof_state where
  "demo_final = \<lparr>vs_entries = [demo_key 0x11 \<mapsto> [demo_file_entry 0x61, demo_dir_entry], demo_key 0x22 \<mapsto> [demo_file_entry 0x62]],
     vs_reached = {demo_key 0x11, demo_key 0x22}, vs_paths = {[], ''a'', ''d'', ''d/b''},
     vs_content_sizes = [demo_key 0x61 \<mapsto> 7, demo_key 0x62 \<mapsto> 7], vs_directories = cl_directories demo_closure,
     vs_files = cl_files demo_closure, vs_logical_bytes = 6728, vs_readings = 16\<rparr>"

lemma demo_walk:
  "walk_directory 3 demo_proof ''/p'' (proof_state_new\<lparr>vs_logical_bytes := 1056, vs_readings := 2\<rparr>) [] (demo_key 0x11) {}
    = Some (Inr demo_final)"
proof -
  have size: "\<not> MAX_FILE_SIZE < 7" by (simp add: MAX_FILE_SIZE_def)
  have "walk_directory (Suc (Suc fuel)) demo_proof ''/p'' (proof_state_new\<lparr>vs_logical_bytes := 1056, vs_readings := 2\<rparr>) [] (demo_key 0x11) {}
    = Some (Inr demo_final)" for fuel
    by (simp add: open_directory_def demo_admit_path demo_proof_fields demo_paths demo_radix entry_path_def demo_names demo_entry_fields
        join_path_def Let_def ok_or_def add_file_def size demo_key_simps proof_state_new_def entry_file_def kind_text_def
        demo_final_def demo_closure_def insert_commute)
  from this[of 1] show ?thesis by (simp add: numeral_3_eq_3)
qed

definition demo_facts :: "verified_subtree_facts list" where
  "demo_facts = [\<lparr>vf_root_page_id = demo_key 0x11, vf_page_ids = [demo_key 0x11, demo_key 0x22],
     vf_files = cl_files demo_closure, vf_total_entries = 3\<rparr>,
     \<lparr>vf_root_page_id = demo_key 0x22, vf_page_ids = [demo_key 0x22],
      vf_files = [\<lparr>sf_rel_path = ''b'', sf_fs_kind = ''regular'', sf_size = 7, sf_content_digest = demo_key 0x62\<rparr>],
      vf_total_entries = 1\<rparr>]"

lemma demo_key_less: "demo_key 0x11 < demo_key 0x22" "sorted_list_of_set {demo_key 0x11, demo_key 0x22} = [demo_key 0x11, demo_key 0x22]"
proof -
  have r: "replicate 32 x = x # replicate 31 x" for x :: byte by (simp add: numeral_eq_Suc)
  have d: "hex_digit 1 < hex_digit 2" by code_simp
  show less: "demo_key 0x11 < demo_key 0x22"
    using d unfolding demo_key_def digest_text_def r by simp
  then show "sorted_list_of_set {demo_key 0x11, demo_key 0x22} = [demo_key 0x11, demo_key 0x22]"
    using sorted_list_of_set_unique[of "{demo_key 0x11, demo_key 0x22}" "[demo_key 0x11, demo_key 0x22]"] by simp
qed

lemma demo_collect: "collect_facts demo_proof demo_final [demo_key 0x11, demo_key 0x22] = Some (Inr demo_facts)"
proof -
  have ids: "radix_page_ids (Suc n) demo_proof (demo_key 0x11) {} = Some {demo_key 0x11}"
    "radix_page_ids (Suc n) demo_proof (demo_key 0x22) {} = Some {demo_key 0x22}" for n
    by (simp_all add: demo_proof_fields)
  have entries: "vs_entries demo_final (demo_key 0x11) = Some [demo_file_entry 0x61, demo_dir_entry]"
    "vs_entries demo_final (demo_key 0x22) = Some [demo_file_entry 0x62]"
    by (simp_all add: demo_final_def demo_key_simps)
  have n: "count_entries 0 (Suc 0) = Inr 1" "count_entries (Suc 0) (Suc 0) = Inr 2" "count_entries 2 (Suc 0) = Inr 3" by code_simp+
  have len: "Suc (length (pe_bytes demo_proof)) = Suc (Suc (Suc 0))" by (simp add: demo_proof_fields demo_closure_pages_def)
  show ?thesis
    unfolding collect_facts_def len
    by (simp add: ids entries n demo_entry_fields demo_names ok_or_def add_leaf_fact_def add_child_facts_def entry_file_def
        seal_facts_def demo_proof_fields demo_key_simps kind_text_def Let_def demo_facts_def demo_closure_def
        demo_key_less demo_key_less(1)[THEN less_imp_le] demo_key_less(1)[folded not_le] insort_key.simps
        del: radix_page_ids.simps)
qed

lemma demo_finish: "finish_closure demo_proof demo_descriptor [5] True demo_final = Some (Inr (demo_closure, demo_facts))"
proof -
    have "card (vs_reached demo_final) = length (pe_bytes demo_proof)"
      by (simp add: demo_final_def demo_proof_fields demo_closure_pages_def demo_key_simps)
    moreover have "sort_key sdir_rel_path (vs_directories demo_final) = cl_directories demo_closure"
      "sort_key sf_rel_path (vs_files demo_final) = cl_files demo_closure"
      by (simp_all add: demo_final_def demo_closure_def)
    moreover have "sorted_list_of_set (set (map sdir_directory_root (cl_directories demo_closure))) = [demo_key 0x11, demo_key 0x22]"
      using demo_key_less(2) by (simp add: demo_closure_def)
    ultimately show ?thesis
      unfolding finish_closure_def
      by (simp add: Let_def demo_collect) (simp add: demo_closure_def demo_proof_fields)
qed

lemma demo_length: "Suc (length demo_closure_pages) = 3"
  by (simp add: demo_closure_pages_def)

lemma demo_validate:
  "validate_pages_bounded demo_auth demo_metapage demo_descriptor demo_closure_pages True u64_MAX u64_MAX (\<lambda>_. False)
    = Some (Inr (demo_closure, demo_facts))"
  unfolding validate_pages_bounded_def demo_canonical demo_new demo_proof_def[symmetric] demo_length demo_descriptor_fields
  by (simp add: demo_walk demo_finish del: walk_directory.simps)

lemma rebase_join: "p \<noteq> [] \<or> name \<noteq> [] \<Longrightarrow> join_path p (name @ ''/'' @ x) = join_path (join_path p name) x"
  by (auto simp: join_path_def)

definition rebase :: "string \<Rightarrow> snapshot_file \<Rightarrow> snapshot_file" where
  "rebase path f = f\<lparr>sf_rel_path := join_path path (sf_rel_path f)\<rparr>"

definition named_entries :: "auth_env \<Rightarrow> (string \<Rightarrow> page option) \<Rightarrow> string \<Rightarrow> bool" where
  "named_entries A D root \<longleftrightarrow> (\<forall>es e. radix_denotes A D root es \<longrightarrow> e \<in> set es \<longrightarrow> from_utf8 (en_name e) \<noteq> Some [])"

lemma below_file_tree:
  assumes "below_file A D root g" "path = [] \<Longrightarrow> named_entries A D root"
  shows "rebase path g \<in> tree_files A D (path, root)"
  using assms
proof (induction arbitrary: path rule: below_file.induct)
  case (below_leaf root es e name)
  have "file_edge A D (path, root) (entry_file A (join_path path name) e)"
    by (rule file_edge.intros) (use below_leaf in auto)
  then show ?case
    unfolding tree_files_def by (auto simp: rebase_def entry_file_def)
next
  case (below_dir root es e name f)
  let ?child = "(join_path path name, closure_digest A (en_child_root e))"
  have ne: "path \<noteq> [] \<or> name \<noteq> []"
    using below_dir(1,2,4,7) by (auto simp: named_entries_def)
  then have "rebase (fst ?child) f \<in> tree_files A D ?child"
    by (simp, intro below_dir(6)) (auto simp: join_path_def split: if_splits)
  moreover have "dir_edge A D (path, root) ?child"
    by (rule dir_edge.intros) (use below_dir in auto)
  moreover have "rebase path (f\<lparr>sf_rel_path := name @ ''/'' @ sf_rel_path f\<rparr>) = rebase (fst ?child) f"
    using rebase_join[OF ne, of "sf_rel_path f"] by (simp add: rebase_def)
  ultimately show ?case
    unfolding tree_files_def by (auto intro: converse_rtranclp_into_rtranclp)
qed

lemma tree_file_below:
  assumes "(dir_edge A D)\<^sup>*\<^sup>* pr d" "file_edge A D d f" "fst pr = [] \<Longrightarrow> named_entries A D (snd pr)"
  shows "\<exists>g. below_file A D (snd pr) g \<and> f = rebase (fst pr) g"
  using assms
proof (induction rule: converse_rtranclp_induct)
  case base
  from base(1) show ?case
  proof cases
    case (1 root es e name path)
    then have "below_file A D root (entry_file A name e)" by (auto intro: below_leaf)
    then show ?thesis using 1 by (intro exI[of _ "entry_file A name e"]) (simp add: rebase_def entry_file_def)
  qed
next
  case (step y z)
  from step.hyps(1) obtain root es e name path where e: "y = (path, root)"
    "z = (join_path path name, closure_digest A (en_child_root e))"
    "radix_denotes A D root es" "e \<in> set es" "en_kind e = Directory_Kind" "from_utf8 (en_name e) = Some name"
    by cases blast
  have ne: "path \<noteq> [] \<or> name \<noteq> []" using step.prems(2) e by (auto simp: named_entries_def)
  then have "fst z = [] \<Longrightarrow> named_entries A D (snd z)" by (auto simp: e(2) join_path_def split: if_splits)
  from step.IH[OF step.prems(1) this] obtain g where g: "below_file A D (snd z) g" "f = rebase (fst z) g" by blast
  let ?g = "g\<lparr>sf_rel_path := name @ ''/'' @ sf_rel_path g\<rparr>"
  have "below_file A D (snd y) ?g" using below_dir[OF e(3-6)] g(1) by (simp add: e(1,2))
  moreover have "f = rebase (fst y) ?g" using g(2) rebase_join[OF ne, of "sf_rel_path g"] by (simp add: rebase_def e(1,2))
  ultimately show ?case by blast
qed

lemma tree_files_rebase:
  assumes "path = [] \<Longrightarrow> named_entries A D root"
  shows "tree_files A D (path, root) = rebase path ` {g. below_file A D root g}"
proof (intro equalityI subsetI)
  fix f assume "f \<in> tree_files A D (path, root)"
  then show "f \<in> rebase path ` {g. below_file A D root g}"
    using tree_file_below[of A D "(path, root)" _ f] assms unfolding tree_files_def by force
qed (use below_file_tree[of A D root _ path] assms in blast)

lemma no_self_entry:
  assumes "memo_ok E v" "A = pe_auth E" "D = pe_decoded E" "radix_denotes A D root es" "e \<in> set es"
    "en_kind e = Directory_Kind" "closure_digest A (en_child_root e) = root"
  shows "\<not> entries_depth A v n root"
proof (induction n)
  case (Suc n)
  show ?case
  proof
    assume d: "entries_depth A v (Suc n) root"
    then obtain es' where es': "vs_entries v root = Some es'" by (auto split: option.splits)
    then have "radix_denotes A D root es'" using assms(1-3) unfolding memo_ok_def by blast
    then have "es' = es" using assms(4) radix_denotes_unique by blast
    then have "entries_depth A v n root" using d es' assms(5-7) by auto
    with Suc show False by simp
  qed
qed simp

lemma closure_named_entries:
  assumes dep: "entries_depth A v n root" and memo: "memo_ok E v" and AD: "A = pe_auth E" "D = pe_decoded E"
    and dirs: "set (vs_directories v) = tree_dirs A D ([], root)" and files: "set (vs_files v) = tree_files A D ([], root)"
    and dist: "distinct (map sdir_rel_path (vs_directories v) @ map sf_rel_path (vs_files v))"
    and r: "(dir_edge A D)\<^sup>*\<^sup>* ([], root) ([], r)"
  shows "named_entries A D r"
proof -
  have top: "s = root" if "(dir_edge A D)\<^sup>*\<^sup>* ([], root) ([], s)" for s
  proof -
    have mem: "\<lparr>sdir_rel_path = [], sdir_directory_root = s\<rparr> \<in> set (vs_directories v)"
      "\<lparr>sdir_rel_path = [], sdir_directory_root = root\<rparr> \<in> set (vs_directories v)"
      unfolding dirs tree_dirs_def using that by auto
    have "inj_on sdir_rel_path (set (vs_directories v))" using dist by (simp add: distinct_map)
    then have "\<lparr>sdir_rel_path = [], sdir_directory_root = s\<rparr> = \<lparr>sdir_rel_path = [], sdir_directory_root = root\<rparr>"
      by (rule inj_onD[OF _ _ mem]) simp
    then show ?thesis by simp
  qed
  have "from_utf8 (en_name e) \<noteq> Some []" if e: "radix_denotes A D root es" "e \<in> set es" for es e
  proof
    assume name: "from_utf8 (en_name e) = Some []"
    show False
    proof (cases "en_kind e = Directory_Kind")
      case True
      have "dir_edge A D ([], root) (join_path [] [], closure_digest A (en_child_root e))"
        by (rule dir_edge.intros[OF e True name])
      then have "closure_digest A (en_child_root e) = root" by (intro top) (auto simp: join_path_def)
      then show False using no_self_entry[OF memo AD e True] dep by blast
    next
      case False
      have "file_edge A D ([], root) (entry_file A (join_path [] []) e)"
        by (rule file_edge.intros[OF e False name])
      then have "entry_file A [] e \<in> set (vs_files v)"
        unfolding files tree_files_def by (auto simp: join_path_def)
      moreover have "\<lparr>sdir_rel_path = [], sdir_directory_root = root\<rparr> \<in> set (vs_directories v)"
        unfolding dirs tree_dirs_def by auto
      ultimately show False using dist by (force simp: entry_file_def)
    qed
  qed
  then show ?thesis using top[OF r] by (auto simp: named_entries_def)
qed


text \<open>
  C17: the subtree facts derived with a closure are exact.  There is one fact for the root of every
  directory of the closure and no other; its files, placed below the path of any directory with that root,
  are the files of the closure below that directory; its page ids are the pages below it; its total is the
  number of entries below it.
\<close>
theorem subtree_facts_exact:
  assumes "sorted_wrt (<) (map fst pages)" "with_subtree_facts A C d pages = Some (Inr (cl, facts))"
    and "D = closure_table C pages"
  shows "sorted (map vf_root_page_id facts) \<and> distinct (map vf_root_page_id facts)
    \<and> set (map vf_root_page_id facts) = sdir_directory_root ` set (cl_directories cl)
    \<and> (\<forall>dir\<in>set (cl_directories cl). \<forall>f\<in>set facts. vf_root_page_id f = sdir_directory_root dir \<longrightarrow>
         rebase (sdir_rel_path dir) ` set (vf_files f) = tree_files A D (sdir_rel_path dir, sdir_directory_root dir)
         \<and> rebase (sdir_rel_path dir) ` set (vf_files f) \<subseteq> set (cl_files cl)
         \<and> set (vf_page_ids f) = tree_pages A D (sdir_rel_path dir, sdir_directory_root dir)
         \<and> below_count A D (sdir_directory_root dir) (vf_total_entries f))"
proof -
  let ?s = "([], metadata_root d)"
  note keys = sorted_keys_distinct[OF assms(1)]
  obtain E v v' where v: "new_bounded (proof_env_of A C pages u64_MAX u64_MAX (\<lambda>_. False)) = Inr (E, v)"
    "walk_directory (Suc (length pages)) E (scope d) v [] (metadata_root d) {} = Some (Inr v')"
    and cl: "cl_directories cl = sort_key sdir_rel_path (vs_directories v')" "cl_files cl = sort_key sf_rel_path (vs_files v')"
    and run: "collect_facts E v' (sorted_list_of_set (set (map sdir_directory_root (cl_directories cl)))) = Some (Inr facts)"
    by (rule validate_pages_Inr[OF assms(2)[unfolded with_subtree_facts_def] keys]) (rule that, assumption+, simp)
  have k: "distinct (map fst (pe_bytes (proof_env_of A C pages u64_MAX u64_MAX (\<lambda>_. False))))"
    using keys by (simp add: proof_env_of_def)
  note w = walk_exact[OF v(1) keys v(2)]
  note wd = w(5)[folded assms(3)] and wf = w(6)[folded assms(3)]
  have AD: "A = pe_auth E" "D = pe_decoded E" using w(1,3) assms(3) by simp_all
  note f = walk_facts(2)[OF v(1) keys v(2) assms(3) refl run[unfolded cl(1)]]
  have dep: "entries_depth A v' (Suc (length pages)) (metadata_root d)"
    using walk_entries_depth[OF v(2) tally_new[OF new_bounded_Inr(2)[OF v(1) k]]] w(1) by simp
  have roots: "set (map vf_root_page_id facts) = sdir_directory_root ` set (cl_directories cl)"
    using f by (force simp: cl(1) wd tree_dirs_def image_iff)
  have each: "rebase (sdir_rel_path dir) ` set (vf_files g) = tree_files A D (sdir_rel_path dir, sdir_directory_root dir)
         \<and> rebase (sdir_rel_path dir) ` set (vf_files g) \<subseteq> set (cl_files cl)
         \<and> set (vf_page_ids g) = tree_pages A D (sdir_rel_path dir, sdir_directory_root dir)
         \<and> below_count A D (sdir_directory_root dir) (vf_total_entries g)"
    if g: "dir \<in> set (cl_directories cl)" "g \<in> set facts" "vf_root_page_id g = sdir_directory_root dir" for dir g
  proof -
    obtain p r where pr: "dir = \<lparr>sdir_rel_path = p, sdir_directory_root = r\<rparr>" "(dir_edge A D)\<^sup>*\<^sup>* ?s (p, r)"
      using g(1) by (auto simp: cl(1) wd tree_dirs_def)
    have ok: "facts_ok A D r g" using f g(2,3) pr(1) by auto
    have tf: "tree_files A D (p, r) = rebase p ` {x. below_file A D r x}"
      by (rule tree_files_rebase) (use closure_named_entries[OF dep tally_memo[OF w(9)] AD wd wf w(8)] pr(2) in blast)
    have "tree_files A D (p, r) \<subseteq> set (cl_files cl)"
      unfolding cl(2) set_sort wf tree_files_def using rtranclp_trans[OF pr(2)] by blast
    then show ?thesis
      using ok tf tree_pages_path[of A D p r "[]"] by (simp add: pr(1) facts_ok_def)
  qed
  show ?thesis using f roots each by blast
qed

theorem subtree_facts_exact_witness:
  "with_subtree_facts demo_auth demo_metapage demo_descriptor demo_closure_pages = Some (Inr (demo_closure, demo_facts))
    \<and> set (map vf_root_page_id demo_facts) = sdir_directory_root ` set (cl_directories demo_closure)"
proof -
  have "sorted_wrt (<) (map fst demo_closure_pages)"
    using demo_key_less(1) by (simp add: demo_closure_pages_def)
  moreover have run: "with_subtree_facts demo_auth demo_metapage demo_descriptor demo_closure_pages = Some (Inr (demo_closure, demo_facts))"
    by (simp add: with_subtree_facts_def demo_validate)
  ultimately show ?thesis
    using subtree_facts_exact[OF _ run refl] by blast
qed

section \<open>A root identifies its closure\<close>

definition pages_agree :: "(string \<times> bytes) list \<Rightarrow> (string \<times> bytes) list \<Rightarrow> bool" where
  "pages_agree ps qs \<longleftrightarrow> (\<forall>pid b c. (pid, b) \<in> set ps \<longrightarrow> (pid, c) \<in> set qs \<longrightarrow> b = c)"

lemma pages_agree_table:
  assumes "pages_agree ps qs" "distinct (map fst ps)" "distinct (map fst qs)" "q \<in> fst ` set ps" "q \<in> fst ` set qs"
  shows "closure_table C ps q = closure_table C qs q"
proof -
  obtain b c where bc: "(q, b) \<in> set ps" "(q, c) \<in> set qs" using assms(4,5) by auto
  then have "map_of ps q = Some b" "map_of qs q = Some c" "b = c"
    using assms(1-3) by (simp_all add: pages_agree_def)
  then show ?thesis by (simp add: closure_table_def)
qed

lemma radix_transfer:
  assumes "radix_denotes A D r es" "\<And>q. q \<in> radix_pages A D r \<Longrightarrow> q \<in> radix_pages A D' r \<Longrightarrow> D q = D' q"
  shows "radix_denotes A D' r es"
  using assms
proof (induction rule: radix_denotes.induct)
  case (denotes_leaf pid es)
  then show ?case by (intro radix_denotes.denotes_leaf) auto
next
  case (denotes_branch pid t cs ess)
  have D': "D' pid = Some (Branch t cs)" using denotes_branch(1) denotes_branch(3)[of pid] by simp
  have all: "D q = D' q" if "c \<in> set cs" "q \<in> radix_pages A D (closure_digest A (ch_page_id c))"
    "q \<in> radix_pages A D' (closure_digest A (ch_page_id c))" for c q
    using denotes_branch(3) that radix_pages_child[of D, OF denotes_branch(1) that(1), of A]
      radix_pages_child[of D', OF D' that(1), of A] by blast
  have "list_all2 (\<lambda>c es. radix_denotes A D' (closure_digest A (ch_page_id c)) es \<and> length es = ch_subtree_entries c) cs ess"
    by (rule list.rel_mono_strong[OF denotes_branch(2)]) (use all in blast)
  then show ?case by (rule radix_denotes.denotes_branch[of D', OF D'])
qed

lemma radix_pages_transfer:
  assumes "(radix_edge A D)\<^sup>*\<^sup>* r q" "\<And>q. q \<in> radix_pages A D r \<Longrightarrow> q \<in> radix_pages A D' r \<Longrightarrow> D q = D' q"
  shows "(radix_edge A D')\<^sup>*\<^sup>* r q"
  using assms(1)
proof (induction rule: rtranclp_induct)
  case (step y z)
  then have "D y = D' y" using assms(2)[of y] by simp
  moreover obtain t cs c where "D y = Some (Branch t cs)" "c \<in> set cs" "z = closure_digest A (ch_page_id c)"
    using step.hyps(2) by cases blast
  ultimately have "radix_edge A D' y z" using radix_edge.intros[of D' y t cs c A] by simp
  with step.IH show ?case by (rule rtranclp.rtrancl_into_rtrancl)
qed simp

lemma tree_transfer:
  assumes agree: "\<And>q. q \<in> tree_pages A D s \<Longrightarrow> q \<in> tree_pages A D' s \<Longrightarrow> D q = D' q"
  shows "(dir_edge A D)\<^sup>*\<^sup>* s d \<Longrightarrow> (dir_edge A D')\<^sup>*\<^sup>* s d" and "tree_pages A D s \<subseteq> tree_pages A D' s"
proof -
  have here: "D q = D' q" if "(dir_edge A D)\<^sup>*\<^sup>* s d" "(dir_edge A D')\<^sup>*\<^sup>* s d"
    "q \<in> radix_pages A D (snd d)" "q \<in> radix_pages A D' (snd d)" for d q
    by (rule agree; unfold tree_pages_def) (use that in \<open>metis (mono_tags, lifting) mem_Collect_eq prod.collapse\<close>)+
  have dirs: "(dir_edge A D)\<^sup>*\<^sup>* s d \<Longrightarrow> (dir_edge A D')\<^sup>*\<^sup>* s d" for d
  proof (induction rule: rtranclp_induct)
    case (step y z)
    from step.hyps(2) show ?case
    proof cases
      case (1 root es e name path)
      have "radix_denotes A D' root es"
        by (rule radix_transfer[OF 1(3)]) (use here[OF step.hyps(1) step.IH] 1(1) in simp)
      then have "dir_edge A D' y z" unfolding 1(1,2) by (rule dir_edge.intros) (fact 1)+
      with step.IH show ?thesis by (rule rtranclp.rtrancl_into_rtrancl)
    qed
  qed simp
  then show "(dir_edge A D)\<^sup>*\<^sup>* s d \<Longrightarrow> (dir_edge A D')\<^sup>*\<^sup>* s d" .
  show "tree_pages A D s \<subseteq> tree_pages A D' s"
  proof
    fix q assume "q \<in> tree_pages A D s"
    then obtain p r where pr: "(dir_edge A D)\<^sup>*\<^sup>* s (p, r)" "(radix_edge A D)\<^sup>*\<^sup>* r q" by (auto simp: tree_pages_def)
    have "(radix_edge A D')\<^sup>*\<^sup>* r q"
      by (rule radix_pages_transfer[OF pr(2)]) (use here[OF pr(1) dirs[OF pr(1)]] in simp)
    then show "q \<in> tree_pages A D' s" using dirs[OF pr(1)] by (auto simp: tree_pages_def)
  qed
qed

lemma sorted_unique:
  assumes "set xs = set ys" "sorted (map f xs)" "distinct (map f xs)" "sorted (map f ys)" "distinct (map f ys)"
  shows "xs = ys"
  by (rule map_sorted_distinct_set_unique[of f]) (use assms in \<open>auto simp: distinct_map\<close>)

lemma exact_agree:
  assumes c: "closure_exact A C d ps cl" "closure_exact A C e qs cm" and root: "metadata_root d = metadata_root e"
    and s: "sorted_wrt (<) (map fst ps)" "sorted_wrt (<) (map fst qs)" and agree: "pages_agree ps qs"
  shows "cl_pages cl = cl_pages cm \<and> cl_directories cl = cl_directories cm \<and> cl_files cl = cl_files cm"
proof -
  let ?D = "closure_table C ps" and ?D' = "closure_table C qs" and ?s = "([], metadata_root d)"
  have kp: "distinct (map fst ps)" "distinct (map fst qs)" using s by (simp_all add: strict_sorted_iff)
  have pages: "fst ` set ps = tree_pages A ?D ?s" "fst ` set qs = tree_pages A ?D' ?s"
    using c by (simp_all add: closure_exact_def Let_def root)
  have eq: "?D q = ?D' q" if "q \<in> tree_pages A ?D ?s" "q \<in> tree_pages A ?D' ?s" for q
    using pages_agree_table[OF agree kp] that by (simp add: pages)
  have "tree_pages A ?D ?s = tree_pages A ?D' ?s"
    by (intro equalityI tree_transfer(2)) (use eq in \<open>simp_all\<close>)
  then have keys: "fst ` set ps = fst ` set qs" using pages by simp
  have "set ps = set qs"
  proof (intro equalityI subsetI)
    fix x assume x: "x \<in> set ps"
    then have "fst x \<in> fst ` set qs" using keys by blast
    then obtain c where "(fst x, c) \<in> set qs" by force
    then show "x \<in> set qs" using x agree unfolding pages_agree_def by (metis prod.collapse)
  next
    fix x assume x: "x \<in> set qs"
    then have "fst x \<in> fst ` set ps" using keys by blast
    then obtain c where "(fst x, c) \<in> set ps" by force
    then show "x \<in> set ps" using x agree unfolding pages_agree_def by (metis prod.collapse)
  qed
  then have same: "ps = qs"
    by (rule sorted_unique[of _ _ fst]) (use s kp in \<open>simp_all add: strict_sorted_iff\<close>)
  have "cl_directories cl = cl_directories cm"
    by (rule sorted_unique[of _ _ sdir_rel_path]) (use c in \<open>simp_all add: closure_exact_def Let_def root same\<close>)
  moreover have "cl_files cl = cl_files cm"
    by (rule sorted_unique[of _ _ sf_rel_path]) (use c in \<open>simp_all add: closure_exact_def Let_def root same\<close>)
  ultimately show ?thesis using c same by (simp add: closure_exact_def Let_def)
qed

text \<open>
  C12: a metadata root identifies its closure.  Two page sets accepted for descriptors with the same root,
  under whatever limits and clocks, are the same pages, directories and files, unless one id holds two
  different byte strings in the two sets and the page hash maps both to the same value.
\<close>
theorem closure_root_identifies:
  assumes "validate_pages_bounded A C d ps i mn mb ex = Some (Inr (cl, fs))" "sorted_wrt (<) (map fst ps)"
    and "validate_pages_bounded A C e qs i' mn' mb' ex' = Some (Inr (cm, gs))" "sorted_wrt (<) (map fst qs)"
    and "metadata_root d = metadata_root e"
  shows "(cl_pages cl = cl_pages cm \<and> cl_directories cl = cl_directories cm \<and> cl_files cl = cl_files cm)
    \<or> (\<exists>pid b c. (pid, b) \<in> set ps \<and> (pid, c) \<in> set qs \<and> b \<noteq> c \<and> page_id C b = page_id C c)"
proof -
  have ce: "closure_exact A C d ps cl" "closure_exact A C e qs cm"
    using closure_exact_of_walk[OF assms(1)] closure_exact_of_walk[OF assms(3)] assms(2,4) sorted_keys_distinct by blast+
  show ?thesis
  proof (cases "pages_agree ps qs")
    case True
    then show ?thesis using exact_agree[OF ce assms(5,2,4)] by blast
  next
    case False
    then obtain pid b c where bc: "(pid, b) \<in> set ps" "(pid, c) \<in> set qs" "b \<noteq> c" unfolding pages_agree_def by blast
    have "parse_digest (ae_hex_decode A) pid = Inr (page_id C b)" "parse_digest (ae_hex_decode A) pid = Inr (page_id C c)"
      using ce bc unfolding closure_exact_def Let_def by blast+
    then have "page_id C b = page_id C c" by simp
    then show ?thesis using bc by blast
  qed
qed

theorem closure_root_identifies_witness:
  "validate_pages_bounded demo_auth demo_metapage demo_descriptor demo_closure_pages True u64_MAX u64_MAX (\<lambda>_. False)
      = Some (Inr (demo_closure, demo_facts))
    \<and> (cl_files demo_closure = cl_files demo_closure
       \<or> (\<exists>pid b c. (pid, b) \<in> set demo_closure_pages \<and> (pid, c) \<in> set demo_closure_pages \<and> b \<noteq> c
            \<and> page_id demo_metapage b = page_id demo_metapage c))"
proof -
  have "sorted_wrt (<) (map fst demo_closure_pages)"
    using demo_key_less(1) by (simp add: demo_closure_pages_def)
  from closure_root_identifies[OF demo_validate this demo_validate this refl] demo_validate show ?thesis by blast
qed

section \<open>Reopening a closure\<close>

lemma canonical_descriptor_Inr:
  assumes "canonical_descriptor A C d = Inr b"
  obtains inst view root sid where
    "schema_version d = SCHEMA_VERSION A" "metadata_codec d = METADATA_CODEC A"
    "materialization_policy d = MATERIALIZATION_POLICY_GIT_RAW_V1 A" "fs_semantics d = FS_SEMANTICS_LINUX_CODE_V1 A"
    "access_projection d = ACCESS_PROJECTION_EXACT_FULL A" "ae_uuid_text A inst = instance_id d"
    "parse_digest (ae_hex_decode A) (namespace_view_id d) = Inr view" "parse_digest (ae_hex_decode A) (metadata_root d) = Inr root"
    "ae_serving_snapshot_id A \<lparr>instance_uuid = inst, sd_namespace_view_id = view, sd_scope = scope d, sd_metadata_root = root\<rparr> = Inr sid"
    "snapshot_id d = closure_digest A sid"
    "Serving_encode C \<lparr>instance_uuid = inst, sd_namespace_view_id = view, sd_scope = scope d, sd_metadata_root = root\<rparr> = Inr b"
proof -
  have "schema_version d = SCHEMA_VERSION A \<and> metadata_codec d = METADATA_CODEC A
    \<and> materialization_policy d = MATERIALIZATION_POLICY_GIT_RAW_V1 A \<and> fs_semantics d = FS_SEMANTICS_LINUX_CODE_V1 A
    \<and> access_projection d = ACCESS_PROJECTION_EXACT_FULL A"
    using assms by (auto simp: canonical_descriptor_def split: if_splits)
  moreover obtain inst view root sid where "ae_uuid_text A inst = instance_id d"
    "parse_digest (ae_hex_decode A) (namespace_view_id d) = Inr view" "parse_digest (ae_hex_decode A) (metadata_root d) = Inr root"
    "ae_serving_snapshot_id A \<lparr>instance_uuid = inst, sd_namespace_view_id = view, sd_scope = scope d, sd_metadata_root = root\<rparr> = Inr sid"
    "snapshot_id d = closure_digest A sid"
    "Serving_encode C \<lparr>instance_uuid = inst, sd_namespace_view_id = view, sd_scope = scope d, sd_metadata_root = root\<rparr> = Inr b"
    using assms by (auto simp: canonical_descriptor_def result_simps Let_def split: if_splits)
  ultimately show thesis using that by blast
qed

text \<open>
  C28: a validated closure can be reopened.  The canonical descriptor bytes it carries and its pages give
  back the same closure, and it matches the descriptor it was validated for.  The codec decodes what it
  encodes, and the hex crate writes and reads lowercase digits.
\<close>
theorem closure_reopens:
  assumes "from_pages A C d pages = Some (Inr cl)" "hex_decoder (ae_hex_decode A)" "\<And>b. ae_hex_encode A b = hex32 b"
    and "\<And>s b. Serving_encode C s = Inr b \<Longrightarrow> Serving_decode C b = Inr s" "distinct (map fst pages)"
  shows "from_canonical_pages A C (cl_descriptor_bytes cl) pages = Some (Inr cl)
    \<and> matches_descriptor A C cl d = Inr ()"
proof -
  obtain facts where run: "validate_pages_bounded A C d pages False u64_MAX u64_MAX (\<lambda>_. False) = Some (Inr (cl, facts))"
    using assms(1) by (auto simp: from_pages_def run_bind_Inr)
  have can: "canonical_descriptor A C d = Inr (cl_descriptor_bytes cl)"
    using validate_pages_Inr[OF run assms(5)] by blast
  obtain inst view root sid where d: "schema_version d = SCHEMA_VERSION A" "metadata_codec d = METADATA_CODEC A"
    "materialization_policy d = MATERIALIZATION_POLICY_GIT_RAW_V1 A" "fs_semantics d = FS_SEMANTICS_LINUX_CODE_V1 A"
    "access_projection d = ACCESS_PROJECTION_EXACT_FULL A" "ae_uuid_text A inst = instance_id d"
    "parse_digest (ae_hex_decode A) (namespace_view_id d) = Inr view" "parse_digest (ae_hex_decode A) (metadata_root d) = Inr root"
    and sv: "ae_serving_snapshot_id A \<lparr>instance_uuid = inst, sd_namespace_view_id = view, sd_scope = scope d, sd_metadata_root = root\<rparr> = Inr sid"
    "snapshot_id d = closure_digest A sid"
    "Serving_encode C \<lparr>instance_uuid = inst, sd_namespace_view_id = view, sd_scope = scope d, sd_metadata_root = root\<rparr> = Inr (cl_descriptor_bytes cl)"
    by (rule canonical_descriptor_Inr[OF can])
  note dec = assms(4)[OF sv(3)]
  have ids: "closure_digest A view = namespace_view_id d" "closure_digest A root = metadata_root d"
    using d(7,8) parse_digest_Inr_iff[OF assms(2)] by (auto simp: closure_digest_def digest_text_def assms(3))
  have same: "\<lparr>schema_version = SCHEMA_VERSION A, metadata_codec = METADATA_CODEC A, instance_id = ae_uuid_text A inst,
      namespace_view_id = closure_digest A view, scope = scope d,
      materialization_policy = MATERIALIZATION_POLICY_GIT_RAW_V1 A, fs_semantics = FS_SEMANTICS_LINUX_CODE_V1 A,
      access_projection = ACCESS_PROJECTION_EXACT_FULL A, metadata_root = closure_digest A root,
      snapshot_id = closure_digest A sid\<rparr> = d"
    using d(1-6) ids sv(2) by simp
  have "from_canonical_pages A C (cl_descriptor_bytes cl) pages = Some (Inr cl)"
    unfolding from_canonical_pages_def from_canonical_pages_bounded_def dec
    using sv(1) same run by (simp add: Let_def)
  moreover have "matches_descriptor A C cl d = Inr ()"
    by (simp add: matches_descriptor_def can ensure_def)
  ultimately show ?thesis by blast
qed

theorem closure_reopens_witness:
  "from_canonical_pages demo_auth demo_metapage [5] demo_closure_pages = Some (Inr demo_closure)
    \<and> matches_descriptor demo_auth demo_metapage demo_closure demo_descriptor = Inr ()"
proof -
  have fin: "finish_closure demo_proof demo_descriptor [5] False demo_final = Some (Inr (demo_closure, []))"
    using demo_finish by (auto simp: finish_closure_def Let_def run_bind_Inr split: if_splits)
  have "from_pages demo_auth demo_metapage demo_descriptor demo_closure_pages = Some (Inr demo_closure)"
    unfolding from_pages_def validate_pages_bounded_def demo_canonical demo_new demo_proof_def[symmetric] demo_length demo_descriptor_fields
    by (simp add: demo_walk fin del: walk_directory.simps)
  moreover have "distinct (map fst demo_closure_pages)"
    by (simp add: demo_closure_pages_def demo_key_simps)
  moreover have "Serving_encode demo_metapage s = Inr b \<Longrightarrow> Serving_decode demo_metapage b = Inr s" for s b
    by (auto simp: demo_metapage_def split: if_splits)
  moreover have "ae_hex_encode demo_auth b = hex32 b" for b by (simp add: demo_auth_def)
  ultimately have "from_canonical_pages demo_auth demo_metapage (cl_descriptor_bytes demo_closure) demo_closure_pages = Some (Inr demo_closure)
    \<and> matches_descriptor demo_auth demo_metapage demo_closure demo_descriptor = Inr ()"
    by (intro closure_reopens[OF _ demo_auth_hex(1)])
  then show ?thesis by (simp add: demo_closure_def)
qed

end
