(* ===== verification/Directory_Proof.thy ===== *)
theory Directory_Proof
  imports Frames Closure_Facts Directory_Index "HOL-Library.AList"
begin

text \<open>
  Proving one directory of a fixed snapshot: the membership tokens of \<^verbatim>\<open>snapshot/proven_file.rs\<close> and the
  part of \<^verbatim>\<open>Mst2Fuse::load_directory\<close> (\<^verbatim>\<open>snapshot/fuse.rs\<close>) that collects the radix pages of a directory
  from the local page cache and from the wire.  The cache and the wire are arguments that may answer
  anything; nothing they deliver is trusted before the complete canonical proof.  Lease renewals are
  answered by call number.  The page walk is a loop that may not end, so it is a partial function; it is
  proved to return.
\<close>

section \<open>Membership tokens\<close>

record snapshot_reader =
  rd_auth :: auth_env
  rd_context :: authorized_context
  rd_client :: mst2_client
  rd_advertisement :: capability_advertisement

definition reader_descriptor :: "snapshot_reader \<Rightarrow> descriptor" where
  "reader_descriptor r = ctx_descriptor (rd_context r)"

definition reader_snapshot_id :: "snapshot_reader \<Rightarrow> string" where
  "reader_snapshot_id r = snapshot_id (reader_descriptor r)"

record membership_identity =
  id_domain :: string
  id_epoch :: nat
  id_scope :: string
  id_root :: string
  id_snapshot :: string

definition MembershipIdentity_new :: "snapshot_reader \<Rightarrow> membership_identity" where
  "MembershipIdentity_new r =
    \<lparr>id_domain = ctx_domain (rd_context r), id_epoch = ctx_authorization_epoch (rd_context r),
     id_scope = scope (reader_descriptor r), id_root = metadata_root (reader_descriptor r), id_snapshot = reader_snapshot_id r\<rparr>"

definition validate_identity :: "membership_identity \<Rightarrow> snapshot_reader \<Rightarrow> unit result" where
  "validate_identity self r =
    (if id_domain self \<noteq> ctx_domain (rd_context r) \<or> id_epoch self \<noteq> ctx_authorization_epoch (rd_context r)
        \<or> id_scope self \<noteq> scope (reader_descriptor r) \<or> id_root self \<noteq> metadata_root (reader_descriptor r)
        \<or> id_snapshot self \<noteq> reader_snapshot_id r
     then Inl (closure_integrity ''proven file belongs to a different reader authority or fixed root'')
     else Inr ())"

record proven_file =
  pv_file :: snapshot_file
  pv_identity :: membership_identity

record proven_directory =
  pd_path :: string
  pd_root :: string
  pd_identity :: membership_identity

record proven_entries =
  pn_directory :: proven_directory
  pn_entries :: "entry list"

definition scope_root :: "snapshot_reader \<Rightarrow> proven_directory" where
  "scope_root r = \<lparr>pd_path = [], pd_root = metadata_root (reader_descriptor r), pd_identity = MembershipIdentity_new r\<rparr>"

definition reader_relative_path :: "snapshot_reader \<Rightarrow> string \<Rightarrow> unit result" where
  "reader_relative_path r path = validate_relative_path (ae_grammar (rd_auth r)) (scope (reader_descriptor r)) path"

definition validate_membership :: "proven_directory \<Rightarrow> snapshot_reader \<Rightarrow> unit result" where
  "validate_membership self r =
    rbind (validate_identity (pd_identity self) r) (\<lambda>_. reader_relative_path r (pd_path self))"

definition child_path :: "proven_directory \<Rightarrow> entry \<Rightarrow> string result" where
  "child_path self e =
    rbind (ok_or (from_utf8 (en_name e)) (closure_integrity ''non-UTF-8 MTP2 name'')) (\<lambda>name.
    Inr (join_path (pd_path self) name))"

definition directory_token :: "auth_env \<Rightarrow> proven_entries \<Rightarrow> nat \<Rightarrow> proven_directory result" where
  "directory_token A self index =
    rbind (ok_or (if index < length (pn_entries self) then Some (pn_entries self ! index) else None)
             (closure_integrity ''missing proved entry'')) (\<lambda>e.
    if en_kind e \<noteq> Directory_Kind then Inl (closure_integrity ''proved entry is not a directory'')
    else rbind (child_path (pn_directory self) e) (\<lambda>path.
      Inr \<lparr>pd_path = path, pd_root = closure_digest A (en_child_root e), pd_identity = pd_identity (pn_directory self)\<rparr>))"

definition file_token :: "auth_env \<Rightarrow> proven_entries \<Rightarrow> nat \<Rightarrow> proven_file result" where
  "file_token A self index =
    rbind (ok_or (if index < length (pn_entries self) then Some (pn_entries self ! index) else None)
             (closure_integrity ''missing proved entry'')) (\<lambda>e.
    if en_kind e = Directory_Kind then Inl (closure_integrity ''proved entry is not a file'')
    else rbind (child_path (pn_directory self) e) (\<lambda>path.
      Inr \<lparr>pv_file = entry_file A path e, pv_identity = pd_identity (pn_directory self)\<rparr>))"

section \<open>The environment of a view\<close>

record metadata_proof_limits =
  max_directory_pages :: nat
  max_directory_entries_proof :: nat
  max_cached_nodes :: nat

definition MetadataProofLimits_default :: metadata_proof_limits where
  "MetadataProofLimits_default = \<lparr>max_directory_pages = 4096, max_directory_entries_proof = 262144, max_cached_nodes = 1048576\<rparr>"

text \<open>
  The reader of a view with what it reaches: lease renewals, the optional page cache of the scope, and
  the \<^verbatim>\<open>metadata/pages\<close> request.  Each takes the number of calls made so far.
\<close>

record page_source =
  ps_reader :: snapshot_reader
  ps_codec :: metapage_codec
  ps_lease :: "nat \<Rightarrow> unit result"
  ps_cache :: "(nat \<Rightarrow> string \<Rightarrow> bytes option result) option"
  ps_wire :: "nat \<Rightarrow> metadata_page_item list \<Rightarrow> (bytes \<times> bytes) list result"
  ps_limits :: metadata_proof_limits

definition ensure_lease :: "page_source \<Rightarrow> nat \<Rightarrow> nat result" where
  "ensure_lease S t = rbind (ps_lease S t) (\<lambda>_. Inr (Suc t))"

text \<open>\<^verbatim>\<open>ProvenSnapshotDirectory::verify\<close>.\<close>

definition check_entry :: "snapshot_reader \<Rightarrow> proven_directory \<Rightarrow> nat \<Rightarrow> entry \<Rightarrow> unit result" where
  "check_entry r self largest e =
    rbind (child_path self e) (\<lambda>path.
    rbind (reader_relative_path r path) (\<lambda>_.
    rbind (validate_path (rd_client r) path) (\<lambda>_.
    if largest < en_size e \<or> (en_kind e = Symlink \<and> \<not> (1 \<le> en_size e \<and> en_size e \<le> 4095))
    then Inl (SnapshotError_new LimitExceeded ''lazy directory file size exceeds serving profile'')
    else Inr ())))"

definition verify_membership ::
  "page_source \<Rightarrow> nat \<Rightarrow> proven_directory \<Rightarrow> (string \<times> bytes) list \<Rightarrow> nat \<Rightarrow> (proven_entries \<times> nat) result" where
  "verify_membership S t self pages max_entries =
    (let r = ps_reader S in
     rbind (validate_membership self r) (\<lambda>_.
     rbind (ensure_lease S t) (\<lambda>t.
     rbind (verify_directory_pages (rd_auth r) (ps_codec S) (pd_root self) pages max_entries) (\<lambda>es.
     let largest = (case rd_advertisement r of
           CanonicalAdvertisement caps \<Rightarrow> max_file_bytes (cc_limits caps) | LegacyAdvertisement _ \<Rightarrow> MAX_FILE_SIZE) in
     rbind (try_fold (\<lambda>_ e. check_entry r self largest e) () es) (\<lambda>_.
     rbind (ensure_lease S t) (\<lambda>t.
     Inr (\<lparr>pn_directory = self, pn_entries = es\<rparr>, t)))))))"

section \<open>Collecting the pages of a directory\<close>

type_synonym route = bytes

record page_walk =
  pw_proof_pages :: "(string \<times> bytes) list"
  pw_wire_page_ids :: "string set"
  pw_routes :: "(route \<times> string) list"
  pw_route_ids :: "(route \<times> string) list"
  pw_seen :: "string set"
  pw_calls :: nat

definition read_cached ::
  "page_source \<Rightarrow> (bytes \<times> bytes) list \<times> metadata_page_item list \<times> nat \<Rightarrow> metadata_page_item
    \<Rightarrow> ((bytes \<times> bytes) list \<times> metadata_page_item list \<times> nat) result" where
  "read_cached S state item =
    (case state of (pages, missing, t) \<Rightarrow>
       let expected = the (mi_expected_digest item) in
       case ps_cache S of
         None \<Rightarrow> Inr (pages, missing @ [item], t)
       | Some cache \<Rightarrow>
           rbind (cache t expected) (\<lambda>found.
           case found of
             None \<Rightarrow> Inr (pages, missing @ [item], Suc t)
           | Some b \<Rightarrow>
               rbind (parse_digest (ae_hex_decode (rd_auth (ps_reader S))) expected) (\<lambda>pid.
               Inr (pages @ [(pid, b)], missing, Suc t))))"

definition fetch_missing ::
  "page_source \<Rightarrow> nat \<Rightarrow> metadata_page_item list \<Rightarrow> ((bytes \<times> bytes) list \<times> nat) result" where
  "fetch_missing S t missing =
    (if missing = [] then Inr ([], t) else rbind (ps_wire S t missing) (\<lambda>wire. Inr (wire, Suc t)))"

definition allowed_pages :: "(route \<times> string) list \<Rightarrow> (route \<times> string) list \<Rightarrow> string set" where
  "allowed_pages route_ids batch =
    set (concat (map (\<lambda>(route, _).
      List.map_filter (\<lambda>depth. map_of route_ids (take depth route)) [0..<Suc (length route)]) batch))"

definition admit_page ::
  "metapage_codec \<Rightarrow> string set \<Rightarrow> (string \<times> bytes) list \<Rightarrow> bytes \<times> bytes \<Rightarrow> (string \<times> bytes) list result" where
  "admit_page C allowed proof_pages page =
    (case page of (pid, b) \<Rightarrow>
       let key = ''sha256:'' @ hex32 pid in
       if key \<notin> allowed \<or> page_id C b \<noteq> pid
       then Inl (SnapshotError_new DigestMismatch ''lazy directory returned an uncommitted or corrupt radix page'')
       else Inr (btree_insert key b proof_pages))"

definition push_child ::
  "page_source \<Rightarrow> route \<Rightarrow> (route \<times> string) list \<times> string set \<Rightarrow> child_ref \<Rightarrow> ((route \<times> string) list \<times> string set) result" where
  "push_child S route state c =
    (case state of (routes, seen) \<Rightarrow>
       let next_route = route @ [ch_label c] in
       if RADIX_MAX_DEPTH (ps_codec S) < length next_route
       then Inl (SnapshotError_new LimitExceeded ''metadata radix depth exceeds 255'')
       else
         let child_id = ''sha256:'' @ hex32 (ch_page_id c) in
         if child_id \<in> seen then Inr (routes, seen)
         else if max_directory_pages (ps_limits S) < card (insert child_id seen)
         then Inl (SnapshotError_new ProofBudgetExceeded ''lazy directory radix page budget exceeded'')
         else Inr (routes @ [(next_route, child_id)], insert child_id seen))"

definition follow_page ::
  "page_source \<Rightarrow> (string \<times> bytes) list \<Rightarrow> (route \<times> string) list \<times> string set \<Rightarrow> route \<times> string
    \<Rightarrow> ((route \<times> string) list \<times> string set) result" where
  "follow_page S proof_pages state item =
    (case item of (route, expected) \<Rightarrow>
       rbind (ok_or (map_of proof_pages expected)
                (SnapshotError_new DigestMismatch ''lazy page walk did not return an expected page'')) (\<lambda>b.
       rbind (decode_page (ps_codec S) b) (\<lambda>p.
       case p of Leaf _ \<Rightarrow> Inr state | Branch _ children \<Rightarrow> try_fold (push_child S route) state children)))"

definition walk_round :: "page_source \<Rightarrow> string \<Rightarrow> page_walk \<Rightarrow> page_walk result" where
  "walk_round S dir_path w =
    (let n = min (min (length (pw_routes w)) 64) (metadata_item_limit (rd_client (ps_reader S)));
         batch = take n (pw_routes w);
         route_ids = foldl (\<lambda>m (route, expected). AList.update route expected m) (pw_route_ids w) batch;
         items = map (\<lambda>(route, expected). \<lparr>mi_directory_path = dir_path, mi_route = route, mi_expected_digest = Some expected\<rparr>) batch in
     rbind (ensure_lease S (pw_calls w)) (\<lambda>t.
     rbind (try_fold (read_cached S) ([], [], t) items) (\<lambda>(pages, missing, t).
     rbind (fetch_missing S t missing) (\<lambda>(wire, t).
     rbind (try_fold (admit_page (ps_codec S) (allowed_pages route_ids batch)) (pw_proof_pages w) (pages @ wire)) (\<lambda>proof_pages.
     rbind (try_fold (follow_page S proof_pages) (drop n (pw_routes w), pw_seen w) batch) (\<lambda>(routes, seen).
     Inr \<lparr>pw_proof_pages = proof_pages,
          pw_wire_page_ids = pw_wire_page_ids w \<union> set (List.map_filter mi_expected_digest missing),
          pw_routes = routes, pw_route_ids = route_ids, pw_seen = seen, pw_calls = t\<rparr>))))))"

partial_function (option) walk_pages :: "page_source \<Rightarrow> string \<Rightarrow> page_walk \<Rightarrow> page_walk run" where
  [code]: "walk_pages S dir_path w =
    (if pw_routes w = [] then Some (Inr w)
     else (case walk_round S dir_path w of Inl e \<Rightarrow> Some (Inl e) | Inr w' \<Rightarrow> walk_pages S dir_path w'))"

definition walk_start :: "string \<Rightarrow> nat \<Rightarrow> page_walk" where
  "walk_start pid t =
    \<lparr>pw_proof_pages = [], pw_wire_page_ids = {}, pw_routes = [([], pid)], pw_route_ids = [], pw_seen = {pid}, pw_calls = t\<rparr>"

text \<open>
  \<^verbatim>\<open>load_directory\<close> up to the proof: the checks on the token, the page walk and \<^verbatim>\<open>verify\<close>.  The second
  component of the result are the wire pages of the proof, which may be learned as hints.
\<close>

definition fetch_directory ::
  "page_source \<Rightarrow> nat \<Rightarrow> string \<Rightarrow> string \<Rightarrow> proven_directory \<Rightarrow> (proven_entries \<times> (string \<times> bytes) list \<times> nat) run" where
  "fetch_directory S t path pid membership =
    (if pd_path membership \<noteq> path \<or> pd_root membership \<noteq> pid
     then Some (Inl (closure_integrity ''lazy directory differs from its fixed-root membership''))
     else
       run_bind (Some (validate_membership membership (ps_reader S))) (\<lambda>_.
       run_bind (Some (ensure_lease S t)) (\<lambda>t.
       run_bind (Some (reader_relative_path (ps_reader S) path)) (\<lambda>_.
       run_bind (walk_pages S (''/'' @ path) (walk_start pid t)) (\<lambda>w.
       run_bind (Some (verify_membership S (pw_calls w) membership (pw_proof_pages w)
                         (max_directory_entries_proof (ps_limits S)))) (\<lambda>(entries, t).
       Some (Inr (entries, filter (\<lambda>(key, _). key \<in> pw_wire_page_ids w) (pw_proof_pages w), t))))))))"

section \<open>The page walk ends\<close>

definition walk_bound :: "page_source \<Rightarrow> (route \<times> string) list \<times> string set \<Rightarrow> (route \<times> string) list \<times> string set \<Rightarrow> bool" where
  "walk_bound S a b \<longleftrightarrow> (finite (snd a) \<longrightarrow> finite (snd b) \<and> card (snd a) \<le> card (snd b)
    \<and> length (fst b) + card (snd a) = length (fst a) + card (snd b)
    \<and> card (snd b) \<le> max (card (snd a)) (max_directory_pages (ps_limits S)))"

lemma walk_bound_refl: "walk_bound S a a"
  by (simp add: walk_bound_def)

lemma walk_bound_trans: "walk_bound S a b \<Longrightarrow> walk_bound S b c \<Longrightarrow> walk_bound S a c"
  unfolding walk_bound_def by (intro impI) auto

lemma push_child_bound: "push_child S route a c = Inr b \<Longrightarrow> walk_bound S a b"
  by (cases a) (auto simp: push_child_def walk_bound_def Let_def card_insert_if split: if_splits)

lemma follow_page_bound:
  assumes "follow_page S pages a item = Inr b"
  shows "walk_bound S a b"
proof -
  obtain route expected where item: "item = (route, expected)" by (cases item)
  obtain p where p: "(case p of Leaf _ \<Rightarrow> Inr a | Branch _ children \<Rightarrow> try_fold (push_child S route) a children) = Inr b"
    using assms by (auto simp: follow_page_def item rbind_eq_Inr)
  show ?thesis
  proof (cases p)
    case (Branch x children)
    then have "try_fold (push_child S route) a children = Inr b" using p by simp
    then show ?thesis
      by (rule try_fold_invariant[where P = "\<lambda>u _. walk_bound S a u"])
        (auto intro: walk_bound_refl walk_bound_trans push_child_bound)
  qed (use p walk_bound_refl in auto)
qed

lemma walk_round_bound:
  assumes "walk_round S d w = Inr w'" "pw_routes w \<noteq> []" "1 \<le> metadata_item_limit (rd_client (ps_reader S))" "finite (pw_seen w)"
  shows "finite (pw_seen w')" "card (pw_seen w) \<le> card (pw_seen w')"
    "length (pw_routes w') + card (pw_seen w) < length (pw_routes w) + card (pw_seen w')"
    "card (pw_seen w') \<le> max (card (pw_seen w)) (max_directory_pages (ps_limits S))"
proof -
  let ?n = "min (min (length (pw_routes w)) 64) (metadata_item_limit (rd_client (ps_reader S)))"
  obtain pages where f: "try_fold (follow_page S pages) (drop ?n (pw_routes w), pw_seen w) (take ?n (pw_routes w)) = Inr (pw_routes w', pw_seen w')"
    using assms(1) by (auto simp: walk_round_def Let_def rbind_eq_Inr)
  have "walk_bound S (drop ?n (pw_routes w), pw_seen w) (pw_routes w', pw_seen w')"
    by (rule try_fold_invariant[OF f, where P = "\<lambda>u _. walk_bound S (drop ?n (pw_routes w), pw_seen w) u"])
      (auto intro: walk_bound_refl walk_bound_trans follow_page_bound)
  moreover have "0 < ?n" "?n \<le> length (pw_routes w)" using assms(2,3) by auto
  ultimately show "finite (pw_seen w')" "card (pw_seen w) \<le> card (pw_seen w')"
    "length (pw_routes w') + card (pw_seen w) < length (pw_routes w) + card (pw_seen w')"
    "card (pw_seen w') \<le> max (card (pw_seen w)) (max_directory_pages (ps_limits S))"
    using assms(4) unfolding walk_bound_def by auto
qed

lemma walk_pages_returns:
  assumes "1 \<le> metadata_item_limit (rd_client (ps_reader S))"
  shows "finite (pw_seen w) \<Longrightarrow> walk_pages S d w \<noteq> None"
proof (induction "length (pw_routes w) + (max (card (pw_seen w)) (max_directory_pages (ps_limits S)) - card (pw_seen w))"
    arbitrary: w rule: less_induct)
  case less
  show ?case
  proof (cases "pw_routes w = []")
    case False
    show ?thesis
    proof (cases "walk_round S d w")
      case (Inr w')
      note b = walk_round_bound[OF Inr False assms less.prems]
      have "walk_pages S d w' \<noteq> None"
        by (rule less.hyps) (use b in auto)
      then show ?thesis using Inr False by (subst walk_pages.simps) simp
    qed (subst walk_pages.simps, simp add: False)
  qed (subst walk_pages.simps, simp)
qed

section \<open>Only committed pages enter the proof\<close>

text \<open>What a source may hand over, and the page tables that read those bytes the way they decode.\<close>

definition delivers :: "page_source \<Rightarrow> bytes \<Rightarrow> bool" where
  "delivers S b \<longleftrightarrow> (\<exists>cache t key. ps_cache S = Some cache \<and> cache t key = Inr (Some b))
    \<or> (\<exists>t items wire pid. ps_wire S t items = Inr wire \<and> (pid, b) \<in> set wire)"

definition source_table :: "page_source \<Rightarrow> (string \<Rightarrow> page option) \<Rightarrow> bool" where
  "source_table S D \<longleftrightarrow>
    (\<forall>b p. delivers S b \<longrightarrow> decode_page (ps_codec S) b = Inr p \<longrightarrow> D (digest_text (page_id (ps_codec S) b)) = Some p)"

definition walk_ok :: "page_source \<Rightarrow> page_walk \<Rightarrow> bool" where
  "walk_ok S w \<longleftrightarrow> sorted_wrt (<) (map fst (pw_proof_pages w))
    \<and> (\<forall>(key, b)\<in>set (pw_proof_pages w). key = digest_text (page_id (ps_codec S) b) \<and> delivers S b)"

lemma set_btree_insert_subset: "set (btree_insert k v es) \<subseteq> insert (k, v) (set es)"
  by (induction k v es rule: btree_insert.induct) auto

lemma cache_delivers: "ps_cache S = Some cache \<Longrightarrow> cache t key = Inr (Some b) \<Longrightarrow> delivers S b"
  by (auto simp: delivers_def)

lemma read_cached_delivers:
  assumes "try_fold (read_cached S) (pages, missing, t) items = Inr (pages', missing', t')" "\<forall>(pid, b)\<in>set pages. delivers S b"
  shows "\<forall>(pid, b)\<in>set pages'. delivers S b"
proof -
  have "\<forall>(pid, b)\<in>set (fst u'). delivers S b"
    if "\<forall>(pid, b)\<in>set (fst u). delivers S b" "read_cached S u item = Inr u'" for u u' item
    using that by (cases u) (fastforce simp: read_cached_def Let_def rbind_eq_Inr dest: cache_delivers split: option.splits)
  then have "\<forall>(pid, b)\<in>set (fst (pages', missing', t')). delivers S b"
    by (intro try_fold_invariant[OF assms(1), where P = "\<lambda>u _. \<forall>(pid, b)\<in>set (fst u). delivers S b"]) (use assms(2) in auto)
  then show ?thesis by simp
qed

lemma admit_page_ok:
  assumes "try_fold (admit_page (ps_codec S) allowed) proof_pages pages = Inr proof_pages'"
    "\<forall>(pid, b)\<in>set pages. delivers S b" "sorted_wrt (<) (map fst proof_pages)"
    "\<forall>(key, b)\<in>set proof_pages. key = digest_text (page_id (ps_codec S) b) \<and> delivers S b"
  shows "sorted_wrt (<) (map fst proof_pages') \<and> (\<forall>(key, b)\<in>set proof_pages'. key = digest_text (page_id (ps_codec S) b) \<and> delivers S b)"
proof (rule try_fold_invariant[OF assms(1), where P = "\<lambda>u _. sorted_wrt (<) (map fst u)
    \<and> (\<forall>(key, b)\<in>set u. key = digest_text (page_id (ps_codec S) b) \<and> delivers S b)"])
  fix u ys x v
  assume u: "sorted_wrt (<) (map fst u) \<and> (\<forall>(key, b)\<in>set u. key = digest_text (page_id (ps_codec S) b) \<and> delivers S b)"
    and x: "x \<in> set pages" and step: "admit_page (ps_codec S) allowed u x = Inr v"
  obtain pid b where xb: "x = (pid, b)" by (cases x)
  have v: "v = btree_insert (digest_text pid) b u" "page_id (ps_codec S) b = pid"
    using step by (auto simp: admit_page_def xb Let_def digest_text_def split: if_splits)
  have "delivers S b" using assms(2) x xb by auto
  then show "sorted_wrt (<) (map fst v) \<and> (\<forall>(key, b)\<in>set v. key = digest_text (page_id (ps_codec S) b) \<and> delivers S b)"
    using u v(2) sorted_btree_insert set_btree_insert_subset[of "digest_text pid" b u] unfolding v(1) by fastforce
qed (use assms(3,4) in simp)

lemma walk_round_ok:
  assumes "walk_round S d w = Inr w'" "walk_ok S w"
  shows "walk_ok S w'"
proof -
  define n where "n = min (min (length (pw_routes w)) 64) (metadata_item_limit (rd_client (ps_reader S)))"
  obtain t0 items pages missing t wire t' allowed where
    r: "try_fold (read_cached S) ([], [], t0) items = Inr (pages, missing, t)" "fetch_missing S t missing = Inr (wire, t')"
      "try_fold (admit_page (ps_codec S) allowed) (pw_proof_pages w) (pages @ wire) = Inr (pw_proof_pages w')"
    using assms(1) unfolding walk_round_def Let_def n_def[symmetric] by (auto simp: rbind_eq_Inr)
  have "\<forall>(pid, b)\<in>set pages. delivers S b" by (rule read_cached_delivers[OF r(1)]) simp
  moreover have "\<forall>(pid, b)\<in>set wire. delivers S b"
    using r(2) by (auto simp: fetch_missing_def rbind_eq_Inr delivers_def split: if_splits)
  ultimately have "\<forall>(pid, b)\<in>set (pages @ wire). delivers S b" by auto
  from admit_page_ok[OF r(3) this] assms(2) show ?thesis unfolding walk_ok_def by blast
qed

lemma walk_pages_run:
  "walk_pages S d w = Some r \<Longrightarrow> walk_ok S w \<longrightarrow> (\<forall>w'. r = Inr w' \<longrightarrow> walk_ok S w')"
proof (induction S d w r rule: walk_pages.raw_induct[rotated 1, consumes 1])
  case (1 walk S d w r)
  show ?case
  proof (cases "pw_routes w = []")
    case False
    show ?thesis
    proof (cases "walk_round S d w")
      case (Inr w')
      then have "walk S d w' = Some r" using 1(2) False by simp
      from 1(1)[OF this] walk_round_ok[OF Inr] show ?thesis by blast
    qed (use 1(2) False in auto)
  qed (use 1(2) in auto)
qed

lemma walk_pages_ok: "walk_pages S d w = Some (Inr w') \<Longrightarrow> walk_ok S w \<Longrightarrow> walk_ok S w'"
  using walk_pages_run by blast

section \<open>What an accepted proof shows\<close>

lemma radix_denotes_mono:
  assumes "radix_denotes A D r es" "D \<subseteq>\<^sub>m D'"
  shows "radix_denotes A D' r es"
  using assms(1)
proof (induction rule: radix_denotes.induct)
  case (denotes_leaf pid es)
  then show ?case using assms(2) by (intro radix_denotes.denotes_leaf) (force simp: map_le_def)
next
  case (denotes_branch pid t cs ess)
  have "D' pid = Some (Branch t cs)" using denotes_branch(1) assms(2) by (force simp: map_le_def)
  then show ?case
    by (rule radix_denotes.denotes_branch) (rule list.rel_mono_strong[OF denotes_branch(2)], blast)
qed

lemma radix_pages_mono:
  assumes "(radix_edge A D)\<^sup>*\<^sup>* r q" "D \<subseteq>\<^sub>m D'"
  shows "(radix_edge A D')\<^sup>*\<^sup>* r q"
  using assms(1)
proof (induction rule: rtranclp_induct)
  case (step y z)
  from step.hyps(2) have "radix_edge A D' y z"
  proof cases
    case (1 t cs c)
    then have "D' y = Some (Branch t cs)" using assms(2) by (force simp: map_le_def)
    then show ?thesis using radix_edge.intros[of D' y t cs c A] 1 by simp
  qed
  with step.IH show ?case by (rule rtranclp.rtrancl_into_rtrancl)
qed simp

lemma verify_pages_Inr:
  assumes run: "verify_directory_pages A C root pages limit = Inr es" and keys: "distinct (map fst pages)"
  shows "radix_denotes A (closure_table C pages) root es" "fst ` set pages \<subseteq> radix_pages A (closure_table C pages) root"
proof -
  let ?D = "closure_table C pages" and ?P = "proof_env_of A C pages limit u64_MAX (\<lambda>_. False)"
  obtain E v v' where v: "new_bounded ?P = Inr (E, v)" "radix_entries E v root 0 {} = Inr (v', es)" "card (vs_reached v') = length pages"
    using run by (auto simp: verify_directory_pages_def rbind_eq_Inr split: if_splits)
  have k: "distinct (map fst (pe_bytes ?P))" using keys by (simp add: proof_env_of_def)
  note nb = new_bounded_Inr[OF v(1) k]
  have E: "pe_auth E = A" "pe_decoded E = ?D" using nb(1) by (simp_all add: proof_env_of_def)
  have memo: "memo_ok E v" using tally_memo tally_new[OF nb(2)] by blast
  have p: "radix_frame v (radix_pages A ?D root) v'" "memo_ok E v'" "vs_entries v' root = Some es"
    using radix_entries_proved[OF v(2) memo] by (simp_all add: radix_proved_def E)
  show d: "radix_denotes A ?D root es" using p(2)[unfolded memo_ok_def E] p(3) by blast
  have "vs_reached v = {}" using nb(2) by (auto simp: charged_def proof_state_new_def)
  then have r: "vs_reached v' \<subseteq> radix_pages A ?D root" using p(1) by (simp add: radix_frame_def)
  then have "vs_reached v' \<subseteq> fst ` set pages"
    using radix_denotes_dom[OF d] nb(3) by (auto simp: proof_env_of_def)
  from reached_all[OF this keys v(3)] r show "fst ` set pages \<subseteq> radix_pages A ?D root" by simp
qed

lemma source_table_pages:
  assumes "walk_ok S w" "source_table S D"
  shows "closure_table (ps_codec S) (pw_proof_pages w) \<subseteq>\<^sub>m D"
proof -
  have "D q = Some p" if c: "closure_table (ps_codec S) (pw_proof_pages w) q = Some p" for q p
  proof -
    obtain b where b: "map_of (pw_proof_pages w) q = Some b" "decode_page (ps_codec S) b = Inr p"
      using c by (cases "map_of (pw_proof_pages w) q") (auto simp: closure_table_def split: sum.splits)
    then have "q = digest_text (page_id (ps_codec S) b)" "delivers S b"
      using assms(1) map_of_SomeD[OF b(1)] unfolding walk_ok_def by auto
    then show ?thesis using assms(2) b(2) unfolding source_table_def by blast
  qed
  then show ?thesis by (auto simp: map_le_def)
qed

lemma verify_membership_Inr:
  assumes "verify_membership S t m pages limit = Inr (es, t')"
  shows "pn_directory es = m" "verify_directory_pages (rd_auth (ps_reader S)) (ps_codec S) (pd_root m) pages limit = Inr (pn_entries es)"
    "\<And>e. e \<in> set (pn_entries es) \<Longrightarrow> from_utf8 (en_name e) \<noteq> None"
proof -
  obtain xs big where xs: "verify_directory_pages (rd_auth (ps_reader S)) (ps_codec S) (pd_root m) pages limit = Inr xs"
    "try_fold (\<lambda>_ e. check_entry (ps_reader S) m big e) () xs = Inr ()" "es = \<lparr>pn_directory = m, pn_entries = xs\<rparr>"
    using assms unfolding verify_membership_def Let_def by (fastforce simp: rbind_eq_Inr)
  have "\<forall>e\<in>set xs. from_utf8 (en_name e) \<noteq> None"
    by (rule try_fold_invariant[OF xs(2), where P = "\<lambda>_ ys. \<forall>e\<in>set ys. from_utf8 (en_name e) \<noteq> None"])
      (auto simp: check_entry_def child_path_def rbind_eq_Inr ok_or_def split: option.splits)
  then show "pn_directory es = m" "verify_directory_pages (rd_auth (ps_reader S)) (ps_codec S) (pd_root m) pages limit = Inr (pn_entries es)"
    "\<And>e. e \<in> set (pn_entries es) \<Longrightarrow> from_utf8 (en_name e) \<noteq> None" using xs by auto
qed

lemma metadata_item_limit_pos: "client_ok c \<Longrightarrow> 1 \<le> metadata_item_limit c"
  by (auto simp: client_ok_def metadata_item_limit_def limit_or_def limits_ok_def bounded_limits_def fixed_limits_def split: option.splits)

definition directory_proved :: "page_source \<Rightarrow> (string \<Rightarrow> page option) \<Rightarrow> proven_directory \<Rightarrow> proven_entries \<Rightarrow> bool" where
  "directory_proved S D m es \<longleftrightarrow> pn_directory es = m \<and> radix_denotes (rd_auth (ps_reader S)) D (pd_root m) (pn_entries es)
    \<and> (\<forall>e\<in>set (pn_entries es). from_utf8 (en_name e) \<noteq> None)"

lemma fetch_directory_run:
  assumes "client_ok (rd_client (ps_reader S))" "source_table S D"
  shows "\<exists>r. fetch_directory S t path pid m = Some r \<and> (\<forall>es learned t'. r = Inr (es, learned, t') \<longrightarrow>
    pd_path m = path \<and> pd_root m = pid \<and> validate_identity (pd_identity m) (ps_reader S) = Inr () \<and> directory_proved S D m es
    \<and> (\<forall>(key, b)\<in>set learned. key = digest_text (page_id (ps_codec S) b) \<and> key \<in> radix_pages (rd_auth (ps_reader S)) D pid))"
proof (cases "fetch_directory S t path pid m")
  case None
  have "walk_pages S (''/'' @ path) (walk_start pid (Suc t)) \<noteq> None"
    by (rule walk_pages_returns[OF metadata_item_limit_pos[OF assms(1)]]) (simp add: walk_start_def)
  then have "fetch_directory S t path pid m \<noteq> None"
    by (auto simp: fetch_directory_def run_bind_def ensure_lease_def rbind_def split: option.splits sum.splits)
  then show ?thesis using None by simp
next
  case (Some r)
  have "pd_path m = path \<and> pd_root m = pid \<and> validate_identity (pd_identity m) (ps_reader S) = Inr () \<and> directory_proved S D m es
    \<and> (\<forall>(key, b)\<in>set learned. key = digest_text (page_id (ps_codec S) b) \<and> key \<in> radix_pages (rd_auth (ps_reader S)) D pid)"
    if r: "r = Inr (es, learned, t')" for es learned t'
  proof -
    let ?A = "rd_auth (ps_reader S)"
    have m: "pd_path m = path" "pd_root m = pid"
      using Some r by (auto simp: fetch_directory_def split: if_splits)
    have "\<exists>u w. validate_membership m (ps_reader S) = Inr () \<and> walk_pages S (''/'' @ path) (walk_start pid u) = Some (Inr w)
      \<and> verify_membership S (pw_calls w) m (pw_proof_pages w) (max_directory_entries_proof (ps_limits S)) = Inr (es, t')
      \<and> learned = filter (\<lambda>(key, _). key \<in> pw_wire_page_ids w) (pw_proof_pages w)"
      using Some unfolding r fetch_directory_def m by (auto simp: run_bind_Inr)
    then obtain u w where id: "validate_membership m (ps_reader S) = Inr ()"
      and w: "walk_pages S (''/'' @ path) (walk_start pid u) = Some (Inr w)"
      and ver: "verify_membership S (pw_calls w) m (pw_proof_pages w) (max_directory_entries_proof (ps_limits S)) = Inr (es, t')"
      and l: "learned = filter (\<lambda>(key, _). key \<in> pw_wire_page_ids w) (pw_proof_pages w)"
      by blast
    have ok: "walk_ok S w" by (rule walk_pages_ok[OF w]) (simp add: walk_ok_def walk_start_def)
    then have keys: "distinct (map fst (pw_proof_pages w))" unfolding walk_ok_def using strict_sorted_iff by blast
    note vm = verify_membership_Inr[OF ver] and le = source_table_pages[OF ok assms(2)]
    note vp = verify_pages_Inr[OF vm(2) keys]
    have "key = digest_text (page_id (ps_codec S) b) \<and> key \<in> radix_pages ?A D pid" if kb: "(key, b) \<in> set learned" for key b
    proof
      have in_pages: "(key, b) \<in> set (pw_proof_pages w)" using kb l by simp
      then show "key = digest_text (page_id (ps_codec S) b)" using ok unfolding walk_ok_def by blast
      have "key \<in> fst ` set (pw_proof_pages w)" using in_pages by (rule rev_image_eqI) simp
      then have "(radix_edge ?A (closure_table (ps_codec S) (pw_proof_pages w)))\<^sup>*\<^sup>* pid key" using vp(2) m(2) by blast
      then show "key \<in> radix_pages ?A D pid" using radix_pages_mono[OF _ le] by blast
    qed
    then show ?thesis
      using m id radix_denotes_mono[OF vp(1) le] vm(1,3) by (auto simp: directory_proved_def validate_membership_def rbind_eq_Inr)
  qed
  then show ?thesis using Some by blast
qed

end
