(* ===== verification/Upper_Scan.thy ===== *)
theory Upper_Scan
  imports Closure Directory_Index
begin

text \<open>
  Scanning the writable upper directory (\<^verbatim>\<open>snapshot/upper_diff.rs\<close>, module \<^verbatim>\<open>unix\<close>): the tree is read
  through directory handles, every node is fingerprinted before and after it is read, file bytes are
  hashed under a byte budget, and a later pass verifies that nothing changed.  The operating system is an
  argument.  Each of its calls takes the number of calls made before it, so that the tree may change
  between any two calls; handles are of an arbitrary type.
\<close>

unbundle bit_operations_syntax

section \<open>Identities, limits and meters\<close>

record diff_limits =
  max_nodes :: nat
  max_bytes :: nat
  max_depth :: nat

definition DiffLimits_default :: diff_limits where
  "DiffLimits_default = \<lparr>max_nodes = 100000, max_bytes = 4 * 1024 * 1024 * 1024, max_depth = 256\<rparr>"

datatype upper_node_identity =
    UpperDirectory (up_mode: nat) (up_uid: nat) (up_gid: nat)
  | UpperRegular (up_mode: nat) (up_uid: nat) (up_gid: nat) nat string
  | UpperSymlink (up_mode: nat) (up_uid: nat) (up_gid: nat) nat string

definition is_directory :: "upper_node_identity \<Rightarrow> bool" where
  "is_directory u = (case u of UpperDirectory _ _ _ \<Rightarrow> True | _ \<Rightarrow> False)"

record mount_owner =
  mo_uid :: nat
  mo_gid :: nat

definition upper_matches :: "mount_owner \<Rightarrow> upper_node_identity \<Rightarrow> snapshot_node_identity \<Rightarrow> bool" where
  "upper_matches owner u base =
    (if up_uid u \<noteq> mo_uid owner \<or> up_gid u \<noteq> mo_gid owner then False
     else (case (u, base) of
         (UpperDirectory mode _ _, DirectoryNode _) \<Rightarrow> mode = node_mode base
       | (UpperRegular mode _ _ n dig, RegularNode _ _) \<Rightarrow> mode = node_mode base \<and> node_content base = Some (n, dig)
       | (UpperRegular mode _ _ n dig, ExecutableNode _ _) \<Rightarrow> mode = node_mode base \<and> node_content base = Some (n, dig)
       | (UpperSymlink mode _ _ n dig, SymlinkNode _ _) \<Rightarrow> mode = node_mode base \<and> node_content base = Some (n, dig)
       | _ \<Rightarrow> False))"

record diff_meters =
  upper_nodes :: nat
  hash_bytes :: nat
  lower_queries :: nat
  lower_directory_entries :: nat
  xattr_checks :: nat

definition DiffMeters_default :: diff_meters where
  "DiffMeters_default = \<lparr>upper_nodes = 0, hash_bytes = 0, lower_queries = 0, lower_directory_entries = 0, xattr_checks = 0\<rparr>"

definition diff_unknown :: "string \<Rightarrow> snapshot_error" where
  "diff_unknown m = SnapshotError_new IntegrityError m"

definition diff_budget :: "string \<Rightarrow> snapshot_error" where
  "diff_budget m = SnapshotError_new ProofBudgetExceeded m"

definition diff_join :: "string \<Rightarrow> string \<Rightarrow> string" where
  "diff_join anchor name = (if anchor = [] then name else anchor @ ''/'' @ name)"

section \<open>The operating system\<close>

record fingerprint =
  fp_dev :: nat
  fp_ino :: nat
  fp_mode :: nat
  fp_size :: int
  fp_nlink :: nat
  fp_uid :: nat
  fp_gid :: nat
  fp_mtime :: "int \<times> int"
  fp_ctime :: "int \<times> int"

record 'h os_calls =
  S_IFMT :: nat
  S_IFDIR :: nat
  S_IFREG :: nat
  S_IFLNK :: nat
  os_root :: "nat \<Rightarrow> string + 'h"
  os_openat :: "nat \<Rightarrow> 'h \<Rightarrow> string \<Rightarrow> bool \<Rightarrow> string + 'h"
  os_fstat :: "nat \<Rightarrow> 'h \<Rightarrow> string + fingerprint"
  os_fstatat :: "nat \<Rightarrow> 'h \<Rightarrow> string \<Rightarrow> string + fingerprint"
  os_readdir :: "nat \<Rightarrow> 'h \<Rightarrow> bytes list \<times> string option"
  os_flistxattr :: "nat \<Rightarrow> 'h \<Rightarrow> string + nat"
  os_llistxattr :: "nat \<Rightarrow> 'h \<Rightarrow> string \<Rightarrow> string + nat"
  os_read :: "nat \<Rightarrow> 'h \<Rightarrow> string + bytes"
  os_readlinkat :: "nat \<Rightarrow> 'h \<Rightarrow> string \<Rightarrow> string + bytes"

text \<open>The other arguments of the scan: path grammar, hash, hex encoder and the limits.\<close>

record 'h scan_env =
  se_os :: "'h os_calls"
  se_grammar :: scope_grammar
  se_sha256 :: "bytes \<Rightarrow> bytes"
  se_hex :: "bytes \<Rightarrow> string"
  se_limits :: diff_limits

record upper_fact =
  fc_identity :: upper_node_identity
  fc_children :: "string list"
  fc_fingerprint :: fingerprint

record 'h scanned =
  sc_facts :: "(string \<times> upper_fact) list"
  sc_meters :: diff_meters
  sc_root :: 'h
  sc_calls :: nat

definition os_error :: "string \<Rightarrow> snapshot_error" where
  "os_error e = diff_unknown (''upper filesystem state is unproved: '' @ e)"

text \<open>One call: the number of calls made so far is passed on and increased.\<close>

definition os_call :: "(nat \<Rightarrow> string + 'a) \<Rightarrow> nat \<Rightarrow> ('a \<times> nat) result" where
  "os_call f t = rbind (map_err os_error (f t)) (\<lambda>a. Inr (a, Suc t))"

definition c_name :: "string \<Rightarrow> string result" where
  "c_name name = (if char_of (0 :: nat) \<in> set name then Inl (diff_unknown ''NUL in upper component'') else Inr name)"

definition open_at :: "'h os_calls \<Rightarrow> nat \<Rightarrow> 'h \<Rightarrow> string \<Rightarrow> bool \<Rightarrow> ('h \<times> nat) result" where
  "open_at S t anchor name directory =
    rbind (c_name name) (\<lambda>name. os_call (\<lambda>t. os_openat S t anchor name directory) t)"

definition stat_fd :: "'h os_calls \<Rightarrow> nat \<Rightarrow> 'h \<Rightarrow> (fingerprint \<times> nat) result" where
  "stat_fd S t h = os_call (\<lambda>t. os_fstat S t h) t"

definition stat_at :: "'h os_calls \<Rightarrow> nat \<Rightarrow> 'h \<Rightarrow> string \<Rightarrow> (fingerprint \<times> nat) result" where
  "stat_at S t anchor name = rbind (c_name name) (\<lambda>name. os_call (\<lambda>t. os_fstatat S t anchor name) t)"

text \<open>Components of a path: the root, a normal name, or one of the others.\<close>

datatype path_component = RootDir | Normal string | OtherComponent

definition open_root :: "'h os_calls \<Rightarrow> nat \<Rightarrow> bool \<Rightarrow> path_component list \<Rightarrow> ('h \<times> nat) result" where
  "open_root S t is_absolute components =
    (if \<not> is_absolute then Inl (diff_unknown ''upper root must be absolute'')
     else
       rbind (os_call (os_root S) t) (\<lambda>start.
       try_fold (\<lambda>(directory, t) component.
           case component of
             RootDir \<Rightarrow> Inr (directory, t)
           | Normal name \<Rightarrow> open_at S t directory name True
           | OtherComponent \<Rightarrow> Inl (diff_unknown ''upper root has a noncanonical component''))
         start components))"

section \<open>Reading nodes\<close>

definition name_step :: "'h scan_env \<Rightarrow> nat \<Rightarrow> string list \<Rightarrow> bytes \<Rightarrow> string list result" where
  "name_step V remaining out b =
    (if b = as_bytes ''.'' \<or> b = as_bytes ''..'' then Inr out
     else if remaining \<le> length out then Inl (diff_budget ''upper node budget exceeded'')
     else
       rbind (ok_or (from_utf8 b) (diff_unknown ''non-UTF-8 upper filename'')) (\<lambda>name.
       rbind (validate_scope (se_grammar V) (''/'' @ name)) (\<lambda>_. Inr (out @ [name]))))"

definition names :: "'h scan_env \<Rightarrow> nat \<Rightarrow> 'h \<Rightarrow> nat \<Rightarrow> (string list \<times> nat) result" where
  "names V t anchor remaining =
    rbind (open_at (se_os V) t anchor ''.'' True) (\<lambda>(stream, t).
    case os_readdir (se_os V) t stream of (entries, fault) \<Rightarrow>
      rbind (try_fold (name_step V remaining) [] entries) (\<lambda>out.
      case fault of
        Some e \<Rightarrow> Inl (os_error e)
      | None \<Rightarrow>
          let out = sort out in
          if \<not> distinct out then Inl (diff_unknown ''duplicate upper directory name'')
          else Inr (out, Suc t)))"

definition consume_bytes :: "diff_meters \<Rightarrow> nat \<Rightarrow> diff_limits \<Rightarrow> diff_meters result" where
  "consume_bytes meters n limits =
    rbind (ok_or (Option.bind (checked_add (hash_bytes meters) n) (\<lambda>sum. if sum \<le> max_bytes limits then Some sum else None))
             (diff_budget ''upper streaming byte budget exceeded'')) (\<lambda>sum.
    Inr (meters\<lparr>hash_bytes := sum\<rparr>))"

definition xattr_result :: "string + nat \<Rightarrow> diff_meters \<Rightarrow> diff_meters result" where
  "xattr_result count meters =
    (case count of
       Inl e \<Rightarrow> Inl (os_error e)
     | Inr n \<Rightarrow>
         if 65536 < n then Inl (diff_budget ''upper xattr name budget exceeded'')
         else if n \<noteq> 0 then Inl (SnapshotError_new UnsupportedEntry
                 ''upper xattrs cannot be represented by the fixed snapshot profile'')
         else Inr (meters\<lparr>xattr_checks := xattr_checks meters + 1\<rparr>))"

definition no_xattrs :: "'h os_calls \<Rightarrow> nat \<Rightarrow> 'h \<Rightarrow> diff_meters \<Rightarrow> (diff_meters \<times> nat) result" where
  "no_xattrs S t h meters = rbind (xattr_result (os_flistxattr S t h) meters) (\<lambda>meters. Inr (meters, Suc t))"

definition no_symlink_xattrs ::
  "'h os_calls \<Rightarrow> nat \<Rightarrow> 'h \<Rightarrow> string \<Rightarrow> fingerprint \<Rightarrow> diff_meters \<Rightarrow> (diff_meters \<times> nat) result" where
  "no_symlink_xattrs S t anchor name before meters =
    (if char_of (0 :: nat) \<in> set name then Inl (diff_unknown ''NUL in anchored symlink path'')
     else
       rbind (xattr_result (os_llistxattr S t anchor name) meters) (\<lambda>meters.
       rbind (stat_at S (Suc t) anchor name) (\<lambda>(now, t).
       if now \<noteq> before then Inl (diff_unknown ''upper symlink changed during xattr check'')
       else Inr (meters, t))))"

text \<open>The hashing loop reads until an empty chunk; it stops as soon as more than the stated size arrived.\<close>

function hash_loop :: "'h os_calls \<Rightarrow> nat \<Rightarrow> 'h \<Rightarrow> nat \<Rightarrow> bytes \<Rightarrow> (bytes \<times> nat) result" where
  "hash_loop S t h size_limit content =
    rbind (os_call (\<lambda>t. os_read S t h) t) (\<lambda>(chunk, t).
    if chunk = [] then Inr (content, t)
    else if size_limit < length content + length chunk
    then Inl (diff_unknown ''upper file grew while hashing'')
    else hash_loop S t h size_limit (content @ chunk))"
  by pat_completeness auto

termination
  by (relation "measure (\<lambda>(S, t, h, n, content). n - length content)") (auto simp: neq_Nil_conv)

declare hash_loop.simps [simp del]

definition permission_bits :: "fingerprint \<Rightarrow> nat" where
  "permission_bits fp = fp_mode fp AND 0xFFF"

definition digest_of :: "'h scan_env \<Rightarrow> bytes \<Rightarrow> string" where
  "digest_of V b = ''sha256:'' @ se_hex V (se_sha256 V b)"

definition read_regular ::
  "'h scan_env \<Rightarrow> nat \<Rightarrow> 'h \<Rightarrow> string \<Rightarrow> fingerprint \<Rightarrow> diff_meters \<Rightarrow> (upper_node_identity \<times> diff_meters \<times> nat) result" where
  "read_regular V t anchor name before meters =
    (if fp_size before < 0 then Inl (diff_unknown ''negative upper file size'')
     else
       let n = nat (fp_size before); S = se_os V in
       rbind (consume_bytes meters n (se_limits V)) (\<lambda>meters.
       rbind (open_at S t anchor name False) (\<lambda>(h, t).
       rbind (stat_fd S t h) (\<lambda>(opened, t).
       if opened \<noteq> before then Inl (diff_unknown ''upper file replaced before hashing'')
       else
         rbind (no_xattrs S t h meters) (\<lambda>(meters, t).
         rbind (hash_loop S t h n []) (\<lambda>(content, t).
         if length content \<noteq> n then Inl (diff_unknown ''upper file changed during hashing'')
         else
           rbind (stat_fd S t h) (\<lambda>(after, t).
           if after \<noteq> before then Inl (diff_unknown ''upper file changed during hashing'')
           else
             rbind (stat_at S t anchor name) (\<lambda>(named, t).
             if named \<noteq> before then Inl (diff_unknown ''upper file changed during hashing'')
             else Inr (UpperRegular (permission_bits before) (fp_uid before) (fp_gid before) n (digest_of V content),
                       meters, t)))))))))"

definition read_symlink ::
  "'h scan_env \<Rightarrow> nat \<Rightarrow> 'h \<Rightarrow> string \<Rightarrow> fingerprint \<Rightarrow> diff_meters \<Rightarrow> (upper_node_identity \<times> diff_meters \<times> nat) result" where
  "read_symlink V t anchor name before meters =
    (if \<not> (1 \<le> fp_size before \<and> fp_size before \<le> 4095) then Inl (diff_budget ''upper symlink exceeds serving profile'')
     else
       let n = nat (fp_size before); S = se_os V in
       rbind (consume_bytes meters n (se_limits V)) (\<lambda>meters.
       rbind (no_symlink_xattrs S t anchor name before meters) (\<lambda>(meters, t).
       rbind (c_name name) (\<lambda>name.
       rbind (os_call (\<lambda>t. os_readlinkat S t anchor name) t) (\<lambda>(target, t).
       if length target \<noteq> n then Inl (diff_unknown ''upper symlink changed during scan'')
       else
         rbind (stat_at S t anchor name) (\<lambda>(after, t).
         if after \<noteq> before then Inl (diff_unknown ''upper symlink changed during scan'')
         else Inr (UpperSymlink (permission_bits before) (fp_uid before) (fp_gid before) n (digest_of V target),
                   meters, t)))))))"

text \<open>One child of a directory: its identity, and the handle to walk into when it is a directory.\<close>

definition read_child ::
  "'h scan_env \<Rightarrow> nat \<Rightarrow> 'h \<Rightarrow> string \<Rightarrow> fingerprint \<Rightarrow> diff_meters
    \<Rightarrow> (upper_node_identity \<times> 'h option \<times> diff_meters \<times> nat) result" where
  "read_child V t directory name fp meters =
    (let S = se_os V; kind = fp_mode fp AND S_IFMT S in
     if kind = S_IFDIR S then
       rbind (open_at S t directory name True) (\<lambda>(child, t).
       rbind (stat_fd S t child) (\<lambda>(opened, t).
       if opened \<noteq> fp then Inl (diff_unknown ''upper directory replaced while opening'')
       else Inr (UpperDirectory (permission_bits fp) (fp_uid fp) (fp_gid fp), Some child, meters, t)))
     else if kind = S_IFREG S then
       rbind (read_regular V t directory name fp meters) (\<lambda>(u, meters, t). Inr (u, None, meters, t))
     else if kind = S_IFLNK S then
       rbind (read_symlink V t directory name fp meters) (\<lambda>(u, meters, t). Inr (u, None, meters, t))
     else Inl (SnapshotError_new UnsupportedEntry ''unsupported upper node kind''))"

section \<open>Collecting the tree\<close>

definition set_children :: "string \<Rightarrow> string list \<Rightarrow> (string \<times> upper_fact) list \<Rightarrow> (string \<times> upper_fact) list" where
  "set_children path children facts =
    map (\<lambda>(k, f). (k, if k = path then f\<lparr>fc_children := children\<rparr> else f)) facts"

definition begin_directory ::
  "'h scan_env \<Rightarrow> 'h \<Rightarrow> string \<Rightarrow> 'h scanned \<Rightarrow> (fingerprint \<times> string list \<times> 'h scanned) result" where
  "begin_directory V directory path s =
    (let S = se_os V in
     rbind (stat_fd S (sc_calls s) directory) (\<lambda>(before, t).
     rbind (no_xattrs S t directory (sc_meters s)) (\<lambda>(meters, t).
     rbind (names V t directory (max_nodes (se_limits V) - length (sc_facts s))) (\<lambda>(children, t).
     Inr (before, children,
          s\<lparr>sc_facts := set_children path children (sc_facts s), sc_meters := meters, sc_calls := t\<rparr>)))))"

definition add_child ::
  "'h scan_env \<Rightarrow> 'h \<Rightarrow> string \<Rightarrow> string \<Rightarrow> 'h scanned \<Rightarrow> (fingerprint \<times> 'h option \<times> 'h scanned) result" where
  "add_child V directory path name s =
    (if max_nodes (se_limits V) \<le> length (sc_facts s) then Inl (diff_budget ''upper node budget exceeded'')
     else
       let child_path = diff_join path name in
       rbind (validate_scope (se_grammar V) (''/'' @ child_path)) (\<lambda>_.
       rbind (stat_at (se_os V) (sc_calls s) directory name) (\<lambda>(fp, t).
       rbind (read_child V t directory name fp (sc_meters s)) (\<lambda>(identity, child, meters, t).
       Inr (fp, child,
            s\<lparr>sc_facts := btree_insert child_path \<lparr>fc_identity = identity, fc_children = [], fc_fingerprint = fp\<rparr> (sc_facts s),
              sc_meters := meters, sc_calls := t\<rparr>)))))"

definition recheck :: "(nat \<Rightarrow> (fingerprint \<times> nat) result) \<Rightarrow> fingerprint \<Rightarrow> string \<Rightarrow> 'h scanned \<Rightarrow> 'h scanned result" where
  "recheck stat before changed s =
    rbind (stat (sc_calls s)) (\<lambda>(now, t).
    if now \<noteq> before then Inl (diff_unknown changed) else Inr (s\<lparr>sc_calls := t\<rparr>))"

function collect_directory :: "'h scan_env \<Rightarrow> 'h \<Rightarrow> string \<Rightarrow> nat \<Rightarrow> 'h scanned \<Rightarrow> 'h scanned result" where
  "collect_directory V directory path depth s =
    (if max_depth (se_limits V) < depth then Inl (diff_budget ''upper directory depth budget exceeded'')
     else
       rbind (begin_directory V directory path s) (\<lambda>(before, children, s).
       rbind (try_fold (\<lambda>s name.
           rbind (add_child V directory path name s) (\<lambda>(fp, child, s).
           case child of
             None \<Rightarrow> Inr s
           | Some h \<Rightarrow>
               rbind (collect_directory V h (diff_join path name) (depth + 1) s) (\<lambda>s.
               recheck (\<lambda>t. stat_at (se_os V) t directory name) fp ''upper directory entry changed during scan'' s)))
         s children) (\<lambda>s.
       recheck (\<lambda>t. stat_fd (se_os V) t directory) before ''upper directory changed during enumeration'' s)))"
  by pat_completeness auto

termination
  by (relation "measure (\<lambda>(V, directory, path, depth, s). Suc (max_depth (se_limits V)) - depth)") auto

declare collect_directory.simps [simp del]

definition collect_upper ::
  "'h scan_env \<Rightarrow> (nat \<Rightarrow> 'h \<Rightarrow> string + 'h) \<Rightarrow> bool \<Rightarrow> path_component list \<Rightarrow> 'h scanned result" where
  "collect_upper V try_clone is_absolute components =
    (let S = se_os V in
     rbind (open_root S 0 is_absolute components) (\<lambda>(root, t).
     rbind (stat_fd S t root) (\<lambda>(fp, t).
     rbind (os_call (\<lambda>t. try_clone t root) t) (\<lambda>(kept, t).
     rbind (collect_directory V root [] 0
         \<lparr>sc_facts = [([], \<lparr>fc_identity = UpperDirectory (permission_bits fp) (fp_uid fp) (fp_gid fp),
                              fc_children = [], fc_fingerprint = fp\<rparr>)],
          sc_meters = DiffMeters_default, sc_root = kept, sc_calls = t\<rparr>) (\<lambda>s.
     Inr (s\<lparr>sc_meters := (sc_meters s)\<lparr>upper_nodes := length (sc_facts s)\<rparr>\<rparr>))))))"

section \<open>Verifying the tree\<close>

definition verify_child ::
  "'h scan_env \<Rightarrow> 'h \<Rightarrow> upper_fact \<Rightarrow> string \<Rightarrow> nat \<Rightarrow> nat result" where
  "verify_child V directory child name t =
    rbind (stat_at (se_os V) t directory name) (\<lambda>(now, t).
    if now \<noteq> fc_fingerprint child then Inl (diff_unknown ''upper entry changed before final diff'') else Inr t)"

definition verify_listing :: "'h scan_env \<Rightarrow> 'h \<Rightarrow> upper_fact \<Rightarrow> nat \<Rightarrow> nat result" where
  "verify_listing V directory known t =
    rbind (stat_fd (se_os V) t directory) (\<lambda>(now, t).
    if now \<noteq> fc_fingerprint known then Inl (diff_unknown ''upper directory changed before final diff'')
    else
      rbind (names V t directory (length (fc_children known))) (\<lambda>(found, t).
      if found \<noteq> fc_children known then Inl (diff_unknown ''upper directory changed before final diff'')
      else Inr t))"

definition verify_end :: "'h scan_env \<Rightarrow> 'h \<Rightarrow> upper_fact \<Rightarrow> nat \<Rightarrow> nat result" where
  "verify_end V directory known t =
    rbind (stat_fd (se_os V) t directory) (\<lambda>(now, t).
    if now \<noteq> fc_fingerprint known then Inl (diff_unknown ''upper changed during final verification'') else Inr t)"

text \<open>Indexing a missing known panics; the fuel bounds the nesting of directories.\<close>

fun verify_directory ::
  "nat \<Rightarrow> 'h scan_env \<Rightarrow> (string \<times> upper_fact) list \<Rightarrow> 'h \<Rightarrow> string \<Rightarrow> nat \<Rightarrow> nat run" where
  "verify_directory 0 V facts directory path t = None"
| "verify_directory (Suc fuel) V facts directory path t =
    (case map_of facts path of
       None \<Rightarrow> None
     | Some known \<Rightarrow>
         run_bind (Some (verify_listing V directory known t)) (\<lambda>t.
         run_bind (run_fold (\<lambda>t name.
             case map_of facts (diff_join path name) of
               None \<Rightarrow> None
             | Some child \<Rightarrow>
                 run_bind (Some (verify_child V directory child name t)) (\<lambda>t.
                 if is_directory (fc_identity child)
                 then run_bind (Some (open_at (se_os V) t directory name True)) (\<lambda>(h, t).
                      verify_directory fuel V facts h (diff_join path name) t)
                 else Some (Inr t)))
           t (fc_children known)) (\<lambda>t.
         Some (verify_end V directory known t))))"

definition verify_upper ::
  "'h scan_env \<Rightarrow> bool \<Rightarrow> path_component list \<Rightarrow> 'h scanned \<Rightarrow> nat \<Rightarrow> nat run" where
  "verify_upper V is_absolute components s t =
    run_bind (Some (open_root (se_os V) t is_absolute components)) (\<lambda>(root, t).
    run_bind (Some (stat_fd (se_os V) t root)) (\<lambda>(now, t).
    case map_of (sc_facts s) [] of
      None \<Rightarrow> None
    | Some known \<Rightarrow>
        if now \<noteq> fc_fingerprint known
        then Some (Inl (diff_unknown ''upper root path replaced before final diff''))
        else verify_directory (Suc (length (sc_facts s))) V (sc_facts s) (sc_root s) [] t))"

section \<open>Paths and trees\<close>

text \<open>
  The reference reading of the facts: a tree of nodes.  A path is a list of names; its text is what the
  code uses as a key.
\<close>

definition good_name :: "string \<Rightarrow> bool" where
  "good_name n \<longleftrightarrow> n \<noteq> [] \<and> CHR ''/'' \<notin> set n"

definition path_of :: "string list \<Rightarrow> string" where
  "path_of cs = foldl diff_join [] cs"

datatype upper_tree = UpperNode (ut_identity: upper_node_identity) (ut_fingerprint: fingerprint) (ut_children: "(string \<times> upper_tree) list")

fun subtree_at :: "upper_tree \<Rightarrow> string list \<Rightarrow> upper_tree option" where
  "subtree_at T [] = Some T"
| "subtree_at T (n # ns) = (case map_of (ut_children T) n of None \<Rightarrow> None | Some C \<Rightarrow> subtree_at C ns)"

definition fact_of :: "upper_tree \<Rightarrow> upper_fact" where
  "fact_of T = \<lparr>fc_identity = ut_identity T, fc_children = map fst (ut_children T), fc_fingerprint = ut_fingerprint T\<rparr>"

definition names_ok :: "string list \<Rightarrow> bool" where
  "names_ok ns \<longleftrightarrow> distinct ns \<and> sorted ns \<and> list_all good_name ns"

fun tree_ok :: "upper_tree \<Rightarrow> bool" where
  "tree_ok (UpperNode u fp ch) \<longleftrightarrow>
    names_ok (map fst ch) \<and> (ch \<noteq> [] \<longrightarrow> is_directory u) \<and> (\<forall>c\<in>set ch. tree_ok (snd c))"

text \<open>The facts of a tree, and the facts around a position.\<close>

definition facts_tree :: "(string \<times> upper_fact) list \<Rightarrow> upper_tree \<Rightarrow> bool" where
  "facts_tree facts T \<longleftrightarrow>
    sorted_wrt (<) (map fst facts)
    \<and> fst ` set facts \<subseteq> path_of ` {cs. list_all good_name cs}
    \<and> (\<forall>cs. list_all good_name cs \<longrightarrow> map_of facts (path_of cs) = map_option fact_of (subtree_at T cs))"

lemma path_of_Nil [simp]: "path_of [] = []"
  by (simp add: path_of_def)

lemma path_of_snoc: "path_of (cs @ [n]) = diff_join (path_of cs) n"
  by (simp add: path_of_def)

lemma split_on_append: "split_on c (xs @ c # ys) = split_on c xs @ split_on c ys"
proof (induction xs)
  case (Cons x xs)
  then show ?case by (cases "split_on c xs") auto
qed simp

lemma split_on_fresh: "c \<notin> set xs \<Longrightarrow> split_on c xs = [xs]"
  by (induction xs) auto

lemma path_of_eq_Nil: "list_all good_name cs \<Longrightarrow> path_of cs = [] \<longleftrightarrow> cs = []"
  by (cases cs rule: rev_cases) (auto simp: path_of_snoc diff_join_def good_name_def)

lemma split_path_of: "list_all good_name cs \<Longrightarrow> cs \<noteq> [] \<Longrightarrow> split_on CHR ''/'' (path_of cs) = cs"
proof (induction cs rule: rev_induct)
  case (snoc n cs)
  have n: "split_on CHR ''/'' n = [n]" using snoc.prems by (intro split_on_fresh) (simp add: good_name_def)
  show ?case
  proof (cases "cs = []")
    case False
    then have "path_of cs \<noteq> []" using snoc.prems by (simp add: path_of_eq_Nil)
    then show ?thesis using snoc False n by (simp add: path_of_snoc diff_join_def split_on_append)
  qed (use n in \<open>simp add: path_of_snoc[of "[]", simplified] diff_join_def\<close>)
qed simp

lemma path_of_inject:
  assumes "list_all good_name cs" "list_all good_name ds" "path_of cs = path_of ds"
  shows "cs = ds"
proof (cases "cs = [] \<or> ds = []")
  case True
  then show ?thesis using path_of_eq_Nil assms by metis
next
  case False
  then have "split_on CHR ''/'' (path_of cs) = cs" "split_on CHR ''/'' (path_of ds) = ds"
    using split_path_of assms(1,2) by blast+
  with assms(3) show ?thesis by metis
qed

lemma subtree_at_append:
  "subtree_at T (cs @ ds) = Option.bind (subtree_at T cs) (\<lambda>C. subtree_at C ds)"
  by (induction T cs rule: subtree_at.induct) (auto split: option.splits)

lemma tree_ok_subtree: "tree_ok T \<Longrightarrow> subtree_at T cs = Some C \<Longrightarrow> tree_ok C"
proof (induction T cs rule: subtree_at.induct)
  case (2 T n ns)
  then obtain D where D: "map_of (ut_children T) n = Some D" "subtree_at D ns = Some C" by (auto split: option.splits)
  have "tree_ok D" using 2(2) map_of_SomeD[OF D(1)] by (cases T) force
  with 2 D show ?case by simp
qed simp

section \<open>Collecting gives a tree\<close>

definition os_names :: "'h os_calls \<Rightarrow> bool" where
  "os_names S \<longleftrightarrow> (\<forall>t h b. b \<in> set (fst (os_readdir S t h)) \<longrightarrow> b \<noteq> [] \<and> 0x2F \<notin> set b)"

lemma from_utf8_Some: "from_utf8 b = Some n \<Longrightarrow> n = map (\<lambda>x. char_of (unat x)) b"
  by (auto simp: from_utf8_def split: if_splits)

lemma char_of_unat_eq:
  assumes "char_of (unat (x :: byte)) = CHR ''/''"
  shows "x = 0x2F"
proof -
  have "of_char (char_of (unat x)) = (of_char CHR ''/'' :: nat)" using assms by simp
  then have "unat x mod 256 = 47" by simp
  moreover have "unat x < 256" using unsigned_less[of x] by simp
  ultimately have "unat x = unat (0x2F :: byte)" by simp
  then show "x = 0x2F" by (simp only: word_unat_eq_iff)
qed

lemma name_step_good:
  assumes "try_fold (name_step V k) [] es = Inr out" "\<And>b. b \<in> set es \<Longrightarrow> b \<noteq> [] \<and> 0x2F \<notin> set b"
  shows "list_all good_name out"
proof -
  have "(\<lambda>out (ys :: bytes list). list_all good_name out) out es"
  proof (rule try_fold_invariant[OF assms(1)])
    fix u ys b v assume u: "list_all good_name u" "b \<in> set es" "name_step V k u b = Inr v"
    have "good_name n" if n: "from_utf8 b = Some n" for n
    proof -
      have "CHR ''/'' \<notin> set n"
      proof
        assume "CHR ''/'' \<in> set n"
        then obtain x where "x \<in> set b" "char_of (unat x) = CHR ''/''" using from_utf8_Some[OF n] by auto
        then show False using assms(2)[OF u(2)] char_of_unat_eq by blast
      qed
      then show ?thesis using assms(2)[OF u(2)] from_utf8_Some[OF n] by (auto simp: good_name_def)
    qed
    then show "list_all good_name v" using u(1,3) by (auto simp: name_step_def result_simps split: if_splits)
  qed simp
  then show ?thesis .
qed

lemma names_Inr:
  assumes "names V t h k = Inr (ns, t')"
  obtains stream t1 entries out where "open_at (se_os V) t h ''.'' True = Inr (stream, t1)"
    "os_readdir (se_os V) t1 stream = (entries, None)" "try_fold (name_step V k) [] entries = Inr out"
    "ns = sort out" "distinct ns" "t' = Suc t1"
proof -
  obtain stream t1 where o: "open_at (se_os V) t h ''.'' True = Inr (stream, t1)"
    and rest: "(case os_readdir (se_os V) t1 stream of (entries, fault) \<Rightarrow>
      rbind (try_fold (name_step V k) [] entries) (\<lambda>out.
      case fault of
        Some e \<Rightarrow> Inl (os_error e)
      | None \<Rightarrow>
          let out = sort out in
          if \<not> distinct out then Inl (diff_unknown ''duplicate upper directory name'')
          else Inr (out, Suc t1))) = Inr (ns, t')"
    using assms by (auto simp: names_def rbind_eq_Inr)
  obtain entries fault where r: "os_readdir (se_os V) t1 stream = (entries, fault)" by fastforce
  then obtain out where "fault = None" "try_fold (name_step V k) [] entries = Inr out" "ns = sort out" "distinct ns" "t' = Suc t1"
    using rest by (auto simp: rbind_eq_Inr Let_def split: option.splits if_splits)
  with that[OF o] r show thesis by blast
qed

lemma names_good:
  assumes "names V t h k = Inr (ns, t')" "os_names (se_os V)"
  shows "names_ok ns"
proof -
  obtain stream t1 entries out where o: "os_readdir (se_os V) t1 stream = (entries, None)"
    "try_fold (name_step V k) [] entries = Inr out" "ns = sort out" "distinct ns"
    by (rule names_Inr[OF assms(1)])
  have "list_all good_name out"
    by (rule name_step_good[OF o(2)]) (use assms(2) o(1) in \<open>metis os_names_def fst_conv\<close>)
  then show ?thesis using o(3,4) by (simp add: names_ok_def list_all_iff)
qed

text \<open>The facts after a subtree was collected at the names \<^term>\<open>ps\<close>.\<close>

definition placed ::
  "(string \<times> upper_fact) list \<Rightarrow> string list \<Rightarrow> upper_tree \<Rightarrow> (string \<times> upper_fact) list \<Rightarrow> bool" where
  "placed F ps T G \<longleftrightarrow>
    sorted_wrt (<) (map fst G) \<and> fst ` set G \<subseteq> fst ` set F \<union> path_of ` {cs. list_all good_name cs}
    \<and> (\<forall>cs. list_all good_name cs \<longrightarrow> map_of G (path_of cs)
         = (if take (length ps) cs = ps then map_option fact_of (subtree_at T (drop (length ps) cs)) else map_of F (path_of cs)))"

lemma map_of_set_children:
  "map_of (set_children p ch F) k = map_option (\<lambda>f. if k = p then f\<lparr>fc_children := ch\<rparr> else f) (map_of F k)"
  by (induction F) (auto simp: set_children_def)

lemma keys_set_children: "map fst (set_children p ch F) = map fst F"
  by (induction F) (auto simp: set_children_def)

lemma begin_directory_Inr:
  assumes "begin_directory V h p s = Inr (before, ch, s')" "os_names (se_os V)"
  shows "names_ok ch" "sc_facts s' = set_children p ch (sc_facts s)"
proof -
  obtain t t' where n: "names V t h (max_nodes (se_limits V) - length (sc_facts s)) = Inr (ch, t')"
    "sc_facts s' = set_children p ch (sc_facts s)"
    using assms(1) by (auto simp: begin_directory_def Let_def rbind_eq_Inr)
  show "names_ok ch" by (rule names_good[OF n(1) assms(2)])
  show "sc_facts s' = set_children p ch (sc_facts s)" by (fact n(2))
qed

lemma read_child_dir:
  assumes "read_child V t h n fp m = Inr (u, c, m', t')"
  shows "is_directory u \<longleftrightarrow> c \<noteq> None"
  using assms
  by (auto simp: read_child_def read_regular_def read_symlink_def Let_def rbind_eq_Inr is_directory_def split: if_splits)

lemma add_child_Inr:
  assumes "add_child V h p n s = Inr (fp, c, s')"
  obtains u where "sc_facts s' = btree_insert (diff_join p n) \<lparr>fc_identity = u, fc_children = [], fc_fingerprint = fp\<rparr> (sc_facts s)"
    "is_directory u \<longleftrightarrow> c \<noteq> None"
proof -
  obtain t u m t' where *: "read_child V t h n fp (sc_meters s) = Inr (u, c, m, t')"
    "sc_facts s' = btree_insert (diff_join p n) \<lparr>fc_identity = u, fc_children = [], fc_fingerprint = fp\<rparr> (sc_facts s)"
    using assms by (auto simp: add_child_def Let_def rbind_eq_Inr split: if_splits)
  show thesis by (rule that[OF *(2) read_child_dir[OF *(1)]])
qed

lemma recheck_facts: "recheck f b c s = Inr s' \<Longrightarrow> sc_facts s' = sc_facts s"
  by (auto simp: recheck_def rbind_eq_Inr split: if_splits)

text \<open>The state of the loop over the children: those in \<^term>\<open>ch\<close> are collected.\<close>

definition placing ::
  "(string \<times> upper_fact) list \<Rightarrow> string list \<Rightarrow> upper_fact \<Rightarrow> (string \<times> upper_tree) list \<Rightarrow> (string \<times> upper_fact) list \<Rightarrow> bool" where
  "placing F ps f ch G \<longleftrightarrow>
    sorted_wrt (<) (map fst G) \<and> fst ` set G \<subseteq> fst ` set F \<union> path_of ` {cs. list_all good_name cs}
    \<and> map_of G (path_of ps) = Some f
    \<and> (\<forall>n ns. list_all good_name (n # ns) \<longrightarrow> map_of G (path_of (ps @ n # ns))
         = (case map_of ch n of None \<Rightarrow> None | Some C \<Rightarrow> map_option fact_of (subtree_at C ns)))
    \<and> (\<forall>cs. list_all good_name cs \<longrightarrow> take (length ps) cs \<noteq> ps \<longrightarrow> map_of G (path_of cs) = map_of F (path_of cs))"

lemma placing_placed:
  assumes "placing F ps f ch G" "f = fact_of T" "ut_children T = ch" "list_all good_name ps"
  shows "placed F ps T G"
  unfolding placed_def
proof (intro conjI allI impI)
  show "sorted_wrt (<) (map fst G)" "fst ` set G \<subseteq> fst ` set F \<union> path_of ` {cs. list_all good_name cs}"
    using assms(1) by (simp_all add: placing_def)
  fix cs assume cs: "list_all good_name cs"
  show "map_of G (path_of cs)
         = (if take (length ps) cs = ps then map_option fact_of (subtree_at T (drop (length ps) cs)) else map_of F (path_of cs))"
  proof (cases "take (length ps) cs = ps")
    case True
    then have eq: "cs = ps @ drop (length ps) cs" by (metis append_take_drop_id)
    show ?thesis
    proof (cases "drop (length ps) cs")
      case Nil
      then have "cs = ps" using eq by simp
      then show ?thesis using assms(1,2) by (simp add: placing_def)
    next
      case (Cons n ns)
      have "list_all good_name (n # ns)" using cs eq Cons by (metis list_all_append)
      then have "map_of G (path_of (ps @ n # ns)) = (case map_of ch n of None \<Rightarrow> None | Some C \<Rightarrow> map_option fact_of (subtree_at C ns))"
        using assms(1) unfolding placing_def by blast
      moreover have "cs = ps @ n # ns" using eq Cons by simp
      ultimately show ?thesis using True Cons assms(3) by (simp split: option.splits)
    qed
  qed (use assms(1) cs in \<open>simp add: placing_def\<close>)
qed

lemma try_fold_prefix:
  assumes "try_fold f s xs = Inr t" "P s []"
    and "\<And>u ys x zs v. P u ys \<Longrightarrow> xs = ys @ x # zs \<Longrightarrow> f u x = Inr v \<Longrightarrow> P v (ys @ [x])"
  shows "P t xs"
proof -
  have "try_fold f u zs = Inr t \<Longrightarrow> P u ys \<Longrightarrow> xs = ys @ zs \<Longrightarrow> P t xs" for u ys zs
  proof (induction zs arbitrary: u ys)
    case (Cons x zs)
    then obtain v where v: "f u x = Inr v" "try_fold f v zs = Inr t" by (auto split: sum.splits)
    from Cons.IH[OF v(2) assms(3)[OF Cons.prems(2,3) v(1)]] Cons.prems(3) show ?case by simp
  qed simp
  from this[OF assms(1,2)] show ?thesis by simp
qed

lemma placed_leaf:
  assumes G: "sorted_wrt (<) (map fst G)" "map_of G (path_of ps) = Some (fact_of T)" "ut_children T = []"
    and below: "\<And>n ns. list_all good_name (n # ns) \<Longrightarrow> map_of G (path_of (ps @ n # ns)) = None"
    and ps: "list_all good_name ps"
  shows "placed G ps T G"
proof -
  have "placing G ps (fact_of T) [] G"
    unfolding placing_def using G below by simp
  then show ?thesis by (rule placing_placed[OF _ refl assms(3) ps])
qed

lemma placing_insert:
  assumes P: "placing F ps f ch G" and n: "n \<notin> fst ` set ch" "good_name n" "list_all good_name ps"
    and H: "H = btree_insert (path_of (ps @ [n])) k G"
  shows "sorted_wrt (<) (map fst H)" "map_of H (path_of (ps @ [n])) = Some k"
    "list_all good_name (m # ns) \<Longrightarrow> map_of H (path_of ((ps @ [n]) @ m # ns)) = None"
proof -
  have s: "sorted_wrt (<) (map fst G)" using P by (simp add: placing_def)
  note mo = map_of_btree_insert[OF s, of "path_of (ps @ [n])" k, folded H]
  show "sorted_wrt (<) (map fst H)" unfolding H by (rule sorted_btree_insert[OF s])
  show "map_of H (path_of (ps @ [n])) = Some k" by (simp add: mo)
  assume ns: "list_all good_name (m # ns)"
  have ne: "path_of (ps @ n # m # ns) \<noteq> path_of (ps @ [n])"
    using path_of_inject[of "ps @ n # m # ns" "ps @ [n]"] n ns by auto
  have "map_of ch n = None" using n(1) by (simp add: map_of_eq_None_iff)
  then have "map_of G (path_of (ps @ n # m # ns)) = None"
    using P n(2) ns unfolding placing_def by fastforce
  then show "map_of H (path_of ((ps @ [n]) @ m # ns)) = None" using ne by (simp add: mo)
qed

lemma placing_add:
  assumes P: "placing F ps f ch G" and n: "n \<notin> fst ` set ch" "good_name n" "list_all good_name ps"
    and H: "H = btree_insert (path_of (ps @ [n])) k G" and C: "placed H (ps @ [n]) C K"
  shows "placing F ps f (ch @ [(n, C)]) K"
proof -
  have s: "sorted_wrt (<) (map fst G)" using P by (simp add: placing_def)
  note mo = map_of_btree_insert[OF s, of "path_of (ps @ [n])" k, folded H]
  have K: "map_of K (path_of cs) = (if take (Suc (length ps)) cs = ps @ [n]
      then map_option fact_of (subtree_at C (drop (Suc (length ps)) cs)) else map_of G (path_of cs))"
    if "list_all good_name cs" for cs
  proof (cases "take (Suc (length ps)) cs = ps @ [n]")
    case False
    then have "path_of cs \<noteq> path_of (ps @ [n])"
      using path_of_inject[OF that, of "ps @ [n]"] n(2,3) by auto
    then show ?thesis using C that False by (simp add: placed_def mo)
  qed (use C that in \<open>simp add: placed_def\<close>)
  have keys: "fst ` set H \<subseteq> fst ` set F \<union> path_of ` {cs. list_all good_name cs}"
    using P n(2,3) by (auto simp: placing_def H set_btree_insert)
  show ?thesis
    unfolding placing_def
  proof (intro conjI allI impI)
    show "sorted_wrt (<) (map fst K)" using C by (simp add: placed_def)
    show "fst ` set K \<subseteq> fst ` set F \<union> path_of ` {cs. list_all good_name cs}"
      using C keys unfolding placed_def by blast
    show "map_of K (path_of ps) = Some f"
      using K[of ps] n(3) P by (simp add: placing_def)
  next
    fix m ns assume g: "list_all good_name (m # ns)"
    have "map_of K (path_of (ps @ m # ns)) = (if m = n then map_option fact_of (subtree_at C ns) else map_of G (path_of (ps @ m # ns)))"
      using K[of "ps @ m # ns"] g n(3) by auto
    moreover have "map_of ch n = None" using n(1) by (simp add: map_of_eq_None_iff)
    ultimately show "map_of K (path_of (ps @ m # ns))
        = (case map_of (ch @ [(n, C)]) m of None \<Rightarrow> None | Some D \<Rightarrow> map_option fact_of (subtree_at D ns))"
      using P g by (cases "m = n") (auto simp: placing_def map_add_def split: option.splits)
  next
    fix cs assume g: "list_all good_name cs" "take (length ps) cs \<noteq> ps"
    have "take (Suc (length ps)) cs \<noteq> ps @ [n]"
    proof
      assume "take (Suc (length ps)) cs = ps @ [n]"
      then have "take (length ps) (take (Suc (length ps)) cs) = ps" by simp
      then show False using g(2) by (simp add: min_def)
    qed
    then show "map_of K (path_of cs) = map_of F (path_of cs)"
      using K[OF g(1)] P g by (simp add: placing_def)
  qed
qed

lemma collect_directory_placed:
  assumes "collect_directory V h (path_of ps) depth s = Inr s'" "os_names (se_os V)" "list_all good_name ps"
    "sorted_wrt (<) (map fst (sc_facts s))" "map_of (sc_facts s) (path_of ps) = Some k" "is_directory (fc_identity k)"
    "\<And>n ns. list_all good_name (n # ns) \<Longrightarrow> map_of (sc_facts s) (path_of (ps @ n # ns)) = None"
  shows "\<exists>T. placed (sc_facts s) ps T (sc_facts s') \<and> tree_ok T \<and> ut_identity T = fc_identity k \<and> ut_fingerprint T = fc_fingerprint k"
  using assms
proof (induction "Suc (max_depth (se_limits V)) - depth" arbitrary: h ps depth s s' k rule: less_induct)
  case less
  let ?F = "sc_facts s"
  let ?step = "\<lambda>s name. rbind (add_child V h (path_of ps) name s) (\<lambda>(fp, child, s).
           case child of
             None \<Rightarrow> Inr s
           | Some h' \<Rightarrow>
               rbind (collect_directory V h' (diff_join (path_of ps) name) (depth + 1) s) (\<lambda>s.
               recheck (\<lambda>t. stat_at (se_os V) t h name) fp ''upper directory entry changed during scan'' s))"
  obtain before names s1 s2 where dep: "\<not> max_depth (se_limits V) < depth"
    and b: "begin_directory V h (path_of ps) s = Inr (before, names, s1)"
    and loop: "try_fold ?step s1 names = Inr s2"
    and last: "sc_facts s' = sc_facts s2"
    using less.prems(1) by (subst (asm) collect_directory.simps) (auto simp: rbind_eq_Inr recheck_facts split: if_splits)
  note bd = begin_directory_Inr[OF b less.prems(2)]
  let ?f = "k\<lparr>fc_children := names\<rparr>"
  define P where "P = (\<lambda>(u :: 'a scanned) ys. \<exists>ch. map fst ch = ys \<and> (\<forall>c\<in>set ch. tree_ok (snd c)) \<and> placing ?F ps ?f ch (sc_facts u))"
  have "P s2 names"
  proof (rule try_fold_prefix[OF loop])
    have path: "path_of (ps @ n # ns) \<noteq> path_of ps" if "list_all good_name (n # ns)" for n ns
      using path_of_inject[of "ps @ n # ns" ps] less.prems(3) that by auto
    have other: "path_of cs \<noteq> path_of ps" if "list_all good_name cs" "take (length ps) cs \<noteq> ps" for cs
      using path_of_inject[OF that(1) less.prems(3)] that(2) by auto
    show "P s1 []"
      unfolding P_def placing_def bd(2) keys_set_children
      using less.prems(4,5,7) path other
      by (auto simp: map_of_set_children keys_set_children option.map_ident simp flip: set_map)
  next
    fix u ys n zs w
    assume P: "P u ys" and split: "names = ys @ n # zs" and step: "?step u n = Inr w"
    obtain ch where ch: "map fst ch = ys" "\<forall>c\<in>set ch. tree_ok (snd c)" "placing ?F ps ?f ch (sc_facts u)"
      using P unfolding P_def by blast
    have n: "n \<notin> fst ` set ch" "good_name n"
      using bd(1) split ch(1) by (auto simp: names_ok_def simp flip: set_map)
    obtain fp c x where a: "add_child V h (path_of ps) n u = Inr (fp, c, x)"
      and rest: "(case c of None \<Rightarrow> Inr x | Some h' \<Rightarrow>
               rbind (collect_directory V h' (diff_join (path_of ps) n) (depth + 1) x) (\<lambda>s.
               recheck (\<lambda>t. stat_at (se_os V) t h n) fp ''upper directory entry changed during scan'' s)) = Inr w"
      using step by (auto simp: rbind_eq_Inr)
    obtain id where x: "sc_facts x = btree_insert (path_of (ps @ [n])) \<lparr>fc_identity = id, fc_children = [], fc_fingerprint = fp\<rparr> (sc_facts u)"
      "is_directory id \<longleftrightarrow> c \<noteq> None"
      using add_child_Inr[OF a] by (metis path_of_snoc)
    note ins = placing_insert[OF ch(3) n less.prems(3) x(1)]
    have good: "list_all good_name (ps @ [n])" using less.prems(3) n(2) by simp
    have "\<exists>C. placed (sc_facts x) (ps @ [n]) C (sc_facts w) \<and> tree_ok C"
    proof (cases c)
      case None
      let ?C = "UpperNode id fp []"
      have "placed (sc_facts x) (ps @ [n]) ?C (sc_facts x)"
        by (rule placed_leaf[OF ins(1) _ _ _ good]) (use ins(2,3) in \<open>simp_all add: fact_of_def\<close>)
      then show ?thesis using rest None by (intro exI[of _ ?C]) (simp add: names_ok_def)
    next
      case (Some h')
      obtain y where y: "collect_directory V h' (path_of (ps @ [n])) (depth + 1) x = Inr y" "sc_facts w = sc_facts y"
        using rest Some by (auto simp: rbind_eq_Inr recheck_facts path_of_snoc)
      have "Suc (max_depth (se_limits V)) - (depth + 1) < Suc (max_depth (se_limits V)) - depth" using dep by simp
      from less.hyps[OF this y(1) less.prems(2) good ins(1,2) _ ins(3)] show ?thesis
        using x(2) Some y(2) by auto
    qed
    then obtain C where C: "placed (sc_facts x) (ps @ [n]) C (sc_facts w)" "tree_ok C" by blast
    have "placing ?F ps ?f (ch @ [(n, C)]) (sc_facts w)"
      by (rule placing_add[OF ch(3) n less.prems(3) x(1) C(1)])
    then show "P w (ys @ [n])"
      unfolding P_def using ch(1,2) C(2) by (intro exI[of _ "ch @ [(n, C)]"]) auto
  qed
  then obtain ch where ch: "map fst ch = names" "\<forall>c\<in>set ch. tree_ok (snd c)" "placing ?F ps ?f ch (sc_facts s2)"
    unfolding P_def by blast
  let ?T = "UpperNode (fc_identity k) (fc_fingerprint k) ch"
  have "placed ?F ps ?T (sc_facts s')"
    unfolding last by (rule placing_placed[OF ch(3) _ _ less.prems(3)]) (simp_all add: fact_of_def ch(1))
  moreover have "tree_ok ?T" using bd(1) ch(1,2) less.prems(6) by simp
  ultimately show ?case by (intro exI[of _ ?T]) simp
qed

lemma collect_upper_tree:
  assumes "collect_upper V try_clone absolute comps = Inr s" "os_names (se_os V)"
  shows "\<exists>T. facts_tree (sc_facts s) T \<and> tree_ok T \<and> is_directory (ut_identity T)"
proof -
  obtain root fp kept t s0 where run: "collect_directory V root [] 0
      \<lparr>sc_facts = [([], \<lparr>fc_identity = UpperDirectory (permission_bits fp) (fp_uid fp) (fp_gid fp),
                           fc_children = [], fc_fingerprint = fp\<rparr>)],
       sc_meters = DiffMeters_default, sc_root = kept, sc_calls = t\<rparr> = Inr s0" and s: "sc_facts s = sc_facts s0"
    using assms(1) by (auto simp: collect_upper_def Let_def rbind_eq_Inr)
  let ?k = "\<lparr>fc_identity = UpperDirectory (permission_bits fp) (fp_uid fp) (fp_gid fp), fc_children = [], fc_fingerprint = fp\<rparr>"
  have fresh: "path_of (n # ns) \<noteq> []" if "list_all good_name (n # ns)" for n ns
    using path_of_eq_Nil[OF that] by simp
  have "\<exists>T. placed [([], ?k)] [] T (sc_facts s0) \<and> tree_ok T \<and> ut_identity T = fc_identity ?k \<and> ut_fingerprint T = fc_fingerprint ?k"
    using collect_directory_placed[of V root "[]" 0 _ s0 ?k, simplified, OF run assms(2)] fresh
    by (simp add: is_directory_def)
  then obtain T where T: "placed [([], ?k)] [] T (sc_facts s0)" "tree_ok T" "ut_identity T = fc_identity ?k" by blast
  have "[] \<in> path_of ` {cs. list_all good_name cs}" by (rule image_eqI[of _ _ "[]"]) simp_all
  then have "facts_tree (sc_facts s) T"
    using T(1) unfolding facts_tree_def placed_def s by auto
  then show ?thesis using T(2,3) by (auto simp: is_directory_def)
qed

text \<open>Budgets kept by every step of the collection.\<close>

definition within :: "'h scan_env \<Rightarrow> 'h scanned \<Rightarrow> bool" where
  "within V s \<longleftrightarrow> length (sc_facts s) \<le> max_nodes (se_limits V) \<and> hash_bytes (sc_meters s) \<le> max_bytes (se_limits V)"

lemma length_btree_insert: "length (btree_insert k v es) \<le> Suc (length es)"
  by (induction k v es rule: btree_insert.induct) auto

lemma no_xattrs_bytes: "no_xattrs S t h m = Inr (m', t') \<Longrightarrow> hash_bytes m' = hash_bytes m"
  by (auto simp: no_xattrs_def xattr_result_def rbind_eq_Inr split: sum.splits if_splits)

lemma consume_bytes_within: "consume_bytes m n l = Inr m' \<Longrightarrow> hash_bytes m' \<le> max_bytes l"
  by (auto simp: consume_bytes_def result_simps bind_eq_Some_conv split: if_splits)

lemma no_symlink_xattrs_bytes: "no_symlink_xattrs S t h n fp m = Inr (m', t') \<Longrightarrow> hash_bytes m' = hash_bytes m"
  by (auto simp: no_symlink_xattrs_def xattr_result_def rbind_eq_Inr split: sum.splits if_splits)

lemma read_child_within:
  assumes "read_child V t h n fp m = Inr (u, c, m', t')" "hash_bytes m \<le> max_bytes (se_limits V)"
  shows "hash_bytes m' \<le> max_bytes (se_limits V)"
proof -
  have "hash_bytes m2 \<le> max_bytes (se_limits V)" if "read_regular V t h n fp m = Inr (u2, m2, t2)" for u2 m2 t2
    using that consume_bytes_within no_xattrs_bytes
    by (fastforce simp: read_regular_def Let_def rbind_eq_Inr split: if_splits)
  moreover have "hash_bytes m2 \<le> max_bytes (se_limits V)" if "read_symlink V t h n fp m = Inr (u2, m2, t2)" for u2 m2 t2
    using that consume_bytes_within no_symlink_xattrs_bytes
    by (fastforce simp: read_symlink_def Let_def rbind_eq_Inr split: if_splits)
  ultimately show ?thesis
    using assms by (auto simp: read_child_def Let_def rbind_eq_Inr split: if_splits)
qed

lemma add_child_within:
  assumes "add_child V h p n s = Inr (fp, c, s')" "within V s"
  shows "within V s'"
proof -
  obtain t u m t' where *: "length (sc_facts s) < max_nodes (se_limits V)" "read_child V t h n fp (sc_meters s) = Inr (u, c, m, t')"
    "sc_facts s' = btree_insert (diff_join p n) \<lparr>fc_identity = u, fc_children = [], fc_fingerprint = fp\<rparr> (sc_facts s)"
    "sc_meters s' = m"
    using assms(1) by (auto simp: add_child_def Let_def rbind_eq_Inr split: if_splits)
  have "length (sc_facts s') \<le> Suc (length (sc_facts s))" unfolding *(3) by (rule length_btree_insert)
  then show ?thesis
    using *(1,4) read_child_within[OF *(2)] assms(2) by (simp add: within_def)
qed

lemma recheck_within: "recheck f b c s = Inr s' \<Longrightarrow> within V s \<Longrightarrow> within V s'"
  by (auto simp: recheck_def rbind_eq_Inr within_def split: if_splits)

lemma collect_directory_within:
  "collect_directory V h p depth s = Inr s' \<Longrightarrow> within V s \<Longrightarrow> within V s'"
proof (induction "Suc (max_depth (se_limits V)) - depth" arbitrary: h p depth s s' rule: less_induct)
  case less
  let ?step = "\<lambda>s name. rbind (add_child V h p name s) (\<lambda>(fp, child, s).
           case child of
             None \<Rightarrow> Inr s
           | Some h' \<Rightarrow>
               rbind (collect_directory V h' (diff_join p name) (depth + 1) s) (\<lambda>s.
               recheck (\<lambda>t. stat_at (se_os V) t h name) fp ''upper directory entry changed during scan'' s))"
  obtain before names s1 s2 where dep: "\<not> max_depth (se_limits V) < depth"
    and b: "begin_directory V h p s = Inr (before, names, s1)"
    and loop: "try_fold ?step s1 names = Inr s2"
    and last: "recheck (\<lambda>t. stat_fd (se_os V) t h) before ''upper directory changed during enumeration'' s2 = Inr s'"
    using less.prems(1) by (subst (asm) collect_directory.simps) (auto simp: rbind_eq_Inr split: if_splits)
  have "within V s1"
    using b less.prems(2) no_xattrs_bytes
    by (fastforce simp: begin_directory_def Let_def rbind_eq_Inr within_def set_children_def)
  have "(\<lambda>u (ys :: string list). within V u) s2 names"
  proof (rule try_fold_invariant[OF loop])
    fix u ys n w assume u: "within V u" "?step u n = Inr w"
    obtain fp c x where a: "add_child V h p n u = Inr (fp, c, x)"
      and rest: "(case c of None \<Rightarrow> Inr x | Some h' \<Rightarrow>
               rbind (collect_directory V h' (diff_join p n) (depth + 1) x) (\<lambda>s.
               recheck (\<lambda>t. stat_at (se_os V) t h n) fp ''upper directory entry changed during scan'' s)) = Inr w"
      using u(2) by (auto simp: rbind_eq_Inr)
    have x: "within V x" by (rule add_child_within[OF a u(1)])
    show "within V w"
    proof (cases c)
      case (Some h')
      then obtain y where y: "collect_directory V h' (diff_join p n) (depth + 1) x = Inr y"
        "recheck (\<lambda>t. stat_at (se_os V) t h n) fp ''upper directory entry changed during scan'' y = Inr w"
        using rest by (auto simp: rbind_eq_Inr)
      have "within V y" by (rule less.hyps[OF _ y(1) x]) (use dep in simp)
      then show ?thesis by (rule recheck_within[OF y(2)])
    qed (use rest x in simp)
  qed (fact \<open>within V s1\<close>)
  then show ?case by (rule recheck_within[OF last])
qed

section \<open>Verification returns and looks at every node again\<close>

definition positions :: "upper_tree \<Rightarrow> string list set" where
  "positions T = {cs. subtree_at T cs \<noteq> None}"

lemma positions_good: "tree_ok T \<Longrightarrow> subtree_at T cs = Some C \<Longrightarrow> list_all good_name cs"
proof (induction T cs rule: subtree_at.induct)
  case (2 T n ns)
  then obtain D where D: "map_of (ut_children T) n = Some D" "subtree_at D ns = Some C" by (auto split: option.splits)
  have "(n, D) \<in> set (ut_children T)" by (rule map_of_SomeD[OF D(1)])
  then have "tree_ok D" "good_name n" using 2(2) by (cases T; force simp: names_ok_def list_all_iff)+
  with 2 D show ?case by simp
qed simp

lemma positions_facts:
  assumes "facts_tree F T" "tree_ok T"
  shows "finite (positions T)" "card (positions T) \<le> length F"
proof -
  have sub: "path_of ` positions T \<subseteq> set (map fst F)"
  proof
    fix k assume "k \<in> path_of ` positions T"
    then obtain cs C where k: "k = path_of cs" "subtree_at T cs = Some C" by (auto simp: positions_def)
    then have "map_of F k = Some (fact_of C)"
      using assms positions_good[OF assms(2) k(2)] by (simp add: facts_tree_def)
    then show "k \<in> set (map fst F)" by (force dest: map_of_SomeD)
  qed
  have inj: "inj_on path_of (positions T)"
    using positions_good[OF assms(2)] path_of_inject by (intro inj_onI) (auto simp: positions_def)
  show fin: "finite (positions T)"
    by (rule finite_imageD[OF finite_subset[OF sub] inj]) simp
  have "card (positions T) = card (path_of ` positions T)" using inj by (simp add: card_image)
  also have "\<dots> \<le> card (set (map fst F))" by (rule card_mono[OF _ sub]) simp
  finally show "card (positions T) \<le> length F" using card_length[of "map fst F"] by simp
qed

lemma positions_child:
  assumes "map_of (ut_children C) n = Some D" "finite (positions C)"
  shows "card (positions D) < card (positions C)" "finite (positions D)"
proof -
  have sub: "(#) n ` positions D \<subset> positions C" using assms(1) by (auto simp: positions_def)
  have fin: "finite ((#) n ` positions D)" by (rule finite_subset[OF _ assms(2)]) (use sub in blast)
  then show "finite (positions D)" by (rule finite_imageD) simp
  have "card (positions D) = card ((#) n ` positions D)" by (simp add: card_image)
  also have "\<dots> < card (positions C)" by (rule psubset_card_mono[OF assms(2) sub])
  finally show "card (positions D) < card (positions C)" .
qed

lemma facts_tree_at:
  assumes "facts_tree F T" "tree_ok T" "subtree_at T cs = Some C"
  shows "map_of F (path_of cs) = Some (fact_of C)"
    "map_of (ut_children C) n = Some D \<Longrightarrow> map_of F (diff_join (path_of cs) n) = Some (fact_of D)"
    "n \<in> set (map fst (ut_children C)) \<Longrightarrow> \<exists>D. map_of (ut_children C) n = Some D"
proof -
  show "map_of F (path_of cs) = Some (fact_of C)"
    using assms positions_good[OF assms(2,3)] by (simp add: facts_tree_def)
  show "\<exists>D. map_of (ut_children C) n = Some D" if "n \<in> set (map fst (ut_children C))"
    using that by (metis map_of_eq_None_iff not_None_eq set_map)
  assume n: "map_of (ut_children C) n = Some D"
  then have "subtree_at T (cs @ [n]) = Some D" using assms(3) by (simp add: subtree_at_append)
  then show "map_of F (diff_join (path_of cs) n) = Some (fact_of D)"
    using assms positions_good[OF assms(2), of "cs @ [n]"] by (simp add: facts_tree_def flip: path_of_snoc)
qed

abbreviation verify_entry where
  "verify_entry fuel V facts h path \<equiv> (\<lambda>t name.
     case map_of facts (diff_join path name) of
       None \<Rightarrow> None
     | Some child \<Rightarrow>
         run_bind (Some (verify_child V h child name t)) (\<lambda>t.
         if is_directory (fc_identity child)
         then run_bind (Some (open_at (se_os V) t h name True)) (\<lambda>(h, t).
              verify_directory fuel V facts h (diff_join path name) t)
         else Some (Inr t)))"

lemma run_fold_some:
  assumes "\<And>u x. x \<in> set xs \<Longrightarrow> f u x \<noteq> None"
  shows "run_fold f s xs \<noteq> None"
  by (rule run_fold_returns[where P = "\<lambda>_. True"]) (use assms in auto)

lemma verify_directory_returns:
  assumes F: "facts_tree F T" "tree_ok T"
  shows "subtree_at T cs = Some C \<Longrightarrow> finite (positions C) \<Longrightarrow> card (positions C) \<le> fuel
    \<Longrightarrow> verify_directory fuel V F h (path_of cs) t \<noteq> None"
proof (induction fuel arbitrary: cs C h t)
  case 0
  then have "positions C = {}" by simp
  moreover have "[] \<in> positions C" by (simp add: positions_def)
  ultimately show ?case by blast
next
  case (Suc fuel)
  note at = facts_tree_at[OF F Suc.prems(1)]
  have entry: "verify_entry fuel V F h (path_of cs) u n \<noteq> None" if n: "n \<in> set (map fst (ut_children C))" for u n
  proof -
    obtain D where D: "map_of (ut_children C) n = Some D" using at(3)[OF n] by blast
    have sub: "subtree_at T (cs @ [n]) = Some D" using Suc.prems(1) D by (simp add: subtree_at_append)
    have "verify_directory fuel V F h' (path_of (cs @ [n])) t' \<noteq> None" for h' t'
      by (rule Suc.IH[OF sub]) (use positions_child[OF D Suc.prems(2)] Suc.prems(3) in auto)
    then show ?thesis
      using at(2)[OF D] by (auto simp: run_bind_def path_of_snoc split: sum.splits option.splits)
  qed
  show ?case
  proof (cases "verify_listing V h (fact_of C) t")
    case (Inr u)
    have "run_fold (verify_entry fuel V F h (path_of cs)) u (map fst (ut_children C)) \<noteq> None"
      by (rule run_fold_some) (use entry in blast)
    then obtain r where "run_fold (verify_entry fuel V F h (path_of cs)) u (fc_children (fact_of C)) = Some r"
      by (auto simp: fact_of_def)
    then show ?thesis using at(1) Inr by (cases r) simp_all
  qed (use at(1) in simp)
qed

definition seen :: "'h os_calls \<Rightarrow> nat \<Rightarrow> nat \<Rightarrow> string \<Rightarrow> fingerprint \<Rightarrow> bool" where
  "seen S t t' n fp \<longleftrightarrow> (\<exists>u h. t \<le> u \<and> u < t' \<and> os_fstatat S u h n = Inr fp)"

lemma seen_mono: "seen S t t' n fp \<Longrightarrow> s \<le> t \<Longrightarrow> t' \<le> s' \<Longrightarrow> seen S s s' n fp"
  unfolding seen_def by (meson order_trans order_less_le_trans)

lemma open_at_later: "open_at S t h n d = Inr (x, t') \<Longrightarrow> t' = Suc t"
  by (auto simp: open_at_def os_call_def rbind_eq_Inr)

lemma open_root_later:
  assumes "open_root S t absolute comps = Inr (h, t')"
  shows "t \<le> t'"
proof -
  obtain start where start: "os_call (os_root S) t = Inr start" and f: "try_fold (\<lambda>(directory, t) component.
           case component of
             RootDir \<Rightarrow> Inr (directory, t)
           | Normal name \<Rightarrow> open_at S t directory name True
           | OtherComponent \<Rightarrow> Inl (diff_unknown ''upper root has a noncanonical component'')) start comps = Inr (h, t')"
    using assms by (auto simp: open_root_def rbind_eq_Inr split: if_splits)
  have "(\<lambda>u (ys :: path_component list). t \<le> snd u) (h, t') comps"
  proof (rule try_fold_invariant[OF f])
    show "t \<le> snd start" using start by (auto simp: os_call_def rbind_eq_Inr)
  qed (use open_at_later in \<open>fastforce split: path_component.splits\<close>)
  then show ?thesis by simp
qed

lemma stat_fd_later: "stat_fd S t h = Inr (fp, t') \<Longrightarrow> t' = Suc t \<and> os_fstat S t h = Inr fp"
  by (auto simp: stat_fd_def os_call_def result_simps)

lemma stat_at_later: "stat_at S t h n = Inr (fp, t') \<Longrightarrow> t' = Suc t \<and> os_fstatat S t h n = Inr fp"
  by (auto simp: stat_at_def c_name_def os_call_def result_simps split: if_splits)

lemma names_later: "names V t h k = Inr (ns, t') \<Longrightarrow> t < t'"
  by (elim names_Inr) (auto dest: open_at_later)

lemma verify_listing_later: "verify_listing V h k t = Inr t' \<Longrightarrow> t \<le> t'"
  using stat_fd_later names_later by (fastforce simp: verify_listing_def rbind_eq_Inr split: if_splits)

lemma verify_end_later: "verify_end V h k t = Inr t' \<Longrightarrow> t \<le> t'"
  using stat_fd_later by (fastforce simp: verify_end_def rbind_eq_Inr split: if_splits)

lemma verify_child_seen:
  assumes "verify_child V h k n t = Inr t'"
  shows "t' = Suc t" "seen (se_os V) t t' n (fc_fingerprint k)"
proof -
  have "stat_at (se_os V) t h n = Inr (fc_fingerprint k, t')"
    using assms by (auto simp: verify_child_def rbind_eq_Inr split: if_splits)
  from stat_at_later[OF this] show "t' = Suc t" "seen (se_os V) t t' n (fc_fingerprint k)"
    by (auto simp: seen_def)
qed

definition reseen :: "'h os_calls \<Rightarrow> upper_tree \<Rightarrow> nat \<Rightarrow> nat \<Rightarrow> bool" where
  "reseen S C t t' \<longleftrightarrow> t \<le> t'
    \<and> (\<forall>n ns D. subtree_at C (n # ns) = Some D \<longrightarrow> seen S t t' (last (n # ns)) (ut_fingerprint D))"

lemma reseen_nodes: "reseen S C t t' \<Longrightarrow> s \<le> t \<Longrightarrow> t' \<le> s' \<Longrightarrow> reseen S C s s'"
  unfolding reseen_def by (meson order_trans seen_mono)

lemma verify_directory_reseen:
  assumes F: "facts_tree F T" "tree_ok T"
  shows "verify_directory fuel V F h (path_of cs) t = Some (Inr t') \<Longrightarrow> subtree_at T cs = Some C
    \<Longrightarrow> reseen (se_os V) C t t'"
proof (induction fuel arbitrary: cs C h t t')
  case (Suc fuel)
  note at = facts_tree_at[OF F Suc.prems(2)]
  let ?S = "se_os V"
  obtain u w where l: "verify_listing V h (fact_of C) t = Inr u"
    and loop: "run_fold (verify_entry fuel V F h (path_of cs)) u (map fst (ut_children C)) = Some (Inr w)"
    and fin: "verify_end V h (fact_of C) w = Inr t'"
    using Suc.prems(1) at(1) by (auto simp: fact_of_def run_bind_Inr)
  define P where "P = (\<lambda>x (ys :: string list). u \<le> x \<and> (\<forall>n\<in>set ys. \<forall>D. map_of (ut_children C) n = Some D \<longrightarrow>
      seen ?S u x n (ut_fingerprint D) \<and> reseen ?S D u x))"
  have "P w (map fst (ut_children C))"
  proof (rule run_fold_invariant[OF loop])
    show "P u []" by (simp add: P_def)
  next
    fix x ys n y
    assume P: "P x ys" and n: "n \<in> set (map fst (ut_children C))"
      and step: "verify_entry fuel V F h (path_of cs) x n = Some (Inr y)"
    obtain D where D: "map_of (ut_children C) n = Some D" using at(3)[OF n] by blast
    have sub: "subtree_at T (cs @ [n]) = Some D" using Suc.prems(2) D by (simp add: subtree_at_append)
    obtain z where z: "verify_child V h (fact_of D) n x = Inr z"
      and rest: "(if is_directory (ut_identity D) then run_bind (Some (open_at ?S z h n True)) (\<lambda>(h, t).
              verify_directory fuel V F h (diff_join (path_of cs) n) t) else Some (Inr z)) = Some (Inr y)"
      using step at(2)[OF D] by (auto simp: run_bind_Inr fact_of_def)
    note vc = verify_child_seen[OF z]
    have D': "reseen ?S D z y"
    proof (cases "is_directory (ut_identity D)")
      case True
      then obtain h' z' where o: "open_at ?S z h n True = Inr (h', z')" "verify_directory fuel V F h' (path_of (cs @ [n])) z' = Some (Inr y)"
        using rest by (auto simp: run_bind_Inr path_of_snoc)
      from Suc.IH[OF o(2) sub] open_at_later[OF o(1)] show ?thesis by (auto intro: reseen_nodes)
    next
      case False
      moreover have "tree_ok D" by (rule tree_ok_subtree[OF F(2) sub])
      ultimately have "ut_children D = []" by (cases D) auto
      then show ?thesis using rest False by (simp add: reseen_def)
    qed
    have le: "u \<le> x" "x \<le> z" "z \<le> y" using P vc(1) D' by (simp_all add: P_def reseen_def)
    have new: "seen ?S u y n (ut_fingerprint D)" "reseen ?S D u y"
      using seen_mono[OF vc(2), of u y] reseen_nodes[OF D', of u y] le by (simp_all add: fact_of_def)
    have old: "seen ?S u y m (ut_fingerprint B)" "reseen ?S B u y" if "m \<in> set ys" "map_of (ut_children C) m = Some B" for m B
      using P that seen_mono[of ?S u x m "ut_fingerprint B" u y] reseen_nodes[of ?S B u x u y] le unfolding P_def by auto
    show "P y (ys @ [n])"
      unfolding P_def using new D le old by auto
  qed
  then have P: "u \<le> w" "\<And>n D. map_of (ut_children C) n = Some D \<Longrightarrow> seen ?S u w n (ut_fingerprint D) \<and> reseen ?S D u w"
    using map_of_SomeD unfolding P_def by force+
  have le: "t \<le> u" "w \<le> t'" using verify_listing_later[OF l] verify_end_later[OF fin] by auto
  have "seen ?S t t' (last (n # ns)) (ut_fingerprint D)" if s: "subtree_at C (n # ns) = Some D" for n ns D
  proof -
    obtain B where B: "map_of (ut_children C) n = Some B" "subtree_at B ns = Some D" using s by (auto split: option.splits)
    have "seen ?S u w (last (n # ns)) (ut_fingerprint D)"
      using P(2)[OF B(1)] B(2) by (cases ns) (auto simp: reseen_def)
    then show ?thesis by (rule seen_mono) (use le in auto)
  qed
  then show ?case using le P(1) by (auto simp: reseen_def)
qed simp

section \<open>Properties\<close>

lemma upper_scan_tree:
  assumes "collect_upper V try_clone absolute comps = Inr s" "os_names (se_os V)" "1 \<le> max_nodes (se_limits V)"
  shows "\<exists>T. facts_tree (sc_facts s) T \<and> tree_ok T \<and> is_directory (ut_identity T)
    \<and> length (sc_facts s) \<le> max_nodes (se_limits V) \<and> hash_bytes (sc_meters s) \<le> max_bytes (se_limits V)
    \<and> (\<forall>t. \<exists>r. verify_upper V absolute comps s t = Some r \<and> (\<forall>t'. r = Inr t' \<longrightarrow> reseen (se_os V) T t t'))"
proof -
  obtain T where T: "facts_tree (sc_facts s) T" "tree_ok T" "is_directory (ut_identity T)"
    using collect_upper_tree[OF assms(1,2)] by blast
  obtain root fp kept t s0 where run: "collect_directory V root [] 0
      \<lparr>sc_facts = [([], \<lparr>fc_identity = UpperDirectory (permission_bits fp) (fp_uid fp) (fp_gid fp),
                           fc_children = [], fc_fingerprint = fp\<rparr>)],
       sc_meters = DiffMeters_default, sc_root = kept, sc_calls = t\<rparr> = Inr s0"
    and s: "sc_facts s = sc_facts s0" "hash_bytes (sc_meters s) = hash_bytes (sc_meters s0)"
    using assms(1) by (auto simp: collect_upper_def Let_def rbind_eq_Inr)
  have "within V s0"
    by (rule collect_directory_within[OF run]) (use assms(3) in \<open>simp add: within_def DiffMeters_default_def\<close>)
  then have lim: "length (sc_facts s) \<le> max_nodes (se_limits V)" "hash_bytes (sc_meters s) \<le> max_bytes (se_limits V)"
    using s by (simp_all add: within_def)
  have top: "map_of (sc_facts s) [] = Some (fact_of T)"
    using facts_tree_at(1)[OF T(1,2), of "[]"] by simp
  have "\<exists>r. verify_upper V absolute comps s t = Some r \<and> (\<forall>t'. r = Inr t' \<longrightarrow> reseen (se_os V) T t t')" for t
  proof (cases "open_root (se_os V) t absolute comps")
    case o: (Inr a)
    obtain h u where a: "a = (h, u)" by (cases a)
    show ?thesis
    proof (cases "stat_fd (se_os V) u h")
      case st: (Inr b)
      obtain now w where b: "b = (now, w)" by (cases b)
      let ?v = "verify_directory (Suc (length (sc_facts s))) V (sc_facts s) (sc_root s) [] w"
      have le: "t \<le> w"
      proof -
        have "t \<le> u" by (rule open_root_later[OF o[unfolded a]])
        then show ?thesis using stat_fd_later st b by fastforce
      qed
      have "?v \<noteq> None"
        using verify_directory_returns[OF T(1,2), where cs = "[]" and C = T and fuel = "Suc (length (sc_facts s))"] positions_facts[OF T(1,2)] by (simp del: verify_directory.simps)
      moreover have "reseen (se_os V) T t t'" if "?v = Some (Inr t')" for t'
      proof -
        have "reseen (se_os V) T w t'"
          using verify_directory_reseen[OF T(1,2), where cs = "[]" and C = T] that by (simp del: verify_directory.simps)
        then show ?thesis by (rule reseen_nodes[OF _ le order_refl])
      qed
      ultimately show ?thesis
        using o a st b top by (auto simp: verify_upper_def simp del: verify_directory.simps)
    qed (use o a in \<open>simp add: verify_upper_def\<close>)
  qed (simp add: verify_upper_def)
  with T lim show ?thesis by blast
qed


definition demo_fp :: "nat \<Rightarrow> int \<Rightarrow> fingerprint" where
  "demo_fp mode n = \<lparr>fp_dev = 1, fp_ino = 2, fp_mode = mode, fp_size = n, fp_nlink = 1, fp_uid = 0, fp_gid = 0,
     fp_mtime = (0, 0), fp_ctime = (0, 0)\<rparr>"

text \<open>An upper directory with one empty file \<^verbatim>\<open>a\<close>.\<close>

definition demo_os :: "nat os_calls" where
  "demo_os = \<lparr>S_IFMT = 0xF000, S_IFDIR = 0x4000, S_IFREG = 0x8000, S_IFLNK = 0xA000,
     os_root = (\<lambda>_. Inr 0), os_openat = (\<lambda>_ h n _. Inr (if n = ''a'' then 7 else h)),
     os_fstat = (\<lambda>_ h. Inr (if h = 7 then demo_fp 0x81A4 0 else demo_fp 0x41ED 0)),
     os_fstatat = (\<lambda>_ _ _. Inr (demo_fp 0x81A4 0)), os_readdir = (\<lambda>_ _. ([[0x2E], [0x61]], None)),
     os_flistxattr = (\<lambda>_ _. Inr 0), os_llistxattr = (\<lambda>_ _ _. Inr 0), os_read = (\<lambda>_ _. Inr []),
     os_readlinkat = (\<lambda>_ _ _. Inl ''EINVAL'')\<rparr>"

definition demo_scan :: "nat scan_env" where
  "demo_scan = \<lparr>se_os = demo_os, se_grammar = (\<lambda>_. Inr ()), se_sha256 = (\<lambda>_. []), se_hex = hex32, se_limits = DiffLimits_default\<rparr>"

lemma demo_collect_ok: "is_ok (collect_upper demo_scan (\<lambda>_ h. Inr h) True [RootDir])"
  by code_simp


end
