(* ===== verification/Upper_Diff.thy ===== *)
theory Upper_Diff
  imports Upper_Scan Capabilities
begin

text \<open>
  The difference between the writable upper directory and the fixed snapshot below it
  (\<^verbatim>\<open>snapshot/upper_diff.rs\<close>, \<^verbatim>\<open>scan_upper\<close>).  The lower layer answers queries by number and may fail at any
  of them; the flag of the mutation pause is read again and again and may turn uncertain at any reading.
  The pending directories are a stack, as in the code; indexing a missing fact is a panic.
\<close>

section \<open>Changes\<close>

datatype upper_change_kind = Added | Modified | Deleted

record upper_change =
  uc_rel_path :: string
  uc_kind :: upper_change_kind
  uc_base :: "snapshot_node_identity option"
  uc_upper :: "upper_node_identity option"

record upper_diff =
  ud_changes :: "upper_change list"
  ud_meters :: diff_meters

definition is_clean :: "upper_diff \<Rightarrow> bool" where
  "is_clean diff = (ud_changes diff = [])"

record lower_context =
  lc_grammar :: scope_grammar
  lc_reader :: "(string \<times> mst2_client) option"
  lc_namespace_scope :: "string option"

definition metadata_path :: "lower_context \<Rightarrow> string \<Rightarrow> string result" where
  "metadata_path ctx rel_path =
    (let relative = (if rel_path = [] then ''/'' else if take 1 rel_path = ''/'' then rel_path else ''/'' @ rel_path) in
     rbind (validate_scope (lc_grammar ctx) relative) (\<lambda>_.
     rbind (case lc_reader ctx of
         None \<Rightarrow> Inr ()
       | Some (authorized, client) \<Rightarrow>
           rbind (validate_relative_path (lc_grammar ctx) authorized relative) (\<lambda>_. validate_path client relative)) (\<lambda>_.
     rbind (ok_or (lc_namespace_scope ctx)
              (SnapshotError_new SnapshotNotReady ''file-only manifest cannot prove fixed namespace'')) (\<lambda>base.
     let full = (if base = ''/'' then relative else if relative = ''/'' then base else base @ relative) in
     rbind (validate_scope (lc_grammar ctx) full) (\<lambda>_. Inr relative)))))"

definition validate_metadata_path :: "lower_context \<Rightarrow> string \<Rightarrow> unit result" where
  "validate_metadata_path ctx rel_path = rbind (metadata_path ctx rel_path) (\<lambda>_. Inr ())"

record diff_env =
  de_context :: lower_context
  de_owner :: mount_owner
  de_uncertain :: "nat \<Rightarrow> bool"
  de_state :: "nat \<Rightarrow> string \<Rightarrow> snapshot_path_state result"
  de_entries :: "nat \<Rightarrow> string \<Rightarrow> (string \<times> snapshot_node_identity) list result"
  de_grammar :: scope_grammar
  de_limits :: diff_limits

record diff_state =
  ds_meters :: diff_meters
  ds_readings :: nat
  ds_changes :: "(string \<times> upper_change) list"

definition check_pause :: "diff_env \<Rightarrow> diff_state \<Rightarrow> diff_state result" where
  "check_pause E s =
    (if de_uncertain E (ds_readings s)
     then Inl (diff_unknown ''handle cleanup became unknown during the mutation pause'')
     else Inr (s\<lparr>ds_readings := ds_readings s + 1\<rparr>))"

definition count_query :: "diff_state \<Rightarrow> diff_state" where
  "count_query s = s\<lparr>ds_meters := (ds_meters s)\<lparr>lower_queries := lower_queries (ds_meters s) + 1\<rparr>\<rparr>"

definition path_state_for_diff :: "diff_env \<Rightarrow> diff_state \<Rightarrow> string \<Rightarrow> (snapshot_path_state \<times> diff_state) result" where
  "path_state_for_diff E s path =
    rbind (check_pause E s) (\<lambda>s.
    let answer = de_state E (lower_queries (ds_meters s)) path in
    rbind (check_pause E s) (\<lambda>s. rbind answer (\<lambda>state. Inr (state, s))))"

definition directory_entries_for_diff ::
  "diff_env \<Rightarrow> diff_state \<Rightarrow> string \<Rightarrow> ((string \<times> snapshot_node_identity) list \<times> diff_state) result" where
  "directory_entries_for_diff E s path =
    rbind (check_pause E s) (\<lambda>s.
    let answer = de_entries E (lower_queries (ds_meters s)) path in
    rbind (check_pause E s) (\<lambda>s. rbind answer (\<lambda>entries. Inr (entries, s))))"

definition base_at :: "diff_env \<Rightarrow> diff_state \<Rightarrow> string \<Rightarrow> bool \<Rightarrow> (snapshot_node_identity option \<times> diff_state) result" where
  "base_at E s path parent_directory =
    rbind (validate_metadata_path (de_context E) path) (\<lambda>_.
    if \<not> parent_directory then Inr (None, s)
    else
      rbind (path_state_for_diff E (count_query s) path) (\<lambda>(state, s).
      case state of Present identity \<Rightarrow> Inr (Some identity, s) | AbsentProven \<Rightarrow> Inr (None, s)))"

definition insert_change :: "diff_state \<Rightarrow> upper_change \<Rightarrow> diff_state" where
  "insert_change s c = s\<lparr>ds_changes := btree_insert (uc_rel_path c) c (ds_changes s)\<rparr>"

section \<open>The loop\<close>

definition is_marker :: "string \<Rightarrow> bool" where
  "is_marker name = (take 4 name = ''.wh.'')"

definition opaque_marker :: string where "opaque_marker = ''.wh..wh..opq''"

definition node_directory :: "snapshot_node_identity option \<Rightarrow> bool" where
  "node_directory base = (case base of Some (DirectoryNode _) \<Rightarrow> True | _ \<Rightarrow> False)"

type_synonym pending_directory = "string \<times> bool \<times> bool"

definition diff_marker ::
  "diff_env \<Rightarrow> string \<Rightarrow> string list \<Rightarrow> bool \<Rightarrow> upper_node_identity \<Rightarrow> string \<Rightarrow> diff_state \<Rightarrow> diff_state result" where
  "diff_marker E directory visible lower_directory node name s =
    (if \<not> (case node of UpperRegular _ _ _ n _ \<Rightarrow> n = 0 | _ \<Rightarrow> False)
     then Inl (diff_unknown ''OCI whiteout/opaque marker must be an empty regular file'')
     else if name = opaque_marker then Inr s
     else
       let target = drop 4 name in
       rbind (validate_scope (de_grammar E) (''/'' @ target)) (\<lambda>_.
       if target = [] \<or> target \<in> set visible then Inl (diff_unknown ''invalid or conflicting OCI whiteout target'')
       else
         let target_path = diff_join directory target in
         rbind (base_at E s target_path lower_directory) (\<lambda>(base, s).
         case base of
           Some b \<Rightarrow> Inr (insert_change s \<lparr>uc_rel_path = target_path, uc_kind = Deleted, uc_base = Some b, uc_upper = None\<rparr>)
         | None \<Rightarrow> Inr s)))"

definition diff_visible ::
  "diff_env \<Rightarrow> string \<Rightarrow> bool \<Rightarrow> bool \<Rightarrow> upper_node_identity \<Rightarrow> diff_state \<times> pending_directory list
    \<Rightarrow> (diff_state \<times> pending_directory list) result" where
  "diff_visible E path opaque lower_directory node state =
    (case state of (s, pending) \<Rightarrow>
       rbind (base_at E s path lower_directory) (\<lambda>(base, s).
       let s = (if (case base of None \<Rightarrow> True | Some b \<Rightarrow> \<not> upper_matches (de_owner E) node b)
                then insert_change s \<lparr>uc_rel_path = path, uc_kind = (if base \<noteq> None then Modified else Added),
                                     uc_base = base, uc_upper = Some node\<rparr>
                else s) in
       Inr (s, if is_directory node then (path, opaque, node_directory base) # pending else pending)))"

definition hide_lower ::
  "diff_env \<Rightarrow> string \<Rightarrow> string list \<Rightarrow> diff_state \<Rightarrow> diff_state result" where
  "hide_lower E directory visible s =
    rbind (directory_entries_for_diff E (count_query s) directory) (\<lambda>(entries, s).
    rbind (ok_or (checked_add (lower_directory_entries (ds_meters s)) (length entries))
             (diff_budget ''lower entry meter overflow'')) (\<lambda>n.
    let s = s\<lparr>ds_meters := (ds_meters s)\<lparr>lower_directory_entries := n\<rparr>\<rparr> in
    if max_nodes (de_limits E) < n then Inl (diff_budget ''opaque lower metadata entry budget exceeded'')
    else Inr (foldl (\<lambda>s (name, identity).
           if name \<in> set visible then s
           else insert_change s \<lparr>uc_rel_path = diff_join directory name, uc_kind = Deleted,
                                 uc_base = Some identity, uc_upper = None\<rparr>) s entries)))"

definition diff_directory ::
  "diff_env \<Rightarrow> (string \<times> upper_fact) list \<Rightarrow> diff_state \<Rightarrow> pending_directory \<Rightarrow> (diff_state \<times> pending_directory list) run" where
  "diff_directory E facts s item =
    (case item of (directory, inherited_opaque, lower_directory) \<Rightarrow>
     case map_of facts directory of
       None \<Rightarrow> None
     | Some known \<Rightarrow>
        let children = fc_children known;
            opaque = (inherited_opaque \<or> opaque_marker \<in> set children);
            visible = filter (\<lambda>name. \<not> is_marker name) children in
        run_bind (run_fold (\<lambda>(s, pending) name.
            let path = diff_join directory name in
            case map_of facts path of
              None \<Rightarrow> None
            | Some child \<Rightarrow>
                if is_marker name
                then run_bind (Some (diff_marker E directory visible lower_directory (fc_identity child) name s))
                       (\<lambda>s. Some (Inr (s, pending)))
                else Some (diff_visible E path opaque lower_directory (fc_identity child) (s, pending)))
          (s, []) children) (\<lambda>(s, pushed).
        run_bind (Some (if opaque \<and> lower_directory then hide_lower E directory visible s else Inr s)) (\<lambda>s.
        if max_nodes (de_limits E) < length (ds_changes s) then Some (Inl (diff_budget ''upper diff result budget exceeded''))
        else run_bind (Some (check_pause E s)) (\<lambda>s. Some (Inr (s, pushed))))))"

partial_function (option) diff_pending ::
  "diff_env \<Rightarrow> (string \<times> upper_fact) list \<Rightarrow> diff_state \<Rightarrow> pending_directory list \<Rightarrow> diff_state run" where
  [code]: "diff_pending E facts s pending =
    (if pending = [] then Some (Inr s)
     else (case diff_directory E facts s (hd pending) of
             None \<Rightarrow> None
           | Some (Inl e) \<Rightarrow> Some (Inl e)
           | Some (Inr r) \<Rightarrow> diff_pending E facts (fst r) (snd r @ tl pending)))"

section \<open>The scan\<close>

definition root_change :: "diff_env \<Rightarrow> upper_node_identity \<Rightarrow> snapshot_node_identity \<Rightarrow> diff_state \<Rightarrow> diff_state" where
  "root_change E node base s =
    (if upper_matches (de_owner E) node base then s
     else insert_change s \<lparr>uc_rel_path = [], uc_kind = Modified, uc_base = Some base, uc_upper = Some node\<rparr>)"

definition diff_scanned ::
  "diff_env \<Rightarrow> 'h scanned \<Rightarrow> nat \<Rightarrow> diff_state run" where
  "diff_scanned E scanned readings =
    run_bind (Some (path_state_for_diff E (count_query \<lparr>ds_meters = sc_meters scanned, ds_readings = readings, ds_changes = []\<rparr>) []))
      (\<lambda>(state, s).
    case state of
      Present (DirectoryNode root) \<Rightarrow>
        (case map_of (sc_facts scanned) [] of
           None \<Rightarrow> None
         | Some known \<Rightarrow>
             diff_pending E (sc_facts scanned) (root_change E (fc_identity known) (DirectoryNode root) s) [([], False, True)])
    | _ \<Rightarrow> Some (Inl (diff_unknown ''fixed lower scope root is not a proved directory'')))"

definition scan_upper ::
  "'h scan_env \<Rightarrow> (nat \<Rightarrow> 'h \<Rightarrow> string + 'h) \<Rightarrow> bool \<Rightarrow> path_component list \<Rightarrow> string option \<Rightarrow> string option
    \<Rightarrow> diff_env \<Rightarrow> upper_diff run" where
  "scan_upper V try_clone is_absolute components scan_fault verify_fault E =
    (if de_uncertain E 0 then Some (Inl (diff_unknown ''handle cleanup became unknown during the mutation pause''))
     else if max_nodes (de_limits E) = 0 \<or> 256 < max_depth (de_limits E)
     then Some (Inl (SnapshotError_new InvalidRequest ''invalid upper diff bounds''))
     else
       run_bind (Some (case scan_fault of
           Some e \<Rightarrow> Inl (diff_unknown (''upper scan task failed: '' @ e))
         | None \<Rightarrow> collect_upper V try_clone is_absolute components)) (\<lambda>scanned.
       run_bind (diff_scanned E scanned 1) (\<lambda>s.
       run_bind (case verify_fault of
           Some e \<Rightarrow> Some (Inl (diff_unknown (''upper verification task failed: '' @ e)))
         | None \<Rightarrow> verify_upper V is_absolute components scanned (sc_calls scanned)) (\<lambda>_.
       run_bind (Some (check_pause E s)) (\<lambda>s.
       Some (Inr \<lparr>ud_changes = map snd (ds_changes s), ud_meters = ds_meters s\<rparr>))))))"

section \<open>What the mount shows\<close>

text \<open>
  The reference reading of an upper tree over a lower snapshot: upper nodes hide lower ones, a whiteout
  hides the lower entry of its name, an opaque marker hides every lower entry below its directory.
\<close>

datatype view = UpperView upper_node_identity | LowerView snapshot_node_identity | AbsentView

definition has_opaque :: "upper_tree \<Rightarrow> bool" where
  "has_opaque C \<longleftrightarrow> opaque_marker \<in> set (map fst (ut_children C))"

definition visible_child :: "upper_tree \<Rightarrow> string \<Rightarrow> upper_tree option" where
  "visible_child C n = (if is_marker n then None else map_of (ut_children C) n)"

definition lower_at :: "(string \<Rightarrow> snapshot_node_identity option) \<Rightarrow> string list \<Rightarrow> view" where
  "lower_at L cs = (case L (path_of cs) of None \<Rightarrow> AbsentView | Some i \<Rightarrow> LowerView i)"

fun effective ::
  "(string \<Rightarrow> snapshot_node_identity option) \<Rightarrow> string list \<Rightarrow> bool \<Rightarrow> upper_tree \<Rightarrow> string list \<Rightarrow> view" where
  "effective L ps opaque C [] = UpperView (ut_identity C)"
| "effective L ps opaque C (n # ns) =
    (if \<not> is_directory (ut_identity C) then AbsentView
     else (case visible_child C n of
         Some B \<Rightarrow> effective L (ps @ [n]) (opaque \<or> has_opaque C) B ns
       | None \<Rightarrow>
           if ''.wh.'' @ n \<in> set (map fst (ut_children C)) \<or> opaque \<or> has_opaque C then AbsentView
           else lower_at L (ps @ n # ns)))"

definition change_at ::
  "mount_owner \<Rightarrow> (string \<Rightarrow> snapshot_node_identity option) \<Rightarrow> string list \<Rightarrow> view \<Rightarrow> upper_change option" where
  "change_at owner L cs v =
    (case (L (path_of cs), v) of
       (None, UpperView u) \<Rightarrow> Some \<lparr>uc_rel_path = path_of cs, uc_kind = Added, uc_base = None, uc_upper = Some u\<rparr>
     | (Some b, UpperView u) \<Rightarrow>
         if upper_matches owner u b then None
         else Some \<lparr>uc_rel_path = path_of cs, uc_kind = Modified, uc_base = Some b, uc_upper = Some u\<rparr>
     | (Some b, AbsentView) \<Rightarrow> Some \<lparr>uc_rel_path = path_of cs, uc_kind = Deleted, uc_base = Some b, uc_upper = None\<rparr>
     | _ \<Rightarrow> None)"

text \<open>The upper directories a path walks through, and whether one above hides the lower layer.\<close>

fun dir_state :: "bool \<Rightarrow> upper_tree \<Rightarrow> string list \<Rightarrow> (upper_tree \<times> bool) option" where
  "dir_state opaque C [] = (if is_directory (ut_identity C) then Some (C, opaque) else None)"
| "dir_state opaque C (n # ns) =
    (if \<not> is_directory (ut_identity C) then None
     else (case visible_child C n of None \<Rightarrow> None | Some B \<Rightarrow> dir_state (opaque \<or> has_opaque C) B ns))"

text \<open>The change that belongs at a path: only the root and entries of upper directories have one.\<close>

definition expected ::
  "mount_owner \<Rightarrow> (string \<Rightarrow> snapshot_node_identity option) \<Rightarrow> upper_tree \<Rightarrow> string list \<Rightarrow> upper_change option" where
  "expected owner L T cs =
    (if cs = [] \<or> dir_state False T (butlast cs) \<noteq> None then change_at owner L cs (effective L [] False T cs) else None)"

definition lower_tree :: "(string \<Rightarrow> snapshot_node_identity option) \<Rightarrow> bool" where
  "lower_tree L \<longleftrightarrow>
    (\<forall>cs n. list_all good_name (cs @ [n]) \<longrightarrow> L (path_of (cs @ [n])) \<noteq> None \<longrightarrow> node_directory (L (path_of cs)))"

definition lower_answers :: "diff_env \<Rightarrow> (string \<Rightarrow> snapshot_node_identity option) \<Rightarrow> bool" where
  "lower_answers E L \<longleftrightarrow>
    (\<forall>k cs s. list_all good_name cs \<longrightarrow> de_state E k (path_of cs) = Inr s \<longrightarrow>
         s = (case L (path_of cs) of None \<Rightarrow> AbsentProven | Some i \<Rightarrow> Present i))
    \<and> (\<forall>k cs es. list_all good_name cs \<longrightarrow> de_entries E k (path_of cs) = Inr es \<longrightarrow>
         (\<forall>n i. (n, i) \<in> set es \<longleftrightarrow> good_name n \<and> L (path_of (cs @ [n])) = Some i))"

lemma effective_snoc:
  assumes "dir_state opaque C cs = Some (B, inherited)"
  shows "effective L ps opaque C (cs @ [n]) =
    (case visible_child B n of
       Some A \<Rightarrow> UpperView (ut_identity A)
     | None \<Rightarrow> if ''.wh.'' @ n \<in> set (map fst (ut_children B)) \<or> inherited \<or> has_opaque B then AbsentView
              else lower_at L (ps @ cs @ [n]))"
  using assms
proof (induction opaque C cs arbitrary: ps rule: dir_state.induct)
  case (1 opaque C)
  then show ?case by (auto split: option.splits if_splits)
next
  case (2 opaque C m ms)
  then obtain D where D: "is_directory (ut_identity C)" "visible_child C m = Some D"
    "dir_state (opaque \<or> has_opaque C) D ms = Some (B, inherited)"
    by (auto split: option.splits if_splits)
  show ?case using 2(1)[OF _ D(2,3), of "ps @ [m]"] D(1,2) by (simp cong: option.case_cong)
qed

lemma dir_state_snoc:
  assumes "dir_state opaque C cs = Some (B, inherited)"
  shows "dir_state opaque C (cs @ [n]) =
    (case visible_child B n of None \<Rightarrow> None
     | Some A \<Rightarrow> if is_directory (ut_identity A) then Some (A, inherited \<or> has_opaque B) else None)"
  using assms
proof (induction opaque C cs rule: dir_state.induct)
  case (1 opaque C)
  then show ?case by (auto split: option.splits if_splits)
next
  case (2 opaque C m ms)
  then obtain D where D: "is_directory (ut_identity C)" "visible_child C m = Some D"
    "dir_state (opaque \<or> has_opaque C) D ms = Some (B, inherited)"
    by (auto split: option.splits if_splits)
  show ?case using 2(1)[OF _ D(2,3)] D(1,2) by simp
qed

lemma dir_state_prefix: "dir_state opaque C (cs @ [n]) \<noteq> None \<Longrightarrow> dir_state opaque C cs \<noteq> None"
  by (induction opaque C cs rule: dir_state.induct) (auto split: option.splits if_splits)

lemma dir_state_subtree:
  "dir_state opaque C cs = Some (B, i) \<Longrightarrow> subtree_at C cs = Some B \<and> is_directory (ut_identity B)"
  by (induction opaque C cs rule: dir_state.induct) (auto simp: visible_child_def split: option.splits if_splits)

section \<open>One directory\<close>

text \<open>Every change recorded so far is the one expected at its path.\<close>

definition changes_sound ::
  "mount_owner \<Rightarrow> (string \<Rightarrow> snapshot_node_identity option) \<Rightarrow> upper_tree \<Rightarrow> diff_state \<Rightarrow> bool" where
  "changes_sound owner L T s \<longleftrightarrow>
    sorted_wrt (<) (map fst (ds_changes s))
    \<and> (\<forall>p c. map_of (ds_changes s) p = Some c \<longrightarrow>
         (\<exists>cs. list_all good_name cs \<and> p = path_of cs \<and> expected owner L T cs = Some c))"

definition keeps :: "diff_state \<Rightarrow> diff_state \<Rightarrow> bool" where
  "keeps s s' \<longleftrightarrow> map_of (ds_changes s) \<subseteq>\<^sub>m map_of (ds_changes s')"

lemma keeps_refl: "keeps s s"
  by (simp add: keeps_def)

lemma keeps_trans: "keeps a b \<Longrightarrow> keeps b c \<Longrightarrow> keeps a c"
  unfolding keeps_def by (rule map_le_trans)

lemma keepsD: "keeps s s' \<Longrightarrow> map_of (ds_changes s) p = Some c \<Longrightarrow> map_of (ds_changes s') p = Some c"
  by (force simp: keeps_def map_le_def)

lemma changes_same: "ds_changes s' = ds_changes s \<Longrightarrow> changes_sound owner L T s' = changes_sound owner L T s" "ds_changes s' = ds_changes s \<Longrightarrow> keeps s s'"
  by (simp_all add: changes_sound_def keeps_def)

lemma check_pause_changes: "check_pause E s = Inr s' \<Longrightarrow> ds_changes s' = ds_changes s"
  by (auto simp: check_pause_def split: if_splits)

lemma insert_expected:
  assumes ok: "changes_sound owner L T s" and c: "expected owner L T cs = Some c" "uc_rel_path c = path_of cs" "list_all good_name cs"
  shows "changes_sound owner L T (insert_change s c)" "keeps s (insert_change s c)"
    "map_of (ds_changes (insert_change s c)) (path_of cs) = Some c"
proof -
  have s: "sorted_wrt (<) (map fst (ds_changes s))" using ok by (simp add: changes_sound_def)
  have mo: "map_of (ds_changes (insert_change s c)) = (map_of (ds_changes s))(path_of cs \<mapsto> c)"
    using map_of_btree_insert[OF s] by (simp add: insert_change_def c(2))
  show "map_of (ds_changes (insert_change s c)) (path_of cs) = Some c" by (simp add: mo)
  have old: "map_of (ds_changes s) (path_of cs) \<in> {None, Some c}"
  proof (cases "map_of (ds_changes s) (path_of cs)")
    case (Some d)
    then obtain ds where "list_all good_name ds" "path_of cs = path_of ds" "expected owner L T ds = Some d"
      using ok unfolding changes_sound_def by blast
    then have "d = c" using path_of_inject[OF c(3)] c(1) by simp
    then show ?thesis using Some by simp
  qed simp
  then show "keeps s (insert_change s c)" by (auto simp: keeps_def mo map_le_def)
  show "changes_sound owner L T (insert_change s c)"
    unfolding changes_sound_def mo
  proof (intro conjI allI impI)
    show "sorted_wrt (<) (map fst (ds_changes (insert_change s c)))"
      using sorted_btree_insert[OF s] by (simp add: insert_change_def)
    fix p d assume "((map_of (ds_changes s))(path_of cs \<mapsto> c)) p = Some d"
    then show "\<exists>cs. list_all good_name cs \<and> p = path_of cs \<and> expected owner L T cs = Some d"
      using ok c by (cases "p = path_of cs") (auto simp: changes_sound_def)
  qed
qed

lemma base_at_Inr:
  assumes "base_at E s (path_of (cs @ [n])) low = Inr (base, s')" "lower_answers E L" "lower_tree L"
    "low = node_directory (L (path_of cs))" "list_all good_name (cs @ [n])"
  shows "base = L (path_of (cs @ [n]))" "ds_changes s' = ds_changes s"
proof -
  have "base = L (path_of (cs @ [n])) \<and> ds_changes s' = ds_changes s"
  proof (cases low)
    case True
    then obtain st w where "path_state_for_diff E (count_query s) (path_of (cs @ [n])) = Inr (st, w)"
      "(case st of Present i \<Rightarrow> Inr (Some i, w) | AbsentProven \<Rightarrow> Inr (None, w)) = (Inr (base, s') :: (snapshot_node_identity option \<times> diff_state) result)"
      using assms(1) by (auto simp: base_at_def rbind_eq_Inr)
    then have st: "path_state_for_diff E (count_query s) (path_of (cs @ [n])) = Inr (st, s')"
      "base = (case st of Present i \<Rightarrow> Some i | AbsentProven \<Rightarrow> None)"
      by (cases st; simp)+
    then obtain k where "de_state E k (path_of (cs @ [n])) = Inr st" "ds_changes s' = ds_changes s"
      by (auto simp: path_state_for_diff_def rbind_eq_Inr Let_def count_query_def check_pause_def split: if_splits)
    then have "st = (case L (path_of (cs @ [n])) of None \<Rightarrow> AbsentProven | Some i \<Rightarrow> Present i)"
      using assms(2,5) unfolding lower_answers_def by blast
    then show ?thesis using st(2) \<open>ds_changes s' = ds_changes s\<close> by (simp split: option.splits)
  next
    case False
    then have "base = None" "s' = s" using assms(1) by (auto simp: base_at_def rbind_eq_Inr)
    moreover have "L (path_of (cs @ [n])) = None" using assms(3-5) False unfolding lower_tree_def by blast
    ultimately show ?thesis by simp
  qed
  then show "base = L (path_of (cs @ [n]))" "ds_changes s' = ds_changes s" by simp_all
qed

lemma expected_snoc:
  assumes "dir_state False T cs = Some (C, op)"
  shows "expected owner L T (cs @ [n]) = change_at owner L (cs @ [n])
    (case visible_child C n of
       Some A \<Rightarrow> UpperView (ut_identity A)
     | None \<Rightarrow> if ''.wh.'' @ n \<in> set (map fst (ut_children C)) \<or> op \<or> has_opaque C then AbsentView
              else lower_at L (cs @ [n]))"
  using effective_snoc[OF assms, of L "[]" n] assms by (simp add: expected_def cong: option.case_cong)

lemma good_drop: "good_name n \<Longrightarrow> drop k n \<noteq> [] \<Longrightarrow> good_name (drop k n)"
  by (auto simp: good_name_def dest: in_set_dropD)

lemma diff_marker_step:
  assumes run: "diff_marker E (path_of cs) visible low node name s = Inr s'" and ok: "changes_sound (de_owner E) L T s"
    and dir: "dir_state False T cs = Some (C, op)" "list_all good_name cs" "low = node_directory (L (path_of cs))"
    and lower: "lower_answers E L" "lower_tree L"
    and name: "name \<in> set (map fst (ut_children C))" "good_name name" "is_marker name"
    and vis: "visible = filter (\<lambda>n. \<not> is_marker n) (map fst (ut_children C))"
  shows "changes_sound (de_owner E) L T s'" "keeps s s'"
    "name \<noteq> opaque_marker \<Longrightarrow> expected (de_owner E) L T (cs @ [drop 4 name]) = Some c
      \<Longrightarrow> map_of (ds_changes s') (path_of (cs @ [drop 4 name])) = Some c"
proof -
  have "changes_sound (de_owner E) L T s' \<and> keeps s s' \<and> (name \<noteq> opaque_marker \<longrightarrow> expected (de_owner E) L T (cs @ [drop 4 name]) = Some c
      \<longrightarrow> map_of (ds_changes s') (path_of (cs @ [drop 4 name])) = Some c)"
  proof (cases "name = opaque_marker")
    case True
    then have "s' = s" using run by (auto simp: diff_marker_def split: if_splits)
    then show ?thesis using ok keeps_refl True by simp
  next
    case False
    let ?t = "drop 4 name"
    obtain base w where t: "?t \<noteq> []" "?t \<notin> set visible"
      and b: "base_at E s (path_of (cs @ [?t])) low = Inr (base, w)"
      and s': "s' = (case base of Some b \<Rightarrow> insert_change w \<lparr>uc_rel_path = path_of (cs @ [?t]), uc_kind = Deleted, uc_base = Some b, uc_upper = None\<rparr>
         | None \<Rightarrow> w)"
      using run False
      by (auto simp: diff_marker_def rbind_eq_Inr Let_def path_of_snoc split: if_splits option.splits)
    have gt: "list_all good_name (cs @ [?t])" using good_drop[OF name(2) t(1)] dir(2) by simp
    note ba = base_at_Inr[OF b lower dir(3) gt]
    have wh: "''.wh.'' @ ?t = name" using name(3) append_take_drop_id[of 4 name] by (simp add: is_marker_def)
    have none: "visible_child C ?t = None"
      using t(2) by (auto simp: visible_child_def vis map_of_eq_None_iff)
    have exp: "expected (de_owner E) L T (cs @ [?t]) = change_at (de_owner E) L (cs @ [?t]) AbsentView"
      unfolding expected_snoc[OF dir(1)] none wh using name(1) by simp
    have w: "changes_sound (de_owner E) L T w" "keeps s w" using ok changes_same[OF ba(2)] by simp_all
    show ?thesis
    proof (cases base)
      case None
      then have "L (path_of (cs @ [?t])) = None" using ba(1) by simp
      then show ?thesis using s' w exp None by (simp add: change_at_def)
    next
      case (Some b)
      define d where "d = \<lparr>uc_rel_path = path_of (cs @ [?t]), uc_kind = Deleted, uc_base = Some b, uc_upper = None\<rparr>"
      have sd: "s' = insert_change w d" "uc_rel_path d = path_of (cs @ [?t])" using s' Some by (simp_all add: d_def)
      have Lb: "L (path_of (cs @ [?t])) = Some b" using ba(1) Some by simp
      have ec: "expected (de_owner E) L T (cs @ [?t]) = Some d" unfolding exp change_at_def Lb d_def by simp
      note ie = insert_expected[OF w(1) ec sd(2) gt]
      show ?thesis unfolding sd(1) using ie keeps_trans[OF w(2) ie(2)] ec by auto
    qed
  qed
  then show "changes_sound (de_owner E) L T s'" "keeps s s'"
    "name \<noteq> opaque_marker \<Longrightarrow> expected (de_owner E) L T (cs @ [drop 4 name]) = Some c
      \<Longrightarrow> map_of (ds_changes s') (path_of (cs @ [drop 4 name])) = Some c" by blast+
qed

lemma diff_visible_step:
  assumes run: "diff_visible E (path_of (cs @ [n])) opq low (ut_identity A) (s, pend) = Inr (s', pend')"
    and ok: "changes_sound (de_owner E) L T s"
    and dir: "dir_state False T cs = Some (C, op)" "list_all good_name (cs @ [n])" "low = node_directory (L (path_of cs))"
    and lower: "lower_answers E L" "lower_tree L" and A: "visible_child C n = Some A"
  shows "changes_sound (de_owner E) L T s' \<and> keeps s s'
    \<and> (expected (de_owner E) L T (cs @ [n]) = Some c \<longrightarrow> map_of (ds_changes s') (path_of (cs @ [n])) = Some c)
    \<and> pend' = (if is_directory (ut_identity A) then (path_of (cs @ [n]), opq, node_directory (L (path_of (cs @ [n])))) # pend else pend)"
proof -
  obtain base w where b: "base_at E s (path_of (cs @ [n])) low = Inr (base, w)"
    and s': "s' = (if (case base of None \<Rightarrow> True | Some b \<Rightarrow> \<not> upper_matches (de_owner E) (ut_identity A) b)
                then insert_change w \<lparr>uc_rel_path = path_of (cs @ [n]), uc_kind = (if base \<noteq> None then Modified else Added),
                                     uc_base = base, uc_upper = Some (ut_identity A)\<rparr>
                else w)"
    and p': "pend' = (if is_directory (ut_identity A) then (path_of (cs @ [n]), opq, node_directory base) # pend else pend)"
    using run by (auto simp: diff_visible_def rbind_eq_Inr Let_def)
  note ba = base_at_Inr[OF b lower dir(3,2)]
  have w: "changes_sound (de_owner E) L T w" "keeps s w" using ok changes_same[OF ba(2)] by simp_all
  have exp: "expected (de_owner E) L T (cs @ [n]) = change_at (de_owner E) L (cs @ [n]) (UpperView (ut_identity A))"
    by (simp add: expected_snoc[OF dir(1)] A)
  show ?thesis
  proof (cases "(case base of None \<Rightarrow> True | Some b \<Rightarrow> \<not> upper_matches (de_owner E) (ut_identity A) b)")
    case True
    define d where "d = \<lparr>uc_rel_path = path_of (cs @ [n]), uc_kind = (if base \<noteq> None then Modified else Added),
                                     uc_base = base, uc_upper = Some (ut_identity A)\<rparr>"
    have sd: "s' = insert_change w d" "uc_rel_path d = path_of (cs @ [n])" using s' True by (simp_all add: d_def)
    have ec: "expected (de_owner E) L T (cs @ [n]) = Some d"
      unfolding exp change_at_def ba(1)[symmetric] d_def using True by (cases base) auto
    note ie = insert_expected[OF w(1) ec sd(2) dir(2)]
    show ?thesis unfolding sd(1) using ie keeps_trans[OF w(2) ie(2)] ec p' ba(1) by auto
  next
    case False
    then have "expected (de_owner E) L T (cs @ [n]) = None"
      unfolding exp change_at_def ba(1)[symmetric] by (cases base) auto
    then show ?thesis using s' False w p' ba(1) by simp
  qed
qed

lemma hide_lower_step:
  assumes run: "hide_lower E (path_of cs) visible s = Inr s'" and ok: "changes_sound (de_owner E) L T s"
    and dir: "dir_state False T cs = Some (C, op)" "list_all good_name cs" and hidden: "op \<or> has_opaque C"
    and lower: "lower_answers E L" and vis: "set visible = {n \<in> set (map fst (ut_children C)). \<not> is_marker n}"
  shows "changes_sound (de_owner E) L T s' \<and> keeps s s'
    \<and> (\<forall>n c. good_name n \<longrightarrow> visible_child C n = None \<longrightarrow> expected (de_owner E) L T (cs @ [n]) = Some c
         \<longrightarrow> map_of (ds_changes s') (path_of (cs @ [n])) = Some c)"
proof -
  define ins where "ins = (\<lambda>s (name, identity). if name \<in> set visible then s
           else insert_change s \<lparr>uc_rel_path = diff_join (path_of cs) name, uc_kind = Deleted, uc_base = Some identity, uc_upper = None\<rparr>)"
  obtain es w k where es: "de_entries E k (path_of cs) = Inr es" and s': "s' = foldl ins w es" and wc: "ds_changes w = ds_changes s"
    using run unfolding ins_def by (auto simp: hide_lower_def directory_entries_for_diff_def check_pause_def count_query_def rbind_eq_Inr Let_def
        split: if_splits)
  have mem: "(n, i) \<in> set es \<longleftrightarrow> good_name n \<and> L (path_of (cs @ [n])) = Some i" for n i
    using lower es dir(2) unfolding lower_answers_def by blast
  have vc: "visible_child C n = None \<longleftrightarrow> n \<notin> set visible" for n
    by (auto simp: visible_child_def vis map_of_eq_None_iff)
  have exp: "expected (de_owner E) L T (cs @ [n]) = change_at (de_owner E) L (cs @ [n]) AbsentView" if "visible_child C n = None" for n
    using that hidden by (simp add: expected_snoc[OF dir(1)])
  have "set ys \<subseteq> set es \<Longrightarrow> changes_sound (de_owner E) L T x \<Longrightarrow>
      changes_sound (de_owner E) L T (foldl ins x ys) \<and> keeps x (foldl ins x ys)
      \<and> (\<forall>n i c. (n, i) \<in> set ys \<longrightarrow> visible_child C n = None \<longrightarrow> expected (de_owner E) L T (cs @ [n]) = Some c
           \<longrightarrow> map_of (ds_changes (foldl ins x ys)) (path_of (cs @ [n])) = Some c)" for ys x
  proof (induction ys arbitrary: x)
    case Nil
    then show ?case by (simp add: keeps_refl)
  next
    case (Cons y ys)
    obtain n i where y: "y = (n, i)" by (cases y)
    then have ni: "good_name n" "L (path_of (cs @ [n])) = Some i" using Cons.prems(1) mem by auto
    let ?x = "ins x y"
    have step: "changes_sound (de_owner E) L T ?x \<and> keeps x ?x \<and> (\<forall>c. visible_child C n = None \<longrightarrow>
        expected (de_owner E) L T (cs @ [n]) = Some c \<longrightarrow> map_of (ds_changes ?x) (path_of (cs @ [n])) = Some c)"
    proof (cases "n \<in> set visible")
      case True
      then show ?thesis using Cons.prems(2) vc keeps_refl by (simp add: y ins_def)
    next
      case False
      let ?c = "\<lparr>uc_rel_path = path_of (cs @ [n]), uc_kind = Deleted, uc_base = Some i, uc_upper = None\<rparr>"
      have ec: "expected (de_owner E) L T (cs @ [n]) = Some ?c"
        using exp[of n] vc False ni(2) by (simp add: change_at_def)
      have gn: "list_all good_name (cs @ [n])" using dir(2) ni(1) by simp
      show ?thesis using insert_expected[OF Cons.prems(2) ec _ gn] False ec by (simp add: y path_of_snoc ins_def)
    qed
    have "set ys \<subseteq> set es" using Cons.prems(1) by simp
    note IH = Cons.IH[OF this conjunct1[OF step]]
    let ?r = "foldl ins ?x ys"
    have kept: "map_of (ds_changes ?x) p = Some c \<Longrightarrow> map_of (ds_changes ?r) p = Some c" for p c
      by (rule keepsD[OF conjunct1[OF conjunct2[OF IH]]])
    have "map_of (ds_changes ?r) (path_of (cs @ [m])) = Some c"
      if m: "(m, j) \<in> set (y # ys)" "visible_child C m = None" "expected (de_owner E) L T (cs @ [m]) = Some c" for m j c
    proof (cases "(m, j) \<in> set ys")
      case True
      then show ?thesis using IH m(2,3) by blast
    next
      case False
      then have "m = n" using m(1) y by simp
      then show ?thesis using step kept m(2,3) by blast
    qed
    moreover have "keeps x ?r" using keeps_trans step IH by blast
    moreover have "foldl ins x (y # ys) = ?r" by simp
    ultimately show ?case using conjunct1[OF IH] by metis
  qed
  from this[of es w] have f: "changes_sound (de_owner E) L T s' \<and> keeps w s'
      \<and> (\<forall>n i c. (n, i) \<in> set es \<longrightarrow> visible_child C n = None \<longrightarrow> expected (de_owner E) L T (cs @ [n]) = Some c
           \<longrightarrow> map_of (ds_changes s') (path_of (cs @ [n])) = Some c)"
    using ok changes_same[OF wc] s' by simp
  have "map_of (ds_changes s') (path_of (cs @ [n])) = Some c"
    if n: "good_name n" "visible_child C n = None" "expected (de_owner E) L T (cs @ [n]) = Some c" for n c
  proof (cases "L (path_of (cs @ [n]))")
    case None
    then show ?thesis using exp[OF n(2)] n(3) by (simp add: change_at_def)
  next
    case (Some i)
    then show ?thesis using f n mem by blast
  qed
  then show ?thesis using f changes_same(2)[OF wc] keeps_trans by blast
qed

definition directory_done ::
  "mount_owner \<Rightarrow> (string \<Rightarrow> snapshot_node_identity option) \<Rightarrow> upper_tree \<Rightarrow> string list \<Rightarrow> diff_state \<Rightarrow> bool" where
  "directory_done owner L T cs s \<longleftrightarrow>
    (\<forall>n c. good_name n \<longrightarrow> expected owner L T (cs @ [n]) = Some c \<longrightarrow> map_of (ds_changes s) (path_of (cs @ [n])) = Some c)"

definition child_dirs :: "upper_tree \<Rightarrow> string list" where
  "child_dirs C = filter (\<lambda>n. case visible_child C n of None \<Rightarrow> False | Some A \<Rightarrow> is_directory (ut_identity A)) (map fst (ut_children C))"

definition pending_of ::
  "(string \<Rightarrow> snapshot_node_identity option) \<Rightarrow> string list \<Rightarrow> bool \<Rightarrow> pending_directory" where
  "pending_of L cs op = (path_of cs, op, node_directory (L (path_of cs)))"

abbreviation diff_entry where
  "diff_entry E facts directory opaque visible lower_directory \<equiv> (\<lambda>(s, pending) name.
            let path = diff_join directory name in
            case map_of facts path of
              None \<Rightarrow> None
            | Some child \<Rightarrow>
                if is_marker name
                then run_bind (Some (diff_marker E directory visible lower_directory (fc_identity child) name s))
                       (\<lambda>s. Some (Inr (s, pending)))
                else Some (diff_visible E path opaque lower_directory (fc_identity child) (s, pending)))"

text \<open>The state of the loop over the names of a directory.\<close>

definition entry_loop ::
  "mount_owner \<Rightarrow> (string \<Rightarrow> snapshot_node_identity option) \<Rightarrow> upper_tree \<Rightarrow> string list \<Rightarrow> upper_tree \<Rightarrow> bool \<Rightarrow> diff_state
    \<Rightarrow> diff_state \<times> pending_directory list \<Rightarrow> string list \<Rightarrow> bool" where
  "entry_loop owner L T cs C op s0 u ys \<longleftrightarrow>
    changes_sound owner L T (fst u) \<and> keeps s0 (fst u)
    \<and> snd u = rev (map (\<lambda>n. pending_of L (cs @ [n]) op) (filter (\<lambda>n. n \<in> set (child_dirs C)) ys))
    \<and> (\<forall>n\<in>set ys. \<forall>c. (if is_marker n then n \<noteq> opaque_marker \<and> expected owner L T (cs @ [drop 4 n]) = Some c
                            else expected owner L T (cs @ [n]) = Some c)
         \<longrightarrow> map_of (ds_changes (fst u)) (path_of (cs @ [if is_marker n then drop 4 n else n])) = Some c)"

lemma entry_loop_step:
  assumes F: "facts_tree F T" "tree_ok T" and dir: "dir_state False T cs = Some (C, op)" "low = node_directory (L (path_of cs))"
    and lower: "lower_answers E L" "lower_tree L" and vis: "visible = filter (\<lambda>n. \<not> is_marker n) (map fst (ut_children C))"
    and loop: "entry_loop (de_owner E) L T cs C opq s0 u ys" and n: "n \<in> set (map fst (ut_children C))"
    and step: "diff_entry E F (path_of cs) opq visible low u n = Some (Inr w)"
  shows "entry_loop (de_owner E) L T cs C opq s0 w (ys @ [n])"
proof -
  have sub: "subtree_at T cs = Some C" using dir_state_subtree[OF dir(1)] by simp
  note at = facts_tree_at[OF F sub]
  obtain A where A: "map_of (ut_children C) n = Some A" using at(3)[OF n] by blast
  have fA: "map_of F (diff_join (path_of cs) n) = Some (fact_of A)" by (rule at(2)[OF A])
  have good: "list_all good_name cs" by (rule positions_good[OF F(2) sub])
  have gn: "good_name n"
    using positions_good[OF F(2), of "cs @ [n]" A] sub A by (simp add: subtree_at_append)
  obtain s pend where u: "u = (s, pend)" by (cases u)
  have inv: "changes_sound (de_owner E) L T s" "keeps s0 s"
    "pend = rev (map (\<lambda>n. pending_of L (cs @ [n]) opq) (filter (\<lambda>n. n \<in> set (child_dirs C)) ys))"
    "\<And>m c. m \<in> set ys \<Longrightarrow> (if is_marker m then m \<noteq> opaque_marker \<and> expected (de_owner E) L T (cs @ [drop 4 m]) = Some c
                            else expected (de_owner E) L T (cs @ [m]) = Some c)
         \<Longrightarrow> map_of (ds_changes s) (path_of (cs @ [if is_marker m then drop 4 m else m])) = Some c"
    using loop unfolding entry_loop_def u by auto
  show ?thesis
  proof (cases "is_marker n")
    case True
    then obtain s' where s': "diff_marker E (path_of cs) visible low (ut_identity A) n s = Inr s'" "w = (s', pend)"
      using step fA by (auto simp: u Let_def run_bind_Inr fact_of_def)
    note mk = diff_marker_step[OF s'(1) inv(1) dir(1) good dir(2) lower n gn True vis]
    have "n \<notin> set (child_dirs C)" using True by (simp add: child_dirs_def visible_child_def)
    then show ?thesis
      unfolding entry_loop_def s'(2) using mk keeps_trans[OF inv(2) mk(2)] inv(3) keepsD[OF mk(2)] inv(4) True by auto
  next
    case False
    then have vc: "visible_child C n = Some A" using A by (simp add: visible_child_def)
    obtain s' pend' where s': "diff_visible E (path_of (cs @ [n])) opq low (ut_identity A) (s, pend) = Inr (s', pend')" "w = (s', pend')"
      using step fA False by (cases w) (auto simp: u Let_def path_of_snoc fact_of_def)
    have g: "list_all good_name (cs @ [n])" using good gn by simp
    note vs = diff_visible_step[OF s'(1) inv(1) dir(1) g dir(2) lower vc]
    have v: "changes_sound (de_owner E) L T s'" "keeps s s'"
      "\<And>c. expected (de_owner E) L T (cs @ [n]) = Some c \<Longrightarrow> map_of (ds_changes s') (path_of (cs @ [n])) = Some c"
      "pend' = (if is_directory (ut_identity A) then pending_of L (cs @ [n]) opq # pend else pend)"
      using vs by (auto simp: pending_of_def)
    have "n \<in> set (child_dirs C) \<longleftrightarrow> is_directory (ut_identity A)" using vc n by (simp add: child_dirs_def)
    then have "pend' = rev (map (\<lambda>n. pending_of L (cs @ [n]) opq) (filter (\<lambda>n. n \<in> set (child_dirs C)) (ys @ [n])))"
      using v(4) inv(3) by simp
    then show ?thesis
      unfolding entry_loop_def s'(2) using v(1,3) keeps_trans[OF inv(2) v(2)] keepsD[OF v(2)] inv(4) False by auto
  qed
qed

lemma diff_directory_unfold:
  assumes "map_of F (path_of cs) = Some (fact_of C)"
  shows "diff_directory E F s (pending_of L cs op) =
    run_bind (run_fold (diff_entry E F (path_of cs) (op \<or> has_opaque C) (filter (\<lambda>n. \<not> is_marker n) (map fst (ut_children C)))
        (node_directory (L (path_of cs)))) (s, []) (map fst (ut_children C))) (\<lambda>(s, pushed).
    run_bind (Some (if (op \<or> has_opaque C) \<and> node_directory (L (path_of cs))
                    then hide_lower E (path_of cs) (filter (\<lambda>n. \<not> is_marker n) (map fst (ut_children C))) s else Inr s)) (\<lambda>s.
    if max_nodes (de_limits E) < length (ds_changes s) then Some (Inl (diff_budget ''upper diff result budget exceeded''))
    else run_bind (Some (check_pause E s)) (\<lambda>s. Some (Inr (s, pushed)))))"
  unfolding diff_directory_def pending_of_def prod.case assms option.case has_opaque_def
  by (simp only: Let_def fact_of_def upper_fact.simps)

lemma diff_directory_step:
  assumes F: "facts_tree F T" "tree_ok T" and dir: "dir_state False T cs = Some (C, op)"
    and lower: "lower_answers E L" "lower_tree L" and ok: "changes_sound (de_owner E) L T s"
    and run: "diff_directory E F s (pending_of L cs op) = Some (Inr (s', pushed))"
  shows "changes_sound (de_owner E) L T s' \<and> keeps s s' \<and> directory_done (de_owner E) L T cs s'
    \<and> pushed = rev (map (\<lambda>n. pending_of L (cs @ [n]) (op \<or> has_opaque C)) (child_dirs C))"
proof -
  let ?low = "node_directory (L (path_of cs))" and ?names = "map fst (ut_children C)" and ?opq = "op \<or> has_opaque C"
  let ?vis = "filter (\<lambda>n. \<not> is_marker n) ?names"
  have sub: "subtree_at T cs = Some C" using dir_state_subtree[OF dir] by simp
  note at = facts_tree_at[OF F sub]
  have good: "list_all good_name cs" by (rule positions_good[OF F(2) sub])
  obtain s1 s2 where loop: "run_fold (diff_entry E F (path_of cs) ?opq ?vis ?low) (s, []) ?names = Some (Inr (s1, pushed))"
    and hide: "(if ?opq \<and> ?low then hide_lower E (path_of cs) ?vis s1 else Inr s1) = Inr s2"
    and last: "check_pause E s2 = Inr s'"
  proof -
    obtain s1 p1 where 1: "run_fold (diff_entry E F (path_of cs) ?opq ?vis ?low) (s, []) ?names = Some (Inr (s1, p1))"
      and rest: "run_bind (Some (if ?opq \<and> ?low then hide_lower E (path_of cs) ?vis s1 else Inr s1)) (\<lambda>s.
        if max_nodes (de_limits E) < length (ds_changes s) then Some (Inl (diff_budget ''upper diff result budget exceeded''))
        else run_bind (Some (check_pause E s)) (\<lambda>s. Some (Inr (s, p1)))) = Some (Inr (s', pushed))"
      using run unfolding diff_directory_unfold[OF at(1)] by (auto simp only: run_bind_Inr prod.case)
    from rest obtain s2 where 2: "(if ?opq \<and> ?low then hide_lower E (path_of cs) ?vis s1 else Inr s1) = Inr s2"
      and tail: "(if max_nodes (de_limits E) < length (ds_changes s2) then Some (Inl (diff_budget ''upper diff result budget exceeded''))
        else run_bind (Some (check_pause E s2)) (\<lambda>s. Some (Inr (s, p1)))) = Some (Inr (s', pushed))"
      unfolding run_bind_Inr by (auto simp only: option.inject)
    from tail have "check_pause E s2 = Inr s'" "p1 = pushed" by (auto simp: run_bind_Inr split: if_splits)
    then show thesis using that 1 2 by blast
  qed
  have "entry_loop (de_owner E) L T cs C ?opq s (s1, pushed) ?names"
  proof (rule run_fold_invariant[where P = "entry_loop (de_owner E) L T cs C ?opq s", OF loop])
    show "entry_loop (de_owner E) L T cs C ?opq s (s, []) []" using ok by (simp add: entry_loop_def keeps_refl)
  qed (rule entry_loop_step[OF F dir refl lower refl])
  then have l: "changes_sound (de_owner E) L T s1" "keeps s s1"
    "pushed = rev (map (\<lambda>n. pending_of L (cs @ [n]) ?opq) (filter (\<lambda>n. n \<in> set (child_dirs C)) ?names))"
    "\<And>m c. m \<in> set ?names \<Longrightarrow> (if is_marker m then m \<noteq> opaque_marker \<and> expected (de_owner E) L T (cs @ [drop 4 m]) = Some c
                            else expected (de_owner E) L T (cs @ [m]) = Some c)
         \<Longrightarrow> map_of (ds_changes s1) (path_of (cs @ [if is_marker m then drop 4 m else m])) = Some c"
    unfolding entry_loop_def by auto
  have hid: "changes_sound (de_owner E) L T s2 \<and> keeps s1 s2 \<and> (?opq \<and> ?low \<longrightarrow> (\<forall>n c. good_name n \<longrightarrow> visible_child C n = None
      \<longrightarrow> expected (de_owner E) L T (cs @ [n]) = Some c \<longrightarrow> map_of (ds_changes s2) (path_of (cs @ [n])) = Some c))"
  proof (cases "?opq \<and> ?low")
    case True
    then have "hide_lower E (path_of cs) ?vis s1 = Inr s2" using hide by simp
    from hide_lower_step[OF this l(1) dir good _ lower(1)] True show ?thesis by auto
  qed (use hide l(1) keeps_refl in auto)
  have s': "ds_changes s' = ds_changes s2" by (rule check_pause_changes[OF last])
  have "map_of (ds_changes s2) (path_of (cs @ [n])) = Some c"
    if g: "good_name n" and e: "expected (de_owner E) L T (cs @ [n]) = Some c" for n c
  proof (cases "visible_child C n")
    case (Some A)
    then have "\<not> is_marker n" "n \<in> set ?names" by (auto simp: visible_child_def split: if_splits dest!: map_of_SomeD intro: rev_image_eqI)
    then have "map_of (ds_changes s1) (path_of (cs @ [n])) = Some c" using l(4)[of n c] e by simp
    then show ?thesis using keepsD hid by blast
  next
    case None
    note ex = expected_snoc[OF dir, of "de_owner E" L n, unfolded None option.case]
    show ?thesis
    proof (cases ?opq)
      case True
      have "?low"
      proof (rule ccontr)
        assume "\<not> ?low"
        moreover have "list_all good_name (cs @ [n])" using good g by simp
        ultimately have "L (path_of (cs @ [n])) = None" using lower(2) unfolding lower_tree_def by blast
        then show False using e ex True by (simp add: change_at_def)
      qed
      then show ?thesis using hid True g None e by blast
    next
      case False
      have "''.wh.'' @ n \<in> set ?names"
      proof (rule ccontr)
        assume "''.wh.'' @ n \<notin> set ?names"
        then have "expected (de_owner E) L T (cs @ [n]) = change_at (de_owner E) L (cs @ [n]) (lower_at L (cs @ [n]))"
          using ex False by (simp del: append.simps)
        then show False using e by (auto simp: change_at_def lower_at_def split: option.splits)
      qed
      moreover have "''.wh.'' @ n \<noteq> opaque_marker" using calculation False by (metis has_opaque_def)
      moreover have "is_marker (''.wh.'' @ n)" by (simp add: is_marker_def)
      moreover have "drop 4 (''.wh.'' @ n) = n" by simp
      ultimately have "map_of (ds_changes s1) (path_of (cs @ [n])) = Some c" using l(4)[of "''.wh.'' @ n" c] e by simp
      then show ?thesis using keepsD hid by blast
    qed
  qed
  then have "directory_done (de_owner E) L T cs s'" by (simp add: directory_done_def s')
  moreover have "changes_sound (de_owner E) L T s'" "keeps s s'"
    using hid changes_same[OF s'] keeps_trans[OF l(2)] keeps_trans by blast+
  moreover have "filter (\<lambda>n. n \<in> set (child_dirs C)) ?names = child_dirs C"
    by (auto simp: child_dirs_def intro!: filter_cong)
  ultimately show ?thesis using l(3) by simp
qed

lemma diff_directory_returns:
  assumes F: "facts_tree F T" "tree_ok T" and dir: "dir_state False T cs = Some (C, op)"
  shows "diff_directory E F s (pending_of L cs op) \<noteq> None"
proof -
  have sub: "subtree_at T cs = Some C" using dir_state_subtree[OF dir] by simp
  note at = facts_tree_at[OF F sub]
  have entry: "diff_entry E F (path_of cs) opq vis low u n \<noteq> None" if n: "n \<in> set (map fst (ut_children C))" for opq vis low u n
  proof -
    obtain A where "map_of (ut_children C) n = Some A" using at(3)[OF n] by blast
    from at(2)[OF this] show ?thesis by (cases u) (auto simp: Let_def run_bind_def split: sum.splits)
  qed
  have fold: "run_fold (diff_entry E F (path_of cs) opq vis low) u (map fst (ut_children C)) \<noteq> None" for opq vis low u
    by (rule run_fold_some) (use entry in blast)
  have tail: "run_bind m (\<lambda>(s, pushed). run_bind (Some (h s)) (\<lambda>s. if b s then Some (Inl e) else run_bind (Some (k s)) (\<lambda>s. Some (Inr (s, pushed))))) \<noteq> None"
    if "m \<noteq> None" for m :: "(diff_state \<times> pending_directory list) run" and h b e k
    using that by (auto simp: run_bind_def split: option.splits sum.splits)
  show ?thesis
    unfolding diff_directory_unfold[OF at(1)] by (rule tail) (rule fold)
qed

section \<open>The whole tree\<close>

fun tree_nodes :: "upper_tree \<Rightarrow> nat" where
  "tree_nodes (UpperNode u fp ch) = Suc (sum_list (map (\<lambda>c. tree_nodes (snd c)) ch))"

lemma directory_done_keeps: "directory_done owner L T cs s \<Longrightarrow> keeps s s' \<Longrightarrow> directory_done owner L T cs s'"
  unfolding directory_done_def using keepsD by blast

lemma dir_state_append: "dir_state op C (cs @ ds) \<noteq> None \<Longrightarrow> dir_state op C cs \<noteq> None"
proof (induction ds rule: rev_induct)
  case (snoc d ds)
  then show ?case using dir_state_prefix[of op C "cs @ ds" d] by simp
qed simp

lemma sum_child_dirs:
  assumes "tree_ok C"
  shows "sum_list (map (\<lambda>n. tree_nodes (the (map_of (ut_children C) n))) (child_dirs C)) < tree_nodes C"
proof -
  obtain u fp ch where C: "C = UpperNode u fp ch" by (cases C)
  have d: "distinct (map fst ch)" using assms by (simp add: C names_ok_def)
  have eq: "map (\<lambda>n. tree_nodes (the (map_of ch n))) (map fst ch) = map (\<lambda>c. tree_nodes (snd c)) ch"
    using d by (auto simp: map_of_is_SomeI[OF d])
  have "sum_list (map (\<lambda>n. tree_nodes (the (map_of ch n))) (filter P (map fst ch)))
      \<le> sum_list (map (\<lambda>n. tree_nodes (the (map_of ch n))) (map fst ch))" for P
    by (rule sum_list_filter_le_nat)
  also have "\<dots> < tree_nodes C" unfolding eq by (simp add: C)
  finally show ?thesis by (simp add: child_dirs_def C)
qed

definition weight :: "upper_tree \<Rightarrow> (string list \<times> bool) list \<Rightarrow> nat" where
  "weight T ps = sum_list (map (\<lambda>p. tree_nodes (the (subtree_at T (fst p)))) ps)"

definition next_dirs :: "string list \<Rightarrow> bool \<Rightarrow> upper_tree \<Rightarrow> (string list \<times> bool) list" where
  "next_dirs cs op C = rev (map (\<lambda>n. (cs @ [n], op \<or> has_opaque C)) (child_dirs C))"

lemma next_dirs_ok:
  assumes "tree_ok T" "dir_state False T cs = Some (C, op)"
  shows "p \<in> set (next_dirs cs op C) \<Longrightarrow> \<exists>B. dir_state False T (fst p) = Some (B, snd p)"
    "weight T (next_dirs cs op C) < tree_nodes C"
    "dir_state False T (cs @ n # ds) \<noteq> None \<Longrightarrow> \<exists>p\<in>set (next_dirs cs op C). fst p = cs @ [n]"
proof -
  have sub: "subtree_at T cs = Some C" using dir_state_subtree[OF assms(2)] by simp
  show "\<exists>B. dir_state False T (fst p) = Some (B, snd p)" if "p \<in> set (next_dirs cs op C)"
    using that by (auto simp: next_dirs_def child_dirs_def dir_state_snoc[OF assms(2)] split: option.splits)
  have "weight T (next_dirs cs op C) = sum_list (map (\<lambda>n. tree_nodes (the (subtree_at T (cs @ [n])))) (child_dirs C))"
    unfolding weight_def next_dirs_def rev_map[symmetric] sum_list_rev by (simp add: comp_def)
  also have "\<dots> = sum_list (map (\<lambda>n. tree_nodes (the (map_of (ut_children C) n))) (child_dirs C))"
    by (intro arg_cong[of _ _ sum_list] map_cong refl)
      (auto simp: subtree_at_append sub child_dirs_def visible_child_def split: option.splits if_splits)
  also have "\<dots> < tree_nodes C" by (rule sum_child_dirs[OF tree_ok_subtree[OF assms(1) sub]])
  finally show "weight T (next_dirs cs op C) < tree_nodes C" .
  assume "dir_state False T (cs @ n # ds) \<noteq> None"
  then have "dir_state False T (cs @ [n]) \<noteq> None" using dir_state_append[of False T "cs @ [n]" ds] by simp
  then have "n \<in> set (child_dirs C)"
    by (auto simp: dir_state_snoc[OF assms(2)] child_dirs_def visible_child_def split: option.splits if_splits dest!: map_of_SomeD
        intro: rev_image_eqI)
  then show "\<exists>p\<in>set (next_dirs cs op C). fst p = cs @ [n]" by (auto simp: next_dirs_def)
qed

lemma diff_pending_run:
  assumes F: "facts_tree F T" "tree_ok T" and lower: "lower_answers E L" "lower_tree L"
  shows "(\<And>p. p \<in> set ps \<Longrightarrow> \<exists>C. dir_state False T (fst p) = Some (C, snd p)) \<Longrightarrow> changes_sound (de_owner E) L T s \<Longrightarrow>
    \<exists>r. diff_pending E F s (map (\<lambda>p. pending_of L (fst p) (snd p)) ps) = Some r
      \<and> (\<forall>s'. r = Inr s' \<longrightarrow> changes_sound (de_owner E) L T s' \<and> keeps s s'
           \<and> (\<forall>p\<in>set ps. \<forall>ds. dir_state False T (fst p @ ds) \<noteq> None \<longrightarrow> directory_done (de_owner E) L T (fst p @ ds) s'))"
proof (induction "weight T ps" arbitrary: ps s rule: less_induct)
  case less
  let ?pend = "\<lambda>ps. map (\<lambda>p. pending_of L (fst p) (snd p)) ps"
  show ?case
  proof (cases ps)
    case Nil
    then show ?thesis using less.prems(2) keeps_refl by (simp add: diff_pending.simps)
  next
    case (Cons p rest)
    obtain cs op where p: "p = (cs, op)" by (cases p)
    obtain C where C: "dir_state False T cs = Some (C, op)" using less.prems(1)[of p] Cons p by auto
    obtain r where r: "diff_directory E F s (pending_of L cs op) = Some r"
      using diff_directory_returns[OF F C] by blast
    have unf: "diff_pending E F s (?pend ps) = (case r of Inl e \<Rightarrow> Some (Inl e) | Inr q \<Rightarrow> diff_pending E F (fst q) (snd q @ ?pend rest))"
      by (subst diff_pending.simps) (simp add: Cons p r split: sum.splits)
    show ?thesis
    proof (cases r)
      case (Inr q)
      obtain s1 pushed where q: "q = (s1, pushed)" by (cases q)
      have st: "changes_sound (de_owner E) L T s1 \<and> keeps s s1 \<and> directory_done (de_owner E) L T cs s1
        \<and> pushed = rev (map (\<lambda>n. pending_of L (cs @ [n]) (op \<or> has_opaque C)) (child_dirs C))"
        by (rule diff_directory_step[OF F C lower less.prems(2)]) (use r Inr q in simp)
      let ?next = "next_dirs cs op C @ rest"
      have pend: "snd q @ ?pend rest = ?pend ?next" using st q unfolding next_dirs_def map_append rev_map[symmetric] by (simp add: comp_def)
      have sub: "subtree_at T cs = Some C" using dir_state_subtree[OF C] by simp
      have w: "weight T ?next < weight T ps"
        using next_dirs_ok(2)[OF F(2) C] sub by (simp add: Cons p weight_def)
      have valid: "\<exists>B. dir_state False T (fst x) = Some (B, snd x)" if "x \<in> set ?next" for x
        using that next_dirs_ok(1)[OF F(2) C] less.prems(1) Cons by auto
      from less.hyps[OF w valid, of s1] st obtain r' where r': "diff_pending E F s1 (?pend ?next) = Some r'"
        and post: "\<And>s'. r' = Inr s' \<Longrightarrow> changes_sound (de_owner E) L T s' \<and> keeps s1 s'
           \<and> (\<forall>p\<in>set ?next. \<forall>ds. dir_state False T (fst p @ ds) \<noteq> None \<longrightarrow> directory_done (de_owner E) L T (fst p @ ds) s')"
        by blast
      have "directory_done (de_owner E) L T (fst x @ ds) s'"
        if s': "r' = Inr s'" and x: "x \<in> set ps" and ds: "dir_state False T (fst x @ ds) \<noteq> None" for s' x ds
      proof (cases "x \<in> set rest")
        case True
        then show ?thesis using post[OF s'] ds by auto
      next
        case False
        then have x: "x = (cs, op)" using x Cons p by simp
        show ?thesis
        proof (cases ds)
          case Nil
          then show ?thesis using x directory_done_keeps st post[OF s'] by auto
        next
          case (Cons n ds')
          have "dir_state False T (cs @ n # ds') \<noteq> None" using ds x Cons by simp
          then obtain y where y: "y \<in> set (next_dirs cs op C)" "fst y = cs @ [n]" using next_dirs_ok(3)[OF F(2) C] by blast
          then show ?thesis using post[OF s'] ds x Cons by (metis Un_iff append.assoc append_Cons append_Nil fst_conv set_append)
        qed
      qed
      then show ?thesis using unf Inr q pend r' post st keeps_trans by auto
    qed (use unf in simp)
  qed
qed

section \<open>Nothing outside the reported changes differs\<close>

lemma effective_below:
  assumes "dir_state opaque C ds = None"
  shows "effective L ps opaque C (ds @ [n]) = lower_at L (ps @ ds @ [n])
    \<or> effective L ps opaque C (ds @ [n]) = AbsentView
      \<and> (effective L ps opaque C ds = AbsentView \<or> (\<exists>u. effective L ps opaque C ds = UpperView u \<and> \<not> is_directory u))"
  using assms
proof (induction opaque C ds arbitrary: ps rule: dir_state.induct)
  case (2 opaque C m ms)
  show ?case
  proof (cases "visible_child C m")
    case (Some B)
    show ?thesis
    proof (cases "is_directory (ut_identity C)")
      case True
      then have "dir_state (opaque \<or> has_opaque C) B ms = None" using 2(2) Some by simp
      from 2(1)[OF _ Some this, of "ps @ [m]"] show ?thesis using True Some by simp
    qed simp
  qed simp
qed (simp split: if_splits)

lemma change_at_nil: "change_at owner L cs (lower_at L cs) = None"
  by (simp add: change_at_def lower_at_def split: option.splits)

lemma changes_covered:
  assumes "lower_tree L" "list_all good_name cs" "change_at owner L cs (effective L [] False T cs) \<noteq> None"
  shows "\<exists>ps qs. cs = ps @ qs \<and> expected owner L T ps \<noteq> None"
  using assms(2,3)
proof (induction cs rule: rev_induct)
  case Nil
  then show ?case by (simp add: expected_def)
next
  case (snoc n ds)
  show ?case
  proof (cases "dir_state False T ds")
    case (Some x)
    then have "expected owner L T (ds @ [n]) \<noteq> None" using snoc.prems(2) by (simp add: expected_def)
    then show ?thesis by (intro exI[of _ "ds @ [n]"] exI[of _ "[]"]) simp
  next
    case None
    from effective_below[OF None, of L "[]" n] snoc.prems(2) change_at_nil
    have e: "effective L [] False T (ds @ [n]) = AbsentView"
      "effective L [] False T ds = AbsentView \<or> (\<exists>u. effective L [] False T ds = UpperView u \<and> \<not> is_directory u)" by auto
    then have "L (path_of (ds @ [n])) \<noteq> None" using snoc.prems(2) by (auto simp: change_at_def split: option.splits)
    then have "node_directory (L (path_of ds))" using assms(1) snoc.prems(1) unfolding lower_tree_def by blast
    then obtain i where i: "L (path_of ds) = Some (DirectoryNode i)"
      by (auto simp: node_directory_def split: option.splits snapshot_node_identity.splits)
    have "\<not> upper_matches owner u (DirectoryNode i)" if "\<not> is_directory u" for u
      using that by (cases u) (simp_all add: upper_matches_def is_directory_def)
    then have "change_at owner L ds (effective L [] False T ds) \<noteq> None" using e(2) i by (auto simp: change_at_def)
    with snoc show ?thesis by (metis append.assoc list_all_append)
  qed
qed

lemma path_state_answer:
  assumes "path_state_for_diff E s [] = Inr (st, s')" "lower_answers E L"
  shows "ds_changes s' = ds_changes s" "st = (case L [] of None \<Rightarrow> AbsentProven | Some i \<Rightarrow> Present i)"
proof -
  obtain k where "de_state E k [] = Inr st" "ds_changes s' = ds_changes s"
    using assms(1) by (auto simp: path_state_for_diff_def rbind_eq_Inr Let_def check_pause_def split: if_splits)
  moreover have "list_all good_name []" "path_of [] = []" by simp_all
  ultimately show "ds_changes s' = ds_changes s" "st = (case L [] of None \<Rightarrow> AbsentProven | Some i \<Rightarrow> Present i)"
    using assms(2) unfolding lower_answers_def by metis+
qed

lemma diff_scanned_run:
  assumes F: "facts_tree (sc_facts scanned) T" "tree_ok T" "is_directory (ut_identity T)" and lower: "lower_answers E L" "lower_tree L"
  shows "\<exists>r. diff_scanned E scanned k = Some r \<and> (\<forall>s. r = Inr s \<longrightarrow>
    sorted_wrt (<) (map fst (ds_changes s))
    \<and> (\<forall>p c. map_of (ds_changes s) p = Some c \<longleftrightarrow> (\<exists>cs. list_all good_name cs \<and> p = path_of cs \<and> expected (de_owner E) L T cs = Some c)))"
proof -
  define s0 where "s0 = count_query \<lparr>ds_meters = sc_meters scanned, ds_readings = k, ds_changes = []\<rparr>"
  have s0: "ds_changes s0 = []" by (simp add: s0_def count_query_def)
  have root: "map_of (sc_facts scanned) [] = Some (fact_of T)"
    using facts_tree_at(1)[OF F(1,2), of "[]" T] by (simp add: path_of_def)
  note unf = diff_scanned_def[of E scanned k, folded s0_def, unfolded root option.case]
  show ?thesis
  proof (cases "path_state_for_diff E s0 []")
    case (Inl e)
    then show ?thesis by (simp add: unf run_bind_def)
  next
    case (Inr a)
    obtain state s1 where a: "a = (state, s1)" by (cases a)
    have s1: "ds_changes s1 = []" "state = (case L [] of None \<Rightarrow> AbsentProven | Some i \<Rightarrow> Present i)"
      using path_state_answer[OF Inr[unfolded a] lower(1)] s0 by simp_all
    show ?thesis
    proof (cases "\<exists>i. L [] = Some (DirectoryNode i)")
      case True
      then obtain i where i: "L [] = Some (DirectoryNode i)" by blast
      define s2 where "s2 = root_change E (ut_identity T) (DirectoryNode i) s1"
      have ex: "expected (de_owner E) L T [] = change_at (de_owner E) L [] (UpperView (ut_identity T))"
        by (simp add: expected_def)
      have nil: "path_of [] = []" by (simp add: path_of_def)
      have none: "changes_sound (de_owner E) L T s1" using s1 by (simp add: changes_sound_def)
      have s2: "changes_sound (de_owner E) L T s2 \<and> (\<forall>c. expected (de_owner E) L T [] = Some c \<longrightarrow> map_of (ds_changes s2) [] = Some c)"
      proof (cases "upper_matches (de_owner E) (ut_identity T) (DirectoryNode i)")
        case True
        then show ?thesis using none ex i by (simp add: s2_def root_change_def change_at_def nil)
      next
        case False
        define c where "c = \<lparr>uc_rel_path = [], uc_kind = Modified, uc_base = Some (DirectoryNode i), uc_upper = Some (ut_identity T)\<rparr>"
        have c: "expected (de_owner E) L T [] = Some c" "uc_rel_path c = path_of []"
          using False i by (simp_all add: ex change_at_def nil c_def)
        have "s2 = insert_change s1 c" using False by (simp add: s2_def root_change_def c_def)
        then show ?thesis using insert_expected[OF none c] c(1) nil by simp
      qed
      have dir: "dir_state False T [] = Some (T, False)" using F(3) by simp
      have pend: "map (\<lambda>p. pending_of L (fst p) (snd p)) [([], False)] = [([], False, True)]"
        using i by (simp add: pending_of_def nil node_directory_def)
      from diff_pending_run[OF F(1,2) lower, of "[([], False)]" s2, unfolded pend] dir s2
      obtain r where r: "diff_pending E (sc_facts scanned) s2 [([], False, True)] = Some r"
        and post: "\<And>s'. r = Inr s' \<Longrightarrow> changes_sound (de_owner E) L T s' \<and> keeps s2 s'
           \<and> (\<forall>ds. dir_state False T ds \<noteq> None \<longrightarrow> directory_done (de_owner E) L T ds s')" by auto
      have "map_of (ds_changes s') (path_of cs) = Some c"
        if s': "r = Inr s'" and e: "expected (de_owner E) L T cs = Some c" and g: "list_all good_name cs" for s' cs c
      proof (cases cs rule: rev_cases)
        case Nil
        then show ?thesis using s2 e keepsD post[OF s'] nil by metis
      next
        case (snoc ds n)
        then have "dir_state False T ds \<noteq> None" using e by (auto simp: expected_def split: if_splits)
        then show ?thesis using post[OF s'] e g snoc by (auto simp: directory_done_def)
      qed
      moreover have "diff_scanned E scanned k = Some r"
        using Inr a s1(2) i r by (simp add: unf run_bind_def s2_def fact_of_def)
      ultimately show ?thesis using post unfolding changes_sound_def by blast
    next
      case False
      then have "diff_scanned E scanned k = Some (Inl (diff_unknown ''fixed lower scope root is not a proved directory''))"
        using Inr a s1(2) by (auto simp: unf run_bind_def split: option.splits snapshot_node_identity.splits)
      then show ?thesis by simp
    qed
  qed
qed

lemma expected_path: "expected owner L T cs = Some c \<Longrightarrow> uc_rel_path c = path_of cs"
  by (auto simp: expected_def change_at_def split: if_splits option.splits view.splits)

lemma changes_listed:
  assumes s: "sorted_wrt (<) (map fst ds)" and exact: "\<And>p c. map_of ds p = Some c \<longleftrightarrow>
      (\<exists>cs. list_all good_name cs \<and> p = path_of cs \<and> expected owner L T cs = Some c)"
  shows "set (map snd ds) = {c. \<exists>cs. list_all good_name cs \<and> expected owner L T cs = Some c}"
    "sorted_wrt (<) (map uc_rel_path (map snd ds))"
proof -
  have d: "distinct (map fst ds)" using s strict_sorted_iff by blast
  have in_iff: "(p, c) \<in> set ds \<longleftrightarrow> (\<exists>cs. list_all good_name cs \<and> p = path_of cs \<and> expected owner L T cs = Some c)" for p c
    using exact map_of_eq_Some_iff[OF d] by metis
  show "set (map snd ds) = {c. \<exists>cs. list_all good_name cs \<and> expected owner L T cs = Some c}"
    using in_iff by force
  have "map uc_rel_path (map snd ds) = map fst ds" using in_iff expected_path by fastforce
  then show "sorted_wrt (<) (map uc_rel_path (map snd ds))" using s by (simp only:)
qed

lemma clean_iff:
  assumes "lower_tree L" "X = {c. \<exists>cs. list_all good_name cs \<and> expected owner L T cs = Some c}"
  shows "X = {} \<longleftrightarrow> (\<forall>cs. list_all good_name cs \<longrightarrow> change_at owner L cs (effective L [] False T cs) = None)"
proof
  assume e: "X = {}"
  show "\<forall>cs. list_all good_name cs \<longrightarrow> change_at owner L cs (effective L [] False T cs) = None"
  proof (intro allI impI, rule ccontr)
    fix cs assume "list_all good_name cs" "change_at owner L cs (effective L [] False T cs) \<noteq> None"
    with changes_covered[OF assms(1)] obtain ps qs where "cs = ps @ qs" "expected owner L T ps \<noteq> None" "list_all good_name cs" by blast
    then show False using e assms(2) by auto
  qed
next
  assume "\<forall>cs. list_all good_name cs \<longrightarrow> change_at owner L cs (effective L [] False T cs) = None"
  then show "X = {}" by (auto simp: assms(2) expected_def split: if_splits)
qed

section \<open>The property\<close>

lemma scan_upper_exact:
  assumes "os_names (se_os V)" "se_limits V = de_limits E" "lower_answers E L" "lower_tree L"
  shows "\<exists>r. scan_upper V try_clone absolute comps scan_fault verify_fault E = Some r
    \<and> (\<forall>diff. r = Inr diff \<longrightarrow> (\<exists>s T t.
        collect_upper V try_clone absolute comps = Inr s \<and> facts_tree (sc_facts s) T
        \<and> set (ud_changes diff) = {c. \<exists>cs. list_all good_name cs \<and> expected (de_owner E) L T cs = Some c}
        \<and> sorted_wrt (<) (map uc_rel_path (ud_changes diff))
        \<and> reseen (se_os V) T (sc_calls s) t
        \<and> (is_clean diff \<longleftrightarrow> (\<forall>cs. list_all good_name cs \<longrightarrow> change_at (de_owner E) L cs (effective L [] False T cs) = None))))"
proof (cases "\<not> de_uncertain E 0 \<and> \<not> (max_nodes (de_limits E) = 0 \<or> 256 < max_depth (de_limits E)) \<and> scan_fault = None
    \<and> is_ok (collect_upper V try_clone absolute comps)")
  case False
  then show ?thesis by (auto simp: scan_upper_def run_bind_def is_ok_iff split: option.splits sum.splits)
next
  case ok: True
  then obtain s where s: "collect_upper V try_clone absolute comps = Inr s" by (auto simp: is_ok_iff)
  have "1 \<le> max_nodes (se_limits V)" using ok assms(2) by simp
  from upper_scan_tree[OF s assms(1) this] obtain T where T: "facts_tree (sc_facts s) T" "tree_ok T" "is_directory (ut_identity T)"
    and ver: "\<And>t. \<exists>r. verify_upper V absolute comps s t = Some r \<and> (\<forall>t'. r = Inr t' \<longrightarrow> reseen (se_os V) T t t')" by blast
  from diff_scanned_run[OF T assms(3,4), of 1] obtain r where r: "diff_scanned E s 1 = Some r"
    and post: "\<And>d. r = Inr d \<Longrightarrow> sorted_wrt (<) (map fst (ds_changes d)) \<and> (\<forall>p c. map_of (ds_changes d) p = Some c \<longleftrightarrow>
      (\<exists>cs. list_all good_name cs \<and> p = path_of cs \<and> expected (de_owner E) L T cs = Some c))" by blast
  obtain v where v: "verify_upper V absolute comps s (sc_calls s) = Some v" "\<And>t'. v = Inr t' \<Longrightarrow> reseen (se_os V) T (sc_calls s) t'"
    using ver[of "sc_calls s"] by blast
  define tail where "tail = (\<lambda>d. run_bind (case verify_fault of
           Some e \<Rightarrow> Some (Inl (diff_unknown (''upper verification task failed: '' @ e)))
         | None \<Rightarrow> Some v) (\<lambda>_.
       run_bind (Some (check_pause E d)) (\<lambda>d. Some (Inr \<lparr>ud_changes = map snd (ds_changes d), ud_meters = ds_meters d\<rparr>))))"
  have unf: "scan_upper V try_clone absolute comps scan_fault verify_fault E = run_bind (Some r) tail"
    using ok s r v(1) by (auto simp: scan_upper_def run_bind_def tail_def split: option.splits sum.splits)
  have "\<exists>q. tail d = Some q \<and> (\<forall>diff. q = Inr diff \<longrightarrow> ud_changes diff = map snd (ds_changes d) \<and> (\<exists>t. v = Inr t))" for d
    by (auto simp: tail_def run_bind_def check_pause_def split: option.splits sum.splits)
  then obtain q where q: "run_bind (Some r) tail = Some q"
    "\<And>diff. q = Inr diff \<Longrightarrow> \<exists>d t. r = Inr d \<and> ud_changes diff = map snd (ds_changes d) \<and> v = Inr t"
    by (cases r) (fastforce simp: run_bind_def)+
  have main: "\<exists>t. set (ud_changes diff) = {c. \<exists>cs. list_all good_name cs \<and> expected (de_owner E) L T cs = Some c}
        \<and> sorted_wrt (<) (map uc_rel_path (ud_changes diff)) \<and> reseen (se_os V) T (sc_calls s) t
        \<and> (is_clean diff \<longleftrightarrow> (\<forall>cs. list_all good_name cs \<longrightarrow> change_at (de_owner E) L cs (effective L [] False T cs) = None))"
    if qd: "q = Inr diff" for diff
  proof -
    obtain d t where d: "r = Inr d" "ud_changes diff = map snd (ds_changes d)" "v = Inr t" using q(2)[OF qd] by blast
    note all = changes_listed[OF post[OF d(1), THEN conjunct1] post[OF d(1), THEN conjunct2, rule_format], folded d(2)]
    have "is_clean diff \<longleftrightarrow> set (ud_changes diff) = {}" by (simp add: is_clean_def)
    then show ?thesis using all v(2)[OF d(3)] clean_iff[OF assms(4) all(1)] by blast
  qed
  show ?thesis
  proof (intro exI[of _ q] conjI allI impI)
    show "scan_upper V try_clone absolute comps scan_fault verify_fault E = Some q" using q(1) unf by simp
    fix diff assume "q = Inr diff"
    from main[OF this] show "\<exists>s T t. collect_upper V try_clone absolute comps = Inr s \<and> facts_tree (sc_facts s) T
        \<and> set (ud_changes diff) = {c. \<exists>cs. list_all good_name cs \<and> expected (de_owner E) L T cs = Some c}
        \<and> sorted_wrt (<) (map uc_rel_path (ud_changes diff)) \<and> reseen (se_os V) T (sc_calls s) t
        \<and> (is_clean diff \<longleftrightarrow> (\<forall>cs. list_all good_name cs \<longrightarrow> change_at (de_owner E) L cs (effective L [] False T cs) = None))"
      using s T(1) by (elim exE) (intro exI conjI, assumption+, blast+)
  qed
qed


text \<open>A lower root with one file, over which the upper directory adds another.\<close>

definition demo_lower :: "string \<Rightarrow> snapshot_node_identity option" where
  "demo_lower p = (if p = [] then Some (DirectoryNode ''r'') else if p = ''b'' then Some (RegularNode 1 ''x'') else None)"

definition demo_diff :: diff_env where
  "demo_diff = \<lparr>de_context = \<lparr>lc_grammar = (\<lambda>_. Inr ()), lc_reader = None, lc_namespace_scope = Some ''/''\<rparr>,
     de_owner = \<lparr>mo_uid = 0, mo_gid = 0\<rparr>, de_uncertain = (\<lambda>_. False),
     de_state = (\<lambda>_ p. Inr (case demo_lower p of None \<Rightarrow> AbsentProven | Some i \<Rightarrow> Present i)),
     de_entries = (\<lambda>_ p. if p = [] then Inr [(''b'', RegularNode 1 ''x'')] else Inl (diff_unknown ''not a directory'')),
     de_grammar = (\<lambda>_. Inr ()), de_limits = DiffLimits_default\<rparr>"

lemma demo_lower_ok: "lower_answers demo_diff demo_lower" "lower_tree demo_lower"
proof -
  have one: "path_of [n] = n" for n using path_of_snoc[of "[]" n] by (simp add: diff_join_def)
  have b: "path_of (cs @ [n]) = ''b'' \<longleftrightarrow> cs = [] \<and> n = ''b''" if "list_all good_name (cs @ [n])" for cs n
    using path_of_inject[OF that, of "[''b'']"] by (auto simp: one good_name_def)
  have nil: "path_of (cs @ [n]) \<noteq> []" if "list_all good_name (cs @ [n])" for cs n
    using path_of_eq_Nil[OF that] by simp
  show "lower_tree demo_lower"
    unfolding lower_tree_def demo_lower_def using b nil by (auto simp: node_directory_def)
  have "((n, i) \<in> set es) = (good_name n \<and> demo_lower (path_of (cs @ [n])) = Some i)"
    if "list_all good_name cs" "de_entries demo_diff k (path_of cs) = Inr es" for k cs es n i
  proof -
    have "cs = []" using that path_of_eq_Nil[OF that(1)] by (auto simp: demo_diff_def split: if_splits)
    then show ?thesis using that(2) by (auto simp: demo_diff_def demo_lower_def one good_name_def split: if_splits)
  qed
  then show "lower_answers demo_diff demo_lower"
    unfolding lower_answers_def by (auto simp: demo_diff_def)
qed

lemma demo_diff_run: "(case scan_upper demo_scan (\<lambda>_ h. Inr h) True [RootDir] None None demo_diff of
    Some (Inr diff) \<Rightarrow> map (\<lambda>c. (uc_rel_path c, uc_kind c)) (ud_changes diff) = [(''a'', Added)] | _ \<Rightarrow> False)"
  by code_simp


end
