(* ===== verification/Fixed_View.thy ===== *)
theory Fixed_View
  imports Directory_Proof Upper_Diff
begin

text \<open>
  The fixed view of a snapshot (\<^verbatim>\<open>snapshot/fuse.rs\<close>): the inode table that directories are loaded into, the
  eager constructors, the typed path queries and the namespace operations of the filesystem.  A directory
  is loaded once, from a complete proof; other operations may run at every lock, so every lock is taken on
  a state that an argument may have moved on.  An action returns the state it leaves behind also when it
  fails; the number in its result counts the calls it made.  The content caches and the reads of file
  bodies are not part of this state.
\<close>

section \<open>Nodes\<close>

definition ROOT_INODE :: nat where "ROOT_INODE = 1"

record view_dir =
  vd_path :: string
  vd_children :: fixed_directory_index
  vd_parent :: nat
  vd_loaded :: bool
  vd_page_id :: "string option"
  vd_membership :: "proven_directory option"

record view_file =
  vn_file :: snapshot_file
  vn_proven :: "proven_file option"

datatype view_node = DirN view_dir | FileN view_file

record view_state =
  fs_next_inode :: nat
  fs_nodes :: "(nat \<times> view_node) list"
  fs_lazy :: bool
  fs_namespace_scope :: "string option"
  fs_learned :: "(string \<times> bytes) list"

datatype file_type = DirectoryType | SymlinkType | RegularType

definition is_symlink_file :: "view_file \<Rightarrow> bool" where
  "is_symlink_file f = (sf_fs_kind (vn_file f) = ''symlink'')"

definition view_entry_kind :: "view_node \<Rightarrow> file_type" where
  "view_entry_kind node = (case node of
      DirN _ \<Rightarrow> DirectoryType
    | FileN f \<Rightarrow> if is_symlink_file f then SymlinkType else RegularType)"

definition is_symlink :: "view_node \<Rightarrow> bool" where
  "is_symlink node = (case node of FileN f \<Rightarrow> is_symlink_file f | _ \<Rightarrow> False)"

definition seal_node :: "view_node \<Rightarrow> view_node" where
  "seal_node node = (case node of DirN d \<Rightarrow> DirN (d\<lparr>vd_children := seal (vd_children d)\<rparr>) | FileN f \<Rightarrow> FileN f)"

definition seal_directory_indices :: "view_state \<Rightarrow> view_state" where
  "seal_directory_indices st = st\<lparr>fs_nodes := map (\<lambda>(i, node). (i, seal_node node)) (fs_nodes st)\<rparr>"

definition put_node :: "nat \<Rightarrow> view_node \<Rightarrow> view_state \<Rightarrow> view_state" where
  "put_node i node st = st\<lparr>fs_nodes := AList.update i node (fs_nodes st)\<rparr>"

definition node_at :: "view_state \<Rightarrow> nat \<Rightarrow> view_node option" where
  "node_at st i = map_of (fs_nodes st) i"

section \<open>Actions\<close>

record view_env =
  ve_reader :: "page_source option"
  ve_store :: bool
  ve_lease_before :: "nat \<Rightarrow> unit result"
  ve_lease_after :: "nat \<Rightarrow> unit result"
  ve_learn :: "nat \<Rightarrow> bool"
  ve_others :: "nat \<Rightarrow> view_state \<Rightarrow> view_state"
  ve_owner :: mount_owner
  ve_grammar :: scope_grammar

type_synonym ('e, 'a) act = "(view_state \<times> ('e + ('a \<times> nat))) option"

definition act_bind :: "('e, 'a) act \<Rightarrow> (view_state \<Rightarrow> 'a \<Rightarrow> nat \<Rightarrow> ('e, 'b) act) \<Rightarrow> ('e, 'b) act" where
  "act_bind m f = (case m of
      None \<Rightarrow> None
    | Some (st, Inl e) \<Rightarrow> Some (st, Inl e)
    | Some (st, Inr (a, t)) \<Rightarrow> f st a t)"

definition act_map_err :: "('e \<Rightarrow> 'f) \<Rightarrow> ('e, 'a) act \<Rightarrow> ('f, 'a) act" where
  "act_map_err g m = map_option (\<lambda>(st, r). (st, map_err g r)) m"

definition act_lift :: "view_state \<Rightarrow> nat \<Rightarrow> 'e + 'a \<Rightarrow> ('e, 'a) act" where
  "act_lift st t r = Some (st, rbind r (\<lambda>a. Inr (a, t)))"

definition view_lock :: "view_env \<Rightarrow> nat \<Rightarrow> view_state \<Rightarrow> view_state" where
  "view_lock E t st = ve_others E t st"

definition check_metadata_lease :: "view_env \<Rightarrow> nat \<Rightarrow> view_state \<Rightarrow> (snapshot_error, unit) act" where
  "check_metadata_lease E t st =
    (case ve_reader E of
       None \<Rightarrow> Some (st, Inr ((), t))
     | Some _ \<Rightarrow> act_lift st (Suc t) (ve_lease_before E t))"

text \<open>The second reading of the lease, which comes before the result of the action is looked at.\<close>

definition check_lease_after :: "view_env \<Rightarrow> (snapshot_error, 'a) act \<Rightarrow> (snapshot_error, 'a) act" where
  "check_lease_after E m =
    (case (ve_reader E, m) of
       (Some _, Some (st, r)) \<Rightarrow>
         (case ve_lease_after E (case r of Inl _ \<Rightarrow> 0 | Inr (_, t) \<Rightarrow> Suc t) of
            Inl e \<Rightarrow> Some (st, Inl e)
          | Inr _ \<Rightarrow> m)
     | _ \<Rightarrow> m)"

section \<open>Loading a directory\<close>

definition new_child_node :: "auth_env \<Rightarrow> nat \<Rightarrow> string \<Rightarrow> proven_entries \<Rightarrow> nat \<Rightarrow> entry \<Rightarrow> view_node result" where
  "new_child_node A parent_inode full entries index e =
    (if en_kind e = Directory_Kind
     then rbind (directory_token A entries index) (\<lambda>m.
       Inr (DirN \<lparr>vd_path = full, vd_children = index_default, vd_parent = parent_inode, vd_loaded = False,
                  vd_page_id = Some (''sha256:'' @ hex32 (en_child_root e)), vd_membership = Some m\<rparr>))
     else rbind (file_token A entries index) (\<lambda>proven.
       Inr (FileN \<lparr>vn_file = pv_file proven, vn_proven = Some proven\<rparr>)))"

definition add_child_inode :: "nat \<Rightarrow> string \<Rightarrow> nat \<Rightarrow> view_state \<Rightarrow> view_state \<times> unit result" where
  "add_child_inode parent_inode name inode st =
    (case node_at st parent_inode of
       Some (DirN d) \<Rightarrow>
         (case index_insert (vd_children d) name inode of
            Inl e \<Rightarrow> (st, Inl e)
          | Inr (children, _) \<Rightarrow> (put_node parent_inode (DirN (d\<lparr>vd_children := children\<rparr>)) st, Inr ()))
     | _ \<Rightarrow> (st, Inr ()))"

definition apply_entry ::
  "auth_env \<Rightarrow> nat \<Rightarrow> string \<Rightarrow> proven_entries \<Rightarrow> view_state \<Rightarrow> nat \<times> entry \<Rightarrow> view_state \<times> unit result" where
  "apply_entry A parent_inode parent_path entries st item =
    (case item of (index, e) \<Rightarrow>
     case from_utf8 (en_name e) of
       None \<Rightarrow> (st, Inl (SnapshotError_new Internal ''non-utf8 entry name in MTP2 page''))
     | Some name \<Rightarrow>
        let full = join_path parent_path name in
        if (case node_at st parent_inode of Some (DirN d) \<Rightarrow> index_get (vd_children d) name \<noteq> None | _ \<Rightarrow> False)
        then (st, Inr ())
        else
          let inode = fs_next_inode st + 1;
              st = st\<lparr>fs_next_inode := inode\<rparr> in
          case new_child_node A parent_inode full entries index e of
            Inl err \<Rightarrow> (st, Inl err)
          | Inr node \<Rightarrow> add_child_inode parent_inode name inode (put_node inode node st))"

fun apply_entries ::
  "auth_env \<Rightarrow> nat \<Rightarrow> string \<Rightarrow> proven_entries \<Rightarrow> view_state \<Rightarrow> (nat \<times> entry) list \<Rightarrow> view_state \<times> unit result" where
  "apply_entries A parent_inode parent_path entries st [] = (st, Inr ())"
| "apply_entries A parent_inode parent_path entries st (item # items) =
    (case apply_entry A parent_inode parent_path entries st item of
       (st, Inl e) \<Rightarrow> (st, Inl e)
     | (st, Inr _) \<Rightarrow> apply_entries A parent_inode parent_path entries st items)"

definition apply_page_entries :: "auth_env \<Rightarrow> view_state \<Rightarrow> nat \<Rightarrow> string \<Rightarrow> proven_entries \<Rightarrow> view_state \<times> unit result" where
  "apply_page_entries A st parent_inode parent_path entries =
    apply_entries A parent_inode parent_path entries st (enumerate 0 (pn_entries entries))"

definition is_loaded :: "view_node option \<Rightarrow> bool" where
  "is_loaded node = (case node of Some (DirN d) \<Rightarrow> vd_loaded d | _ \<Rightarrow> False)"

definition commit_directory ::
  "page_source \<Rightarrow> view_state \<Rightarrow> nat \<Rightarrow> string \<Rightarrow> proven_entries \<Rightarrow> (view_state \<times> unit result) option" where
  "commit_directory S st inode path entries =
    (if is_loaded (node_at st inode) then Some (st, Inr ())
     else if (case checked_add (length (fs_nodes st)) (length (pn_entries entries)) of
                None \<Rightarrow> True | Some count \<Rightarrow> max_cached_nodes (ps_limits S) < count)
     then Some (st, Inl (SnapshotError_new ProofBudgetExceeded ''lazy namespace node budget exceeded''))
     else
       case apply_page_entries (rd_auth (ps_reader S)) st inode path entries of
         (st, Inl e) \<Rightarrow> Some (st, Inl e)
       | (st, Inr _) \<Rightarrow>
           (case node_at st inode of
              None \<Rightarrow> None
            | Some (DirN d) \<Rightarrow> Some (put_node inode (DirN (d\<lparr>vd_children := seal (vd_children d), vd_loaded := True\<rparr>)) st, Inr ())
            | Some (FileN _) \<Rightarrow> Some (st, Inr ())))"

text \<open>Wire pages of a complete proof are handed to the page cache; whether they arrive is up to it.\<close>

definition learn_pages ::
  "view_env \<Rightarrow> page_source \<Rightarrow> nat \<Rightarrow> (string \<times> bytes) list \<Rightarrow> view_state \<Rightarrow> (snapshot_error, unit) act" where
  "learn_pages E S t learned st =
    (if ps_cache S \<noteq> None \<and> ve_store E \<and> learned \<noteq> []
     then (case ensure_lease S t of
         Inl e \<Rightarrow> Some (st, Inl e)
       | Inr t \<Rightarrow> Some (if ve_learn E t then st\<lparr>fs_learned := fs_learned st @ learned\<rparr> else st, Inr ((), Suc t)))
     else Some (st, Inr ((), t)))"

definition load_directory :: "view_env \<Rightarrow> nat \<Rightarrow> view_state \<Rightarrow> nat \<Rightarrow> (snapshot_error, unit) act" where
  "load_directory E t st inode =
    (let st = view_lock E t st; t = Suc t in
     case node_at st inode of
       Some (DirN d) \<Rightarrow>
         if vd_loaded d then Some (st, Inr ((), t))
         else (case (ve_reader E, vd_page_id d, vd_membership d) of
             (None, _, _) \<Rightarrow> Some (st, Inl (SnapshotError_new Internal ''lazy mount requires a live reader''))
           | (Some _, None, _) \<Rightarrow> Some (st, Inl (SnapshotError_new Internal ''directory page id missing''))
           | (Some _, Some _, None) \<Rightarrow> Some (st, Inl (closure_integrity ''lazy directory proof missing''))
           | (Some S, Some pid, Some membership) \<Rightarrow>
               (case fetch_directory S t (vd_path d) pid membership of
                  None \<Rightarrow> None
                | Some (Inl e) \<Rightarrow> Some (st, Inl e)
                | Some (Inr (entries, learned, t)) \<Rightarrow>
                    act_bind (learn_pages E S t learned st) (\<lambda>st _ t.
                    act_bind (act_lift st t (ensure_lease S t)) (\<lambda>st t _.
                    let st = view_lock E t st in
                    map_option (\<lambda>(st, r). (st, rbind r (\<lambda>_. Inr ((), Suc t)))) (commit_directory S st inode (vd_path d) entries)))))
     | _ \<Rightarrow> Some (st, Inr ((), t)))"

definition ensure_dir_loaded :: "view_env \<Rightarrow> nat \<Rightarrow> view_state \<Rightarrow> nat \<Rightarrow> (snapshot_error, unit) act" where
  "ensure_dir_loaded E t st inode =
    act_bind (check_metadata_lease E t st) (\<lambda>st _ t. check_lease_after E (load_directory E t st inode))"

section \<open>Typed path queries\<close>

definition view_context :: "view_env \<Rightarrow> view_state \<Rightarrow> lower_context" where
  "view_context E st =
    \<lparr>lc_grammar = ve_grammar E,
     lc_reader = map_option (\<lambda>S. (scope (reader_descriptor (ps_reader S)), rd_client (ps_reader S))) (ve_reader E),
     lc_namespace_scope = fs_namespace_scope st\<rparr>"

fun walk_names :: "view_env \<Rightarrow> nat \<Rightarrow> view_state \<Rightarrow> nat \<Rightarrow> string list \<Rightarrow> (snapshot_error, nat option) act" where
  "walk_names E t st inode [] = Some (st, Inr (Some inode, t))"
| "walk_names E t st inode (name # rest) =
    act_bind (load_directory E t st inode) (\<lambda>st _ t.
    let st = view_lock E t st; t = Suc t in
    case node_at st inode of
      Some (DirN d) \<Rightarrow>
        (case index_get (vd_children d) name of
           Some child \<Rightarrow> walk_names E t st child rest
         | None \<Rightarrow> Some (st, Inr (None, t)))
    | Some (FileN f) \<Rightarrow>
        if is_symlink_file f then Some (st, Inl (SnapshotError_new SymlinkTraversal ''fixed path traverses a symlink''))
        else Some (st, Inl (SnapshotError_new NotDirectory ''fixed ancestor is not a directory''))
    | None \<Rightarrow> Some (st, Inl (SnapshotError_new NotDirectory ''fixed ancestor is not a directory'')))"

definition recorded_path_inode :: "view_env \<Rightarrow> nat \<Rightarrow> view_state \<Rightarrow> string \<Rightarrow> (snapshot_error, nat option) act" where
  "recorded_path_inode E t st rel_path =
    (let st = view_lock E t st; t = Suc t in
     act_bind (act_lift st t (metadata_path (view_context E st) rel_path)) (\<lambda>st relative t.
     if relative = ''/'' then Some (st, Inr (Some ROOT_INODE, t))
     else walk_names E t st ROOT_INODE (split_on CHR ''/'' (trim_start_slashes relative))))"

definition node_identity :: "view_node \<Rightarrow> snapshot_node_identity result" where
  "node_identity node = (case node of
      DirN d \<Rightarrow> rbind (ok_or (vd_page_id d) (SnapshotError_new SnapshotNotReady ''directory identity was not proved''))
                 (\<lambda>root. Inr (DirectoryNode root))
    | FileN f \<Rightarrow>
        let kind = sf_fs_kind (vn_file f); n = sf_size (vn_file f); digest = sf_content_digest (vn_file f) in
        if kind = ''regular'' then Inr (RegularNode n digest)
        else if kind = ''executable'' then Inr (ExecutableNode n digest)
        else if kind = ''symlink'' then Inr (SymlinkNode n digest)
        else Inl (SnapshotError_new UnsupportedEntry ''unsupported fixed node kind''))"

definition recorded_path_state :: "view_env \<Rightarrow> nat \<Rightarrow> view_state \<Rightarrow> string \<Rightarrow> (snapshot_error, snapshot_path_state) act" where
  "recorded_path_state E t st rel_path =
    act_bind (recorded_path_inode E t st rel_path) (\<lambda>st found t.
    case found of
      None \<Rightarrow> Some (st, Inr (AbsentProven, t))
    | Some inode \<Rightarrow>
        let st = view_lock E t st; t = Suc t in
        act_lift st t (rbind (ok_or (node_at st inode) (closure_integrity ''fixed metadata inode missing'')) (\<lambda>node.
          rbind (node_identity node) (\<lambda>identity. Inr (Present identity)))))"

definition path_state :: "view_env \<Rightarrow> view_state \<Rightarrow> string \<Rightarrow> (snapshot_error, snapshot_path_state) act" where
  "path_state E st rel_path =
    act_bind (check_metadata_lease E 0 st) (\<lambda>st _ t. check_lease_after E (recorded_path_state E t st rel_path))"

definition child_identity :: "view_state \<Rightarrow> string \<times> nat \<Rightarrow> (string \<times> snapshot_node_identity) result" where
  "child_identity st item =
    (case item of (name, inode) \<Rightarrow>
       rbind (ok_or (node_at st inode) (closure_integrity ''fixed directory child missing'')) (\<lambda>node.
       rbind (node_identity node) (\<lambda>identity. Inr (name, identity))))"

definition list_directory :: "view_state \<Rightarrow> nat \<Rightarrow> (string \<times> snapshot_node_identity) list result" where
  "list_directory st inode =
    (case node_at st inode of
       Some (DirN d) \<Rightarrow> rbind (index_snapshot (vd_children d)) (try_map (child_identity st))
     | Some (FileN f) \<Rightarrow>
         if is_symlink_file f then Inl (SnapshotError_new SymlinkTraversal ''directory query would follow a symlink'')
         else Inl (SnapshotError_new NotDirectory ''fixed path is not a directory'')
     | None \<Rightarrow> Inl (SnapshotError_new NotDirectory ''fixed path is not a directory''))"

definition recorded_directory_entries ::
  "view_env \<Rightarrow> nat \<Rightarrow> view_state \<Rightarrow> string \<Rightarrow> (snapshot_error, (string \<times> snapshot_node_identity) list) act" where
  "recorded_directory_entries E t st rel_path =
    act_bind (recorded_path_inode E t st rel_path) (\<lambda>st found t.
    act_bind (act_lift st t (ok_or found (SnapshotError_new PathNotFound ''fixed directory is absent''))) (\<lambda>st inode t.
    act_bind (load_directory E t st inode) (\<lambda>st _ t.
    let st = view_lock E t st; t = Suc t in act_lift st t (list_directory st inode))))"

definition directory_entries :: "view_env \<Rightarrow> view_state \<Rightarrow> string \<Rightarrow> (snapshot_error, (string \<times> snapshot_node_identity) list) act" where
  "directory_entries E st rel_path =
    act_bind (check_metadata_lease E 0 st) (\<lambda>st _ t. check_lease_after E (recorded_directory_entries E t st rel_path))"

section \<open>Constructors\<close>

definition root_dir :: "bool \<Rightarrow> string option \<Rightarrow> proven_directory option \<Rightarrow> view_node" where
  "root_dir loaded pid membership =
    DirN \<lparr>vd_path = [], vd_children = index_default, vd_parent = ROOT_INODE, vd_loaded = loaded, vd_page_id = pid,
          vd_membership = membership\<rparr>"

definition lazy_state :: "snapshot_reader \<Rightarrow> view_state" where
  "lazy_state r =
    \<lparr>fs_next_inode = ROOT_INODE,
     fs_nodes = [(ROOT_INODE, root_dir False (Some (metadata_root (reader_descriptor r))) (Some (scope_root r)))],
     fs_lazy = True, fs_namespace_scope = Some (scope (reader_descriptor r)), fs_learned = []\<rparr>"

text \<open>Binding the reader to a durable store and its scope cache happens first; its outcome is an argument.\<close>

definition from_reader_lazy :: "view_env \<Rightarrow> page_source \<Rightarrow> unit result \<Rightarrow> (snapshot_error, unit) act" where
  "from_reader_lazy E S bound =
    (let limits = ps_limits S; st = lazy_state (ps_reader S) in
     if max_directory_pages limits = 0 \<or> max_directory_entries_proof limits = 0 \<or> max_cached_nodes limits = 0
     then Some (st, Inl (SnapshotError_new InvalidRequest ''metadata proof bounds must be nonzero''))
     else act_bind (act_lift st 0 bound) (\<lambda>st _ t. ensure_dir_loaded E t st ROOT_INODE))"

section \<open>The invariant of a view\<close>

definition entry_named :: "entry list \<Rightarrow> string \<Rightarrow> entry option" where
  "entry_named es n = List.find (\<lambda>e. from_utf8 (en_name e) = Some n) es"

definition node_for :: "auth_env \<Rightarrow> nat \<Rightarrow> string \<Rightarrow> entry \<Rightarrow> view_node \<Rightarrow> bool" where
  "node_for A parent_inode path e node = (case node of
      DirN d \<Rightarrow> en_kind e = Directory_Kind \<and> vd_path d = path \<and> vd_parent d = parent_inode
        \<and> vd_page_id d = Some (closure_digest A (en_child_root e))
    | FileN f \<Rightarrow> en_kind e \<noteq> Directory_Kind \<and> vn_file f = entry_file A path e)"

definition children_of :: "auth_env \<Rightarrow> view_state \<Rightarrow> nat \<Rightarrow> string \<Rightarrow> entry list \<Rightarrow> fixed_directory_index \<Rightarrow> bool" where
  "children_of A st i path es children \<longleftrightarrow> (\<forall>n. case entry_named es n of
      None \<Rightarrow> index_get children n = None
    | Some e \<Rightarrow> \<exists>c node. index_get children n = Some c \<and> node_at st c = Some node \<and> node_for A i (join_path path n) e node)"

definition dir_ok :: "auth_env \<Rightarrow> (string \<Rightarrow> page option) \<Rightarrow> view_state \<Rightarrow> nat \<Rightarrow> view_dir \<Rightarrow> bool" where
  "dir_ok A D st i d \<longleftrightarrow> index_invar (vd_children d) \<and> (\<exists>pid. vd_page_id d = Some pid \<and>
    (if vd_loaded d
     then is_ready (vd_children d) \<and> (\<exists>es. radix_denotes A D pid es \<and> children_of A st i (vd_path d) es (vd_children d))
     else vd_children d = index_default \<and> (\<exists>m. vd_membership d = Some m \<and> pd_path m = vd_path d \<and> pd_root m = pid)))"

definition view_ok :: "auth_env \<Rightarrow> (string \<Rightarrow> page option) \<Rightarrow> string \<Rightarrow> view_state \<Rightarrow> bool" where
  "view_ok A D root st \<longleftrightarrow>
    (\<exists>d. node_at st ROOT_INODE = Some (DirN d) \<and> vd_page_id d = Some root \<and> vd_path d = [])
    \<and> (\<forall>i node. node_at st i = Some node \<longrightarrow> i \<le> fs_next_inode st)
    \<and> (\<forall>i d. node_at st i = Some (DirN d) \<longrightarrow> dir_ok A D st i d \<and> (fs_lazy st \<or> vd_loaded d))"

text \<open>How a view may move on: nodes stay, and a loaded directory never changes.\<close>

definition node_same :: "view_node \<Rightarrow> view_node \<Rightarrow> bool" where
  "node_same a b = (case (a, b) of
      (FileN f, FileN g) \<Rightarrow> f = g
    | (DirN d, DirN e) \<Rightarrow> vd_path d = vd_path e \<and> vd_parent d = vd_parent e \<and> vd_page_id d = vd_page_id e
        \<and> (vd_loaded d \<longrightarrow> d = e)
    | _ \<Rightarrow> False)"

definition view_le :: "view_state \<Rightarrow> view_state \<Rightarrow> bool" where
  "view_le st st' \<longleftrightarrow> fs_next_inode st \<le> fs_next_inode st' \<and> fs_namespace_scope st = fs_namespace_scope st'
    \<and> (\<forall>i node. node_at st i = Some node \<longrightarrow> (\<exists>node'. node_at st' i = Some node' \<and> node_same node node'))"

lemma node_same_refl: "node_same a a"
  by (simp add: node_same_def split: view_node.splits)

lemma node_same_trans: "node_same a b \<Longrightarrow> node_same b c \<Longrightarrow> node_same a c"
  by (auto simp: node_same_def split: view_node.splits)

lemma view_le_refl: "view_le st st"
  by (auto simp: view_le_def intro: node_same_refl)

lemma view_le_trans: "view_le a b \<Longrightarrow> view_le b c \<Longrightarrow> view_le a c"
  unfolding view_le_def by (intro conjI allI impI; (elim conjE)?) (auto, meson node_same_trans)

lemma node_for_same: "node_for A p path e a \<Longrightarrow> node_same a b \<Longrightarrow> node_for A p path e b"
  by (auto simp: node_for_def node_same_def split: view_node.splits)

lemma children_of_le:
  assumes "children_of A st i path es children" "view_le st st'"
  shows "children_of A st' i path es children"
  unfolding children_of_def
proof
  fix n
  note at = assms(1)[unfolded children_of_def, rule_format, of n]
  show "case entry_named es n of None \<Rightarrow> index_get children n = None
    | Some e \<Rightarrow> \<exists>c node. index_get children n = Some c \<and> node_at st' c = Some node \<and> node_for A i (join_path path n) e node"
  proof (cases "entry_named es n")
    case (Some e)
    then obtain c node where c: "index_get children n = Some c" "node_at st c = Some node" "node_for A i (join_path path n) e node"
      using at by auto
    then obtain node' where "node_at st' c = Some node'" "node_same node node'" using assms(2) unfolding view_le_def by blast
    then show ?thesis using c node_for_same Some by auto
  qed (use at in simp)
qed

lemma dir_ok_le:
  assumes "dir_ok A D st i d" "view_le st st'"
  shows "dir_ok A D st' i d"
proof -
  obtain pid where pid: "vd_page_id d = Some pid" "index_invar (vd_children d)"
    and rest: "if vd_loaded d then is_ready (vd_children d) \<and> (\<exists>es. radix_denotes A D pid es \<and> children_of A st i (vd_path d) es (vd_children d))
     else vd_children d = index_default \<and> (\<exists>m. vd_membership d = Some m \<and> pd_path m = vd_path d \<and> pd_root m = pid)"
    using assms(1) unfolding dir_ok_def by blast
  show ?thesis
  proof (cases "vd_loaded d")
    case True
    with rest obtain es where "is_ready (vd_children d)" "radix_denotes A D pid es" "children_of A st i (vd_path d) es (vd_children d)" by auto
    with children_of_le[OF this(3) assms(2)] show ?thesis using pid True unfolding dir_ok_def by auto
  next
    case False
    with rest show ?thesis using pid unfolding dir_ok_def by auto
  qed
qed

lemma node_at_put [simp]: "node_at (put_node i node st) j = (if i = j then Some node else node_at st j)"
  by (simp add: node_at_def put_node_def update_conv')

lemma node_at_next [simp]: "node_at (st\<lparr>fs_next_inode := k\<rparr>) = node_at st" "node_at (st\<lparr>fs_learned := l\<rparr>) = node_at st"
  by (auto simp: node_at_def)

lemma put_node_fields [simp]:
  "fs_next_inode (put_node i node st) = fs_next_inode st" "fs_namespace_scope (put_node i node st) = fs_namespace_scope st"
  "fs_lazy (put_node i node st) = fs_lazy st" "fs_learned (put_node i node st) = fs_learned st"
  by (simp_all add: put_node_def)

section \<open>Applying the entries of a directory\<close>

definition fresh_node :: "view_node \<Rightarrow> bool" where
  "fresh_node node = (case node of
      FileN _ \<Rightarrow> True
    | DirN d \<Rightarrow> vd_children d = index_default \<and> \<not> vd_loaded d
        \<and> (\<exists>m. vd_membership d = Some m \<and> pd_path m = vd_path d \<and> vd_page_id d = Some (pd_root m)))"

definition applied ::
  "auth_env \<Rightarrow> nat \<Rightarrow> view_dir \<Rightarrow> view_state \<Rightarrow> view_state \<Rightarrow> entry list \<Rightarrow> bool" where
  "applied A p d st0 st ys \<longleftrightarrow>
    (\<exists>children. node_at st p = Some (DirN (d\<lparr>vd_children := children\<rparr>)) \<and> index_invar children \<and> \<not> is_ready children
      \<and> children_of A st p (vd_path d) ys children)
    \<and> (\<forall>i node. i \<noteq> p \<longrightarrow> node_at st0 i = Some node \<longrightarrow> node_at st i = Some node)
    \<and> (\<forall>i node. i \<noteq> p \<longrightarrow> node_at st i = Some node \<longrightarrow> node_at st0 i = Some node \<or> fresh_node node)
    \<and> (\<forall>i node. node_at st i = Some node \<longrightarrow> i \<le> fs_next_inode st)
    \<and> fs_next_inode st0 \<le> fs_next_inode st \<and> fs_namespace_scope st = fs_namespace_scope st0 \<and> fs_learned st = fs_learned st0 \<and> fs_lazy st = fs_lazy st0"

definition hex_text :: "auth_env \<Rightarrow> bool" where
  "hex_text A \<longleftrightarrow> ae_hex_encode A = hex32"

lemma closure_digest_hex: "hex_text A \<Longrightarrow> closure_digest A b = ''sha256:'' @ hex32 b"
  by (simp add: closure_digest_def hex_text_def)

lemma new_child_node_ok:
  assumes "hex_text A" "index < length (pn_entries entries)" "pn_entries entries ! index = e" "from_utf8 (en_name e) = Some n"
    "pd_path (pn_directory entries) = path"
  shows "\<exists>node. new_child_node A p (join_path path n) entries index e = Inr node \<and> fresh_node node \<and> node_for A p (join_path path n) e node"
  using assms
  by (auto simp: new_child_node_def directory_token_def file_token_def child_path_def ok_or_def fresh_node_def node_for_def closure_digest_hex)

lemma entry_named_snoc:
  "entry_named (ys @ [e]) n = (case entry_named ys n of Some x \<Rightarrow> Some x | None \<Rightarrow> if from_utf8 (en_name e) = Some n then Some e else None)"
  by (induction ys) (auto simp: entry_named_def)

lemma applied_entry:
  assumes ap: "applied A p d st0 st ys" and A: "hex_text A"
    and e: "index < length (pn_entries entries)" "pn_entries entries ! index = e" "from_utf8 (en_name e) = Some n"
    and path: "pd_path (pn_directory entries) = vd_path d"
  shows "\<exists>st'. apply_entry A p (vd_path d) entries st (index, e) = (st', Inr ()) \<and> applied A p d st0 st' (ys @ [e])"
proof -
  obtain children where ch: "node_at st p = Some (DirN (d\<lparr>vd_children := children\<rparr>))" "index_invar children" "\<not> is_ready children"
    "children_of A st p (vd_path d) ys children" using ap unfolding applied_def by blast
  have keep: "\<And>i node. i \<noteq> p \<Longrightarrow> node_at st0 i = Some node \<Longrightarrow> node_at st i = Some node"
    "\<And>i node. i \<noteq> p \<Longrightarrow> node_at st i = Some node \<Longrightarrow> node_at st0 i = Some node \<or> fresh_node node"
    "\<And>i node. node_at st i = Some node \<Longrightarrow> i \<le> fs_next_inode st"
    "fs_next_inode st0 \<le> fs_next_inode st" "fs_namespace_scope st = fs_namespace_scope st0" "fs_learned st = fs_learned st0" "fs_lazy st = fs_lazy st0"
    using ap unfolding applied_def by blast+
  have named: "case entry_named ys m of None \<Rightarrow> index_get children m = None
    | Some e \<Rightarrow> \<exists>c node. index_get children m = Some c \<and> node_at st c = Some node \<and> node_for A p (join_path (vd_path d) m) e node" for m
    using ch(4) unfolding children_of_def by blast
  show ?thesis
  proof (cases "index_get children n")
    case (Some c)
    then have old: "entry_named ys n \<noteq> None" using named[of n] by (cases "entry_named ys n") auto
    have "entry_named (ys @ [e]) m = entry_named ys m" for m
      using old e(3) by (cases "m = n") (auto simp: entry_named_snoc split: option.splits)
    then have "children_of A st p (vd_path d) (ys @ [e]) children" using ch(4) by (simp add: children_of_def)
    then have "applied A p d st0 st (ys @ [e])" using ch keep unfolding applied_def by blast
    moreover have "apply_entry A p (vd_path d) entries st (index, e) = (st, Inr ())"
      using Some ch(1) e(3) by (simp add: apply_entry_def)
    ultimately show ?thesis by blast
  next
    case None
    then have new: "entry_named ys n = None" using named[of n] by (cases "entry_named ys n") auto
    obtain node where node: "new_child_node A p (join_path (vd_path d) n) entries index e = Inr node" "fresh_node node"
      "node_for A p (join_path (vd_path d) n) e node"
      using new_child_node_ok[OF A e path] by blast
    define i where "i = fs_next_inode st + 1"
    have i: "node_at st i = None" "i \<noteq> p" using keep(3)[of i] keep(3)[OF ch(1)] by (cases "node_at st i"; force simp: i_def)+
    obtain children' where ins: "index_insert children n i = Inr (children', None)" "index_invar children'" "\<not> is_ready children'"
      "index_get children' = (index_get children)(n \<mapsto> i)"
      using fixed_index.insert_open[OF ch(2,3), of n i] None by auto
    define st1 where "st1 = put_node i node (st\<lparr>fs_next_inode := i\<rparr>)"
    define st' where "st' = put_node p (DirN (d\<lparr>vd_children := children'\<rparr>)) st1"
    have at1: "node_at st1 p = Some (DirN (d\<lparr>vd_children := children\<rparr>))" using i ch(1) by (simp add: st1_def)
    have "apply_entry A p (vd_path d) entries st (index, e) = add_child_inode p n i st1"
      using e(3) ch(1) None node(1) by (simp add: apply_entry_def i_def st1_def)
    then have run: "apply_entry A p (vd_path d) entries st (index, e) = (st', Inr ())"
      using at1 ins(1) by (simp add: add_child_inode_def st'_def)
    have at': "node_at st' j = (if j = p then Some (DirN (d\<lparr>vd_children := children'\<rparr>)) else if j = i then Some node else node_at st j)" for j
      by (simp add: st'_def st1_def)
    have "children_of A st' p (vd_path d) (ys @ [e]) children'"
      unfolding children_of_def
    proof
      fix m
      show "case entry_named (ys @ [e]) m of None \<Rightarrow> index_get children' m = None
        | Some e \<Rightarrow> \<exists>c node. index_get children' m = Some c \<and> node_at st' c = Some node \<and> node_for A p (join_path (vd_path d) m) e node"
      proof (cases "m = n")
        case True
        then show ?thesis using new e(3) node(3) ins(4) i(2) by (auto simp: entry_named_snoc at')
      next
        case False
        then have en: "entry_named (ys @ [e]) m = entry_named ys m" using e(3) by (auto simp: entry_named_snoc split: option.splits)
        show ?thesis
        proof (cases "entry_named ys m")
          case None
          then show ?thesis using en named[of m] ins(4) False by simp
        next
          case (Some x)
          then obtain c nd where c: "index_get children m = Some c" "node_at st c = Some nd" "node_for A p (join_path (vd_path d) m) x nd"
            using named[of m] by auto
          have "\<exists>nd'. node_at st' c = Some nd' \<and> node_for A p (join_path (vd_path d) m) x nd'"
            using c i(1) ch(1) by (cases "c = p") (auto simp: at' node_for_def)
          then show ?thesis using Some en c(1) ins(4) False by auto
        qed
      qed
    qed
    moreover have "\<forall>j nd. j \<noteq> p \<longrightarrow> node_at st0 j = Some nd \<longrightarrow> node_at st' j = Some nd"
      using keep(1) i(1) by (force simp: at')
    moreover have "\<forall>j nd. j \<noteq> p \<longrightarrow> node_at st' j = Some nd \<longrightarrow> node_at st0 j = Some nd \<or> fresh_node nd"
      using keep(2) node(2) by (simp add: at')
    moreover have "fs_next_inode st' = i" "fs_namespace_scope st' = fs_namespace_scope st0" "fs_learned st' = fs_learned st0" "fs_lazy st' = fs_lazy st0"
      using keep(5-7) by (simp_all add: st'_def st1_def)
    moreover have "\<forall>j nd. node_at st' j = Some nd \<longrightarrow> j \<le> i"
      using keep(3) keep(3)[OF ch(1)] by (force simp: at' i_def)
    moreover have "node_at st' p = Some (DirN (d\<lparr>vd_children := children'\<rparr>))" "fs_next_inode st0 \<le> i" using keep(4) by (simp_all add: at' i_def)
    ultimately have "applied A p d st0 st' (ys @ [e])"
      using ins(2,3) unfolding applied_def by blast
    then show ?thesis using run by blast
  qed
qed

lemma applied_entries:
  assumes A: "hex_text A" and path: "pd_path (pn_directory entries) = vd_path d"
    and utf: "\<And>e. e \<in> set (pn_entries entries) \<Longrightarrow> from_utf8 (en_name e) \<noteq> None"
  shows "applied A p d st0 st ys \<Longrightarrow> pn_entries entries = ys @ zs \<Longrightarrow>
    \<exists>st'. apply_entries A p (vd_path d) entries st (enumerate (length ys) zs) = (st', Inr ()) \<and> applied A p d st0 st' (ys @ zs)"
proof (induction zs arbitrary: st ys)
  case (Cons e zs)
  obtain n where n: "from_utf8 (en_name e) = Some n" using utf[of e] Cons.prems(2) by auto
  have "length ys < length (pn_entries entries)" "pn_entries entries ! length ys = e" using Cons.prems(2) by simp_all
  from applied_entry[OF Cons.prems(1) A this n path] obtain st1 where
    st1: "apply_entry A p (vd_path d) entries st (length ys, e) = (st1, Inr ())" "applied A p d st0 st1 (ys @ [e])" by blast
  from Cons.IH[OF st1(2)] Cons.prems(2) obtain st' where
    "apply_entries A p (vd_path d) entries st1 (enumerate (Suc (length ys)) zs) = (st', Inr ())" "applied A p d st0 st' (ys @ e # zs)"
    by auto
  then show ?case using st1(1) by simp
qed simp

lemma applied_start:
  assumes "view_ok A D root st" "node_at st p = Some (DirN d)" "\<not> vd_loaded d"
  shows "applied A p d st st []"
proof -
  have "dir_ok A D st p d" using assms(1,2) unfolding view_ok_def by blast
  then have ch: "vd_children d = index_default" using assms(3) unfolding dir_ok_def by auto
  then have "node_at st p = Some (DirN (d\<lparr>vd_children := index_default\<rparr>))" using assms(2) by simp
  moreover have "children_of A st p (vd_path d) [] index_default"
    by (simp add: children_of_def entry_named_def fixed_index.get_empty)
  moreover have "\<forall>i node. node_at st i = Some node \<longrightarrow> i \<le> fs_next_inode st" using assms(1) unfolding view_ok_def by blast
  ultimately show ?thesis using fixed_index.empty_invar unfolding applied_def by blast
qed

lemma fresh_dir_ok: "fresh_node (DirN d) \<Longrightarrow> dir_ok A D st i d"
  using fixed_index.empty_invar(1) by (auto simp: fresh_node_def dir_ok_def)

lemma commit_directory_ok:
  assumes ok: "view_ok A D root st" and A: "hex_text A" "rd_auth (ps_reader S) = A"
    and d: "node_at st p = Some (DirN d)" "pd_path m = vd_path d" "vd_page_id d = Some (pd_root m)" and es: "directory_proved S D m entries"
  shows "\<exists>st' r. commit_directory S st p (vd_path d) entries = Some (st', r) \<and> view_ok A D root st' \<and> view_le st st'
    \<and> (r = Inr () \<longrightarrow> is_loaded (node_at st' p))"
proof (cases "vd_loaded d")
  case True
  then show ?thesis using ok d view_le_refl by (auto simp: commit_directory_def is_loaded_def)
next
  case False
  have den: "radix_denotes A D (pd_root m) (pn_entries entries)" and path: "pd_path (pn_directory entries) = vd_path d"
    and utf: "\<And>e. e \<in> set (pn_entries entries) \<Longrightarrow> from_utf8 (en_name e) \<noteq> None"
    using es d(2) A(2) by (auto simp: directory_proved_def)
  show ?thesis
  proof (cases "case checked_add (length (fs_nodes st)) (length (pn_entries entries)) of
                None \<Rightarrow> True | Some count \<Rightarrow> max_cached_nodes (ps_limits S) < count")
    case True
    then show ?thesis using ok False d(1) view_le_refl by (auto simp: commit_directory_def is_loaded_def)
  next
    case room: False
    from applied_entries[OF A(1) path utf applied_start[OF ok d(1) False], of "pn_entries entries"]
    obtain st1 where st1: "apply_page_entries A st p (vd_path d) entries = (st1, Inr ())" "applied A p d st st1 (pn_entries entries)"
      by (auto simp: apply_page_entries_def)
    obtain children where ch: "node_at st1 p = Some (DirN (d\<lparr>vd_children := children\<rparr>))" "index_invar children"
      "children_of A st1 p (vd_path d) (pn_entries entries) children" using st1(2) unfolding applied_def by blast
    have keep: "\<And>i node. i \<noteq> p \<Longrightarrow> node_at st i = Some node \<Longrightarrow> node_at st1 i = Some node"
      "\<And>i node. i \<noteq> p \<Longrightarrow> node_at st1 i = Some node \<Longrightarrow> node_at st i = Some node \<or> fresh_node node"
      "\<And>i node. node_at st1 i = Some node \<Longrightarrow> i \<le> fs_next_inode st1"
      "fs_next_inode st \<le> fs_next_inode st1" "fs_namespace_scope st1 = fs_namespace_scope st" "fs_lazy st1 = fs_lazy st"
      using st1(2) unfolding applied_def by blast+
    define d' where "d' = d\<lparr>vd_children := seal children, vd_loaded := True\<rparr>"
    define st' where "st' = put_node p (DirN d') st1"
    have run: "commit_directory S st p (vd_path d) entries = Some (st', Inr ())"
      using False d(1) room st1(1) ch(1) A(2) by (simp add: commit_directory_def is_loaded_def st'_def d'_def)
    have le: "view_le st st'"
      unfolding view_le_def
    proof (intro conjI allI impI)
      fix i node assume i: "node_at st i = Some node"
      show "\<exists>node'. node_at st' i = Some node' \<and> node_same node node'"
        using i keep(1)[OF _ i] d(1) False node_same_refl by (cases "i = p") (auto simp: st'_def d'_def node_same_def)
    qed (simp_all add: st'_def keep(4,5))
    have le1: "view_le st1 st'"
      unfolding view_le_def using ch(1) False node_same_refl by (auto simp: st'_def d'_def node_same_def)
    have "dir_ok A D st' i e" if i: "node_at st' i = Some (DirN e)" for i e
    proof (cases "i = p")
      case True
      have "children_of A st' p (vd_path d) (pn_entries entries) (seal children)"
        using children_of_le[OF ch(3) le1] unfolding children_of_def fixed_index.close_laws(3)[OF ch(2)] .
      moreover have "e = d'" using i True by (simp add: st'_def)
      ultimately show ?thesis
        using True den d(3) fixed_index.close_laws(1)[OF ch(2)] fixed_index.close_laws(2)[of children]
        by (auto simp: dir_ok_def d'_def)
    next
      case other: False
      then have "node_at st i = Some (DirN e) \<or> fresh_node (DirN e)" using i keep(2)[of i] by (simp add: st'_def)
      then show ?thesis
      proof
        assume "node_at st i = Some (DirN e)"
        then have "dir_ok A D st i e" using ok unfolding view_ok_def by blast
        then show ?thesis by (rule dir_ok_le[OF _ le])
      qed (rule fresh_dir_ok)
    qed
    moreover have "fs_lazy st'" using ok d(1) False keep(6) unfolding view_ok_def by (auto simp: st'_def)
    moreover have "\<exists>e. node_at st' ROOT_INODE = Some (DirN e) \<and> vd_page_id e = Some root \<and> vd_path e = []"
    proof -
      obtain e where e: "node_at st ROOT_INODE = Some (DirN e)" "vd_page_id e = Some root" "vd_path e = []" using ok unfolding view_ok_def by blast
      then obtain node where "node_at st' ROOT_INODE = Some node" "node_same (DirN e) node" using le unfolding view_le_def by blast
      then show ?thesis using e by (auto simp: node_same_def split: view_node.splits)
    qed
    moreover have "\<forall>i node. node_at st' i = Some node \<longrightarrow> i \<le> fs_next_inode st'"
      using keep(3) ch(1) by (auto simp: st'_def)
    ultimately have "view_ok A D root st'" unfolding view_ok_def by blast
    then show ?thesis using run le by (simp add: st'_def d'_def is_loaded_def)
  qed
qed

section \<open>What every action guarantees\<close>

text \<open>
  Rely: whatever runs between two locks keeps the invariant and only moves the view on.  Guarantee: every
  action returns, keeps the invariant and only moves the view on, also when it fails.
\<close>

definition env_ok :: "auth_env \<Rightarrow> (string \<Rightarrow> page option) \<Rightarrow> string \<Rightarrow> view_env \<Rightarrow> bool" where
  "env_ok A D root E \<longleftrightarrow> hex_text A
    \<and> (\<forall>t st. view_ok A D root st \<longrightarrow> view_ok A D root (ve_others E t st) \<and> view_le st (ve_others E t st))
    \<and> (\<forall>S. ve_reader E = Some S \<longrightarrow> rd_auth (ps_reader S) = A \<and> client_ok (rd_client (ps_reader S)) \<and> source_table S D)"

definition guarantees ::
  "auth_env \<Rightarrow> (string \<Rightarrow> page option) \<Rightarrow> string \<Rightarrow> view_state \<Rightarrow> ('e, 'a) act \<Rightarrow> (view_state \<Rightarrow> 'a \<Rightarrow> bool) \<Rightarrow> bool" where
  "guarantees A D root st m P \<longleftrightarrow>
    (\<exists>st' r. m = Some (st', r) \<and> view_ok A D root st' \<and> view_le st st' \<and> (\<forall>a t. r = Inr (a, t) \<longrightarrow> P st' a))"

named_theorems view_rules

lemma guarantees_error [view_rules]: "view_ok A D root st \<Longrightarrow> guarantees A D root st (Some (st, Inl e)) P"
  by (simp add: guarantees_def view_le_refl)

lemma guarantees_return [view_rules]: "view_ok A D root st \<Longrightarrow> P st a \<Longrightarrow> guarantees A D root st (Some (st, Inr (a, t))) P"
  by (simp add: guarantees_def view_le_refl)

lemma guarantees_from: "guarantees A D root st' m P \<Longrightarrow> view_le st st' \<Longrightarrow> guarantees A D root st m P"
  unfolding guarantees_def using view_le_trans by blast

lemma guarantees_mono: "guarantees A D root st m P \<Longrightarrow> (\<And>st' a. P st' a \<Longrightarrow> Q st' a) \<Longrightarrow> guarantees A D root st m Q"
  unfolding guarantees_def by blast

lemma guarantees_bind:
  assumes "guarantees A D root st m P"
    and "\<And>st' a t. view_ok A D root st' \<Longrightarrow> view_le st st' \<Longrightarrow> P st' a \<Longrightarrow> guarantees A D root st' (f st' a t) Q"
  shows "guarantees A D root st (act_bind m f) Q"
proof -
  obtain st' r where m: "m = Some (st', r)" "view_ok A D root st'" "view_le st st'" "\<And>a t. r = Inr (a, t) \<Longrightarrow> P st' a"
    using assms(1) unfolding guarantees_def by blast
  show ?thesis
  proof (cases r)
    case (Inl e)
    then show ?thesis using m by (simp add: act_bind_def guarantees_def)
  next
    case (Inr q)
    obtain a t where q: "q = (a, t)" by (cases q)
    have "guarantees A D root st' (f st' a t) Q" by (rule assms(2)[OF m(2,3) m(4)]) (simp add: Inr q)
    then show ?thesis using guarantees_from[OF _ m(3)] m(1) Inr q by (simp add: act_bind_def)
  qed
qed

lemma guarantees_lift [view_rules]:
  "view_ok A D root st \<Longrightarrow> (\<And>a. r = Inr a \<Longrightarrow> P st a) \<Longrightarrow> guarantees A D root st (act_lift st t r) P"
  by (cases r) (simp_all add: act_lift_def guarantees_def view_le_refl)

lemma guarantees_lease [view_rules]: "view_ok A D root st \<Longrightarrow> P st () \<Longrightarrow> guarantees A D root st (check_metadata_lease E t st) P"
  by (auto simp: check_metadata_lease_def split: option.splits intro: guarantees_lift guarantees_return)

lemma guarantees_after [view_rules]: "guarantees A D root st m P \<Longrightarrow> guarantees A D root st (check_lease_after E m) P"
  by (auto simp: check_lease_after_def guarantees_def split: option.splits sum.splits)

lemma guarantees_map_err [view_rules]: "guarantees A D root st m P \<Longrightarrow> guarantees A D root st (act_map_err g m) P"
proof -
  assume "guarantees A D root st m P"
  then obtain st' r where m: "m = Some (st', r)" "view_ok A D root st'" "view_le st st'" "\<And>a t. r = Inr (a, t) \<Longrightarrow> P st' a"
    unfolding guarantees_def by blast
  then have "act_map_err g m = Some (st', map_err g r)" by (simp add: act_map_err_def)
  then show ?thesis using m(2-4) by (cases r) (auto simp: guarantees_def map_err_def)
qed

lemma view_lock_ok:
  assumes "env_ok A D root E" "view_ok A D root st"
  shows "view_ok A D root (view_lock E t st)" "view_le st (view_lock E t st)"
  using assms unfolding env_ok_def view_lock_def by blast+

lemma guarantees_lock:
  assumes "env_ok A D root E" "view_ok A D root st"
    "view_ok A D root (view_lock E t st) \<Longrightarrow> view_le st (view_lock E t st) \<Longrightarrow> guarantees A D root (view_lock E t st) m P"
  shows "guarantees A D root st m P"
  using view_lock_ok[OF assms(1,2), of t] assms(3) guarantees_from by blast

lemma view_le_node: "view_le st st' \<Longrightarrow> node_at st i = Some node \<Longrightarrow> \<exists>node'. node_at st' i = Some node' \<and> node_same node node'"
  unfolding view_le_def by blast

lemma learned_ok: "view_ok A D root st \<Longrightarrow> view_ok A D root (st\<lparr>fs_learned := l\<rparr>) \<and> view_le st (st\<lparr>fs_learned := l\<rparr>)"
proof -
  have "children_of A (st\<lparr>fs_learned := l\<rparr>) = children_of A st" unfolding children_of_def node_at_next ..
  then have "dir_ok A D (st\<lparr>fs_learned := l\<rparr>) = dir_ok A D st" by (simp add: dir_ok_def fun_eq_iff)
  then show "view_ok A D root st \<Longrightarrow> view_ok A D root (st\<lparr>fs_learned := l\<rparr>) \<and> view_le st (st\<lparr>fs_learned := l\<rparr>)"
    by (simp add: view_ok_def view_le_def node_same_refl)
qed

lemma learn_pages_ok: "view_ok A D root st \<Longrightarrow> guarantees A D root st (learn_pages E S t l st) (\<lambda>_ _. True)"
  using learned_ok[of A D root st] by (auto simp: learn_pages_def guarantees_def view_le_refl split: sum.splits)

definition loaded_if_dir :: "nat \<Rightarrow> view_state \<Rightarrow> bool" where
  "loaded_if_dir i st \<longleftrightarrow> (\<forall>d. node_at st i = Some (DirN d) \<longrightarrow> vd_loaded d)"

lemma load_directory_ok:
  assumes env: "env_ok A D root E" and ok: "view_ok A D root st"
  shows "guarantees A D root st (load_directory E t st i) (\<lambda>st' _. loaded_if_dir i st')"
proof (rule guarantees_lock[OF env ok, of t])
  define st1 where "st1 = view_lock E t st"
  assume ok1: "view_ok A D root (view_lock E t st)"
  note ok1 = ok1[folded st1_def]
  show "guarantees A D root (view_lock E t st) (load_directory E t st i) (\<lambda>st' _. loaded_if_dir i st')"
  proof (cases "\<exists>d. node_at st1 i = Some (DirN d) \<and> \<not> vd_loaded d")
    case False
    then have "load_directory E t st i = Some (st1, Inr ((), Suc t))" "loaded_if_dir i st1"
      by (auto simp: load_directory_def st1_def[symmetric] Let_def loaded_if_dir_def split: option.splits view_node.splits)
    then show ?thesis using ok1 by (auto simp: st1_def[symmetric] intro: view_rules)
  next
    case True
    then obtain d where d: "node_at st1 i = Some (DirN d)" "\<not> vd_loaded d" by blast
    then obtain m pid where m: "vd_membership d = Some m" "pd_path m = vd_path d" "pd_root m = pid" "vd_page_id d = Some pid"
      using ok1 unfolding view_ok_def dir_ok_def by (metis (full_types))
    show ?thesis
    proof (cases "ve_reader E")
      case None
      then have "load_directory E t st i = Some (st1, Inl (SnapshotError_new Internal ''lazy mount requires a live reader''))"
        using d by (simp add: load_directory_def st1_def[symmetric] Let_def)
      then show ?thesis using ok1 by (auto simp: st1_def[symmetric] intro: view_rules)
    next
      case (Some S)
      have S: "rd_auth (ps_reader S) = A" "client_ok (rd_client (ps_reader S))" "source_table S D" "hex_text A"
        using env Some unfolding env_ok_def by blast+
      from fetch_directory_run[OF S(2,3), of "Suc t" "vd_path d" pid m] obtain r where
        r: "fetch_directory S (Suc t) (vd_path d) pid m = Some r"
        "\<And>es learned t'. r = Inr (es, learned, t') \<Longrightarrow> directory_proved S D m es" by blast
      show ?thesis
      proof (cases r)
        case (Inl e)
        then have "load_directory E t st i = Some (st1, Inl e)"
          using d m Some r(1) by (simp add: load_directory_def st1_def[symmetric] Let_def)
        then show ?thesis using ok1 by (auto simp: st1_def[symmetric] intro: view_rules)
      next
        case (Inr q)
        obtain es learned u where q: "q = (es, learned, u)" by (cases q)
        have es: "directory_proved S D m es" by (rule r(2)) (simp add: Inr q)
        define fin where "fin = (\<lambda>st t. map_option (\<lambda>(st, r). (st, rbind r (\<lambda>_. Inr ((), Suc t)))) (commit_directory S (view_lock E t st) i (vd_path d) es))"
        have run: "load_directory E t st i = act_bind (learn_pages E S u learned st1) (\<lambda>st _ t.
            act_bind (act_lift st t (ensure_lease S t)) (\<lambda>st t _. fin st t))"
          using d m Some r(1) Inr q by (simp add: load_directory_def st1_def[symmetric] Let_def fin_def)
        have commit: "guarantees A D root st2 (fin st2 w) (\<lambda>st' _. loaded_if_dir i st')"
          if st2: "view_ok A D root st2" "view_le st1 st2" for st2 w
        proof (rule guarantees_lock[OF env st2(1), of w])
          define st3 where "st3 = view_lock E w st2"
          assume "view_ok A D root (view_lock E w st2)" "view_le st2 (view_lock E w st2)"
          note st3 = this[folded st3_def]
          obtain node where "node_at st3 i = Some node" "node_same (DirN d) node"
            using view_le_node[OF view_le_trans[OF st2(2) st3(2)] d(1)] by blast
          then obtain d3 where d3: "node_at st3 i = Some (DirN d3)" "vd_path d3 = vd_path d" "vd_page_id d3 = Some (pd_root m)"
            using m(3,4) by (auto simp: node_same_def split: view_node.splits)
          from commit_directory_ok[OF st3(1) S(4,1) d3(1) _ d3(3) es] d3(2) m(2) obtain st4 rr where
            "commit_directory S st3 i (vd_path d) es = Some (st4, rr)" "view_ok A D root st4" "view_le st3 st4"
            "rr = Inr () \<longrightarrow> is_loaded (node_at st4 i)" by auto
          then show "guarantees A D root (view_lock E w st2) (fin st2 w) (\<lambda>st' _. loaded_if_dir i st')"
            by (cases rr) (auto simp: fin_def st3_def[symmetric] guarantees_def loaded_if_dir_def is_loaded_def)
        qed
        show ?thesis
          unfolding run st1_def[symmetric]
        proof (rule guarantees_bind[OF learn_pages_ok[OF ok1]])
          fix st2 and a :: unit and w assume "view_ok A D root st2" "view_le st1 st2"
          then show "guarantees A D root st2 (act_bind (act_lift st2 w (ensure_lease S w)) (\<lambda>st t _. fin st t)) (\<lambda>st' _. loaded_if_dir i st')"
            by (intro guarantees_bind[OF guarantees_lift[where P = "\<lambda>_ _. True"]] commit) (auto intro: view_le_trans)
        qed
      qed
    qed
  qed
qed

section \<open>What a path denotes\<close>

definition entry_identity :: "auth_env \<Rightarrow> entry \<Rightarrow> snapshot_node_identity" where
  "entry_identity A e =
    (let digest = closure_digest A (en_content_id e) in
     case en_kind e of
       Regular \<Rightarrow> RegularNode (en_size e) digest
     | Executable \<Rightarrow> ExecutableNode (en_size e) digest
     | Symlink \<Rightarrow> SymlinkNode (en_size e) digest
     | Directory_Kind \<Rightarrow> DirectoryNode (closure_digest A (en_child_root e)))"

text \<open>
  The reference reading of a path from a directory root: \<^term>\<open>Some i\<close> for a node, \<^term>\<open>None\<close> for a name that
  the complete entries of an existing directory do not have.  A path through a file denotes nothing.
\<close>

inductive path_denotes :: "auth_env \<Rightarrow> (string \<Rightarrow> page option) \<Rightarrow> string \<Rightarrow> string list \<Rightarrow> snapshot_node_identity option \<Rightarrow> bool"
  for A D where
  denotes_root: "path_denotes A D r [] (Some (DirectoryNode r))"
| denotes_absent: "radix_denotes A D r es \<Longrightarrow> entry_named es n = None \<Longrightarrow> path_denotes A D r (n # ns) None"
| denotes_file: "radix_denotes A D r es \<Longrightarrow> entry_named es n = Some e \<Longrightarrow> en_kind e \<noteq> Directory_Kind
    \<Longrightarrow> path_denotes A D r [n] (Some (entry_identity A e))"
| denotes_below: "radix_denotes A D r es \<Longrightarrow> entry_named es n = Some e \<Longrightarrow> en_kind e = Directory_Kind
    \<Longrightarrow> path_denotes A D (closure_digest A (en_child_root e)) ns x \<Longrightarrow> path_denotes A D r (n # ns) x"

inductive_cases path_denotes_NilE: "path_denotes A D r [] x"
inductive_cases path_denotes_ConsE: "path_denotes A D r (n # ns) x"

lemma path_denotes_unique: "path_denotes A D r ns x \<Longrightarrow> path_denotes A D r ns y \<Longrightarrow> x = y"
proof (induction arbitrary: y rule: path_denotes.induct)
  case (denotes_root r)
  then show ?case by (auto elim: path_denotes_NilE)
next
  case (denotes_absent r es n ns)
  from denotes_absent(3) show ?case
    by (rule path_denotes_ConsE) (auto dest!: radix_denotes_unique[OF denotes_absent(1)] simp: denotes_absent(2) elim: path_denotes_NilE)
next
  case (denotes_file r es n e)
  from denotes_file(4) show ?case
    by (rule path_denotes_ConsE) (auto dest!: radix_denotes_unique[OF denotes_file(1)] simp: denotes_file(2,3) elim: path_denotes_NilE)
next
  case (denotes_below r es n e ns x)
  from denotes_below(6) show ?case
    by (rule path_denotes_ConsE) (auto dest!: radix_denotes_unique[OF denotes_below(1)] simp: denotes_below(2,3) intro: denotes_below(5))
qed

definition node_denotes ::
  "auth_env \<Rightarrow> (string \<Rightarrow> page option) \<Rightarrow> view_node \<Rightarrow> string list \<Rightarrow> snapshot_node_identity option \<Rightarrow> bool" where
  "node_denotes A D node ns x = (case node of
      DirN d \<Rightarrow> \<exists>r. vd_page_id d = Some r \<and> path_denotes A D r ns x
    | FileN f \<Rightarrow> ns = [] \<and> (\<exists>i. node_identity node = Inr i \<and> x = Some i))"

lemma node_for_identity: "node_for A p path e node \<Longrightarrow> node_identity node = Inr (entry_identity A e)"
  by (cases "en_kind e") (auto simp: node_for_def node_identity_def entry_identity_def entry_file_def kind_text_def Let_def ok_or_def
      split: view_node.splits)

lemma node_for_denotes:
  assumes "radix_denotes A D r es" "entry_named es n = Some e" "node_for A p path e node" "node_denotes A D node ns x"
  shows "path_denotes A D r (n # ns) x"
proof (cases node)
  case (DirN d)
  then show ?thesis using assms denotes_below[OF assms(1,2)] by (auto simp: node_for_def node_denotes_def)
next
  case (FileN f)
  then have "ns = []" "x = Some (entry_identity A e)" "en_kind e \<noteq> Directory_Kind"
    using assms(3,4) node_for_identity[OF assms(3)] by (auto simp: node_for_def node_denotes_def)
  then show ?thesis using denotes_file[OF assms(1,2)] by simp
qed

lemma node_identity_same: "node_same a b \<Longrightarrow> node_identity b = node_identity a"
  by (auto simp: node_same_def node_identity_def split: view_node.splits)

lemma node_denotes_same: "node_same a b \<Longrightarrow> node_denotes A D b = node_denotes A D a"
  by (auto simp: node_same_def node_denotes_def node_identity_def fun_eq_iff split: view_node.splits)

definition found_at ::
  "auth_env \<Rightarrow> (string \<Rightarrow> page option) \<Rightarrow> view_node \<Rightarrow> string list \<Rightarrow> view_state \<Rightarrow> nat option \<Rightarrow> bool" where
  "found_at A D node ns st found = (case found of
      None \<Rightarrow> node_denotes A D node ns None
    | Some j \<Rightarrow> \<exists>x target. node_at st j = Some target \<and> node_identity target = Inr x \<and> node_denotes A D node ns (Some x))"

lemma loaded_children:
  assumes ok: "view_ok A D root st" and d: "node_at st i = Some (DirN d)" "vd_loaded d"
  obtains r es where "vd_page_id d = Some r" "radix_denotes A D r es" "children_of A st i (vd_path d) es (vd_children d)"
    "is_ready (vd_children d)" "index_invar (vd_children d)"
proof -
  have "dir_ok A D st i d" using ok d(1) unfolding view_ok_def by blast
  then show thesis using that d(2) unfolding dir_ok_def by auto
qed

lemma walk_names_ok:
  assumes env: "env_ok A D root E"
  shows "view_ok A D root st \<Longrightarrow> node_at st i = Some node \<Longrightarrow> node_identity node = Inr x
    \<Longrightarrow> guarantees A D root st (walk_names E t st i ns) (found_at A D node ns)"
proof (induction ns arbitrary: st i node x t)
  case Nil
  have "node_denotes A D node [] (Some x)"
    using Nil.prems(3) denotes_root[of A D] by (auto simp: node_denotes_def node_identity_def rbind_eq_Inr ok_or_def split: view_node.splits option.splits)
  then show ?case using Nil.prems by (auto simp: found_at_def intro: view_rules)
next
  case (Cons n ns)
  show ?case
    unfolding walk_names.simps
  proof (rule guarantees_bind[OF load_directory_ok[OF env Cons.prems(1)]])
    fix st1 and a :: unit and t1
    assume st1: "view_ok A D root st1" "view_le st st1" and load: "loaded_if_dir i st1"
    define st2 where "st2 = view_lock E t1 st1"
    have st2: "view_ok A D root st2" "view_le st1 st2" using view_lock_ok[OF env st1(1)] by (simp_all add: st2_def)
    obtain node1 where node1: "node_at st1 i = Some node1" "node_same node node1" using view_le_node[OF st1(2) Cons.prems(2)] by blast
    obtain node2 where node2: "node_at st2 i = Some node2" "node_same node1 node2" using view_le_node[OF st2(2) node1(1)] by blast
    have same: "node_denotes A D node2 = node_denotes A D node" using node_denotes_same node_same_trans[OF node1(2) node2(2)] by blast
    show "guarantees A D root st1 (let st = view_lock E t1 st1; t = Suc t1 in case node_at st i of
        Some (DirN d) \<Rightarrow> (case index_get (vd_children d) n of Some child \<Rightarrow> walk_names E t st child ns | None \<Rightarrow> Some (st, Inr (None, t)))
      | Some (FileN f) \<Rightarrow> if is_symlink_file f then Some (st, Inl (SnapshotError_new SymlinkTraversal ''fixed path traverses a symlink''))
          else Some (st, Inl (SnapshotError_new NotDirectory ''fixed ancestor is not a directory''))
      | None \<Rightarrow> Some (st, Inl (SnapshotError_new NotDirectory ''fixed ancestor is not a directory''))) (found_at A D node (n # ns))"
      unfolding Let_def st2_def[symmetric]
    proof (rule guarantees_from[OF _ st2(2)], cases node2)
      case (FileN f)
      then show "guarantees A D root st2 (case node_at st2 i of
        Some (DirN d) \<Rightarrow> (case index_get (vd_children d) n of Some child \<Rightarrow> walk_names E (Suc t1) st2 child ns | None \<Rightarrow> Some (st2, Inr (None, Suc t1)))
      | Some (FileN f) \<Rightarrow> if is_symlink_file f then Some (st2, Inl (SnapshotError_new SymlinkTraversal ''fixed path traverses a symlink''))
          else Some (st2, Inl (SnapshotError_new NotDirectory ''fixed ancestor is not a directory''))
      | None \<Rightarrow> Some (st2, Inl (SnapshotError_new NotDirectory ''fixed ancestor is not a directory''))) (found_at A D node (n # ns))"
        using st2(1) node2(1) by (auto intro: view_rules)
    next
      case (DirN d)
      have ld: "vd_loaded d" using load node1(1) node2(2) DirN by (auto simp: loaded_if_dir_def node_same_def split: view_node.splits)
      have at2: "node_at st2 i = Some (DirN d)" using node2(1) DirN by simp
      obtain r es where r: "vd_page_id d = Some r" "radix_denotes A D r es" "children_of A st2 i (vd_path d) es (vd_children d)"
        by (rule loaded_children[OF st2(1) at2 ld])
      have below: "node_denotes A D node (n # ns) y" if "path_denotes A D r (n # ns) y" for y
        using that r(1) DirN by (simp add: node_denotes_def flip: same)
      note named = r(3)[unfolded children_of_def, rule_format, of n]
      show "guarantees A D root st2 (case node_at st2 i of
        Some (DirN d) \<Rightarrow> (case index_get (vd_children d) n of Some child \<Rightarrow> walk_names E (Suc t1) st2 child ns | None \<Rightarrow> Some (st2, Inr (None, Suc t1)))
      | Some (FileN f) \<Rightarrow> if is_symlink_file f then Some (st2, Inl (SnapshotError_new SymlinkTraversal ''fixed path traverses a symlink''))
          else Some (st2, Inl (SnapshotError_new NotDirectory ''fixed ancestor is not a directory''))
      | None \<Rightarrow> Some (st2, Inl (SnapshotError_new NotDirectory ''fixed ancestor is not a directory''))) (found_at A D node (n # ns))"
      proof (cases "entry_named es n")
        case None
        then have "index_get (vd_children d) n = None" using named by simp
        moreover have "node_denotes A D node (n # ns) None" by (rule below[OF denotes_absent[OF r(2) None]])
        ultimately show ?thesis using st2(1) node2(1) DirN by (auto simp: found_at_def intro: view_rules)
      next
        case (Some e)
        then obtain c child where c: "index_get (vd_children d) n = Some c" "node_at st2 c = Some child" "node_for A i (join_path (vd_path d) n) e child"
          using named by auto
        have "guarantees A D root st2 (walk_names E (Suc t1) st2 c ns) (found_at A D child ns)"
          by (rule Cons.IH[OF st2(1) c(2) node_for_identity[OF c(3)]])
        then have "guarantees A D root st2 (walk_names E (Suc t1) st2 c ns) (found_at A D node (n # ns))"
          by (rule guarantees_mono) (auto simp: found_at_def split: option.splits intro: below node_for_denotes[OF r(2) Some c(3)])
        then show ?thesis using node2(1) DirN c(1) by simp
      qed
    qed
  qed
qed

definition names_of :: "string \<Rightarrow> string list" where
  "names_of rel_path =
    (let relative = (if rel_path = [] then ''/'' else if take 1 rel_path = ''/'' then rel_path else ''/'' @ rel_path) in
     if relative = ''/'' then [] else split_on CHR ''/'' (trim_start_slashes relative))"

lemma metadata_path_names:
  assumes "metadata_path ctx rel_path = Inr relative"
  shows "names_of rel_path = (if relative = ''/'' then [] else split_on CHR ''/'' (trim_start_slashes relative))"
proof -
  have "relative = (if rel_path = [] then ''/'' else if take 1 rel_path = ''/'' then rel_path else ''/'' @ rel_path)"
    using assms by (auto simp: metadata_path_def rbind_eq_Inr Let_def)
  then show ?thesis by (simp add: names_of_def)
qed

lemma view_root:
  assumes "view_ok A D root st"
  obtains d where "node_at st ROOT_INODE = Some (DirN d)" "vd_page_id d = Some root" "node_identity (DirN d) = Inr (DirectoryNode root)"
  using assms by (auto simp: view_ok_def node_identity_def ok_or_def)

definition found_path ::
  "auth_env \<Rightarrow> (string \<Rightarrow> page option) \<Rightarrow> string \<Rightarrow> string list \<Rightarrow> view_state \<Rightarrow> nat option \<Rightarrow> bool" where
  "found_path A D root ns st found = (case found of
      None \<Rightarrow> path_denotes A D root ns None
    | Some j \<Rightarrow> \<exists>x target. node_at st j = Some target \<and> node_identity target = Inr x \<and> path_denotes A D root ns (Some x))"

lemma recorded_path_inode_ok:
  assumes env: "env_ok A D root E" and ok: "view_ok A D root st"
  shows "guarantees A D root st (recorded_path_inode E t st p) (found_path A D root (names_of p))"
proof (rule guarantees_lock[OF env ok, of t])
  define st1 where "st1 = view_lock E t st"
  assume "view_ok A D root (view_lock E t st)"
  note ok1 = this[folded st1_def]
  show "guarantees A D root (view_lock E t st) (recorded_path_inode E t st p) (found_path A D root (names_of p))"
    unfolding recorded_path_inode_def Let_def st1_def[symmetric]
  proof (rule guarantees_bind[OF guarantees_lift[OF ok1, where P = "\<lambda>_ rel. metadata_path (view_context E st1) p = Inr rel"]])
    fix st2 rel t2
    assume st2: "view_ok A D root st2" and rel: "metadata_path (view_context E st1) p = Inr rel"
    obtain d where d: "node_at st2 ROOT_INODE = Some (DirN d)" "vd_page_id d = Some root" "node_identity (DirN d) = Inr (DirectoryNode root)"
      by (rule view_root[OF st2])
    have eq: "found_at A D (DirN d) ns = found_path A D root ns" for ns
      using d(2) by (auto simp: found_at_def found_path_def node_denotes_def fun_eq_iff split: option.splits)
    have "found_path A D root [] st2 (Some ROOT_INODE)" using d denotes_root by (auto simp: found_path_def)
    moreover have "guarantees A D root st2 (walk_names E t2 st2 ROOT_INODE ns) (found_path A D root ns)" for ns
      using walk_names_ok[OF env st2 d(1,3)] by (simp add: eq)
    ultimately show "guarantees A D root st2 (if rel = ''/'' then Some (st2, Inr (Some ROOT_INODE, t2))
        else walk_names E t2 st2 ROOT_INODE (split_on CHR ''/'' (trim_start_slashes rel))) (found_path A D root (names_of p))"
      using metadata_path_names[OF rel] st2 by (auto intro: view_rules)
  qed simp
qed

definition state_of :: "snapshot_path_state \<Rightarrow> snapshot_node_identity option" where
  "state_of s = (case s of Present i \<Rightarrow> Some i | AbsentProven \<Rightarrow> None)"

lemma recorded_path_state_ok:
  assumes env: "env_ok A D root E" and ok: "view_ok A D root st"
  shows "guarantees A D root st (recorded_path_state E t st p) (\<lambda>_ s. path_denotes A D root (names_of p) (state_of s))"
  unfolding recorded_path_state_def
proof (rule guarantees_bind[OF recorded_path_inode_ok[OF env ok]])
  fix st1 found t1
  assume st1: "view_ok A D root st1" and f: "found_path A D root (names_of p) st1 found"
  show "guarantees A D root st1 (case found of None \<Rightarrow> Some (st1, Inr (AbsentProven, t1))
    | Some inode \<Rightarrow> let st = view_lock E t1 st1; t = Suc t1 in
        act_lift st t (rbind (ok_or (node_at st inode) (closure_integrity ''fixed metadata inode missing'')) (\<lambda>node.
          rbind (node_identity node) (\<lambda>identity. Inr (Present identity))))) (\<lambda>_ s. path_denotes A D root (names_of p) (state_of s))"
  proof (cases found)
    case None
    then show ?thesis using st1 f by (auto simp: found_path_def state_of_def intro: view_rules)
  next
    case (Some j)
    then obtain x target where j: "node_at st1 j = Some target" "node_identity target = Inr x" "path_denotes A D root (names_of p) (Some x)"
      using f by (auto simp: found_path_def)
    define st2 where "st2 = view_lock E t1 st1"
    have st2: "view_ok A D root st2" "view_le st1 st2" using view_lock_ok[OF env st1] by (simp_all add: st2_def)
    obtain target' where t': "node_at st2 j = Some target'" "node_identity target' = Inr x"
      using view_le_node[OF st2(2) j(1)] node_identity_same j(2) by metis
    show ?thesis
      unfolding Some option.case Let_def st2_def[symmetric]
      by (rule guarantees_from[OF guarantees_lift[OF st2(1)] st2(2)]) (use t' j(3) in \<open>auto simp: ok_or_def state_of_def\<close>)
  qed
qed

text \<open>A complete listing, by name.\<close>

definition listing_denotes ::
  "auth_env \<Rightarrow> (string \<Rightarrow> page option) \<Rightarrow> string \<Rightarrow> string list \<Rightarrow> (string \<times> snapshot_node_identity) list \<Rightarrow> bool" where
  "listing_denotes A D root ns xs \<longleftrightarrow> (\<exists>r es. path_denotes A D root ns (Some (DirectoryNode r)) \<and> radix_denotes A D r es
    \<and> sorted_wrt (<) (map fst xs) \<and> (\<forall>n i. (n, i) \<in> set xs \<longleftrightarrow> (\<exists>e. entry_named es n = Some e \<and> i = entry_identity A e)))"

lemma try_map_Inr_set:
  "try_map f xs = Inr ys \<Longrightarrow> y \<in> set ys \<longleftrightarrow> (\<exists>x\<in>set xs. f x = Inr y)"
  by (induction xs arbitrary: ys) (force split: sum.splits)+

lemma try_map_fst:
  "try_map f xs = Inr ys \<Longrightarrow> (\<And>x y. x \<in> set xs \<Longrightarrow> f x = Inr y \<Longrightarrow> fst y = fst x) \<Longrightarrow> map fst ys = map fst xs"
  by (induction xs arbitrary: ys) (force split: sum.splits)+

lemma list_directory_ok:
  assumes ok: "view_ok A D root st" and d: "node_at st i = Some (DirN d)" "vd_loaded d" "vd_page_id d = Some r"
    and p: "path_denotes A D root ns (Some (DirectoryNode r))" and run: "list_directory st i = Inr xs"
  shows "listing_denotes A D root ns xs"
proof -
  obtain r' es where es: "vd_page_id d = Some r'" "radix_denotes A D r' es" "children_of A st i (vd_path d) es (vd_children d)"
    "is_ready (vd_children d)" "index_invar (vd_children d)" by (rule loaded_children[OF ok d(1,2)])
  have r': "r' = r" using es(1) d(3) by simp
  obtain cs where cs: "index_snapshot (vd_children d) = Inr cs" "sorted_wrt (<) (map fst cs)" "map_of cs = index_get (vd_children d)"
    using fixed_index.entries_sealed[OF es(5,4)] by blast
  have run': "try_map (child_identity st) cs = Inr xs" using run d(1) cs(1) by (simp add: list_directory_def)
  have "distinct (map fst cs)" using cs(2) strict_sorted_iff by blast
  then have mem: "(n, c) \<in> set cs \<longleftrightarrow> index_get (vd_children d) n = Some c" for n c using cs(3) by (metis map_of_eq_Some_iff)
  have "(n, y) \<in> set xs \<longleftrightarrow> (\<exists>e. entry_named es n = Some e \<and> y = entry_identity A e)" for n y
  proof -
    have "(n, y) \<in> set xs \<longleftrightarrow> (\<exists>c. index_get (vd_children d) n = Some c \<and> child_identity st (n, c) = Inr (n, y))"
    proof -
      have "fst y' = fst x" if "child_identity st x = Inr y'" for x y'
        using that by (auto simp: child_identity_def rbind_eq_Inr split: prod.splits)
      then have "(\<exists>x\<in>set cs. child_identity st x = Inr (n, y)) \<longleftrightarrow> (\<exists>c. (n, c) \<in> set cs \<and> child_identity st (n, c) = Inr (n, y))"
        by (metis fst_conv prod.collapse)
      then show ?thesis unfolding try_map_Inr_set[OF run'] mem .
    qed
    also have "\<dots> \<longleftrightarrow> (\<exists>e. entry_named es n = Some e \<and> y = entry_identity A e)"
    proof (cases "entry_named es n")
      case None
      then show ?thesis using es(3)[unfolded children_of_def, rule_format, of n] by simp
    next
      case (Some e)
      then obtain c node where "index_get (vd_children d) n = Some c" "node_at st c = Some node" "node_for A i (join_path (vd_path d) n) e node"
        using es(3)[unfolded children_of_def, rule_format, of n] by auto
      then show ?thesis using Some node_for_identity by (auto simp: child_identity_def ok_or_def)
    qed
    finally show ?thesis .
  qed
  moreover have "map fst xs = map fst cs"
    by (rule try_map_fst[OF run']) (auto simp: child_identity_def rbind_eq_Inr)
  ultimately show ?thesis
    using p es(2) r' cs(2) unfolding listing_denotes_def by (intro exI[of _ r] exI[of _ es] conjI allI) (simp_all only:)
qed

lemma recorded_directory_entries_ok:
  assumes env: "env_ok A D root E" and ok: "view_ok A D root st"
  shows "guarantees A D root st (recorded_directory_entries E t st p) (\<lambda>_. listing_denotes A D root (names_of p))"
  unfolding recorded_directory_entries_def
proof (rule guarantees_bind[OF recorded_path_inode_ok[OF env ok]])
  fix st1 found t1
  assume st1: "view_ok A D root st1" and f: "found_path A D root (names_of p) st1 found"
  let ?post = "\<lambda>_. listing_denotes A D root (names_of p)"
  define rest where "rest = (\<lambda>st inode t. act_bind (load_directory E t st inode) (\<lambda>st _ t.
      let st = view_lock E t st; t = Suc t in act_lift st t (list_directory st inode)))"
  have "guarantees A D root st1 (act_bind (act_lift st1 t1 (ok_or found (SnapshotError_new PathNotFound ''fixed directory is absent''))) rest) ?post"
  proof (rule guarantees_bind[OF guarantees_lift[OF st1, where P = "\<lambda>st j. st = st1 \<and> found = Some j"]])
    fix st2 j t2 assume "st2 = st1 \<and> found = Some j"
    then have st2: "st2 = st1" and j: "found = Some j" by simp_all
    obtain x target where tg: "node_at st1 j = Some target" "node_identity target = Inr x" "path_denotes A D root (names_of p) (Some x)"
      using f j by (auto simp: found_path_def)
    have "guarantees A D root st1 (act_bind (load_directory E t2 st1 j) (\<lambda>st _ t.
        let st = view_lock E t st; t = Suc t in act_lift st t (list_directory st j))) ?post"
    proof (rule guarantees_bind[OF load_directory_ok[OF env st1]])
      fix st3 and a :: unit and t3
      assume st3: "view_ok A D root st3" "view_le st1 st3" and load: "loaded_if_dir j st3"
      define st4 where "st4 = view_lock E t3 st3"
      have st4: "view_ok A D root st4" "view_le st3 st4" using view_lock_ok[OF env st3(1)] by (simp_all add: st4_def)
      obtain n3 where n3: "node_at st3 j = Some n3" "node_same target n3" using view_le_node[OF st3(2) tg(1)] by blast
      obtain n4 where n4: "node_at st4 j = Some n4" "node_same n3 n4" using view_le_node[OF st4(2) n3(1)] by blast
      have "listing_denotes A D root (names_of p) xs" if xs: "list_directory st4 j = Inr xs" for xs
      proof -
        obtain d where d: "n4 = DirN d" using xs n4(1) by (cases n4) (auto simp: list_directory_def split: if_splits)
        then have ld: "vd_loaded d" using load n3(1) n4(2) by (auto simp: loaded_if_dir_def node_same_def split: view_node.splits)
        have "node_identity n4 = Inr x" using node_identity_same node_same_trans[OF n3(2) n4(2)] tg(2) by metis
        then obtain r where "vd_page_id d = Some r" "x = DirectoryNode r" using d by (auto simp: node_identity_def rbind_eq_Inr ok_or_def split: option.splits)
        then show ?thesis using list_directory_ok[OF st4(1) _ ld _ _ xs] n4(1) d tg(3) by blast
      qed
      then have "guarantees A D root st4 (act_lift st4 (Suc t3) (list_directory st4 j)) ?post" by (rule guarantees_lift[OF st4(1)])
      then show "guarantees A D root st3 (let st = view_lock E t3 st3; t = Suc t3 in act_lift st t (list_directory st j)) ?post"
        unfolding Let_def st4_def[symmetric] by (rule guarantees_from[OF _ st4(2)])
    qed
    then show "guarantees A D root st2 (rest st2 j t2) ?post" by (simp add: st2 rest_def)
  qed (simp add: ok_or_def split: option.splits)
  then show "guarantees A D root st1 (act_bind (act_lift st1 t1 (ok_or found (SnapshotError_new PathNotFound ''fixed directory is absent'')))
      (\<lambda>st inode t. act_bind (load_directory E t st inode) (\<lambda>st _ t. let st = view_lock E t st; t = Suc t in act_lift st t (list_directory st inode)))) ?post"
    by (simp add: rest_def)
qed

section \<open>Reachable views\<close>

inductive view_reaches :: "auth_env \<Rightarrow> (string \<Rightarrow> page option) \<Rightarrow> snapshot_reader \<Rightarrow> view_state \<Rightarrow> bool" for A D r where
  reaches_new: "view_reaches A D r (lazy_state r)"
| reaches_load: "view_reaches A D r st \<Longrightarrow> env_ok A D (metadata_root (reader_descriptor r)) E \<Longrightarrow>
    ensure_dir_loaded E t st i = Some (st', x) \<Longrightarrow> view_reaches A D r st'"
| reaches_query: "view_reaches A D r st \<Longrightarrow> env_ok A D (metadata_root (reader_descriptor r)) E \<Longrightarrow>
    path_state E st p = Some (st', y) \<Longrightarrow> view_reaches A D r st'"
| reaches_list: "view_reaches A D r st \<Longrightarrow> env_ok A D (metadata_root (reader_descriptor r)) E \<Longrightarrow>
    directory_entries E st p = Some (st', z) \<Longrightarrow> view_reaches A D r st'"

lemma lazy_state_ok: "view_ok A D (metadata_root (reader_descriptor r)) (lazy_state r)"
  using fixed_index.empty_invar(1)
  by (auto simp: view_ok_def lazy_state_def node_at_def root_dir_def dir_ok_def scope_root_def)

lemma ensure_dir_loaded_ok:
  assumes "env_ok A D root E" "view_ok A D root st"
  shows "guarantees A D root st (ensure_dir_loaded E t st i) (\<lambda>st' _. loaded_if_dir i st')"
  unfolding ensure_dir_loaded_def
  by (rule guarantees_bind[OF guarantees_lease[OF assms(2), where P = "\<lambda>_ _. True"]])
    (auto intro!: guarantees_after load_directory_ok[OF assms(1)])

lemma path_state_ok:
  assumes "env_ok A D root E" "view_ok A D root st"
  shows "guarantees A D root st (path_state E st p) (\<lambda>_ s. path_denotes A D root (names_of p) (state_of s))"
  unfolding path_state_def
  by (rule guarantees_bind[OF guarantees_lease[OF assms(2), where P = "\<lambda>_ _. True"]])
    (auto intro!: guarantees_after recorded_path_state_ok[OF assms(1)])

lemma directory_entries_ok:
  assumes "env_ok A D root E" "view_ok A D root st"
  shows "guarantees A D root st (directory_entries E st p) (\<lambda>_. listing_denotes A D root (names_of p))"
  unfolding directory_entries_def
  by (rule guarantees_bind[OF guarantees_lease[OF assms(2), where P = "\<lambda>_ _. True"]])
    (auto intro!: guarantees_after recorded_directory_entries_ok[OF assms(1)])

lemma guarantees_state: "guarantees A D root st m P \<Longrightarrow> m = Some (st', r) \<Longrightarrow> view_ok A D root st'"
  by (auto simp: guarantees_def)

lemma view_reaches_ok: "view_reaches A D r st \<Longrightarrow> view_ok A D (metadata_root (reader_descriptor r)) st"
proof (induction rule: view_reaches.induct)
  case reaches_new
  then show ?case by (rule lazy_state_ok)
next
  case (reaches_load st E t i st' x)
  from guarantees_state[OF ensure_dir_loaded_ok[OF reaches_load.hyps(2) reaches_load.IH] reaches_load.hyps(3)] show ?case .
next
  case (reaches_query st E p st' y)
  from guarantees_state[OF path_state_ok[OF reaches_query.hyps(2) reaches_query.IH] reaches_query.hyps(3)] show ?case .
next
  case (reaches_list st E p st' z)
  from guarantees_state[OF directory_entries_ok[OF reaches_list.hyps(2) reaches_list.IH] reaches_list.hyps(3)] show ?case .
qed

text \<open>
  C3: queries of a lazily loaded view are exact.  In every view reached from a new one by loads and queries,
  against any page cache and any server, with anything else running in between, a path query and a
  directory query return; a path reported present has the identity the snapshot's root commits to, a path
  reported absent is absent from the complete entries of its directory, and a listing is exactly the
  entries of the directory.
\<close>
theorem fixed_view_exact:
  assumes "view_reaches A D r st" "env_ok A D (metadata_root (reader_descriptor r)) E"
  shows "(\<exists>st' x. path_state E st p = Some (st', x) \<and> view_reaches A D r st' \<and> view_le st st'
      \<and> (\<forall>s t. x = Inr (s, t) \<longrightarrow> path_denotes A D (metadata_root (reader_descriptor r)) (names_of p) (state_of s)))
    \<and> (\<exists>st' x. directory_entries E st p = Some (st', x) \<and> view_reaches A D r st' \<and> view_le st st'
      \<and> (\<forall>xs t. x = Inr (xs, t) \<longrightarrow> listing_denotes A D (metadata_root (reader_descriptor r)) (names_of p) xs))"
proof -
  note ok = view_reaches_ok[OF assms(1)]
  show ?thesis
    using path_state_ok[OF assms(2) ok, of p] directory_entries_ok[OF assms(2) ok, of p]
      reaches_query[OF assms] reaches_list[OF assms] unfolding guarantees_def by blast
qed

section \<open>An example\<close>

definition demo_reader :: snapshot_reader where
  "demo_reader = \<lparr>rd_auth = demo_auth,
     rd_context = \<lparr>ctx_descriptor = demo_descriptor\<lparr>metadata_root := demo_key 0x22\<rparr>, ctx_authorization_epoch = 1,
       ctx_publication_sequence = 7, ctx_domain = ''domain''\<rparr>,
     rd_client = demo_client, rd_advertisement = LegacyAdvertisement (reader_capabilities sample_advertisement)\<rparr>"

text \<open>A server with one page, the root directory with the file \<^verbatim>\<open>b\<close>.\<close>

definition demo_source :: page_source where
  "demo_source = \<lparr>ps_reader = demo_reader, ps_codec = demo_metapage, ps_lease = (\<lambda>_. Inr ()), ps_cache = None,
     ps_wire = (\<lambda>_ _. Inr [(replicate 32 0x22, [0x22])]), ps_limits = MetadataProofLimits_default\<rparr>"

definition demo_view :: view_env where
  "demo_view = \<lparr>ve_reader = Some demo_source, ve_store = False, ve_lease_before = (\<lambda>_. Inr ()), ve_lease_after = (\<lambda>_. Inr ()),
     ve_learn = (\<lambda>_. False), ve_others = (\<lambda>_ st. st), ve_owner = \<lparr>mo_uid = 0, mo_gid = 0\<rparr>, ve_grammar = ae_grammar demo_auth\<rparr>"

definition demo_table :: "string \<Rightarrow> page option" where
  "demo_table = [demo_key 0x22 \<mapsto> Leaf [demo_file_entry 0x62]]"

lemma demo_reader_fields:
  "rd_auth demo_reader = demo_auth" "metadata_root (reader_descriptor demo_reader) = demo_key 0x22"
  "scope (reader_descriptor demo_reader) = ''/p''" "rd_client demo_reader = demo_client"
  "ps_reader demo_source = demo_reader" "ps_codec demo_source = demo_metapage" "ps_lease demo_source t = Inr ()"
  "ps_cache demo_source = None" "ps_wire demo_source t items = Inr [(replicate 32 0x22, [0x22])]" "ps_limits demo_source = MetadataProofLimits_default"
  by (simp_all add: demo_reader_def demo_source_def reader_descriptor_def demo_descriptor_def)

lemma demo_page:
  "page_id demo_metapage [0x22] = replicate 32 0x22" "decode_page demo_metapage [0x22] = Inr (Leaf [demo_file_entry 0x62])"
  "''sha256:'' @ hex32 (replicate 32 x) = demo_key x"
  by (simp_all add: demo_metapage_def decode_page_def demo_key_def digest_text_def)

lemma demo_env_ok: "env_ok demo_auth demo_table (demo_key 0x22) demo_view"
proof -
  have "source_table demo_source demo_table"
    unfolding source_table_def delivers_def demo_reader_fields
    by (auto simp: demo_page demo_table_def demo_key_def)
  moreover have "hex_text demo_auth" by (simp add: hex_text_def demo_auth_def)
  ultimately show ?thesis
    by (simp add: env_ok_def demo_view_def demo_reader_fields view_le_refl client_ok_def demo_client_def)
qed

lemma demo_page_walk: "walk_pages demo_source ''/'' (walk_start (demo_key 0x22) t) = Some (Inr
   \<lparr>pw_proof_pages = [(demo_key 0x22, [0x22])], pw_wire_page_ids = {demo_key 0x22}, pw_routes = [],
    pw_route_ids = [([], demo_key 0x22)], pw_seen = {demo_key 0x22}, pw_calls = t + 2\<rparr>)"
proof -
  have limit: "metadata_item_limit demo_client = 64" by (simp add: metadata_item_limit_def limit_or_def demo_client_def)
  have allowed: "allowed_pages [([], demo_key 0x22)] [([], demo_key 0x22)] = {demo_key 0x22}"
    by (simp add: allowed_pages_def map_filter_def)
  have admit: "admit_page demo_metapage {demo_key 0x22} [] (replicate 32 0x22, [0x22]) = Inr [(demo_key 0x22, [0x22])]"
    unfolding admit_page_def by (simp only: prod.case Let_def demo_page) simp
  have "walk_round demo_source ''/'' (walk_start (demo_key 0x22) t) = Inr
   \<lparr>pw_proof_pages = [(demo_key 0x22, [0x22])], pw_wire_page_ids = {demo_key 0x22}, pw_routes = [],
    pw_route_ids = [([], demo_key 0x22)], pw_seen = {demo_key 0x22}, pw_calls = t + 2\<rparr>"
    by (simp add: walk_round_def walk_start_def demo_reader_fields limit ensure_lease_def read_cached_def fetch_missing_def
        allowed admit follow_page_def demo_page ok_or_def List.map_filter_simps del: replicate.simps)
  then show ?thesis by (subst walk_pages.simps) (simp add: walk_start_def walk_pages.simps)
qed

lemma demo_verify:
  "verify_directory_pages demo_auth demo_metapage (demo_key 0x22) [(demo_key 0x22, [0x22])] 262144 = Inr [demo_file_entry 0x62]"
proof -
  let ?P = "proof_env_of demo_auth demo_metapage [(demo_key 0x22, [0x22])] 262144 u64_MAX (\<lambda>_. False)"
  define E where "E = ?P\<lparr>pe_decoded := [demo_key 0x22 \<mapsto> Leaf [demo_file_entry 0x62]]\<rparr>"
  have new: "new_bounded ?P = Inr (E, proof_state_new\<lparr>vs_logical_bytes := 528, vs_readings := 1\<rparr>)"
    unfolding new_bounded_def proof_env_of_def E_def
    by (simp add: load_page_def admit_allocation_def check_deadline_def proof_state_new_def checked_add_def
        saturating_add_def saturating_mul_def u64_MAX_def demo_key_simps demo_page ok_or_def del: replicate.simps)
  have E: "pe_auth E = demo_auth" "pe_codec E = demo_metapage" "pe_bytes E = [(demo_key 0x22, [0x22])]" "pe_max_radix_entries E = 262144"
    "pe_decoded E (demo_key 0x22) = Some (Leaf [demo_file_entry 0x62])" "pe_max_logical_bytes E = u64_MAX" "pe_expired E k = False" for k
    by (simp_all add: E_def proof_env_of_def)
  have "radix_entries E (proof_state_new\<lparr>vs_logical_bytes := 528, vs_readings := 1\<rparr>) (demo_key 0x22) 0 {}
    = Inr (proof_state_new\<lparr>vs_entries := [demo_key 0x22 \<mapsto> [demo_file_entry 0x62]], vs_reached := {demo_key 0x22},
        vs_logical_bytes := 1816, vs_readings := 4\<rparr>, [demo_file_entry 0x62])"
    by (subst radix_entries.simps)
      (simp add: check_deadline_def E enter_radix_def finish_radix_def Let_def admit_allocation_def ok_or_def checked_add_def
        saturating_add_def saturating_mul_def u64_MAX_def proof_state_new_def demo_build demo_sort entries_allocation_def demo_entry_fields
        del: sort_key_simps)
  then show ?thesis by (simp add: verify_directory_pages_def new)
qed

lemma demo_fetch:
  "fetch_directory demo_source t [] (demo_key 0x22) (scope_root demo_reader)
    = Some (Inr (\<lparr>pn_directory = scope_root demo_reader, pn_entries = [demo_file_entry 0x62]\<rparr>, [(demo_key 0x22, [0x22])], t + 5))"
proof -
  have paths: "reader_relative_path demo_reader [] = Inr ()" "reader_relative_path demo_reader ''b'' = Inr ()"
    unfolding reader_relative_path_def demo_reader_fields by code_simp+
  have id: "validate_identity (MembershipIdentity_new demo_reader) demo_reader = Inr ()"
    by (simp add: validate_identity_def MembershipIdentity_new_def)
  have valid: "validate_membership (scope_root demo_reader) demo_reader = Inr ()"
    by (simp add: validate_membership_def scope_root_def id paths)
  have entry: "check_entry demo_reader (scope_root demo_reader) MAX_FILE_SIZE (demo_file_entry 0x62) = Inr ()"
    by (simp add: check_entry_def child_path_def demo_entry_fields demo_names ok_or_def scope_root_def join_path_def paths
        validate_path_def demo_reader_fields demo_client_def MAX_FILE_SIZE_def)
  have root: "pd_path (scope_root demo_reader) = []" "pd_root (scope_root demo_reader) = demo_key 0x22"
    by (simp_all add: scope_root_def demo_reader_fields)
  have legacy: "rd_advertisement demo_reader = LegacyAdvertisement (reader_capabilities sample_advertisement)"
    "max_directory_entries_proof MetadataProofLimits_default = 262144"
    by (simp_all add: demo_reader_def MetadataProofLimits_default_def)
  have ver: "verify_membership demo_source u (scope_root demo_reader) [(demo_key 0x22, [0x22])] 262144
    = Inr (\<lparr>pn_directory = scope_root demo_reader, pn_entries = [demo_file_entry 0x62]\<rparr>, u + 2)" for u
    by (simp add: verify_membership_def demo_reader_fields valid ensure_lease_def root demo_verify legacy entry Let_def)
  show ?thesis
    using demo_page_walk[of "Suc t"]
    by (simp add: fetch_directory_def root demo_reader_fields valid ensure_lease_def paths run_bind_def legacy ver)
qed

definition demo_loaded :: view_state where
  "demo_loaded = (lazy_state demo_reader)\<lparr>fs_next_inode := 2,
     fs_nodes := [(1, DirN \<lparr>vd_path = [], vd_children = Ready [(''b'', 2)], vd_parent = 1, vd_loaded = True,
         vd_page_id = Some (demo_key 0x22), vd_membership = Some (scope_root demo_reader)\<rparr>),
       (2, FileN \<lparr>vn_file = \<lparr>sf_rel_path = ''b'', sf_fs_kind = ''regular'', sf_size = 7, sf_content_digest = demo_key 0x62\<rparr>,
         vn_proven = Some \<lparr>pv_file = \<lparr>sf_rel_path = ''b'', sf_fs_kind = ''regular'', sf_size = 7, sf_content_digest = demo_key 0x62\<rparr>,
           pv_identity = MembershipIdentity_new demo_reader\<rparr>\<rparr>)]\<rparr>"

lemma demo_load: "load_directory demo_view t (lazy_state demo_reader) ROOT_INODE = Some (demo_loaded, Inr ((), t + 8))"
proof -
  have new_file: "new_child_node demo_auth p ''b'' \<lparr>pn_directory = scope_root demo_reader, pn_entries = [demo_file_entry 0x62]\<rparr> 0 (demo_file_entry 0x62)
    = Inr (FileN \<lparr>vn_file = \<lparr>sf_rel_path = ''b'', sf_fs_kind = ''regular'', sf_size = 7, sf_content_digest = demo_key 0x62\<rparr>,
         vn_proven = Some \<lparr>pv_file = \<lparr>sf_rel_path = ''b'', sf_fs_kind = ''regular'', sf_size = 7, sf_content_digest = demo_key 0x62\<rparr>,
           pv_identity = MembershipIdentity_new demo_reader\<rparr>\<rparr>)" for p
    by (simp add: new_child_node_def file_token_def child_path_def demo_entry_fields demo_names ok_or_def scope_root_def join_path_def
        entry_file_def kind_text_def demo_key_simps del: replicate.simps)
  have view: "ve_reader demo_view = Some demo_source" "ve_others demo_view t st = st" "ve_store demo_view = False" for t st
    by (simp_all add: demo_view_def)
  have room: "max_cached_nodes MetadataProofLimits_default = 1048576" by (simp add: MetadataProofLimits_default_def)
  have commit: "commit_directory demo_source (lazy_state demo_reader) ROOT_INODE []
      \<lparr>pn_directory = scope_root demo_reader, pn_entries = [demo_file_entry 0x62]\<rparr> = Some (demo_loaded, Inr ())"
    by (simp add: commit_directory_def lazy_state_def root_dir_def node_at_def is_loaded_def checked_add_def u64_MAX_def demo_reader_fields room
        apply_page_entries_def apply_entry_def demo_entry_fields demo_names index_default_def ROOT_INODE_def join_path_def new_file
        add_child_inode_def put_node_def demo_loaded_def Let_def)
  show ?thesis
    using demo_fetch[of "Suc t"]
    by (simp add: load_directory_def view_lock_def view lazy_state_def[of demo_reader] root_dir_def node_at_def demo_reader_fields learn_pages_def
        act_bind_def act_lift_def ensure_lease_def commit[unfolded lazy_state_def root_dir_def demo_reader_fields] Let_def)
qed

lemma demo_path_state: "path_state demo_view (lazy_state demo_reader) ''b'' = Some (demo_loaded, Inr (Present (RegularNode 7 (demo_key 0x62)), 12))"
proof -
  have view: "ve_reader demo_view = Some demo_source" "ve_others demo_view t st = st" "ve_lease_before demo_view t = Inr ()"
    "ve_lease_after demo_view t = Inr ()" "ve_grammar demo_view = ae_grammar demo_auth" for t st
    by (simp_all add: demo_view_def)
  have "metadata_path \<lparr>lc_grammar = ae_grammar demo_auth, lc_reader = Some (''/p'', demo_client), lc_namespace_scope = Some ''/p''\<rparr> ''b'' = Inr ''/b''"
    by code_simp
  then have rel: "metadata_path (view_context demo_view (lazy_state demo_reader)) ''b'' = Inr ''/b''"
    by (simp add: view_context_def view demo_reader_fields lazy_state_def)
  have names: "split_on CHR ''/'' (trim_start_slashes ''/b'') = [''b'']" by code_simp
  have get: "index_get (Ready [(''b'', 2)]) ''b'' = Some 2" by code_simp
  have nodes: "node_at demo_loaded ROOT_INODE = Some (DirN \<lparr>vd_path = [], vd_children = Ready [(''b'', 2)], vd_parent = 1, vd_loaded = True,
         vd_page_id = Some (demo_key 0x22), vd_membership = Some (scope_root demo_reader)\<rparr>)"
    "\<exists>f. node_at demo_loaded 2 = Some (FileN f) \<and> node_identity (FileN f) = Inr (RegularNode 7 (demo_key 0x62))"
    by (simp_all add: demo_loaded_def node_at_def ROOT_INODE_def node_identity_def)
  show ?thesis
    using nodes(2) by (auto simp: path_state_def check_metadata_lease_def view act_lift_def act_bind_def check_lease_after_def recorded_path_state_def
        recorded_path_inode_def view_lock_def rel names demo_load nodes(1) get ok_or_def simp del: index_get.simps)
qed

theorem fixed_view_exact_witness:
  "path_state demo_view (lazy_state demo_reader) ''b'' = Some (demo_loaded, Inr (Present (RegularNode 7 (demo_key 0x62)), 12))
    \<and> path_denotes demo_auth demo_table (demo_key 0x22) [''b''] (Some (RegularNode 7 (demo_key 0x62)))"
proof -
  have root: "metadata_root (reader_descriptor demo_reader) = demo_key 0x22" by (simp add: demo_reader_fields)
  have "names_of ''b'' = [''b'']" by code_simp
  then show ?thesis
    using fixed_view_exact[OF reaches_new[of demo_auth demo_table demo_reader], of demo_view "''b''", unfolded root, OF demo_env_ok] demo_path_state
    by (simp add: state_of_def)
qed

end
