(* ===== verification/View_Ops.thy ===== *)
theory View_Ops
  imports Fixed_View
begin

text \<open>
  The filesystem operations of a fixed view (\<^verbatim>\<open>impl Filesystem for Mst2Fuse\<close> in \<^verbatim>\<open>snapshot/fuse.rs\<close>, and the
  attributes of \<^verbatim>\<open>util/file_attr.rs\<close>).  Directory streams are drained to their end; the fuel of the drain is
  one more than the number of entries left, which is always enough.  A name arrives already converted to
  text.  Reading file bodies is not part of this theory.
\<close>

section \<open>Errors and attributes\<close>

datatype errno = ENOENT | EACCES | ESTALE | ENOTDIR | EAGAIN | EIO | ELOOP | EROFS | EISDIR | EINVAL

definition io_err :: "snapshot_error \<Rightarrow> errno" where
  "io_err e = (case code e of
      PathNotFound \<Rightarrow> ENOENT
    | Unauthenticated \<Rightarrow> EACCES | ScopeForbidden \<Rightarrow> EACCES | LeaseUnknown \<Rightarrow> EACCES
    | LeaseExpired \<Rightarrow> ESTALE | SnapshotGone \<Rightarrow> ESTALE
    | NotDirectory \<Rightarrow> ENOTDIR
    | MetadataNotReady \<Rightarrow> EAGAIN
    | _ \<Rightarrow> EIO)"

record file_attr =
  fa_ino :: nat
  fa_size :: nat
  fa_blocks :: nat
  fa_atime :: "nat \<times> nat"
  fa_mtime :: "nat \<times> nat"
  fa_ctime :: "nat \<times> nat"
  fa_kind :: file_type
  fa_perm :: nat
  fa_nlink :: nat
  fa_uid :: nat
  fa_gid :: nat
  fa_rdev :: nat
  fa_blksize :: nat

definition make_file_attr ::
  "nat \<Rightarrow> nat \<Rightarrow> nat \<Rightarrow> nat \<times> nat \<Rightarrow> nat \<times> nat \<Rightarrow> nat \<times> nat \<Rightarrow> file_type \<Rightarrow> nat \<Rightarrow> nat \<Rightarrow> nat \<Rightarrow> nat \<Rightarrow> nat \<Rightarrow> nat \<Rightarrow> file_attr" where
  "make_file_attr ino bytes blocks atime mtime ctime kind perm nlink uid gid rdev blksize =
    \<lparr>fa_ino = ino, fa_size = bytes, fa_blocks = blocks, fa_atime = atime, fa_mtime = mtime, fa_ctime = ctime, fa_kind = kind,
     fa_perm = perm, fa_nlink = nlink, fa_uid = uid, fa_gid = gid, fa_rdev = rdev, fa_blksize = blksize\<rparr>"

definition dir_attr :: "mount_owner \<Rightarrow> nat \<Rightarrow> file_attr" where
  "dir_attr owner inode =
    make_file_attr inode 0 0 (0, 0) (0, 0) (0, 0) DirectoryType 0x1ED 2 (mo_uid owner) (mo_gid owner) 0 4096"

definition file_node_attr :: "mount_owner \<Rightarrow> nat \<Rightarrow> view_file \<Rightarrow> file_attr" where
  "file_node_attr owner inode f =
    (let symlink = is_symlink_file f; n = sf_size (vn_file f) in
     make_file_attr inode n (div_ceil n 512) (0, 0) (0, 0) (0, 0) (if symlink then SymlinkType else RegularType)
       (if symlink then 0x1FF else if sf_fs_kind (vn_file f) = ''executable'' then 0x1ED else 0x1A4)
       1 (mo_uid owner) (mo_gid owner) 0 4096)"

definition node_attr :: "mount_owner \<Rightarrow> view_state \<Rightarrow> nat \<Rightarrow> errno + file_attr" where
  "node_attr owner st inode = (case node_at st inode of
      Some (DirN _) \<Rightarrow> Inr (dir_attr owner inode)
    | Some (FileN f) \<Rightarrow> Inr (file_node_attr owner inode f)
    | None \<Rightarrow> Inl ENOENT)"

section \<open>Loading before an operation\<close>

definition check_lease_io :: "view_env \<Rightarrow> nat \<Rightarrow> view_state \<Rightarrow> (errno, unit) act" where
  "check_lease_io E t st = act_map_err io_err (check_metadata_lease E t st)"

definition store_reader :: "view_env \<Rightarrow> bool" where
  "store_reader E = (case ve_reader E of
      None \<Rightarrow> False
    | Some S \<Rightarrow> ve_store E \<and> ft_metadata_pages (features (reader_capabilities (rd_advertisement (ps_reader S)))))"

definition needs_loading :: "view_state \<Rightarrow> nat \<Rightarrow> bool" where
  "needs_loading st inode = (fs_lazy st \<and> (case node_at st inode of Some (DirN d) \<Rightarrow> \<not> vd_loaded d | _ \<Rightarrow> False))"

definition check_lease_after_io :: "view_env \<Rightarrow> (errno, 'a) act \<Rightarrow> (errno, 'a) act" where
  "check_lease_after_io E m =
    (case (ve_reader E, m) of
       (Some _, Some (st, r)) \<Rightarrow>
         (case ve_lease_after E (case r of Inl _ \<Rightarrow> 0 | Inr (_, t) \<Rightarrow> Suc t) of
            Inl e \<Rightarrow> Some (st, Inl (io_err e))
          | Inr _ \<Rightarrow> m)
     | _ \<Rightarrow> m)"

definition ensure_loaded :: "view_env \<Rightarrow> nat \<Rightarrow> view_state \<Rightarrow> nat \<Rightarrow> (errno, unit) act" where
  "ensure_loaded E t st inode =
    act_bind (check_lease_io E t st) (\<lambda>st _ t.
    let st = view_lock E t st; t = Suc t in
    check_lease_after_io E
      (if needs_loading st inode
       then act_map_err (if store_reader E then io_err else (\<lambda>_. EIO)) (ensure_dir_loaded E t st inode)
       else Some (st, Inr ((), t))))"

section \<open>Attributes and lookups\<close>

definition getattr :: "view_env \<Rightarrow> view_state \<Rightarrow> nat \<Rightarrow> (errno, file_attr) act" where
  "getattr E st inode =
    act_bind (check_lease_io E 0 st) (\<lambda>st _ t.
    let st = view_lock E t st; t = Suc t in
    act_bind (act_lift st t (node_attr (ve_owner E) st inode)) (\<lambda>st attr t.
    act_bind (check_lease_io E t st) (\<lambda>st _ t. Some (st, Inr (attr, t)))))"

definition child_inode :: "view_state \<Rightarrow> nat \<Rightarrow> string \<Rightarrow> nat option" where
  "child_inode st inode name = (case node_at st inode of Some (DirN d) \<Rightarrow> index_get (vd_children d) name | _ \<Rightarrow> None)"

definition view_lookup :: "view_env \<Rightarrow> view_state \<Rightarrow> nat \<Rightarrow> string \<Rightarrow> (errno, file_attr) act" where
  "view_lookup E st parent_inode name =
    act_bind (ensure_loaded E 0 st parent_inode) (\<lambda>st _ t.
    let st = view_lock E t st; t = Suc t; child = child_inode st parent_inode name in
    act_bind (check_lease_io E t st) (\<lambda>st _ t.
    act_bind (act_lift st t (ok_or child ENOENT)) (\<lambda>st inode t.
    let st = view_lock E t st; t = Suc t in
    act_bind (act_lift st t (node_attr (ve_owner E) st inode)) (\<lambda>st attr t.
    act_bind (check_lease_io E t st) (\<lambda>st _ t. Some (st, Inr (attr, t)))))))"

section \<open>Directory streams\<close>

record list_entry =
  le_inode :: nat
  le_kind :: "file_type option"
  le_name :: string
  le_offset :: nat

record directory_listing =
  dl_entries :: "(string \<times> nat) list"
  dl_inode :: nat
  dl_parent :: nat
  dl_next :: nat

definition listing_next :: "directory_listing \<Rightarrow> (list_entry \<times> directory_listing) option" where
  "listing_next l =
    (let found = (case dl_next l of
         0 \<Rightarrow> Some (dl_inode l, ''.'', Some DirectoryType)
       | Suc 0 \<Rightarrow> Some (dl_parent l, ''..'', Some DirectoryType)
       | Suc (Suc i) \<Rightarrow> if i < length (dl_entries l) then Some (snd (dl_entries l ! i), fst (dl_entries l ! i), None) else None) in
     map_option (\<lambda>(inode, name, kind).
       (\<lparr>le_inode = inode, le_kind = kind, le_name = name, le_offset = dl_next l + 1\<rparr>, l\<lparr>dl_next := dl_next l + 1\<rparr>)) found)"

definition listing :: "view_state \<Rightarrow> nat \<Rightarrow> int \<Rightarrow> errno + directory_listing" where
  "listing st inode offset =
    (case node_at st inode of
       Some (DirN d) \<Rightarrow>
         rbind (map_err io_err (index_snapshot (vd_children d))) (\<lambda>entries.
         Inr \<lparr>dl_entries = entries, dl_inode = inode, dl_parent = vd_parent d,
              dl_next = min (nat (max offset 0)) (length entries + 2)\<rparr>)
     | _ \<Rightarrow> Inl ENOTDIR)"

record directory_entry =
  de_inode :: nat
  de_kind :: file_type
  de_name :: string
  de_offset :: nat

definition readdir_entry :: "view_state \<Rightarrow> list_entry \<Rightarrow> directory_entry" where
  "readdir_entry st e =
    \<lparr>de_inode = le_inode e,
     de_kind = (case le_kind e of
         Some kind \<Rightarrow> kind
       | None \<Rightarrow> (case node_at st (le_inode e) of Some node \<Rightarrow> view_entry_kind node | None \<Rightarrow> RegularType)),
     de_name = le_name e, de_offset = le_offset e\<rparr>"

fun stream_readdir :: "nat \<Rightarrow> view_env \<Rightarrow> nat \<Rightarrow> view_state \<Rightarrow> directory_listing \<Rightarrow> (errno, directory_entry list) act" where
  "stream_readdir 0 E t st l = None"
| "stream_readdir (Suc fuel) E t st l =
    act_bind (check_lease_io E t st) (\<lambda>st _ t.
    case listing_next l of
      None \<Rightarrow> Some (st, Inr ([], t))
    | Some (e, l) \<Rightarrow>
        let st = view_lock E t st; t = Suc t; item = readdir_entry st e in
        act_bind (stream_readdir fuel E t st l) (\<lambda>st items t. Some (st, Inr (item # items, t))))"

definition readdir :: "view_env \<Rightarrow> view_state \<Rightarrow> nat \<Rightarrow> int \<Rightarrow> (errno, directory_entry list) act" where
  "readdir E st inode offset =
    act_bind (ensure_loaded E 0 st inode) (\<lambda>st _ t.
    let st = view_lock E t st; t = Suc t in
    act_bind (act_lift st t (listing st inode offset)) (\<lambda>st l t.
    act_bind (check_lease_io E t st) (\<lambda>st _ t.
    stream_readdir (Suc (length (dl_entries l) + 2 - dl_next l)) E t st l)))"

record directory_entry_plus = directory_entry +
  dp_attr :: file_attr

definition readdirplus_entry :: "mount_owner \<Rightarrow> view_state \<Rightarrow> list_entry \<Rightarrow> errno + directory_entry_plus" where
  "readdirplus_entry owner st e =
    rbind (node_attr owner st (le_inode e)) (\<lambda>attr.
    Inr \<lparr>de_inode = le_inode e, de_kind = (case le_kind e of Some kind \<Rightarrow> kind | None \<Rightarrow> fa_kind attr),
         de_name = le_name e, de_offset = le_offset e, dp_attr = attr\<rparr>)"

fun stream_readdirplus :: "nat \<Rightarrow> view_env \<Rightarrow> nat \<Rightarrow> view_state \<Rightarrow> directory_listing \<Rightarrow> (errno, directory_entry_plus list) act" where
  "stream_readdirplus 0 E t st l = None"
| "stream_readdirplus (Suc fuel) E t st l =
    act_bind (check_lease_io E t st) (\<lambda>st _ t.
    case listing_next l of
      None \<Rightarrow> Some (st, Inr ([], t))
    | Some (e, l) \<Rightarrow>
        let st = view_lock E t st; t = Suc t in
        act_bind (act_lift st t (readdirplus_entry (ve_owner E) st e)) (\<lambda>st item t.
        act_bind (stream_readdirplus fuel E t st l) (\<lambda>st items t. Some (st, Inr (item # items, t)))))"

text \<open>\<^verbatim>\<open>readdirplus\<close> takes an unsigned offset and converts it with \<^verbatim>\<open>as i64\<close>.\<close>

definition as_i64 :: "nat \<Rightarrow> int" where
  "as_i64 n = sint (word_of_nat n :: 64 word)"

definition readdirplus :: "view_env \<Rightarrow> view_state \<Rightarrow> nat \<Rightarrow> nat \<Rightarrow> (errno, directory_entry_plus list) act" where
  "readdirplus E st inode offset =
    act_bind (ensure_loaded E 0 st inode) (\<lambda>st _ t.
    let st = view_lock E t st; t = Suc t in
    act_bind (act_lift st t (listing st inode (as_i64 offset))) (\<lambda>st l t.
    act_bind (check_lease_io E t st) (\<lambda>st _ t.
    stream_readdirplus (Suc (length (dl_entries l) + 2 - dl_next l)) E t st l)))"

section \<open>Handles\<close>

definition opendir :: "view_env \<Rightarrow> view_state \<Rightarrow> nat \<Rightarrow> (errno, nat) act" where
  "opendir E st inode =
    act_bind (ensure_loaded E 0 st inode) (\<lambda>st _ t.
    act_bind (check_lease_io E t st) (\<lambda>st _ t.
    let st = view_lock E t st; t = Suc t in
    act_bind (act_lift st t (node_attr (ve_owner E) st inode)) (\<lambda>st attr t.
    if fa_kind attr = DirectoryType then Some (st, Inr (inode, t)) else Some (st, Inl ENOTDIR))))"

record statfs_reply =
  sv_blocks :: nat
  sv_bfree :: nat
  sv_bavail :: nat
  sv_files :: nat
  sv_ffree :: nat
  sv_bsize :: nat
  sv_namelen :: nat
  sv_frsize :: nat

definition is_file_node :: "view_node \<Rightarrow> bool" where
  "is_file_node node = (case node of FileN _ \<Rightarrow> True | DirN _ \<Rightarrow> False)"

definition statfs :: "view_env \<Rightarrow> view_state \<Rightarrow> (errno, statfs_reply) act" where
  "statfs E st =
    act_bind (check_lease_io E 0 st) (\<lambda>st _ t.
    let st = view_lock E t st; t = Suc t; n = length (filter (\<lambda>(_, node). is_file_node node) (fs_nodes st)) in
    act_bind (check_lease_io E t st) (\<lambda>st _ t.
    Some (st, Inr (\<lparr>sv_blocks = 0, sv_bfree = 0, sv_bavail = 0, sv_files = n, sv_ffree = 0, sv_bsize = 4096, sv_namelen = 255,
      sv_frsize = 4096\<rparr>, t))))"

record open_flags =
  O_ACCMODE :: "32 word"
  O_RDONLY :: "32 word"
  O_TRUNC :: "32 word"
  O_APPEND :: "32 word"
  O_CREAT :: "32 word"
  O_EXCL :: "32 word"

definition open_node :: "view_env \<Rightarrow> open_flags \<Rightarrow> view_state \<Rightarrow> nat \<Rightarrow> 32 word \<Rightarrow> (errno, nat) act" where
  "open_node E F st inode flags =
    (let st = view_lock E 0 st; t = 1 in
     act_bind (act_lift st t (ok_or (node_at st inode) ENOENT)) (\<lambda>st node t.
     act_bind (case (store_reader E, ve_reader E) of
         (True, Some S) \<Rightarrow> act_lift st t (map_err io_err (rbind (ensure_lease S t) (\<lambda>_. Inr ())))
       | _ \<Rightarrow> Some (st, Inr ((), t))) (\<lambda>st _ t.
     if is_symlink node then Some (st, Inl ELOOP)
     else if and flags (O_ACCMODE F) \<noteq> O_RDONLY F
        \<or> and flags (or (or (or (O_TRUNC F) (O_APPEND F)) (O_CREAT F)) (O_EXCL F)) \<noteq> 0
     then Some (st, Inl EROFS)
     else (case node of FileN _ \<Rightarrow> Some (st, Inr (inode, t)) | DirN _ \<Rightarrow> Some (st, Inl EISDIR)))))"

text \<open>Every mutating operation answers that the filesystem is read-only.\<close>

datatype mutation = Setlk | Setattr | Make_Symlink | Mknod | Mkdir | Link | Unlink | Rmdir | Rename | Rename2 | Write | Create
  | Fallocate | Copy_File_Range | Setxattr | Removexattr

definition mutate :: "mutation \<Rightarrow> errno + unit" where
  "mutate operation = Inl EROFS"

definition fsync :: "view_env \<Rightarrow> view_state \<Rightarrow> nat \<Rightarrow> (errno, unit) act" where
  "fsync E st inode =
    (let st = view_lock E 0 st in act_lift st 1 (rbind (ok_or (node_at st inode) ENOENT) (\<lambda>_. Inr ())))"

section \<open>Every operation keeps the view\<close>

lemma guarantees_lease_io [view_rules]:
  "view_ok A D root st \<Longrightarrow> P st () \<Longrightarrow> guarantees A D root st (check_lease_io E t st) P"
  unfolding check_lease_io_def by (intro view_rules)

lemma check_lease_io_same: "check_lease_io E t st = Some (st', Inr (a, u)) \<Longrightarrow> st' = st"
  by (auto simp: check_lease_io_def check_metadata_lease_def act_map_err_def act_lift_def map_err_def split: option.splits sum.splits)

lemma guarantees_after_io [view_rules]: "guarantees A D root st m P \<Longrightarrow> guarantees A D root st (check_lease_after_io E m) P"
  by (auto simp: check_lease_after_io_def guarantees_def split: option.splits sum.splits)

lemma guarantees_lease_bind:
  assumes "view_ok A D root st" "\<And>u. guarantees A D root st (f st () u) Q"
  shows "guarantees A D root st (act_bind (check_lease_io E t st) f) Q"
proof (rule guarantees_bind[OF guarantees_lease_io[OF assms(1), where P = "\<lambda>st' _. st' = st"]])
  fix st' and a :: unit and u assume "st' = st"
  then show "guarantees A D root st' (f st' a u) Q" using assms(2) by simp
qed simp

lemma guarantees_lift_bind:
  assumes "view_ok A D root st" "\<And>a u. r = Inr a \<Longrightarrow> guarantees A D root st (f st a u) Q"
  shows "guarantees A D root st (act_bind (act_lift st t r) f) Q"
proof (rule guarantees_bind[OF guarantees_lift[OF assms(1), where P = "\<lambda>st' a. st' = st \<and> r = Inr a"]])
  fix st' a u assume "st' = st \<and> r = Inr a"
  then show "guarantees A D root st' (f st' a u) Q" using assms(2) by simp
qed simp

lemma guarantees_relock:
  assumes "env_ok A D root E" "view_ok A D root st"
    "\<And>st'. view_ok A D root st' \<Longrightarrow> view_le st st' \<Longrightarrow> guarantees A D root st' (f st') P"
  shows "guarantees A D root st (f (view_lock E t st)) P"
  using view_lock_ok[OF assms(1,2), of t] assms(3) guarantees_from by blast

lemma loaded_if_dir_le: "loaded_if_dir i st \<Longrightarrow> view_le st st' \<Longrightarrow> node_at st i \<noteq> None \<Longrightarrow> loaded_if_dir i st'"
  by (auto simp: loaded_if_dir_def node_same_def dest!: view_le_node split: view_node.splits)

lemma ensure_loaded_ok:
  assumes env: "env_ok A D root E" and ok: "view_ok A D root st"
  shows "guarantees A D root st (ensure_loaded E t st i) (\<lambda>st' _. loaded_if_dir i st')"
  unfolding ensure_loaded_def
proof (rule guarantees_lease_bind[OF ok])
  fix u
  define st1 where "st1 = view_lock E u st"
  have st1: "view_ok A D root st1" "view_le st st1" using view_lock_ok[OF env ok] by (simp_all add: st1_def)
  have "guarantees A D root st1 (if needs_loading st1 i
       then act_map_err (if store_reader E then io_err else (\<lambda>_. EIO)) (ensure_dir_loaded E (Suc u) st1 i)
       else Some (st1, Inr ((), Suc u))) (\<lambda>st' _. loaded_if_dir i st')"
  proof (cases "needs_loading st1 i")
    case True
    then show ?thesis using guarantees_map_err[OF ensure_dir_loaded_ok[OF env st1(1), of "Suc u" i]] by auto
  next
    case False
    then have "loaded_if_dir i st1" using st1(1) unfolding view_ok_def loaded_if_dir_def needs_loading_def by fastforce
    then show ?thesis using False st1(1) by (simp add: view_rules)
  qed
  then show "guarantees A D root st (let st = view_lock E u st; t = Suc u in check_lease_after_io E
      (if needs_loading st i then act_map_err (if store_reader E then io_err else (\<lambda>_. EIO)) (ensure_dir_loaded E t st i)
       else Some (st, Inr ((), t)))) (\<lambda>st' _. loaded_if_dir i st')"
    unfolding Let_def st1_def[symmetric] by (intro guarantees_from[OF _ st1(2)] guarantees_after_io)
qed

section \<open>Streams\<close>

definition entry_at :: "directory_listing \<Rightarrow> nat \<Rightarrow> list_entry" where
  "entry_at l k =
    (if k = 0 then \<lparr>le_inode = dl_inode l, le_kind = Some DirectoryType, le_name = ''.'', le_offset = 1\<rparr>
     else if k = 1 then \<lparr>le_inode = dl_parent l, le_kind = Some DirectoryType, le_name = ''..'', le_offset = 2\<rparr>
     else \<lparr>le_inode = snd (dl_entries l ! (k - 2)), le_kind = None, le_name = fst (dl_entries l ! (k - 2)), le_offset = k + 1\<rparr>)"

lemma listing_next_at:
  "listing_next l = (if dl_next l < length (dl_entries l) + 2 then Some (entry_at l (dl_next l), l\<lparr>dl_next := dl_next l + 1\<rparr>) else None)"
  by (auto simp: listing_next_def entry_at_def Let_def split: nat.splits)

lemma entry_at_next [simp]: "entry_at (l\<lparr>dl_next := k\<rparr>) = entry_at l"
  by (simp add: entry_at_def fun_eq_iff)

definition listed :: "view_state \<Rightarrow> directory_listing \<Rightarrow> bool" where
  "listed st l \<longleftrightarrow> (\<forall>j\<in>set (map snd (dl_entries l)). node_at st j \<noteq> None)"

lemma listed_le: "listed st l \<Longrightarrow> view_le st st' \<Longrightarrow> listed st' l"
  unfolding listed_def using view_le_node by fastforce

lemma view_entry_kind_same: "node_same a b \<Longrightarrow> view_entry_kind b = view_entry_kind a"
  by (auto simp: node_same_def view_entry_kind_def split: view_node.splits)

lemma readdir_entry_le:
  assumes "listed st l" "view_le st st'" "k < length (dl_entries l) + 2"
  shows "readdir_entry st' (entry_at l k) = readdir_entry st (entry_at l k)"
proof (cases "k < 2")
  case True
  then have "k = 0 \<or> k = 1" by auto
  then show ?thesis by (auto simp: entry_at_def readdir_entry_def)
next
  case False
  then have "k - 2 < length (dl_entries l)" using assms(3) by auto
  then have "snd (dl_entries l ! (k - 2)) \<in> set (map snd (dl_entries l))" by simp
  then obtain node where node: "node_at st (snd (dl_entries l ! (k - 2))) = Some node"
    using assms(1) unfolding listed_def by blast
  then obtain node' where "node_at st' (snd (dl_entries l ! (k - 2))) = Some node'" "view_entry_kind node' = view_entry_kind node"
    using view_le_node[OF assms(2) node] view_entry_kind_same by blast
  then show ?thesis using node False by (simp add: readdir_entry_def entry_at_def)
qed

lemma stream_readdir_ok:
  assumes env: "env_ok A D root E"
  shows "view_ok A D root st \<Longrightarrow> listed st l \<Longrightarrow> length (dl_entries l) + 2 - dl_next l < fuel \<Longrightarrow>
    guarantees A D root st (stream_readdir fuel E t st l)
      (\<lambda>st' items. items = map (\<lambda>k. readdir_entry st' (entry_at l k)) [dl_next l..<length (dl_entries l) + 2])"
proof (induction fuel arbitrary: st l t)
  case (Suc fuel)
  show ?case
    unfolding stream_readdir.simps
  proof (rule guarantees_lease_bind[OF Suc.prems(1)])
    fix u
    show "guarantees A D root st (case listing_next l of None \<Rightarrow> Some (st, Inr ([], u))
      | Some (e, l) \<Rightarrow> let st = view_lock E u st; t = Suc u; item = readdir_entry st e
          in act_bind (stream_readdir fuel E t st l) (\<lambda>st items t. Some (st, Inr (item # items, t))))
      (\<lambda>st' items. items = map (\<lambda>k. readdir_entry st' (entry_at l k)) [dl_next l..<length (dl_entries l) + 2])"
    proof (cases "dl_next l < length (dl_entries l) + 2")
      case False
      then show ?thesis using Suc.prems(1) by (simp add: listing_next_at view_rules)
    next
      case True
      define st1 where "st1 = view_lock E u st"
      have st1: "view_ok A D root st1" "view_le st st1" using view_lock_ok[OF env Suc.prems(1)] by (simp_all add: st1_def)
      let ?l = "l\<lparr>dl_next := Suc (dl_next l)\<rparr>"
      have l: "listed st1 ?l" using listed_le[OF Suc.prems(2) st1(2)] by (simp add: listed_def)
      have l1: "listed st1 l" using listed_le[OF Suc.prems(2) st1(2)] .
      have "guarantees A D root st1 (act_bind (stream_readdir fuel E (Suc u) st1 ?l)
          (\<lambda>st items t. Some (st, Inr (readdir_entry st1 (entry_at l (dl_next l)) # items, t))))
        (\<lambda>st' items. items = map (\<lambda>k. readdir_entry st' (entry_at l k)) [dl_next l..<length (dl_entries l) + 2])"
      proof (rule guarantees_bind[OF Suc.IH[OF st1(1) l]])
        fix st2 items t2
        assume st2: "view_ok A D root st2" "view_le st1 st2"
          and items: "items = map (\<lambda>k. readdir_entry st2 (entry_at ?l k)) [dl_next ?l..<length (dl_entries ?l) + 2]"
        have "readdir_entry st1 (entry_at l (dl_next l)) # items = map (\<lambda>k. readdir_entry st2 (entry_at l k)) [dl_next l..<length (dl_entries l) + 2]"
          unfolding items upt_conv_Cons[OF True] using readdir_entry_le[OF l1 st2(2) True] by simp
        then show "guarantees A D root st2 (Some (st2, Inr (readdir_entry st1 (entry_at l (dl_next l)) # items, t2)))
          (\<lambda>st' items. items = map (\<lambda>k. readdir_entry st' (entry_at l k)) [dl_next l..<length (dl_entries l) + 2])"
          using st2(1) by (intro guarantees_return)
      qed (use Suc.prems(3) True in simp)
      moreover have nx: "listing_next l = Some (entry_at l (dl_next l), ?l)" using True by (simp add: listing_next_at)
      ultimately show ?thesis unfolding nx option.case prod.case Let_def st1_def[symmetric] by (intro guarantees_from[OF _ st1(2)])
    qed
  qed
qed simp

lemma node_attr_le:
  assumes "node_attr owner st j = Inr attr" "view_le st st'"
  shows "node_attr owner st' j = Inr attr"
proof -
  obtain node where node: "node_at st j = Some node" using assms(1) by (auto simp: node_attr_def split: option.splits)
  obtain node' where "node_at st' j = Some node'" "node_same node node'" using view_le_node[OF assms(2) node] by blast
  then show ?thesis using assms(1) node by (auto simp: node_attr_def node_same_def split: view_node.splits)
qed

lemma node_attr_kind: "node_attr owner st j = Inr attr \<Longrightarrow> \<exists>node. node_at st j = Some node \<and> fa_kind attr = view_entry_kind node"
  by (auto simp: node_attr_def dir_attr_def file_node_attr_def make_file_attr_def view_entry_kind_def Let_def split: option.splits view_node.splits)

lemma readdirplus_entry_readdir:
  assumes "readdirplus_entry owner st e = Inr x"
  shows "directory_entry.truncate x = readdir_entry st e" "node_attr owner st (de_inode x) = Inr (dp_attr x)"
proof -
  obtain attr where attr: "node_attr owner st (le_inode e) = Inr attr"
    and x: "x = \<lparr>de_inode = le_inode e, de_kind = (case le_kind e of Some kind \<Rightarrow> kind | None \<Rightarrow> fa_kind attr),
      de_name = le_name e, de_offset = le_offset e, dp_attr = attr\<rparr>"
    using assms by (auto simp: readdirplus_entry_def rbind_eq_Inr)
  show "directory_entry.truncate x = readdir_entry st e"
    using node_attr_kind[OF attr] by (auto simp: x readdir_entry_def directory_entry.defs split: option.splits)
  show "node_attr owner st (de_inode x) = Inr (dp_attr x)" using attr by (simp add: x)
qed

definition attributed :: "mount_owner \<Rightarrow> view_state \<Rightarrow> directory_entry_plus list \<Rightarrow> bool" where
  "attributed owner st xs \<longleftrightarrow> (\<forall>x\<in>set xs. node_attr owner st (de_inode x) = Inr (dp_attr x))"

lemma stream_readdirplus_ok:
  assumes env: "env_ok A D root E"
  shows "view_ok A D root st \<Longrightarrow> listed st l \<Longrightarrow> length (dl_entries l) + 2 - dl_next l < fuel \<Longrightarrow>
    guarantees A D root st (stream_readdirplus fuel E t st l)
      (\<lambda>st' items. map directory_entry.truncate items = map (\<lambda>k. readdir_entry st' (entry_at l k)) [dl_next l..<length (dl_entries l) + 2]
        \<and> attributed (ve_owner E) st' items)"
proof (induction fuel arbitrary: st l t)
  case (Suc fuel)
  let ?post = "\<lambda>st' items. map directory_entry.truncate items = map (\<lambda>k. readdir_entry st' (entry_at l k)) [dl_next l..<length (dl_entries l) + 2]
        \<and> attributed (ve_owner E) st' items"
  show ?case
    unfolding stream_readdirplus.simps
  proof (rule guarantees_lease_bind[OF Suc.prems(1)])
    fix u
    show "guarantees A D root st (case listing_next l of None \<Rightarrow> Some (st, Inr ([], u))
      | Some (e, l) \<Rightarrow> let st = view_lock E u st; t = Suc u in
          act_bind (act_lift st t (readdirplus_entry (ve_owner E) st e)) (\<lambda>st item t.
          act_bind (stream_readdirplus fuel E t st l) (\<lambda>st items t. Some (st, Inr (item # items, t))))) ?post"
    proof (cases "dl_next l < length (dl_entries l) + 2")
      case False
      then show ?thesis using Suc.prems(1) by (simp add: listing_next_at view_rules attributed_def)
    next
      case True
      define st1 where "st1 = view_lock E u st"
      have st1: "view_ok A D root st1" "view_le st st1" using view_lock_ok[OF env Suc.prems(1)] by (simp_all add: st1_def)
      let ?l = "l\<lparr>dl_next := Suc (dl_next l)\<rparr>"
      have l: "listed st1 ?l" using listed_le[OF Suc.prems(2) st1(2)] by (simp add: listed_def)
      have l1: "listed st1 l" using listed_le[OF Suc.prems(2) st1(2)] .
      have "guarantees A D root st1 (act_bind (act_lift st1 (Suc u) (readdirplus_entry (ve_owner E) st1 (entry_at l (dl_next l)))) (\<lambda>st item t.
          act_bind (stream_readdirplus fuel E t st ?l) (\<lambda>st items t. Some (st, Inr (item # items, t))))) ?post"
      proof (rule guarantees_lift_bind[OF st1(1)], rule guarantees_bind[OF Suc.IH[OF st1(1) l]])
        fix x and v :: nat and st2 items t2
        assume x: "readdirplus_entry (ve_owner E) st1 (entry_at l (dl_next l)) = Inr x"
          and st2: "view_ok A D root st2" "view_le st1 st2"
          and items: "map directory_entry.truncate items = map (\<lambda>k. readdir_entry st2 (entry_at ?l k)) [dl_next ?l..<length (dl_entries ?l) + 2]
            \<and> attributed (ve_owner E) st2 items"
        note p = readdirplus_entry_readdir[OF x]
        have "map directory_entry.truncate (x # items) = map (\<lambda>k. readdir_entry st2 (entry_at l k)) [dl_next l..<length (dl_entries l) + 2]"
          unfolding list.map(2)[of _ x] items[THEN conjunct1] upt_conv_Cons[OF True] using readdir_entry_le[OF l1 st2(2) True] p(1) by simp
        moreover have "attributed (ve_owner E) st2 (x # items)"
          using items node_attr_le[OF p(2) st2(2)] by (simp add: attributed_def)
        ultimately show "guarantees A D root st2 (Some (st2, Inr (x # items, t2))) ?post"
          using st2(1) by (intro guarantees_return) auto
      qed (use Suc.prems(3) True in simp)
      moreover have nx: "listing_next l = Some (entry_at l (dl_next l), ?l)" using True by (simp add: listing_next_at)
      ultimately show ?thesis unfolding nx option.case prod.case Let_def st1_def[symmetric] by (intro guarantees_from[OF _ st1(2)])
    qed
  qed
qed simp

text \<open>The complete listing of a loaded directory.\<close>

definition whole_listing :: "auth_env \<Rightarrow> (string \<Rightarrow> page option) \<Rightarrow> view_state \<Rightarrow> nat \<Rightarrow> directory_entry list \<Rightarrow> bool" where
  "whole_listing A D st i whole \<longleftrightarrow> (\<exists>d pid es rest. node_at st i = Some (DirN d) \<and> vd_loaded d \<and> vd_page_id d = Some pid \<and> radix_denotes A D pid es
    \<and> whole = \<lparr>de_inode = i, de_kind = DirectoryType, de_name = ''.'', de_offset = 1\<rparr>
        # \<lparr>de_inode = vd_parent d, de_kind = DirectoryType, de_name = ''..'', de_offset = 2\<rparr> # rest
    \<and> sorted_wrt (<) (map de_name rest) \<and> map de_offset rest = [3..<length rest + 3]
    \<and> (\<forall>n j k. (\<exists>x\<in>set rest. de_name x = n \<and> de_inode x = j \<and> de_kind x = k) \<longleftrightarrow>
         (\<exists>e node. entry_named es n = Some e \<and> child_inode st i n = Some j \<and> node_at st j = Some node
           \<and> node_for A i (join_path (vd_path d) n) e node \<and> k = view_entry_kind node)))"

lemma upt_two: "[0..<n + 2] = 0 # 1 # map (\<lambda>m. m + 2) [0..<n]"
  by (induction n) (simp_all add: numeral_2_eq_2)

lemma whole_listing_ok:
  assumes ok: "view_ok A D root st" and d: "node_at st i = Some (DirN d)" "vd_loaded d" "index_snapshot (vd_children d) = Inr cs"
    and l: "dl_entries l = cs" "dl_inode l = i" "dl_parent l = vd_parent d"
  shows "whole_listing A D st i (map (\<lambda>k. readdir_entry st (entry_at l k)) [0..<length cs + 2])" "listed st l"
proof -
  obtain pid es where es: "vd_page_id d = Some pid" "radix_denotes A D pid es" "children_of A st i (vd_path d) es (vd_children d)"
    "is_ready (vd_children d)" "index_invar (vd_children d)" by (rule loaded_children[OF ok d(1,2)])
  have cs: "sorted_wrt (<) (map fst cs)" "map_of cs = index_get (vd_children d)"
    using fixed_index.entries_sealed[OF es(5,4)] d(3) by auto
  then have mem: "(n, j) \<in> set cs \<longleftrightarrow> child_inode st i n = Some j" for n j
    using d(1) by (metis child_inode_def map_of_eq_Some_iff option.simps(5) strict_sorted_iff view_node.simps(5))
  have child: "\<exists>e node. entry_named es n = Some e \<and> node_at st j = Some node \<and> node_for A i (join_path (vd_path d) n) e node"
    if "child_inode st i n = Some j" for n j
    using es(3)[unfolded children_of_def, rule_format, of n] that d(1) by (auto simp: child_inode_def split: option.splits)
  show "listed st l" unfolding listed_def l(1) using mem child by fastforce
  define f where "f = (\<lambda>k. readdir_entry st (entry_at l k))"
  define rest where "rest = map (\<lambda>m. f (m + 2)) [0..<length cs]"
  have rest: "length rest = length cs"
    "\<And>m. m < length cs \<Longrightarrow> rest ! m = \<lparr>de_inode = snd (cs ! m), de_kind = (case node_at st (snd (cs ! m)) of Some node \<Rightarrow> view_entry_kind node | None \<Rightarrow> RegularType),
        de_name = fst (cs ! m), de_offset = m + 3\<rparr>"
    by (simp_all add: rest_def f_def entry_at_def readdir_entry_def l)
  have "map f [0..<length cs + 2] = f 0 # f 1 # rest"
    unfolding rest_def upt_two by (simp add: comp_def)
  moreover have "f 0 = \<lparr>de_inode = i, de_kind = DirectoryType, de_name = ''.'', de_offset = 1\<rparr>"
    "f 1 = \<lparr>de_inode = vd_parent d, de_kind = DirectoryType, de_name = ''..'', de_offset = 2\<rparr>"
    by (simp_all add: f_def entry_at_def readdir_entry_def l)
  moreover have "map de_name rest = map fst cs" by (rule nth_equalityI) (simp_all add: rest)
  moreover have "map de_offset rest = [3..<length rest + 3]" by (rule nth_equalityI) (simp_all add: rest del: upt_Suc)
  moreover have "(\<exists>x\<in>set rest. de_name x = n \<and> de_inode x = j \<and> de_kind x = k) \<longleftrightarrow>
         (\<exists>e node. entry_named es n = Some e \<and> child_inode st i n = Some j \<and> node_at st j = Some node
           \<and> node_for A i (join_path (vd_path d) n) e node \<and> k = view_entry_kind node)" for n j k
  proof -
    have "(\<exists>x\<in>set rest. de_name x = n \<and> de_inode x = j \<and> de_kind x = k) \<longleftrightarrow>
      (n, j) \<in> set cs \<and> k = (case node_at st j of Some node \<Rightarrow> view_entry_kind node | None \<Rightarrow> RegularType)"
    proof
      assume "\<exists>x\<in>set rest. de_name x = n \<and> de_inode x = j \<and> de_kind x = k"
      then obtain m where m: "m < length cs" "de_name (rest ! m) = n" "de_inode (rest ! m) = j" "de_kind (rest ! m) = k"
        unfolding rest(1)[symmetric] by (metis in_set_conv_nth)
      then have "cs ! m = (n, j)" by (simp add: rest(2) prod_eq_iff)
      then show "(n, j) \<in> set cs \<and> k = (case node_at st j of Some node \<Rightarrow> view_entry_kind node | None \<Rightarrow> RegularType)"
        using m rest(2)[OF m(1)] nth_mem[OF m(1)] by simp
    next
      assume r: "(n, j) \<in> set cs \<and> k = (case node_at st j of Some node \<Rightarrow> view_entry_kind node | None \<Rightarrow> RegularType)"
      then obtain m where m: "m < length cs" "cs ! m = (n, j)" by (auto simp: in_set_conv_nth)
      then have "rest ! m \<in> set rest" using rest(1) by simp
      then show "\<exists>x\<in>set rest. de_name x = n \<and> de_inode x = j \<and> de_kind x = k"
        by (rule bexI[rotated]) (use rest(2)[OF m(1)] m(2) r in simp)
    qed
    then show ?thesis unfolding mem using child by fastforce
  qed
  ultimately show "whole_listing A D st i (map (\<lambda>k. readdir_entry st (entry_at l k)) [0..<length cs + 2])"
    unfolding whole_listing_def f_def[symmetric] using d(1,2) es(1,2) cs(1) by auto
qed

section \<open>Properties\<close>

lemma listing_stream_ok:
  assumes env: "env_ok A D root E" and ok: "view_ok A D root st"
    and stream: "\<And>st l t. view_ok A D root st \<Longrightarrow> listed st l \<Longrightarrow> guarantees A D root st (stream l t st)
      (\<lambda>st' b. f b = map (\<lambda>k. readdir_entry st' (entry_at l k)) [dl_next l..<length (dl_entries l) + 2] \<and> K st' b)"
  shows "guarantees A D root st (act_bind (ensure_loaded E 0 st i) (\<lambda>st _ t. let st = view_lock E t st; t = Suc t in
      act_bind (act_lift st t (listing st i offset)) (\<lambda>st l t. act_bind (check_lease_io E t st) (\<lambda>st _ t. stream l t st))))
    (\<lambda>st' b. (\<exists>whole. whole_listing A D st' i whole \<and> f b = drop (nat (max offset 0)) whole) \<and> K st' b)"
proof (rule guarantees_bind[OF ensure_loaded_ok[OF env ok]])
  fix st1 and a :: unit and t1
  assume st1: "view_ok A D root st1" and load: "loaded_if_dir i st1"
  let ?post = "\<lambda>st' b. (\<exists>whole. whole_listing A D st' i whole \<and> f b = drop (nat (max offset 0)) whole) \<and> K st' b"
  define st2 where "st2 = view_lock E t1 st1"
  have st2: "view_ok A D root st2" "view_le st1 st2" using view_lock_ok[OF env st1] by (simp_all add: st2_def)
  have "guarantees A D root st2 (act_bind (act_lift st2 (Suc t1) (listing st2 i offset)) (\<lambda>st l t.
      act_bind (check_lease_io E t st) (\<lambda>st _ t. stream l t st))) ?post"
  proof (rule guarantees_lift_bind[OF st2(1)])
    fix l u assume run: "listing st2 i offset = Inr l"
    then obtain d cs where d: "node_at st2 i = Some (DirN d)" "index_snapshot (vd_children d) = Inr cs"
      and l: "l = \<lparr>dl_entries = cs, dl_inode = i, dl_parent = vd_parent d, dl_next = min (nat (max offset 0)) (length cs + 2)\<rparr>"
      by (auto simp: listing_def rbind_eq_Inr map_err_def split: option.splits view_node.splits sum.splits)
    have ld: "vd_loaded d"
    proof (rule ccontr)
      assume "\<not> vd_loaded d"
      moreover have "dir_ok A D st2 i d" using st2(1) d(1) unfolding view_ok_def by blast
      ultimately show False using d(2) by (auto simp: dir_ok_def index_default_def)
    qed
    show "guarantees A D root st2 (act_bind (check_lease_io E u st2) (\<lambda>st _ t. stream l t st)) ?post"
    proof (rule guarantees_lease_bind[OF st2(1)])
      fix w
      have "listed st2 l" using whole_listing_ok(2)[OF st2(1) d(1) ld d(2)] by (simp add: l)
      from stream[OF st2(1) this, of w] obtain st3 r where r: "stream l w st2 = Some (st3, r)" "view_ok A D root st3" "view_le st2 st3"
        "\<And>b t. r = Inr (b, t) \<Longrightarrow> f b = map (\<lambda>k. readdir_entry st3 (entry_at l k)) [dl_next l..<length (dl_entries l) + 2] \<and> K st3 b"
        unfolding guarantees_def by blast
      obtain node where "node_at st3 i = Some node" "node_same (DirN d) node" using view_le_node[OF r(3) d(1)] by blast
      then have d3: "node_at st3 i = Some (DirN d)" using ld by (auto simp: node_same_def split: view_node.splits)
      have "whole_listing A D st3 i (map (\<lambda>k. readdir_entry st3 (entry_at l k)) [0..<length cs + 2])"
        by (rule whole_listing_ok[OF r(2) d3 ld d(2)]) (simp_all add: l)
      moreover have "map (\<lambda>k. readdir_entry st3 (entry_at l k)) [dl_next l..<length (dl_entries l) + 2]
        = drop (nat (max offset 0)) (map (\<lambda>k. readdir_entry st3 (entry_at l k)) [0..<length cs + 2])"
        unfolding drop_map drop_upt by (simp add: l min_def del: upt_Suc)
      ultimately show "guarantees A D root st2 (stream l w st2) ?post"
        unfolding guarantees_def using r by (intro exI[of _ st3] exI[of _ r]) fastforce
    qed
  qed
  then show "guarantees A D root st1 (let st = view_lock E t1 st1; t = Suc t1 in
      act_bind (act_lift st t (listing st i offset)) (\<lambda>st l t. act_bind (check_lease_io E t st) (\<lambda>st _ t. stream l t st))) ?post"
    unfolding Let_def st2_def[symmetric] by (rule guarantees_from[OF _ st2(2)])
qed

lemma readdir_ok:
  assumes env: "env_ok A D root E" and ok: "view_ok A D root st"
  shows "guarantees A D root st (readdir E st i offset)
    (\<lambda>st' items. \<exists>whole. whole_listing A D st' i whole \<and> items = drop (nat (max offset 0)) whole)"
proof -
  have "guarantees A D root st (stream_readdir (Suc (length (dl_entries l) + 2 - dl_next l)) E t st l)
      (\<lambda>st' b. id b = map (\<lambda>k. readdir_entry st' (entry_at l k)) [dl_next l..<length (dl_entries l) + 2] \<and> True)"
    if "view_ok A D root st" "listed st l" for st l t
    using stream_readdir_ok[OF env that, of "Suc (length (dl_entries l) + 2 - dl_next l)" t] by simp
  from listing_stream_ok[OF env ok, of "\<lambda>l t st. stream_readdir (Suc (length (dl_entries l) + 2 - dl_next l)) E t st l", OF this]
  show ?thesis unfolding readdir_def by simp
qed

lemma readdirplus_ok:
  assumes env: "env_ok A D root E" and ok: "view_ok A D root st"
  shows "guarantees A D root st (readdirplus E st i offset)
    (\<lambda>st' items. (\<exists>whole. whole_listing A D st' i whole \<and> map directory_entry.truncate items = drop (nat (max (as_i64 offset) 0)) whole)
      \<and> attributed (ve_owner E) st' items)"
  unfolding readdirplus_def
  by (rule listing_stream_ok[OF env ok]) (rule stream_readdirplus_ok[OF env], simp_all)

text \<open>The attributes the snapshot commits to for an entry.\<close>

definition attr_for :: "auth_env \<Rightarrow> entry \<Rightarrow> file_attr \<Rightarrow> bool" where
  "attr_for A e attr \<longleftrightarrow>
    fa_kind attr = (case en_kind e of Directory_Kind \<Rightarrow> DirectoryType | Symlink \<Rightarrow> SymlinkType | _ \<Rightarrow> RegularType)
    \<and> fa_perm attr = node_mode (entry_identity A e)
    \<and> fa_size attr = (if en_kind e = Directory_Kind then 0 else en_size e)"

lemma node_attr_for:
  assumes "node_at st j = Some node" "node_for A p path e node"
  shows "\<exists>attr. node_attr owner st j = Inr attr \<and> fa_ino attr = j \<and> attr_for A e attr"
  using assms by (cases "en_kind e")
    (auto simp: node_attr_def node_for_def attr_for_def dir_attr_def file_node_attr_def make_file_attr_def is_symlink_file_def entry_file_def
      kind_text_def entry_identity_def Let_def split: view_node.splits)

definition looked_up :: "auth_env \<Rightarrow> (string \<Rightarrow> page option) \<Rightarrow> nat \<Rightarrow> string \<Rightarrow> view_state \<Rightarrow> file_attr \<Rightarrow> bool" where
  "looked_up A D i n st attr \<longleftrightarrow> (\<exists>d pid es e. node_at st i = Some (DirN d) \<and> vd_page_id d = Some pid \<and> radix_denotes A D pid es
    \<and> entry_named es n = Some e \<and> child_inode st i n = Some (fa_ino attr) \<and> attr_for A e attr)"

lemma lookup_ok:
  assumes env: "env_ok A D root E" and ok: "view_ok A D root st"
  shows "guarantees A D root st (view_lookup E st i n) (looked_up A D i n)"
  unfolding view_lookup_def
proof (rule guarantees_bind[OF ensure_loaded_ok[OF env ok]])
  fix st1 and a :: unit and t1
  assume st1: "view_ok A D root st1" and load: "loaded_if_dir i st1"
  define st2 where "st2 = view_lock E t1 st1"
  have st2: "view_ok A D root st2" "view_le st1 st2" using view_lock_ok[OF env st1] by (simp_all add: st2_def)
  define tail where "tail = (\<lambda>st inode t. let st = view_lock E t st; t = Suc t in
    act_bind (act_lift st t (node_attr (ve_owner E) st inode)) (\<lambda>st attr t.
    act_bind (check_lease_io E t st) (\<lambda>st _ t. Some (st, Inr (attr, t)))))"
  have last: "guarantees A D root st2 (tail st2 j w) (looked_up A D i n)" if j: "child_inode st2 i n = Some j" for j w
  proof -
    obtain d where d: "node_at st2 i = Some (DirN d)" "index_get (vd_children d) n = Some j"
      using j by (auto simp: child_inode_def split: option.splits view_node.splits)
    have ld: "vd_loaded d"
    proof (rule ccontr)
      assume "\<not> vd_loaded d"
      moreover have "dir_ok A D st2 i d" using st2(1) d(1) unfolding view_ok_def by blast
      ultimately have "vd_children d = index_default" unfolding dir_ok_def by auto
      then show False using d(2) fixed_index.get_empty by simp
    qed
    obtain pid es where es: "vd_page_id d = Some pid" "radix_denotes A D pid es" "children_of A st2 i (vd_path d) es (vd_children d)"
      by (rule loaded_children[OF st2(1) d(1) ld])
    obtain e node where e: "entry_named es n = Some e" "node_at st2 j = Some node" "node_for A i (join_path (vd_path d) n) e node"
      using es(3)[unfolded children_of_def, rule_format, of n] d(2) by (auto split: option.splits)
    define st3 where "st3 = view_lock E w st2"
    have st3: "view_ok A D root st3" "view_le st2 st3" using view_lock_ok[OF env st2(1)] by (simp_all add: st3_def)
    obtain node3 where n3: "node_at st3 j = Some node3" "node_for A i (join_path (vd_path d) n) e node3"
      using view_le_node[OF st3(2) e(2)] node_for_same[OF e(3)] by blast
    obtain nd where "node_at st3 i = Some nd" "node_same (DirN d) nd" using view_le_node[OF st3(2) d(1)] by blast
    then have d3: "node_at st3 i = Some (DirN d)" using ld by (auto simp: node_same_def split: view_node.splits)
    have "guarantees A D root st3 (act_bind (act_lift st3 (Suc w) (node_attr (ve_owner E) st3 j)) (\<lambda>st attr t.
      act_bind (check_lease_io E t st) (\<lambda>st _ t. Some (st, Inr (attr, t))))) (looked_up A D i n)"
    proof (rule guarantees_lift_bind[OF st3(1)], rule guarantees_lease_bind[OF st3(1)], rule guarantees_return[OF st3(1)])
      fix attr assume "node_attr (ve_owner E) st3 j = Inr attr"
      then have "fa_ino attr = j" "attr_for A e attr" using node_attr_for[OF n3, of "ve_owner E"] by auto
      then show "looked_up A D i n st3 attr" unfolding looked_up_def using d3 es(1,2) e(1) d(2) by (auto simp: child_inode_def)
    qed
    then show ?thesis unfolding tail_def Let_def st3_def[symmetric] by (rule guarantees_from[OF _ st3(2)])
  qed
  have "guarantees A D root st2 (act_bind (check_lease_io E (Suc t1) st2) (\<lambda>st _ t.
      act_bind (act_lift st t (ok_or (child_inode st2 i n) ENOENT)) tail)) (looked_up A D i n)"
    by (rule guarantees_lease_bind[OF st2(1)], rule guarantees_lift_bind[OF st2(1)], rule last) (auto simp: ok_or_def split: option.splits)
  then show "guarantees A D root st1 (let st = view_lock E t1 st1; t = Suc t1; child = child_inode st i n in
      act_bind (check_lease_io E t st) (\<lambda>st _ t. act_bind (act_lift st t (ok_or child ENOENT)) (\<lambda>st inode t.
      let st = view_lock E t st; t = Suc t in act_bind (act_lift st t (node_attr (ve_owner E) st inode)) (\<lambda>st attr t.
      act_bind (check_lease_io E t st) (\<lambda>st _ t. Some (st, Inr (attr, t))))))) (looked_up A D i n)"
    unfolding Let_def st2_def[symmetric] using guarantees_from[OF _ st2(2)] by (simp add: tail_def Let_def)
qed

lemma child_entry:
  assumes "child_inode st i n = Some j" and ok: "view_ok A D root st" and d: "node_at st i = Some (DirN d)" "vd_page_id d = Some pid"
    and es: "radix_denotes A D pid es" and load: "loaded_if_dir i st"
  obtains e node where "entry_named es n = Some e" "node_at st j = Some node" "node_for A i (join_path (vd_path d) n) e node"
proof -
  have ld: "vd_loaded d" using load d(1) by (auto simp: loaded_if_dir_def)
  obtain pid' es' where es': "vd_page_id d = Some pid'" "radix_denotes A D pid' es'" "children_of A st i (vd_path d) es' (vd_children d)"
    by (rule loaded_children[OF ok d(1) ld])
  then have "es' = es" using radix_denotes_unique d(2) es by fastforce
  then show thesis using that es'(3)[unfolded children_of_def, rule_format, of n] assms(1) d(1) by (auto simp: child_inode_def split: option.splits)
qed

lemma whole_listing_same:
  assumes "whole_listing A D st i whole" "view_le st st'" "whole_listing A D st' i whole'"
    and ok: "view_ok A D root st"
  shows "whole' = whole"
proof -
  obtain d pid es rest where w: "node_at st i = Some (DirN d)" "vd_page_id d = Some pid" "radix_denotes A D pid es"
    "whole = \<lparr>de_inode = i, de_kind = DirectoryType, de_name = ''.'', de_offset = 1\<rparr>
        # \<lparr>de_inode = vd_parent d, de_kind = DirectoryType, de_name = ''..'', de_offset = 2\<rparr> # rest"
    "sorted_wrt (<) (map de_name rest)" "map de_offset rest = [3..<length rest + 3]"
    "\<And>n j k. (\<exists>x\<in>set rest. de_name x = n \<and> de_inode x = j \<and> de_kind x = k) \<longleftrightarrow>
         (\<exists>e node. entry_named es n = Some e \<and> child_inode st i n = Some j \<and> node_at st j = Some node
           \<and> node_for A i (join_path (vd_path d) n) e node \<and> k = view_entry_kind node)"
    and ld: "vd_loaded d"
    using assms(1) unfolding whole_listing_def by blast
  have load: "loaded_if_dir i st" using w(1) ld by (simp add: loaded_if_dir_def)
  obtain d' pid' es' rest' where w': "node_at st' i = Some (DirN d')" "vd_page_id d' = Some pid'" "radix_denotes A D pid' es'"
    "whole' = \<lparr>de_inode = i, de_kind = DirectoryType, de_name = ''.'', de_offset = 1\<rparr>
        # \<lparr>de_inode = vd_parent d', de_kind = DirectoryType, de_name = ''..'', de_offset = 2\<rparr> # rest'"
    "sorted_wrt (<) (map de_name rest')" "map de_offset rest' = [3..<length rest' + 3]"
    "\<And>n j k. (\<exists>x\<in>set rest'. de_name x = n \<and> de_inode x = j \<and> de_kind x = k) \<longleftrightarrow>
         (\<exists>e node. entry_named es' n = Some e \<and> child_inode st' i n = Some j \<and> node_at st' j = Some node
           \<and> node_for A i (join_path (vd_path d') n) e node \<and> k = view_entry_kind node)"
    using assms(3) unfolding whole_listing_def by blast
  have d: "d' = d" using view_le_node[OF assms(2) w(1)] w'(1) load w(1) by (auto simp: loaded_if_dir_def node_same_def split: view_node.splits)
  then have es: "es' = es" using radix_denotes_unique w(2,3) w'(2,3) by fastforce
  have ch: "child_inode st' i n = child_inode st i n" for n using w(1) w'(1) d by (simp add: child_inode_def)
  have row: "(\<exists>x\<in>set rest. de_name x = n \<and> de_inode x = j \<and> de_kind x = k) \<longleftrightarrow> (\<exists>x\<in>set rest'. de_name x = n \<and> de_inode x = j \<and> de_kind x = k)" for n j k
  proof (cases "child_inode st i n = Some j")
    case True
    then obtain e node where e: "entry_named es n = Some e" "node_at st j = Some node" "node_for A i (join_path (vd_path d) n) e node"
      using ok w(1-3) load by (rule child_entry)
    obtain node' where "node_at st' j = Some node'" "node_for A i (join_path (vd_path d) n) e node'" "view_entry_kind node' = view_entry_kind node"
      using view_le_node[OF assms(2) e(2)] node_for_same[OF e(3)] view_entry_kind_same by blast
    then show ?thesis unfolding w(7) w'(7) d es ch using e by simp
  qed (simp add: w(7) w'(7) ch)
  have names: "map de_name rest' = map de_name rest"
  proof (rule sorted_distinct_set_unique)
    show "set (map de_name rest') = set (map de_name rest)" using row by (auto simp: image_iff) metis+
  qed (use w(5) w'(5) in \<open>simp_all add: strict_sorted_iff\<close>)
  then have len: "length rest' = length rest" by (metis length_map)
  have "rest' = rest"
  proof (rule nth_equalityI[OF len])
    fix m assume m: "m < length rest'"
    then obtain x where x: "x \<in> set rest" "de_name x = de_name (rest' ! m)" "de_inode x = de_inode (rest' ! m)" "de_kind x = de_kind (rest' ! m)"
      using row[of "de_name (rest' ! m)" "de_inode (rest' ! m)" "de_kind (rest' ! m)"] nth_mem[OF m] by blast
    have "de_name (rest' ! m) = de_name (rest ! m)" using names m len by (metis nth_map)
    moreover have "inj_on de_name (set rest)" using w(5) by (simp add: strict_sorted_iff distinct_map)
    ultimately have "x = rest ! m" using x m len by (metis inj_onD nth_mem)
    moreover have "de_offset (rest' ! m) = de_offset (rest ! m)" using w(6) w'(6) m len by (metis nth_map)
    ultimately show "rest' ! m = rest ! m" using x by simp
  qed
  then show ?thesis using w(4) w'(4) d by simp
qed

text \<open>
  C8: directory streams are exact and resume.  Listing a directory of a view, from any offset, returns; the
  entries are those of the complete listing after the offset (the directory, its parent and, in name order,
  every entry the directory's page commits to, with its inode and kind); and a stream opened later at an
  offset the first one handed out, with anything else running in between, carries on exactly there.
\<close>
theorem readdir_exact:
  assumes "view_reaches A D r st" "env_ok A D (metadata_root (reader_descriptor r)) E"
  shows "\<exists>st' x. readdir E st i offset = Some (st', x) \<and> view_le st st'
    \<and> (\<forall>items t. x = Inr (items, t) \<longrightarrow> (\<exists>whole. whole_listing A D st' i whole \<and> items = drop (nat (max offset 0)) whole
      \<and> (\<forall>E2 st2 k st3 more t2. env_ok A D (metadata_root (reader_descriptor r)) E2 \<longrightarrow> view_reaches A D r st2 \<longrightarrow> view_le st' st2
          \<longrightarrow> readdir E2 st2 i (int k) = Some (st3, Inr (more, t2)) \<longrightarrow> more = drop k whole)))"
proof -
  let ?root = "metadata_root (reader_descriptor r)"
  obtain st' x where run: "readdir E st i offset = Some (st', x)" "view_ok A D ?root st'" "view_le st st'"
    and items: "\<And>items t. x = Inr (items, t) \<Longrightarrow> \<exists>whole. whole_listing A D st' i whole \<and> items = drop (nat (max offset 0)) whole"
    using readdir_ok[OF assms(2) view_reaches_ok[OF assms(1)], of i offset] unfolding guarantees_def by blast
  have "more = drop k whole" if w: "whole_listing A D st' i whole" and E2: "env_ok A D ?root E2" and st2: "view_reaches A D r st2" "view_le st' st2"
    and again: "readdir E2 st2 i (int k) = Some (st3, Inr (more, t2))" for whole E2 st2 k st3 more t2
  proof -
    obtain whole' where st3: "view_le st2 st3" and w': "whole_listing A D st3 i whole'" and m: "more = drop k whole'"
      using readdir_ok[OF E2 view_reaches_ok[OF st2(1)], of i "int k"] again unfolding guarantees_def by auto
    have "whole' = whole" by (rule whole_listing_same[OF w view_le_trans[OF st2(2) st3] w' run(2)])
    then show ?thesis using m by simp
  qed
  note resume = this
  show ?thesis
  proof (rule exI[of _ st'], rule exI[of _ x], intro conjI allI impI)
    fix items t assume "x = Inr (items, t)"
    then obtain whole where w: "whole_listing A D st' i whole" "items = drop (nat (max offset 0)) whole" using items by blast
    have "\<forall>E2 st2 k st3 more t2. env_ok A D ?root E2 \<longrightarrow> view_reaches A D r st2 \<longrightarrow> view_le st' st2
          \<longrightarrow> readdir E2 st2 i (int k) = Some (st3, Inr (more, t2)) \<longrightarrow> more = drop k whole"
      using resume[OF w(1)] by blast
    with w show "\<exists>whole. whole_listing A D st' i whole \<and> items = drop (nat (max offset 0)) whole
      \<and> (\<forall>E2 st2 k st3 more t2. env_ok A D ?root E2 \<longrightarrow> view_reaches A D r st2 \<longrightarrow> view_le st' st2
          \<longrightarrow> readdir E2 st2 i (int k) = Some (st3, Inr (more, t2)) \<longrightarrow> more = drop k whole)"
      by (intro exI[of _ whole] conjI)
  qed (fact run)+
qed

text \<open>
  C9: a lookup answers what the snapshot commits to.  Looking a name up in a directory of a view returns; a
  name found has the inode recorded for it and the kind, permission bits and size of the entry the
  directory's page commits to; and listing with attributes gives each listed entry the attributes that a
  lookup of its inode gives.
\<close>
theorem lookup_exact:
  assumes "view_reaches A D r st" "env_ok A D (metadata_root (reader_descriptor r)) E"
  shows "(\<exists>st' x. view_lookup E st i n = Some (st', x) \<and> view_le st st' \<and> (\<forall>attr t. x = Inr (attr, t) \<longrightarrow> looked_up A D i n st' attr))
    \<and> (\<exists>st' x. readdirplus E st i offset = Some (st', x) \<and> view_le st st' \<and> (\<forall>items t. x = Inr (items, t) \<longrightarrow>
        (\<exists>whole. whole_listing A D st' i whole \<and> map directory_entry.truncate items = drop (nat (max (as_i64 offset) 0)) whole)
        \<and> attributed (ve_owner E) st' items))"
  using lookup_ok[OF assms(2) view_reaches_ok[OF assms(1)], of i n] readdirplus_ok[OF assms(2) view_reaches_ok[OF assms(1)], of i offset]
  unfolding guarantees_def by blast

lemma demo_loads: "ensure_loaded demo_view t (lazy_state demo_reader) ROOT_INODE = Some (demo_loaded, Inr ((), t + 11))"
proof -
  have view: "ve_reader demo_view = Some demo_source" "ve_others demo_view t st = st" "ve_lease_before demo_view t = Inr ()"
    "ve_lease_after demo_view t = Inr ()" "ve_store demo_view = False" for t st
    by (simp_all add: demo_view_def)
  have "needs_loading (lazy_state demo_reader) ROOT_INODE" by (simp add: needs_loading_def lazy_state_def node_at_def root_dir_def)
  then show ?thesis
    by (simp add: ensure_loaded_def check_lease_io_def check_metadata_lease_def act_map_err_def act_lift_def act_bind_def map_err_def view view_lock_def
        ensure_dir_loaded_def check_lease_after_io_def check_lease_after_def demo_load Let_def store_reader_def)
qed

lemma act_bind_value: "act_bind (Some (st, Inr (x, t))) f = f st x t" "act_lift st t (Inr x) = Some (st, Inr (x, t))"
  by (simp_all add: act_bind_def act_lift_def)

lemma demo_readdir:
  "readdir demo_view (lazy_state demo_reader) ROOT_INODE 2
    = Some (demo_loaded, Inr ([\<lparr>de_inode = 2, de_kind = RegularType, de_name = ''b'', de_offset = 3\<rparr>], 16))"
proof -
  have view: "ve_reader demo_view = Some demo_source" "ve_others demo_view t st = st" "ve_lease_before demo_view t = Inr ()" for t st
    by (simp_all add: demo_view_def)
  have nodes: "node_at demo_loaded ROOT_INODE = Some (DirN \<lparr>vd_path = [], vd_children = Ready [(''b'', 2)], vd_parent = 1, vd_loaded = True,
         vd_page_id = Some (demo_key 0x22), vd_membership = Some (scope_root demo_reader)\<rparr>)"
    "\<exists>f. node_at demo_loaded 2 = Some (FileN f) \<and> view_entry_kind (FileN f) = RegularType"
    by (simp_all add: demo_loaded_def node_at_def ROOT_INODE_def view_entry_kind_def is_symlink_file_def)
  have lst: "listing demo_loaded ROOT_INODE 2 = Inr \<lparr>dl_entries = [(''b'', 2)], dl_inode = ROOT_INODE, dl_parent = Suc 0, dl_next = 2\<rparr>"
    by (simp add: listing_def nodes(1) map_err_def)
  have lease: "check_lease_io demo_view t st = Some (st, Inr ((), t + 1))" for t st
    by (simp add: check_lease_io_def check_metadata_lease_def act_map_err_def act_lift_def map_err_def view)
  have kind: "readdir_entry demo_loaded \<lparr>le_inode = 2, le_kind = None, le_name = ''b'', le_offset = 3\<rparr>
    = \<lparr>de_inode = 2, de_kind = RegularType, de_name = ''b'', de_offset = 3\<rparr>"
    using nodes(2) by (auto simp: readdir_entry_def)
  have nx: "listing_next \<lparr>dl_entries = [(''b'', 2)], dl_inode = ROOT_INODE, dl_parent = Suc 0, dl_next = 2\<rparr>
      = Some (\<lparr>le_inode = 2, le_kind = None, le_name = ''b'', le_offset = 3\<rparr>, \<lparr>dl_entries = [(''b'', 2)], dl_inode = ROOT_INODE, dl_parent = Suc 0, dl_next = 3\<rparr>)"
    "listing_next \<lparr>dl_entries = [(''b'', 2)], dl_inode = ROOT_INODE, dl_parent = Suc 0, dl_next = 3\<rparr> = None"
    by (simp_all add: listing_next_def numeral_2_eq_2 numeral_3_eq_3)
  have "stream_readdir (Suc (Suc 0)) demo_view t demo_loaded \<lparr>dl_entries = [(''b'', 2)], dl_inode = ROOT_INODE, dl_parent = Suc 0, dl_next = 2\<rparr>
      = Some (demo_loaded, Inr ([\<lparr>de_inode = 2, de_kind = RegularType, de_name = ''b'', de_offset = 3\<rparr>], t + 3))" for t
    by (simp add: lease act_bind_def nx kind view_lock_def view Let_def)
  note stream = this
  have fuel: "Suc (length (dl_entries \<lparr>dl_entries = [(''b'', 2)], dl_inode = ROOT_INODE, dl_parent = Suc 0, dl_next = 2\<rparr>) + 2
      - dl_next \<lparr>dl_entries = [(''b'', 2)], dl_inode = ROOT_INODE, dl_parent = Suc 0, dl_next = 2\<rparr>) = Suc (Suc 0)" by simp
  show ?thesis
    unfolding readdir_def demo_loads act_bind_value Let_def view_lock_def view lst act_bind_value lease fuel stream by simp
qed

theorem readdir_exact_witness:
  "readdir demo_view (lazy_state demo_reader) ROOT_INODE 2
     = Some (demo_loaded, Inr ([\<lparr>de_inode = 2, de_kind = RegularType, de_name = ''b'', de_offset = 3\<rparr>], 16))
   \<and> (\<exists>whole. whole_listing demo_auth demo_table demo_loaded ROOT_INODE whole
        \<and> drop 2 whole = [\<lparr>de_inode = 2, de_kind = RegularType, de_name = ''b'', de_offset = 3\<rparr>])"
proof -
  have root: "metadata_root (reader_descriptor demo_reader) = demo_key 0x22" by (simp add: demo_reader_fields)
  show ?thesis
    using readdir_exact[OF reaches_new[of demo_auth demo_table demo_reader], of demo_view ROOT_INODE 2, unfolded root, OF demo_env_ok] demo_readdir
    by auto
qed

lemma demo_lookup: "\<exists>attr t. view_lookup demo_view (lazy_state demo_reader) ROOT_INODE ''b'' = Some (demo_loaded, Inr (attr, t)) \<and> fa_size attr = 7"
proof -
  have view: "ve_reader demo_view = Some demo_source" "ve_others demo_view t st = st" "ve_lease_before demo_view t = Inr ()" for t st
    by (simp_all add: demo_view_def)
  have lease: "check_lease_io demo_view t st = Some (st, Inr ((), t + 1))" for t st
    by (simp add: check_lease_io_def check_metadata_lease_def act_map_err_def act_lift_def map_err_def view)
  have child: "child_inode demo_loaded ROOT_INODE ''b'' = Some 2" 
  proof -
    have "index_get (Ready [(''b'', 2 :: nat)]) ''b'' = Some 2" by code_simp
    then show ?thesis by (simp add: child_inode_def demo_loaded_def node_at_def ROOT_INODE_def del: index_get.simps)
  qed
  have attr: "\<exists>attr. node_attr (ve_owner demo_view) demo_loaded 2 = Inr attr \<and> fa_size attr = 7"
    by (simp add: node_attr_def demo_loaded_def node_at_def file_node_attr_def make_file_attr_def Let_def)
  then show ?thesis
    by (auto simp: view_lookup_def demo_loads act_bind_def act_lift_def view_lock_def view child lease Let_def ok_or_def)
qed

theorem lookup_exact_witness:
  "\<exists>attr t. view_lookup demo_view (lazy_state demo_reader) ROOT_INODE ''b'' = Some (demo_loaded, Inr (attr, t)) \<and> fa_size attr = 7
     \<and> looked_up demo_auth demo_table ROOT_INODE ''b'' demo_loaded attr"
proof -
  have root: "metadata_root (reader_descriptor demo_reader) = demo_key 0x22" by (simp add: demo_reader_fields)
  show ?thesis
    using lookup_exact[OF reaches_new[of demo_auth demo_table demo_reader], of demo_view ROOT_INODE "''b''" 0, unfolded root, OF demo_env_ok] demo_lookup
    by auto
qed

end
