(* ===== verification/View_Diff.thy ===== *)
theory View_Diff
  imports View_Ops
begin

text \<open>
  The changes of an upper directory over a fixed view (\<^verbatim>\<open>snapshot/upper_diff.rs\<close> asking \<^verbatim>\<open>snapshot/fuse.rs\<close>):
  the diff's questions about the lower layer are answered by the recorded metadata of a view, in whatever
  state the view is when each question is put.
\<close>

section \<open>The lower layer of a diff is a view\<close>

definition answer_of :: "(snapshot_error, 'a) act \<Rightarrow> 'a result" where
  "answer_of m = (case m of
      Some (_, Inr (a, _)) \<Rightarrow> Inr a
    | Some (_, Inl e) \<Rightarrow> Inl e
    | None \<Rightarrow> Inl (diff_unknown ''no answer''))"

text \<open>The environment \<open>V k\<close> and the view \<open>W k\<close> are those of the diff's \<open>k\<close>-th question.\<close>

definition over_view :: "(nat \<Rightarrow> view_env) \<Rightarrow> (nat \<Rightarrow> view_state) \<Rightarrow> diff_env \<Rightarrow> diff_env" where
  "over_view V W E = E\<lparr>
     de_context := view_context (V 0) (W 0),
     de_state := (\<lambda>k path. answer_of (recorded_path_state (V k) 0 (W k) path)),
     de_entries := (\<lambda>k path. answer_of (recorded_directory_entries (V k) 0 (W k) path))\<rparr>"

text \<open>What the snapshot has at a path, as a function on the paths of the diff.\<close>

definition snapshot_tree :: "auth_env \<Rightarrow> (string \<Rightarrow> page option) \<Rightarrow> string \<Rightarrow> (string \<Rightarrow> snapshot_node_identity option) \<Rightarrow> bool" where
  "snapshot_tree A D root L \<longleftrightarrow>
    (\<forall>cs i. list_all good_name cs \<longrightarrow> (L (path_of cs) = Some i \<longleftrightarrow> path_denotes A D root cs (Some i)))"

text \<open>The metadata codec admits only entries whose name is not empty and has no slash.\<close>

definition good_entries :: "auth_env \<Rightarrow> (string \<Rightarrow> page option) \<Rightarrow> bool" where
  "good_entries A D \<longleftrightarrow> (\<forall>pid es n e. radix_denotes A D pid es \<longrightarrow> entry_named es n = Some e \<longrightarrow> good_name n)"

section \<open>Paths of a snapshot\<close>

lemma names_of_path_of:
  assumes "list_all good_name cs"
  shows "names_of (path_of cs) = cs"
proof (cases "cs = []")
  case False
  then have ne: "path_of cs \<noteq> []" using path_of_eq_Nil[OF assms] by simp
  obtain c x where c: "path_of cs = c # x" using ne by (cases "path_of cs") auto
  have "c \<noteq> CHR ''/''"
  proof
    assume "c = CHR ''/''"
    then have "split_on CHR ''/'' (path_of cs) = [] # split_on CHR ''/'' x" by (simp add: c)
    then have "[] \<in> set cs" using split_path_of[OF assms False] by (metis list.set_intros(1))
    then show False using assms by (auto simp: list_all_iff good_name_def)
  qed
  then show ?thesis using split_path_of[OF assms False] by (simp add: names_of_def c trim_start_slashes_def)
qed (simp add: names_of_def)

lemma path_denotes_below:
  "path_denotes A D root cs x \<Longrightarrow> x = Some (DirectoryNode r) \<Longrightarrow> path_denotes A D root (cs @ ns) y \<longleftrightarrow> path_denotes A D r ns y"
proof (induction arbitrary: r rule: path_denotes.induct)
  case (denotes_file q es n e)
  then show ?case by (cases "en_kind e") (auto simp: entry_identity_def)
next
  case (denotes_below q es n e ms x)
  have "path_denotes A D q ((n # ms) @ ns) y \<longleftrightarrow> path_denotes A D (closure_digest A (en_child_root e)) (ms @ ns) y"
  proof
    assume "path_denotes A D q ((n # ms) @ ns) y"
    then have "path_denotes A D q (n # (ms @ ns)) y" by simp
    then show "path_denotes A D (closure_digest A (en_child_root e)) (ms @ ns) y"
      by (rule path_denotes_ConsE) (auto dest!: radix_denotes_unique[OF denotes_below(1)] simp: denotes_below(2,3))
  qed (use path_denotes.denotes_below[OF denotes_below(1-3)] in simp)
  then show ?case using denotes_below.IH[OF denotes_below.prems] by simp
qed simp_all

lemma path_denotes_entry:
  assumes "radix_denotes A D r es"
  shows "path_denotes A D r [n] (Some i) \<longleftrightarrow> (\<exists>e. entry_named es n = Some e \<and> i = entry_identity A e)"
proof
  assume "path_denotes A D r [n] (Some i)"
  then show "\<exists>e. entry_named es n = Some e \<and> i = entry_identity A e"
    by (rule path_denotes_ConsE) (auto dest!: radix_denotes_unique[OF assms] elim!: path_denotes_NilE simp: entry_identity_def)
next
  assume "\<exists>e. entry_named es n = Some e \<and> i = entry_identity A e"
  then obtain e where e: "entry_named es n = Some e" "i = entry_identity A e" by blast
  show "path_denotes A D r [n] (Some i)"
  proof (cases "en_kind e = Directory_Kind")
    case True
    then show ?thesis using denotes_below[OF assms e(1) True denotes_root] e(2) by (simp add: entry_identity_def)
  qed (use denotes_file[OF assms e(1)] e(2) in simp)
qed

lemma path_denotes_prefix:
  "path_denotes A D root (cs @ [n]) x \<Longrightarrow> x \<noteq> None \<Longrightarrow> \<exists>r. path_denotes A D root cs (Some (DirectoryNode r))"
proof (induction cs arbitrary: root)
  case Nil
  then show ?case using denotes_root by blast
next
  case (Cons c cs)
  from Cons.prems(1) have "path_denotes A D root (c # (cs @ [n])) x" by simp
  then show ?case
  proof (rule path_denotes_ConsE)
    fix es e
    assume e: "radix_denotes A D root es" "entry_named es c = Some e" "en_kind e = Directory_Kind"
      and below: "path_denotes A D (closure_digest A (en_child_root e)) (cs @ [n]) x"
    obtain r where "path_denotes A D (closure_digest A (en_child_root e)) cs (Some (DirectoryNode r))"
      using Cons.IH[OF below Cons.prems(2)] by blast
    then show ?case using denotes_below[OF e] by blast
  qed (use Cons.prems(2) in auto)
qed

section \<open>The view answers for the snapshot\<close>

lemma answer_of_guarantees: "guarantees A D root st m P \<Longrightarrow> answer_of m = Inr a \<Longrightarrow> \<exists>st'. P st' a"
  by (fastforce simp: guarantees_def answer_of_def split: option.splits sum.splits)

lemma view_answers:
  assumes L: "snapshot_tree A D root L" and good: "good_entries A D"
    and W: "\<And>k. env_ok A D root (V k)" "\<And>k. view_ok A D root (W k)"
  shows "lower_answers (over_view V W E) L" "lower_tree L"
proof -
  have state: "s = (case L (path_of cs) of None \<Rightarrow> AbsentProven | Some i \<Rightarrow> Present i)"
    if cs: "list_all good_name cs" and s: "answer_of (recorded_path_state (V k) 0 (W k) (path_of cs)) = Inr s" for k cs s
  proof -
    have den: "path_denotes A D root cs (state_of s)"
      using answer_of_guarantees[OF recorded_path_state_ok[OF W(1) W(2)] s] by (simp add: names_of_path_of[OF cs])
    show ?thesis
    proof (cases s)
      case (Present i)
      then have "L (path_of cs) = Some i" using den L cs by (simp add: snapshot_tree_def state_of_def)
      then show ?thesis using Present by simp
    next
      case AbsentProven
      then have "L (path_of cs) \<noteq> Some i" for i
        using den L cs path_denotes_unique by (fastforce simp: snapshot_tree_def state_of_def)
      then have "L (path_of cs) = None" by auto
      then show ?thesis using AbsentProven by simp
    qed
  qed
  have entries: "(n, i) \<in> set es \<longleftrightarrow> good_name n \<and> L (path_of (cs @ [n])) = Some i"
    if cs: "list_all good_name cs" and es: "answer_of (recorded_directory_entries (V k) 0 (W k) (path_of cs)) = Inr es" for k cs es n i
  proof -
    obtain r ps where r: "path_denotes A D root cs (Some (DirectoryNode r))" "radix_denotes A D r ps"
      and set: "\<And>n i. (n, i) \<in> set es \<longleftrightarrow> (\<exists>e. entry_named ps n = Some e \<and> i = entry_identity A e)"
      using answer_of_guarantees[OF recorded_directory_entries_ok[OF W(1) W(2)] es] by (auto simp: names_of_path_of[OF cs] listing_denotes_def)
    have "(n, i) \<in> set es \<longleftrightarrow> path_denotes A D root (cs @ [n]) (Some i)"
      unfolding set path_denotes_below[OF r(1) refl] path_denotes_entry[OF r(2)] ..
    moreover have "good_name n" if "(n, i) \<in> set es" using that good r(2) unfolding set good_entries_def by blast
    ultimately show ?thesis using L[unfolded snapshot_tree_def, rule_format, of "cs @ [n]" i] cs by auto
  qed
  show "lower_answers (over_view V W E) L"
    unfolding lower_answers_def using state entries by (simp add: over_view_def)
  show "lower_tree L"
    unfolding lower_tree_def
  proof (intro allI impI)
    fix cs n assume g: "list_all good_name (cs @ [n])" and ne: "L (path_of (cs @ [n])) \<noteq> None"
    then obtain i where "path_denotes A D root (cs @ [n]) (Some i)" using L unfolding snapshot_tree_def by blast
    from path_denotes_prefix[OF this] obtain r where "path_denotes A D root cs (Some (DirectoryNode r))" by blast
    moreover have "list_all good_name cs" using g by simp
    ultimately have "L (path_of cs) = Some (DirectoryNode r)" using L unfolding snapshot_tree_def by blast
    then show "node_directory (L (path_of cs))" by (simp add: node_directory_def)
  qed
qed

section \<open>An example\<close>

text \<open>The upper directory with the file \<^verbatim>\<open>a\<close> over the view of the snapshot with the file \<^verbatim>\<open>b\<close>.\<close>

definition demo_tree :: "string \<Rightarrow> snapshot_node_identity option" where
  "demo_tree p = (if p = [] then Some (DirectoryNode (demo_key 0x22)) else if p = ''b'' then Some (RegularNode 7 (demo_key 0x62)) else None)"

definition demo_over :: diff_env where
  "demo_over = over_view (\<lambda>_. demo_view) (\<lambda>_. lazy_state demo_reader) demo_diff"

lemma demo_root: "radix_denotes demo_auth demo_table pid es \<longleftrightarrow> pid = demo_key 0x22 \<and> es = [demo_file_entry 0x62]"
proof
  assume "radix_denotes demo_auth demo_table pid es"
  then show "pid = demo_key 0x22 \<and> es = [demo_file_entry 0x62]"
    by (cases rule: radix_denotes.cases) (auto simp: demo_table_def split: if_splits)
next
  have "radix_denotes demo_auth demo_table (demo_key 0x22) (sort_key en_name [demo_file_entry 0x62])"
    by (rule denotes_leaf) (simp add: demo_table_def)
  then show "pid = demo_key 0x22 \<and> es = [demo_file_entry 0x62] \<Longrightarrow> radix_denotes demo_auth demo_table pid es" by simp
qed

lemma demo_named: "entry_named [demo_file_entry 0x62] n = (if n = ''b'' then Some (demo_file_entry 0x62) else None)"
  by (auto simp: entry_named_def demo_entry_fields demo_names)

lemma demo_good: "good_entries demo_auth demo_table"
  by (auto simp: good_entries_def demo_root demo_named good_name_def split: if_splits)

lemma demo_tree_ok: "snapshot_tree demo_auth demo_table (demo_key 0x22) demo_tree"
  unfolding snapshot_tree_def
proof (intro allI impI)
  fix cs i assume g: "list_all good_name cs"
  have one: "path_of [n] = n" for n using path_of_snoc[of "[]" n] by (simp add: diff_join_def)
  have b: "path_of cs = ''b'' \<longleftrightarrow> cs = [''b'']"
    using path_of_inject[OF g, of "[''b'']"] by (auto simp: one good_name_def)
  have id: "entry_identity demo_auth (demo_file_entry 0x62) = RegularNode 7 (demo_key 0x62)" "en_kind (demo_file_entry 0x62) \<noteq> Directory_Kind"
    by (simp_all add: entry_identity_def demo_entry_fields demo_key_simps)
  show "demo_tree (path_of cs) = Some i \<longleftrightarrow> path_denotes demo_auth demo_table (demo_key 0x22) cs (Some i)"
  proof (cases cs)
    case Nil
    then show ?thesis using denotes_root by (auto simp: demo_tree_def elim: path_denotes_NilE)
  next
    case (Cons n ns)
    have "path_denotes demo_auth demo_table (demo_key 0x22) cs (Some i) \<longleftrightarrow> cs = [''b''] \<and> i = RegularNode 7 (demo_key 0x62)"
    proof
      assume "path_denotes demo_auth demo_table (demo_key 0x22) cs (Some i)"
      then have "path_denotes demo_auth demo_table (demo_key 0x22) (n # ns) (Some i)" using Cons by simp
      then show "cs = [''b''] \<and> i = RegularNode 7 (demo_key 0x62)"
        by (rule path_denotes_ConsE) (auto simp: demo_root demo_named Cons id split: if_splits)
    next
      assume "cs = [''b''] \<and> i = RegularNode 7 (demo_key 0x62)"
      then show "path_denotes demo_auth demo_table (demo_key 0x22) cs (Some i)"
        using denotes_file[of demo_auth demo_table "demo_key 0x22" "[demo_file_entry 0x62]" "''b''" "demo_file_entry 0x62"] by (simp add: demo_root demo_named id)
    qed
    moreover have "path_of cs \<noteq> []" using path_of_eq_Nil[OF g] Cons by simp
    ultimately show ?thesis using b by (auto simp: demo_tree_def)
  qed
qed

lemma demo_answers:
  "answer_of (recorded_path_state demo_view 0 (lazy_state demo_reader) []) = Inr (Present (DirectoryNode (demo_key 0x22)))"
  "answer_of (recorded_path_state demo_view 0 (lazy_state demo_reader) ''a'') = Inr AbsentProven"
proof -
  have view: "ve_reader demo_view = Some demo_source" "ve_others demo_view t st = st" "ve_grammar demo_view = ae_grammar demo_auth" for t st
    by (simp_all add: demo_view_def)
  have "metadata_path \<lparr>lc_grammar = ae_grammar demo_auth, lc_reader = Some (''/p'', demo_client), lc_namespace_scope = Some ''/p''\<rparr> ''a'' = Inr ''/a''"
    "metadata_path \<lparr>lc_grammar = ae_grammar demo_auth, lc_reader = Some (''/p'', demo_client), lc_namespace_scope = Some ''/p''\<rparr> [] = Inr ''/''"
    by code_simp+
  then have rel: "metadata_path (view_context demo_view (lazy_state demo_reader)) ''a'' = Inr ''/a''"
    "metadata_path (view_context demo_view (lazy_state demo_reader)) [] = Inr ''/''"
    by (simp_all add: view_context_def view demo_reader_fields lazy_state_def)
  have names: "split_on CHR ''/'' (trim_start_slashes ''/a'') = [''a'']" by code_simp
  have get: "index_get (Ready [(''b'', 2)]) ''a'' = None" by code_simp
  have nodes: "node_at demo_loaded ROOT_INODE = Some (DirN \<lparr>vd_path = [], vd_children = Ready [(''b'', 2)], vd_parent = 1, vd_loaded = True,
         vd_page_id = Some (demo_key 0x22), vd_membership = Some (scope_root demo_reader)\<rparr>)"
    "node_at (lazy_state demo_reader) ROOT_INODE = Some (root_dir False (Some (demo_key 0x22)) (Some (scope_root demo_reader)))"
    by (simp_all add: demo_loaded_def node_at_def ROOT_INODE_def lazy_state_def demo_reader_fields)
  show "answer_of (recorded_path_state demo_view 0 (lazy_state demo_reader) ''a'') = Inr AbsentProven"
    by (simp add: answer_of_def recorded_path_state_def recorded_path_inode_def view_lock_def view act_lift_def act_bind_def rel names demo_load nodes
        get ok_or_def del: index_get.simps)
  show "answer_of (recorded_path_state demo_view 0 (lazy_state demo_reader) []) = Inr (Present (DirectoryNode (demo_key 0x22)))"
    by (simp add: answer_of_def recorded_path_state_def recorded_path_inode_def view_lock_def view act_lift_def act_bind_def rel nodes
        ok_or_def node_identity_def root_dir_def)
qed

lemma demo_run: "(case scan_upper demo_scan (\<lambda>_ h. Inr h) True [RootDir] None None (demo_diff\<lparr>
    de_context := \<lparr>lc_grammar = ae_grammar demo_auth, lc_reader = Some (''/p'', demo_client), lc_namespace_scope = Some ''/p''\<rparr>,
    de_state := (\<lambda>k p. if p = [] then Inr (Present (DirectoryNode (demo_key 0x22))) else if p = ''a'' then Inr AbsentProven else f p),
    de_entries := (\<lambda>k. g)\<rparr>) of
    Some (Inr diff) \<Rightarrow> map (\<lambda>c. (uc_rel_path c, uc_kind c)) (ud_changes diff) = [(''a'', Added)] | _ \<Rightarrow> False)"
  by code_simp

lemma demo_over_run: "(case scan_upper demo_scan (\<lambda>_ h. Inr h) True [RootDir] None None demo_over of
    Some (Inr diff) \<Rightarrow> map (\<lambda>c. (uc_rel_path c, uc_kind c)) (ud_changes diff) = [(''a'', Added)] | _ \<Rightarrow> False)"
proof -
  let ?f = "\<lambda>p. answer_of (recorded_path_state demo_view 0 (lazy_state demo_reader) p)"
  have st: "(\<lambda>k :: nat. ?f) = (\<lambda>k p. if p = [] then Inr (Present (DirectoryNode (demo_key 0x22))) else if p = ''a'' then Inr AbsentProven else ?f p)"
    by (auto simp: fun_eq_iff demo_answers)
  have ctx: "view_context demo_view (lazy_state demo_reader)
    = \<lparr>lc_grammar = ae_grammar demo_auth, lc_reader = Some (''/p'', demo_client), lc_namespace_scope = Some ''/p''\<rparr>"
    by (simp add: view_context_def demo_view_def demo_reader_fields lazy_state_def)
  have over: "demo_over = demo_diff\<lparr>
    de_context := \<lparr>lc_grammar = ae_grammar demo_auth, lc_reader = Some (''/p'', demo_client), lc_namespace_scope = Some ''/p''\<rparr>,
    de_state := (\<lambda>k p. if p = [] then Inr (Present (DirectoryNode (demo_key 0x22))) else if p = ''a'' then Inr AbsentProven else ?f p),
    de_entries := (\<lambda>k p. answer_of (recorded_directory_entries demo_view 0 (lazy_state demo_reader) p))\<rparr>"
    unfolding demo_over_def over_view_def ctx by (subst st) (rule refl)
  show ?thesis unfolding over by (rule demo_run)
qed

end
