(* ===== verification/Spec2Isabelle.thy ===== *)
theory Spec2Isabelle
  imports Directory Directory_Index Index_Cache Mutation_Fence Chunk_Maps Coordinator Closure_Facts View_Diff
begin

text \<open>
  A verification library for the snapshot client of scorpiofs.
\<close>

section \<open>The diff of a mount over its snapshot\<close>



end
